(* ===== verification/Prelude.thy ===== *)
theory Prelude
  imports Main "HOL-Library.State_Monad" "HOL-Library.Monad_Syntax"
begin

text \<open>
  Shared automation of the development: the fact collections that the component theories fill,
  a small Hoare logic for the library's state monad, in which the routines that thread the
  computed table and the traversal marks are written, and lemmas on lists.
\<close>

named_theorems triple_rules \<open>rules that split a triple along the program\<close>
named_theorems bdd_simps \<open>rewriting facts on BDD nodes and their meaning\<close>
named_theorems bdd_intros \<open>introduction facts on reduced ordered BDDs\<close>

section \<open>Triples for stateful routines\<close>

text \<open>
  \<open>triple P m Q\<close>: from every state that satisfies \<open>P\<close>, the routine \<open>m\<close> ends in a value and a
  state that satisfy \<open>Q\<close>.
\<close>

definition triple :: "('s \<Rightarrow> bool) \<Rightarrow> ('s, 'a) state \<Rightarrow> ('a \<Rightarrow> 's \<Rightarrow> bool) \<Rightarrow> bool" where
  "triple P m Q \<longleftrightarrow> (\<forall>s. P s \<longrightarrow> (case run_state m s of (a, s') \<Rightarrow> Q a s'))"

lemma tripleI: "(\<And>s a s'. P s \<Longrightarrow> run_state m s = (a, s') \<Longrightarrow> Q a s') \<Longrightarrow> triple P m Q"
  by (auto simp: triple_def)

lemma tripleD: "triple P m Q \<Longrightarrow> P s \<Longrightarrow> run_state m s = (a, s') \<Longrightarrow> Q a s'"
  by (auto simp: triple_def split: prod.splits)

lemma triple_return: "(\<And>s. P s \<Longrightarrow> Q a s) \<Longrightarrow> triple P (State_Monad.return a) Q"
  by (auto simp: triple_def)

lemma triple_bind [triple_rules]:
  "triple P m R \<Longrightarrow> (\<And>a. triple (R a) (f a) Q) \<Longrightarrow> triple P (State_Monad.bind m f) Q"
  by (fastforce simp: triple_def split: prod.splits)

lemma triple_conseq:
  "triple P' m Q' \<Longrightarrow> (\<And>s. P s \<Longrightarrow> P' s) \<Longrightarrow> (\<And>a s. Q' a s \<Longrightarrow> Q a s) \<Longrightarrow> triple P m Q"
  by (fastforce simp: triple_def split: prod.splits)

lemma triple_post: "triple P m Q' \<Longrightarrow> (\<And>a s. Q' a s \<Longrightarrow> Q a s) \<Longrightarrow> triple P m Q"
  by (rule triple_conseq)

lemma triple_pure_pre: "(c \<Longrightarrow> triple P m Q) \<Longrightarrow> triple (\<lambda>s. c \<and> P s) m Q"
  by (auto simp: triple_def)

text \<open>
  Most routines keep an invariant \<open>I\<close> of the state and return a value with a property \<open>P\<close>.
\<close>

definition gives :: "('s \<Rightarrow> bool) \<Rightarrow> ('s, 'a) state \<Rightarrow> ('a \<Rightarrow> bool) \<Rightarrow> bool" where
  "gives I m P \<longleftrightarrow> triple I m (\<lambda>a s. P a \<and> I s)"

lemma gives_run: "gives I m P \<Longrightarrow> I s \<Longrightarrow> run_state m s = (a, s') \<Longrightarrow> P a \<and> I s'"
  unfolding gives_def by (rule tripleD)

lemma givesI: "(\<And>s a s'. I s \<Longrightarrow> run_state m s = (a, s') \<Longrightarrow> P a \<and> I s') \<Longrightarrow> gives I m P"
  unfolding gives_def by (rule tripleI)

lemma gives_return: "P a \<Longrightarrow> gives I (State_Monad.return a) P"
  by (simp add: gives_def triple_return)

lemma gives_bind:
  "gives I m P \<Longrightarrow> (\<And>a. P a \<Longrightarrow> gives I (k a) Q) \<Longrightarrow> gives I (State_Monad.bind m k) Q"
  unfolding gives_def by (erule triple_bind) (auto intro: triple_pure_pre)

lemma gives_post: "gives I m P \<Longrightarrow> (\<And>a. P a \<Longrightarrow> Q a) \<Longrightarrow> gives I m Q"
  unfolding gives_def by (erule triple_post) auto

lemma gives_if:
  "(c \<Longrightarrow> gives I m P) \<Longrightarrow> (\<not> c \<Longrightarrow> gives I n P) \<Longrightarrow> gives I (if c then m else n) P"
  by simp

text \<open>
  A routine whose recursion is not structural is a \<open>partial_function (option)\<close> that passes its
  state; \<open>ogives\<close> says that it returns, too. \<open>call\<close> runs a total routine inside it.
\<close>

abbreviation call :: "('s, 'a) state \<Rightarrow> 's \<Rightarrow> ('a \<times> 's) option" where
  "call m s \<equiv> Some (run_state m s)"

definition ogives :: "('s \<Rightarrow> bool) \<Rightarrow> ('s \<Rightarrow> ('a \<times> 's) option) \<Rightarrow> ('a \<Rightarrow> bool) \<Rightarrow> bool" where
  "ogives I m P \<longleftrightarrow> (\<forall>s. I s \<longrightarrow> (\<exists>a s'. m s = Some (a, s') \<and> P a \<and> I s'))"

lemma ogives_run: "ogives I m P \<Longrightarrow> I s \<Longrightarrow> \<exists>a s'. m s = Some (a, s') \<and> P a \<and> I s'"
  by (simp add: ogives_def)

lemma ogives_return: "P a \<Longrightarrow> ogives I (\<lambda>s. Some (a, s)) P"
  by (simp add: ogives_def)

lemma ogives_bind:
  "ogives I m P \<Longrightarrow> (\<And>a. P a \<Longrightarrow> ogives I (k a) Q) \<Longrightarrow>
    ogives I (\<lambda>s. Option.bind (m s) (\<lambda>(a, s). k a s)) Q"
  by (fastforce simp: ogives_def)

lemma ogives_call: "gives I m P \<Longrightarrow> ogives I (\<lambda>s. call m s) P"
  by (auto simp: ogives_def gives_def triple_def split: prod.splits) (metis surj_pair)

lemma ogives_post: "ogives I m P \<Longrightarrow> (\<And>a. P a \<Longrightarrow> Q a) \<Longrightarrow> ogives I m Q"
  by (fastforce simp: ogives_def)

lemma ogives_if:
  "(c \<Longrightarrow> ogives I m P) \<Longrightarrow> (\<not> c \<Longrightarrow> ogives I n P) \<Longrightarrow> ogives I (\<lambda>s. if c then m s else n s) P"
  by (cases c) simp_all

section \<open>Swapping a list cell with its predecessor\<close>

text \<open>
  Both hash tables move a found cell one place towards the head of its chain. The chain is
  the list of its cells; \<open>swap_prev i\<close> exchanges the cells \<open>i - 1\<close> and \<open>i\<close>.
\<close>

definition swap_prev :: "nat \<Rightarrow> 'a list \<Rightarrow> 'a list" where
  "swap_prev i xs = (if 0 < i then xs[i - 1 := xs ! i, i := xs ! (i - 1)] else xs)"

lemma length_swap_prev [simp]: "length (swap_prev i xs) = length xs"
  by (simp add: swap_prev_def)

lemma set_swap_prev [simp]: "i < length xs \<Longrightarrow> set (swap_prev i xs) = set xs"
  by (auto simp: swap_prev_def)

lemma distinct_swap_prev [simp]: "i < length xs \<Longrightarrow> distinct (swap_prev i xs) = distinct xs"
  by (auto simp: swap_prev_def)

text \<open>The walk along a chain: the position of the first cell that satisfies \<open>p\<close>.\<close>

fun find_pos :: "('a \<Rightarrow> bool) \<Rightarrow> 'a list \<Rightarrow> nat option" where
  "find_pos p [] = None"
| "find_pos p (x # xs) = (if p x then Some 0 else map_option Suc (find_pos p xs))"

lemma find_pos_None_iff: "find_pos p xs = None \<longleftrightarrow> (\<forall>x \<in> set xs. \<not> p x)"
  by (induction xs) auto

lemma find_pos_SomeD: "find_pos p xs = Some i \<Longrightarrow> i < length xs \<and> p (xs ! i)"
  by (induction xs arbitrary: i) (auto split: if_splits)

lemma find_pos_Some_first: "find_pos p xs = Some i \<Longrightarrow> j < i \<Longrightarrow> \<not> p (xs ! j)"
  by (induction xs arbitrary: i j) (auto split: if_splits simp: nth_Cons split: nat.splits)

end
