(* ===== verification/Bddnode.thy ===== *)
theory Bddnode
  imports Prelude
begin

text \<open>
  The BDD nodes of include/bddtable.h as finite trees, their meaning, and the canonicity of
  reduced ordered BDDs. The unique table (theory Bddtable) keeps one cell for each triple of
  a variable and two sons, so a pointer stands for exactly one tree and pointer equality is
  equality of trees; this is what Bddtable proves, and why the routines of the later theories
  compare trees where the code compares pointers.
\<close>

section \<open>Nodes and their fields\<close>

datatype bdd = FalseP | TrueP | Node nat bdd bdd

text \<open>
  The constants carry the variable \<open>-1\<close> and are their own sons (\<open>bdd_init\<close>); \<open>notCase\<close> is the
  cell of the complement, set up by \<open>bddtable_alloc_not_node\<close>.
\<close>

fun variable :: "bdd \<Rightarrow> int" where
  "variable (Node v t e) = int v"
| "variable _ = -1"

fun thenCase :: "bdd \<Rightarrow> bdd" where
  "thenCase (Node v t e) = t"
| "thenCase f = f"

fun elseCase :: "bdd \<Rightarrow> bdd" where
  "elseCase (Node v t e) = e"
| "elseCase f = f"

fun notCase :: "bdd \<Rightarrow> bdd" where
  "notCase FalseP = TrueP"
| "notCase TrueP = FalseP"
| "notCase (Node v t e) = Node v (notCase t) (notCase e)"

definition IS_TRUE_FALSE :: "bdd \<Rightarrow> bool" where
  "IS_TRUE_FALSE f \<longleftrightarrow> f = TrueP \<or> f = FalseP"

text \<open>
  The diagram of the node that \<open>find_or_add_node\<close> returns; its assertion \<open>v \<noteq> 0\<close> is \<open>0 < v\<close> below.
  The routine itself, over addresses, is in theory Bddtable, which proves that it returns this.
\<close>

definition find_or_add_node :: "int \<Rightarrow> bdd \<Rightarrow> bdd \<Rightarrow> bdd" where
  "find_or_add_node v r e = Node (nat v) r e"

definition ite_var :: "int \<Rightarrow> bdd" where
  "ite_var v =
     (if v < 0 then find_or_add_node (- v) FalseP TrueP
      else if v > 0 then find_or_add_node v TrueP FalseP
      else FalseP)"

text \<open>\<open>top_variable\<close>, \<open>reduce_t\<close> and \<open>reduce_f\<close>: the top variable of three nodes and the two
  cofactors of a node for a variable that is at least its own.\<close>

definition top_variable :: "bdd \<Rightarrow> bdd \<Rightarrow> bdd \<Rightarrow> int" where
  "top_variable x y z =
     (if variable x > variable y then
        (if variable x > variable z then variable x else variable z)
      else if variable y > variable z then variable y
      else variable z)"

definition reduce_t :: "int \<Rightarrow> bdd \<Rightarrow> bdd" where
  "reduce_t v x = (if variable x = v then thenCase x else x)"

definition reduce_f :: "int \<Rightarrow> bdd \<Rightarrow> bdd" where
  "reduce_f v x = (if variable x = v then elseCase x else x)"

section \<open>Meaning\<close>

type_synonym assignment = "nat \<Rightarrow> bool"

primrec ev :: "bdd \<Rightarrow> assignment \<Rightarrow> bool" where
  "ev FalseP a = False"
| "ev TrueP a = True"
| "ev (Node v t e) a = (if a v then ev t a else ev e a)"

text \<open>The value of a literal, the code's signed variable number.\<close>

definition lit :: "int \<Rightarrow> assignment \<Rightarrow> bool" where
  "lit l a = (if l < 0 then \<not> a (nat (- l)) else a (nat l))"

text \<open>Reduced and ordered, the larger variables on top.\<close>

fun robdd :: "bdd \<Rightarrow> bool" where
  "robdd (Node v t e) \<longleftrightarrow>
     0 < v \<and> variable t < int v \<and> variable e < int v \<and> t \<noteq> e \<and> robdd t \<and> robdd e"
| "robdd _ \<longleftrightarrow> True"

primrec bvars :: "bdd \<Rightarrow> nat set" where
  "bvars FalseP = {}"
| "bvars TrueP = {}"
| "bvars (Node v t e) = insert v (bvars t \<union> bvars e)"

subsection \<open>Fields\<close>

lemma variable_ge [bdd_simps, simp]: "-1 \<le> variable f"
  by (cases f) auto

lemma variable_less_0_iff [bdd_simps]: "variable f < 0 \<longleftrightarrow> IS_TRUE_FALSE f"
  by (cases f) (auto simp: IS_TRUE_FALSE_def)

lemma IS_TRUE_FALSE_simps [simp]:
  "IS_TRUE_FALSE FalseP" "IS_TRUE_FALSE TrueP" "\<not> IS_TRUE_FALSE (Node v t e)"
  by (auto simp: IS_TRUE_FALSE_def)

lemma size_sons:
  assumes "\<not> IS_TRUE_FALSE f"
  shows "size (thenCase f) < size f" and "size (elseCase f) < size f"
  using assms by (cases f; simp)+

lemma size_sons_var:
  assumes "variable g < variable f"
  shows "size (thenCase f) < size f" and "size (elseCase f) < size f"
  using assms variable_ge [of g] by (cases f; simp add: order.strict_iff_not)+

lemma size_sons_not_above:
  assumes "\<not> variable g < variable f" "variable f \<noteq> variable g"
  shows "size (thenCase g) < size g" and "size (elseCase g) < size g"
  using assms size_sons_var [of f g] by simp_all

lemmas size_lt = size_sons size_sons_var size_sons_not_above

lemma size_sons_le [simp]: "size (thenCase f) \<le> size f" "size (elseCase f) \<le> size f"
  by (cases f; simp)+

lemma notCase_notCase [bdd_simps, simp]: "notCase (notCase f) = f"
  by (induction f) auto

lemma notCase_inject [simp]: "notCase f = notCase g \<longleftrightarrow> f = g"
  by (metis notCase_notCase)

lemma notCase_leaf [simp]:
  "notCase f = TrueP \<longleftrightarrow> f = FalseP" "notCase f = FalseP \<longleftrightarrow> f = TrueP"
  by (cases f; simp)+

lemma variable_notCase [bdd_simps, simp]: "variable (notCase f) = variable f"
  by (cases f) auto

lemma notCase_sons [simp]:
  "\<not> IS_TRUE_FALSE f \<Longrightarrow> thenCase (notCase f) = notCase (thenCase f)"
  "\<not> IS_TRUE_FALSE f \<Longrightarrow> elseCase (notCase f) = notCase (elseCase f)"
  by (cases f; simp)+

lemma notCase_neq [simp]: "notCase f \<noteq> f" "f \<noteq> notCase f"
  by (induction f) auto

lemma ev_notCase [bdd_simps, simp]: "ev (notCase f) a = (\<not> ev f a)"
  by (induction f) auto

lemma robdd_notCase [bdd_intros, simp]: "robdd (notCase f) = robdd f"
  by (induction f) auto

lemma robdd_sons [bdd_intros]: "robdd f \<Longrightarrow> robdd (thenCase f)" "robdd f \<Longrightarrow> robdd (elseCase f)"
  by (cases f; simp)+

lemma variable_sons:
  assumes "robdd f" "\<not> IS_TRUE_FALSE f"
  shows "variable (thenCase f) < variable f" and "variable (elseCase f) < variable f"
  using assms by (cases f; simp)+

lemma variable_sons_le:
  assumes "robdd f"
  shows "variable (thenCase f) \<le> variable f" and "variable (elseCase f) \<le> variable f"
  using assms by (cases f; simp)+

lemma ev_node: "\<not> IS_TRUE_FALSE f \<Longrightarrow>
    ev f a = (if a (nat (variable f)) then ev (thenCase f) a else ev (elseCase f) a)"
  by (cases f) auto

lemma ev_sons_eq: "variable f = int v \<Longrightarrow>
    ev f a = (if a v then ev (thenCase f) a else ev (elseCase f) a)"
  by (cases f) auto

lemma lit_simps [simp]:
  "0 < n \<Longrightarrow> lit (int n) a = a n" "0 < n \<Longrightarrow> lit (- int n) a = (\<not> a n)"
  by (auto simp: lit_def)

lemma lit_uminus: "l \<noteq> 0 \<Longrightarrow> lit (- l) a = (\<not> lit l a)"
  by (auto simp: lit_def)

lemma robdd_ite_var [bdd_intros, simp]: "robdd (ite_var v)"
  by (auto simp: ite_var_def find_or_add_node_def)

lemma ev_ite_var [bdd_simps]: "v \<noteq> 0 \<Longrightarrow> ev (ite_var v) a = lit v a"
  by (auto simp: ite_var_def find_or_add_node_def lit_def)

lemma variable_ite_var [bdd_simps, simp]: "v \<noteq> 0 \<Longrightarrow> variable (ite_var v) = \<bar>v\<bar>"
  by (auto simp: ite_var_def find_or_add_node_def)

lemma ite_var_pos: "0 < v \<Longrightarrow> ite_var v = Node (nat v) TrueP FalseP"
  by (simp add: ite_var_def find_or_add_node_def)

subsection \<open>Dependence on variables\<close>

lemma finite_bvars [simp]: "finite (bvars f)"
  by (induction f) auto

lemma bvars_notCase [simp]: "bvars (notCase f) = bvars f"
  by (induction f) auto

lemma bvars_le_variable: "robdd f \<Longrightarrow> v \<in> bvars f \<Longrightarrow> 0 < v \<and> int v \<le> variable f"
  by (induction f) fastforce+

lemma ev_agree: "(\<And>v. v \<in> bvars f \<Longrightarrow> a v = b v) \<Longrightarrow> ev f a = ev f b"
  by (induction f) auto

lemma ev_upd_notin [simp]: "v \<notin> bvars f \<Longrightarrow> ev f (a(v := b)) = ev f a"
  by (rule ev_agree) auto

lemma ev_upd_above: "robdd f \<Longrightarrow> variable f < int v \<Longrightarrow> ev f (a(v := b)) = ev f a"
  by (rule ev_upd_notin) (auto dest: bvars_le_variable)

lemma ev_cofactors:
  assumes "robdd f" "variable f = int v"
  shows "ev f (a(v := True)) = ev (thenCase f) a" "ev f (a(v := False)) = ev (elseCase f) a"
  using assms by (cases f; simp add: ev_upd_above)+

lemma reduce_facts:
  assumes "robdd x" "variable x \<le> v" "0 < v"
  shows "robdd (reduce_t v x)" "robdd (reduce_f v x)"
    "variable (reduce_t v x) < v" "variable (reduce_f v x) < v"
    "size (reduce_t v x) \<le> size x" "size (reduce_f v x) \<le> size x"
    "variable x = v \<Longrightarrow> size (reduce_t v x) < size x"
    "variable x = v \<Longrightarrow> size (reduce_f v x) < size x"
    "\<And>a. ev x a = (if a (nat v) then ev (reduce_t v x) a else ev (reduce_f v x) a)"
  using assms by (cases x; auto simp: reduce_t_def reduce_f_def)+

lemma reduce_notCase [simp]:
  "0 < v \<Longrightarrow> reduce_t v (notCase x) = notCase (reduce_t v x)"
  "0 < v \<Longrightarrow> reduce_f v (notCase x) = notCase (reduce_f v x)"
  by (cases x; simp add: reduce_t_def reduce_f_def)+

section \<open>Canonicity\<close>

lemma robdd_same_var:
  assumes f: "robdd f" and g: "robdd g" and vv: "variable f = variable g"
    and ee: "\<And>a. ev f a = ev g a"
  shows "ev (thenCase f) a = ev (thenCase g) a" and "ev (elseCase f) a = ev (elseCase g) a"
proof -
  show "ev (thenCase f) a = ev (thenCase g) a"
  proof (cases f)
    case (Node v t e)
    then show ?thesis
      using ev_cofactors(1) [OF f, of v a] ev_cofactors(1) [OF g, of v a] vv
        ee [of "a(v := True)"] by simp
  qed (use vv ee in \<open>cases g; auto\<close>)+
  show "ev (elseCase f) a = ev (elseCase g) a"
  proof (cases f)
    case (Node v t e)
    then show ?thesis
      using ev_cofactors(2) [OF f, of v a] ev_cofactors(2) [OF g, of v a] vv
        ee [of "a(v := False)"] by simp
  qed (use vv ee in \<open>cases g; auto\<close>)+
qed

lemma robdd_higher_var:
  assumes f: "robdd f" and g: "robdd g" and vv: "variable g < variable f"
    and ee: "\<And>a. ev f a = ev g a"
  shows "ev (thenCase f) a = ev (elseCase f) a"
proof (cases f)
  case (Node v t e)
  then show ?thesis
    using ev_cofactors [OF f, of v a] ev_upd_above [OF g, of v a] vv
      ee [of "a(v := True)"] ee [of "a(v := False)"] by simp
qed (use vv in \<open>simp_all add: order.strict_iff_not\<close>)

lemma robdd_canonical:
  assumes "robdd f" "robdd g" "\<And>a. ev f a = ev g a"
  shows "f = g"
  using assms
proof (induction "size f + size g" arbitrary: f g rule: less_induct)
  case less
  consider (eq) "variable f = variable g" | (gt) "variable g < variable f"
    | (lt) "variable f < variable g" by linarith
  then show ?case
  proof cases
    case eq
    show ?thesis
    proof (cases f)
      case (Node v t e)
      then obtain t' e' where g: "g = Node v t' e'" using eq by (cases g) auto
      have "t = t'" "e = e'"
        using less.hyps [of t t'] less.hyps [of e e'] less.prems Node g
          robdd_same_var [OF less.prems(1,2) eq less.prems(3)] by simp_all
      then show ?thesis using Node g by simp
    qed (use eq less.prems(3) in \<open>cases g; auto\<close>)+
  next
    case gt
    then obtain v t e where f: "f = Node v t e" by (cases f) (auto simp: order.strict_iff_not)
    have "t = e"
      using less.hyps [of t e] less.prems(1) f
        robdd_higher_var [OF less.prems(1,2) gt less.prems(3)] by simp
    then show ?thesis using less.prems(1) f by simp
  next
    case lt
    then obtain v t e where g: "g = Node v t e" by (cases g) (auto simp: order.strict_iff_not)
    have "t = e"
      using less.hyps [of t e] less.prems(2) g
        robdd_higher_var [OF less.prems(2,1) lt] less.prems(3) by simp
    then show ?thesis using less.prems(2) g by simp
  qed
qed

lemma robdd_eq_iff: "robdd f \<Longrightarrow> robdd g \<Longrightarrow> f = g \<longleftrightarrow> (\<forall>a. ev f a = ev g a)"
  using robdd_canonical by blast

lemma robdd_FalseP_iff: "robdd f \<Longrightarrow> f = FalseP \<longleftrightarrow> (\<forall>a. \<not> ev f a)"
  using robdd_eq_iff [of f FalseP] by simp

lemma robdd_TrueP_iff: "robdd f \<Longrightarrow> f = TrueP \<longleftrightarrow> (\<forall>a. ev f a)"
  using robdd_eq_iff [of f TrueP] by simp

lemma robdd_notCase_iff: "robdd f \<Longrightarrow> robdd g \<Longrightarrow> f = notCase g \<longleftrightarrow> (\<forall>a. ev f a = (\<not> ev g a))"
  using robdd_eq_iff [of f "notCase g"] by simp

text \<open>The variables in a reduced ordered BDD are the ones its function depends on.\<close>

lemma robdd_depends:
  assumes "robdd f" "v \<in> bvars f"
  shows "\<exists>a. ev f (a(v := True)) \<noteq> ev f (a(v := False))"
  using assms
proof (induction f)
  case (Node w t e)
  have re: "robdd t" "robdd e" "variable t < int w" "variable e < int w" "t \<noteq> e"
    using Node.prems(1) by simp_all
  show ?case
  proof (cases "v = w")
    case True
    obtain a where a: "ev t a \<noteq> ev e a" using re robdd_eq_iff by blast
    have "ev (Node w t e) (a(v := True)) = ev t a" "ev (Node w t e) (a(v := False)) = ev e a"
      using ev_cofactors [OF Node.prems(1), of v a] True by simp_all
    then show ?thesis using a by blast
  next
    case False
    define g where "g = (if v \<in> bvars t then t else e)"
    define b where "b = (v \<in> bvars t)"
    have "v \<in> bvars g" using Node.prems(2) False by (auto simp: g_def)
    then obtain a where a: "ev g (a(v := True)) \<noteq> ev g (a(v := False))"
      using Node.IH(1) [OF re(1)] Node.IH(2) [OF re(2)] unfolding g_def by (cases "v \<in> bvars t") (simp_all only: if_True if_False, blast+)
    have n: "ev (Node w t e) ((a(w := b))(v := c)) = ev g (a(v := c))" for c
    proof -
      have "ev g ((a(w := b))(v := c)) = ev g ((a(v := c))(w := b))"
        using False by (simp add: fun_upd_twist)
      also have "\<dots> = ev g (a(v := c))"
        using ev_upd_above [of g w "a(v := c)" b] re by (auto simp: g_def)
      finally show ?thesis using False by (cases "v \<in> bvars t") (simp_all add: g_def b_def)
    qed
    show ?thesis using a unfolding n [symmetric] by blast
  qed
qed auto

lemma bvars_iff: "robdd f \<Longrightarrow> v \<in> bvars f \<longleftrightarrow> (\<exists>a b. ev f (a(v := b)) \<noteq> ev f a)"
  using robdd_depends [of f v] ev_upd_notin [of v f] by metis

section \<open>XDDs\<close>

text \<open>
  The same nodes read as exclusive-or decision diagrams: a node stands for the exclusive or of
  its else son with the conjunction of its variable and its then son, and no then son is the
  false constant.
\<close>

primrec xev :: "bdd \<Rightarrow> assignment \<Rightarrow> bool" where
  "xev FalseP a = False"
| "xev TrueP a = True"
| "xev (Node v t e) a = ((a v \<and> xev t a) \<noteq> xev e a)"

fun xdd :: "bdd \<Rightarrow> bool" where
  "xdd (Node v t e) \<longleftrightarrow>
     0 < v \<and> variable t < int v \<and> variable e < int v \<and> t \<noteq> FalseP \<and> xdd t \<and> xdd e"
| "xdd _ \<longleftrightarrow> True"

section \<open>The node for a boolean function\<close>

text \<open>
  \<open>is_node B \<phi> p\<close>: \<open>p\<close> is the reduced ordered BDD of \<open>\<phi>\<close> and its variable is at most \<open>B\<close>; by
  canonicity there is one such node.
\<close>

definition is_node :: "int \<Rightarrow> (assignment \<Rightarrow> bool) \<Rightarrow> bdd \<Rightarrow> bool" where
  "is_node B \<phi> p \<longleftrightarrow> robdd p \<and> variable p \<le> B \<and> (\<forall>a. ev p a = \<phi> a)"

definition is_xnode :: "int \<Rightarrow> (assignment \<Rightarrow> bool) \<Rightarrow> bdd \<Rightarrow> bool" where
  "is_xnode B \<phi> p \<longleftrightarrow> xdd p \<and> variable p \<le> B \<and> (\<forall>a. xev p a = \<phi> a)"

lemma is_node_unique: "is_node B \<phi> p \<Longrightarrow> is_node B' \<phi> q \<Longrightarrow> p = q"
  by (auto simp: is_node_def intro: robdd_canonical)

lemma is_node_weaken:
  "is_node B \<phi> p \<Longrightarrow> B \<le> B' \<Longrightarrow> (\<And>a. \<phi> a = \<psi> a) \<Longrightarrow> is_node B' \<psi> p"
  by (auto simp: is_node_def)

lemma is_node_self: "robdd p \<Longrightarrow> is_node (variable p) (ev p) p"
  by (simp add: is_node_def)

lemma is_node_Node:
  assumes "is_node B1 \<phi>1 r" "is_node B2 \<phi>2 e" "B1 < v" "B2 < v" "0 < v" "v \<le> B"
    and "\<And>a. \<phi> a = (if a (nat v) then \<phi>1 a else \<phi>2 a)"
  shows "r \<noteq> e \<Longrightarrow> is_node B \<phi> (find_or_add_node v r e)" and "r = e \<Longrightarrow> is_node B \<phi> r"
  using assms by (auto simp: is_node_def find_or_add_node_def)

lemma is_node_sons:
  assumes "is_node B1 \<phi>1 (thenCase x)" "is_node B2 \<phi>2 (elseCase x)" "robdd x"
    and "variable x = v" "0 < v" "v \<le> B"
    and "\<And>a. \<phi> a = (if a (nat v) then \<phi>1 a else \<phi>2 a)"
  shows "is_node B \<phi> x"
  using assms by (cases x) (auto simp: is_node_def)

end
