(* ===== verification/Infer.thy ===== *)
theory Infer
  imports Bddnode
begin

text \<open>
  The inference lists of utils/infer.cc: \<open>GetInferFoAN\<close> computes, for a new node, the literals
  and the equivalences of literals that the node implies, from the lists of its two sons. The
  lists are proved sound, and complete for literals.
\<close>

section \<open>The lists\<close>

text \<open>
  An inference \<open>(n0, n1)\<close> is \<open>nums[0], nums[1]\<close>: the literal \<open>n0\<close> when \<open>n1\<close> is 0, else the
  equivalence of \<open>n0\<close> and \<open>n1\<close>. The cells are never changed once linked, so a shared tail is the
  same list.
\<close>

type_synonym infer = "int \<times> int"

definition infer_holds :: "infer \<Rightarrow> assignment \<Rightarrow> bool" where
  "infer_holds p a \<longleftrightarrow>
     (if snd p = 0 then lit (fst p) a else lit (fst p) a = lit (snd p) a)"

text \<open>The comparison \<open>abs(x) < abs(y)\<close> that drives the three merges.\<close>

definition abs_lt :: "int \<Rightarrow> int \<Rightarrow> bool" where
  "abs_lt x y \<longleftrightarrow> \<bar>x\<bar> < \<bar>y\<bar>"

lemma not_abs_lt: "\<not> abs_lt x y \<Longrightarrow> \<not> abs_lt y x \<Longrightarrow> \<bar>x\<bar> = \<bar>y\<bar>"
  by (simp add: abs_lt_def)

text \<open>Pass 1: complementary literals of the sons are equivalences with the node's variable.\<close>

fun infer_pass1 :: "int \<Rightarrow> infer list \<Rightarrow> infer list \<Rightarrow> infer list" where
  "infer_pass1 v ((r0, r1) # rs) ((e0, e1) # es) =
     (if r0 = - e0 \<and> r1 = 0 \<and> e1 = 0 then (v, r0) # infer_pass1 v rs es
      else if abs_lt r0 e0 then infer_pass1 v ((r0, r1) # rs) es
      else if abs_lt e0 r0 then infer_pass1 v rs ((e0, e1) # es)
      else if abs_lt r1 e1 then infer_pass1 v ((r0, r1) # rs) es
      else infer_pass1 v rs ((e0, e1) # es))"
| "infer_pass1 v _ _ = []"

text \<open>Pass 2: inferences that both sons have.\<close>

fun infer_pass2 :: "bool \<Rightarrow> infer list \<Rightarrow> infer list \<Rightarrow> infer list" where
  "infer_pass2 d ((r0, r1) # rs) ((e0, e1) # es) =
     (if abs_lt r0 e0 then infer_pass2 d ((r0, r1) # rs) es
      else if abs_lt e0 r0 then infer_pass2 d rs ((e0, e1) # es)
      else if r0 = e0 \<and> r1 = 0 \<and> e1 = 0 then (r0, 0) # infer_pass2 d rs es
      else if abs_lt r1 e1 then infer_pass2 d ((r0, r1) # rs) es
      else if abs_lt e1 r1 then infer_pass2 d rs ((e0, e1) # es)
      else if d \<and> r1 = e1 \<and> r1 \<noteq> 0 \<and> e1 \<noteq> 0 then (r0, r1) # infer_pass2 d rs es
      else infer_pass2 d rs ((e0, e1) # es))"
| "infer_pass2 d _ _ = []"

text \<open>
  Pass 3: an equivalence of one son that follows from two literals of the other. \<open>infer_scan\<close> is
  the inner loop, which looks for the second literal.
\<close>

fun infer_scan :: "int \<Rightarrow> int \<Rightarrow> infer list \<Rightarrow> bool" where
  "infer_scan pos n1 [] = False"
| "infer_scan pos n1 ((x0, x1) # xs) =
     (if abs_lt x0 n1 then False
      else if pos * x0 = \<bar>n1\<bar> \<and> x1 = 0 then True
      else infer_scan pos n1 xs)"

definition infer_pos :: "int \<Rightarrow> int \<Rightarrow> int" where
  "infer_pos n1 m0 =
     (if (n1 > 0 \<and> m0 < 0) \<or> (n1 < 0 \<and> m0 > 0) then -1 else 1)"

fun infer_pass3 :: "infer list \<Rightarrow> infer list \<Rightarrow> infer list" where
  "infer_pass3 ((r0, r1) # rs) ((e0, e1) # es) =
     (if abs_lt r0 e0 then infer_pass3 ((r0, r1) # rs) es
      else if abs_lt e0 r0 then infer_pass3 rs ((e0, e1) # es)
      else if r1 \<noteq> 0 \<and> e1 = 0 then
        (if infer_scan (infer_pos r1 e0) r1 es then (r0, r1) # infer_pass3 ((r0, r1) # rs) es
         else infer_pass3 ((r0, r1) # rs) es)
      else if e1 \<noteq> 0 \<and> r1 = 0 then
        (if infer_scan (infer_pos e1 r0) e1 rs then (e0, e1) # infer_pass3 rs ((e0, e1) # es)
         else infer_pass3 rs ((e0, e1) # es))
      else if abs_lt r1 e1 then infer_pass3 ((r0, r1) # rs) es
      else if abs_lt e1 r1 then infer_pass3 rs ((e0, e1) # es)
      else infer_pass3 rs es)"
| "infer_pass3 _ _ = []"

text \<open>
  \<open>GetInferFoAN d v tf ef r e\<close> is the list stored at a node with variable \<open>v\<close>; \<open>tf\<close> and \<open>ef\<close> say
  whether the then and the else son are the false constant, \<open>r\<close> and \<open>e\<close> are their lists and \<open>d\<close> is
  the global \<open>DO_EQUIVALENCES\<close>.
\<close>

definition GetInferFoAN ::
  "bool \<Rightarrow> int \<Rightarrow> bool \<Rightarrow> bool \<Rightarrow> infer list \<Rightarrow> infer list \<Rightarrow> infer list" where
  "GetInferFoAN d v tf ef r e =
     (if ef then (v, 0) # r
      else if tf then (- v, 0) # e
      else if r = [] \<or> e = [] then []
      else (if d then infer_pass1 v r e else []) @ infer_pass2 d r e @
        (if d then infer_pass3 r e else []))"

primrec inferences :: "bool \<Rightarrow> bdd \<Rightarrow> infer list" where
  "inferences d FalseP = []"
| "inferences d TrueP = []"
| "inferences d (Node v t e) =
     GetInferFoAN d (int v) (t = FalseP) (e = FalseP) (inferences d t) (inferences d e)"

section \<open>Well-formed lists\<close>

text \<open>
  No number is 0 but for the mark of a literal, and an equivalence has a positive first number;
  the latter is what the code asserts in pass 3.
\<close>

definition infer_wf :: "infer \<Rightarrow> bool" where
  "infer_wf p \<longleftrightarrow> fst p \<noteq> 0 \<and> (snd p \<noteq> 0 \<longrightarrow> 0 < fst p)"

lemma infer_pass1_set: "p \<in> set (infer_pass1 v r e) \<Longrightarrow>
    \<exists>x. p = (v, x) \<and> (x, 0) \<in> set r \<and> (- x, 0) \<in> set e"
  by (induction v r e rule: infer_pass1.induct) (auto split: if_splits)

lemma infer_pass2_left: "p \<in> set (infer_pass2 d r e) \<Longrightarrow> p \<in> set r"
  by (induction d r e rule: infer_pass2.induct) (auto split: if_splits)

text \<open>
  The test for a common equivalence compares only the second numbers; the first ones agree
  because they are positive.
\<close>

lemma ball_subset:
  assumes "\<forall>q \<in> set (x # xs) \<union> set (y # ys). P q"
  shows "\<forall>q \<in> set (x # xs) \<union> set ys. P q" "\<forall>q \<in> set xs \<union> set (y # ys). P q"
    "\<forall>q \<in> set xs \<union> set ys. P q"
  using assms by auto

lemma infer_pass2_right:
  "p \<in> set (infer_pass2 d r e) \<Longrightarrow> \<forall>q \<in> set r \<union> set e. infer_wf q \<Longrightarrow> p \<in> set e"
proof (induction d r e rule: infer_pass2.induct)
  case (1 d r0 r1 rs e0 e1 es)
  have "r0 = e0" if "\<not> abs_lt r0 e0" "\<not> abs_lt e0 r0" "r1 \<noteq> 0" "e1 \<noteq> 0"
    using not_abs_lt [OF that(1,2)] that(3,4) "1.prems"(2) by (auto simp: infer_wf_def)
  moreover have "p \<in> set es \<or> p = (e0, e1) \<or> p = (r0, r1) \<and> \<not> abs_lt r0 e0 \<and> \<not> abs_lt e0 r0 \<and>
      r1 \<noteq> 0 \<and> e1 \<noteq> 0 \<and> r1 = e1"
    using "1.IH" "1.prems"(1) ball_subset [OF "1.prems"(2)]
    by (simp split: if_split_asm) blast+
  ultimately show ?case by auto
qed auto

lemma infer_scan_set: "infer_scan pos n1 xs \<Longrightarrow> \<exists>x. pos * x = \<bar>n1\<bar> \<and> (x, 0) \<in> set xs"
  by (induction pos n1 xs rule: infer_scan.induct) (auto split: if_splits)

text \<open>Where pass 3 adds an equivalence, one son has it and the other has literals that imply it.\<close>

definition pass3_reason :: "infer \<Rightarrow> infer list \<Rightarrow> infer list \<Rightarrow> bool" where
  "pass3_reason p r e \<longleftrightarrow> p \<in> set r \<and>
     (\<exists>x y. \<bar>x\<bar> = \<bar>fst p\<bar> \<and> infer_pos (snd p) x * y = \<bar>snd p\<bar> \<and>
       (x, 0) \<in> set e \<and> (y, 0) \<in> set e)"

lemma pass3_reason_mono:
  "pass3_reason p r e \<Longrightarrow> set r \<subseteq> set r' \<Longrightarrow> set e \<subseteq> set e' \<Longrightarrow> pass3_reason p r' e'"
  unfolding pass3_reason_def by blast

lemma pass3_reason_scan:
  assumes "infer_scan (infer_pos n1 m0) n1 es" "\<bar>m0\<bar> = \<bar>n0\<bar>"
  shows "pass3_reason (n0, n1) ((n0, n1) # rs) ((m0, 0) # es)"
  using infer_scan_set [OF assms(1)] assms(2) by (auto simp: pass3_reason_def)

lemma infer_pass3_set: "p \<in> set (infer_pass3 r e) \<Longrightarrow>
    snd p \<noteq> 0 \<and> (pass3_reason p r e \<or> pass3_reason p e r)"
proof (induction r e rule: infer_pass3.induct)
  case (1 r0 r1 rs e0 e1 es)
  let ?r = "(r0, r1) # rs" and ?e = "(e0, e1) # es"
  have sub: "set es \<subseteq> set ?e" "set rs \<subseteq> set ?r" "set ?e \<subseteq> set ?e" "set ?r \<subseteq> set ?r" by auto
  consider (es) "p \<in> set (infer_pass3 ?r es)" "snd p \<noteq> 0 \<and> (pass3_reason p ?r es \<or> pass3_reason p es ?r)"
    | (rs) "p \<in> set (infer_pass3 rs ?e)" "snd p \<noteq> 0 \<and> (pass3_reason p rs ?e \<or> pass3_reason p ?e rs)"
    | (both) "p \<in> set (infer_pass3 rs es)" "snd p \<noteq> 0 \<and> (pass3_reason p rs es \<or> pass3_reason p es rs)"
    | (r) "p = (r0, r1)" "infer_scan (infer_pos r1 e0) r1 es" "\<bar>r0\<bar> = \<bar>e0\<bar>" "r1 \<noteq> 0" "e1 = 0"
    | (e) "p = (e0, e1)" "infer_scan (infer_pos e1 r0) e1 rs" "\<bar>r0\<bar> = \<bar>e0\<bar>" "e1 \<noteq> 0" "r1 = 0"
    using 1 not_abs_lt [of r0 e0] by (simp split: if_splits) blast+
  then show ?case
  proof cases
    case r
    then show ?thesis using pass3_reason_scan [of r1 e0 es r0 rs] by simp
  next
    case e
    then show ?thesis using pass3_reason_scan [of e1 r0 rs e0 es] by simp
  qed (use pass3_reason_mono sub in blast)+
qed auto

lemma GetInferFoAN_wf:
  assumes "v > 0" "\<forall>p \<in> set r. infer_wf p" "\<forall>p \<in> set e. infer_wf p"
    and "p \<in> set (GetInferFoAN d v tf ef r e)"
  shows "infer_wf p"
proof -
  have "infer_wf p" if "p \<in> set (infer_pass3 r e)"
    using infer_pass3_set [OF that] assms(2,3) by (auto simp: pass3_reason_def)
  moreover have "infer_wf p" if "p \<in> set (infer_pass1 v r e)"
    using infer_pass1_set [OF that] assms(1,2) by (auto simp: infer_wf_def)
  moreover have "infer_wf p" if "p \<in> set (infer_pass2 d r e)"
    using infer_pass2_left [OF that] assms(2) by auto
  ultimately show ?thesis
    using assms by (auto simp: GetInferFoAN_def infer_wf_def split: if_splits)
qed

lemma inferences_wf: "robdd f \<Longrightarrow> p \<in> set (inferences d f) \<Longrightarrow> infer_wf p"
proof (induction f arbitrary: p)
  case (Node v t e)
  then show ?case
    using GetInferFoAN_wf [of "int v" "inferences d t" "inferences d e" p d "t = FalseP" "e = FalseP"]
    by auto
qed auto

text \<open>An inference list mentions only variables of its node.\<close>

lemma GetInferFoAN_vars:
  assumes v: "nat \<bar>v\<bar> \<in> S" and r: "\<forall>q \<in> set r. nat \<bar>fst q\<bar> \<in> S \<and> (snd q \<noteq> 0 \<longrightarrow> nat \<bar>snd q\<bar> \<in> S)"
    and e: "\<forall>q \<in> set e. nat \<bar>fst q\<bar> \<in> S \<and> (snd q \<noteq> 0 \<longrightarrow> nat \<bar>snd q\<bar> \<in> S)"
    and p: "p \<in> set (GetInferFoAN d v tf ef r e)"
  shows "nat \<bar>fst p\<bar> \<in> S \<and> (snd p \<noteq> 0 \<longrightarrow> nat \<bar>snd p\<bar> \<in> S)"
proof -
  have "nat \<bar>fst p\<bar> \<in> S \<and> (snd p \<noteq> 0 \<longrightarrow> nat \<bar>snd p\<bar> \<in> S)" if "p \<in> set (infer_pass1 v r e)"
    using infer_pass1_set [OF that] v r by fastforce
  moreover have "nat \<bar>fst p\<bar> \<in> S \<and> (snd p \<noteq> 0 \<longrightarrow> nat \<bar>snd p\<bar> \<in> S)" if "p \<in> set (infer_pass2 d r e)"
    using infer_pass2_left [OF that] r by blast
  moreover have "nat \<bar>fst p\<bar> \<in> S \<and> (snd p \<noteq> 0 \<longrightarrow> nat \<bar>snd p\<bar> \<in> S)" if "p \<in> set (infer_pass3 r e)"
    using infer_pass3_set [OF that] r e by (auto simp: pass3_reason_def)
  ultimately show ?thesis
    using p v r e by (auto simp: GetInferFoAN_def split: if_splits)
qed

lemma inferences_vars:
  "p \<in> set (inferences d f) \<Longrightarrow> nat \<bar>fst p\<bar> \<in> bvars f \<and> (snd p \<noteq> 0 \<longrightarrow> nat \<bar>snd p\<bar> \<in> bvars f)"
proof (induction f arbitrary: p)
  case (Node v t e)
  show ?case
    by (rule GetInferFoAN_vars [OF _ _ _ Node.prems [unfolded inferences.simps]])
      (use Node.IH in \<open>auto simp del: inferences.simps\<close>)
qed simp_all

section \<open>Soundness\<close>

lemma lit_abs_cases: "\<bar>x\<bar> = \<bar>y\<bar> \<Longrightarrow> y \<noteq> 0 \<Longrightarrow> lit x a = (if x = y then lit y a else \<not> lit y a)"
  by (auto simp: lit_def abs_if split: if_splits)

lemma infer_pos_sound:
  assumes "0 < n0" "n1 \<noteq> 0" "\<bar>x\<bar> = n0" "infer_pos n1 x * y = \<bar>n1\<bar>" "lit x a" "lit y a"
  shows "lit n0 a = lit n1 a"
proof -
  have x: "x = n0 \<or> x = - n0" using assms(3) by arith
  have y: "y = n1 \<or> y = - n1" using assms(4) by (auto simp: infer_pos_def split: if_splits)
  have "x = n0 \<longleftrightarrow> y = n1"
    using assms(1,2,4) x by (auto simp: infer_pos_def split: if_splits)
  then show ?thesis using x y assms by (auto simp: lit_uminus)
qed

lemma GetInferFoAN_sound:
  assumes v: "0 < v" and wf: "\<forall>p \<in> set r. infer_wf p" "\<forall>p \<in> set e. infer_wf p"
    and tf: "tf \<Longrightarrow> \<not> T" and ef: "ef \<Longrightarrow> \<not> E"
    and r: "\<forall>p \<in> set r. T \<longrightarrow> infer_holds p a" and e: "\<forall>p \<in> set e. E \<longrightarrow> infer_holds p a"
    and f: "if a (nat v) then T else E"
    and p: "p \<in> set (GetInferFoAN d v tf ef r e)"
  shows "infer_holds p a"
proof -
  have lv: "lit v a = a (nat v)" using v by (simp add: lit_def)
  have p1: "infer_holds p a" if in1: "p \<in> set (infer_pass1 v r e)"
  proof -
    obtain x where x: "p = (v, x)" "(x, 0) \<in> set r" "(- x, 0) \<in> set e"
      using infer_pass1_set [OF in1] by blast
    moreover have "x \<noteq> 0" using wf(1) x(2) by (auto simp: infer_wf_def)
    ultimately show ?thesis
      using r e f lv by (fastforce simp: infer_holds_def lit_uminus split: if_splits)
  qed
  have p2: "infer_holds p a" if "p \<in> set (infer_pass2 d r e)"
    using infer_pass2_left [OF that] infer_pass2_right [OF that] wf r e f by (auto split: if_splits)
  have p3: "infer_holds p a" if in3: "p \<in> set (infer_pass3 r e)"
  proof -
    have nz: "snd p \<noteq> 0" and cs: "pass3_reason p r e \<or> pass3_reason p e r"
      using infer_pass3_set [OF in3] by auto
    have pos: "0 < fst p" using cs wf nz by (auto simp: pass3_reason_def infer_wf_def)
    have lits: "infer_holds p a"
      if "pass3_reason p r' e'" "\<And>x. (x, 0) \<in> set e' \<Longrightarrow> lit x a" for r' e'
      using that infer_pos_sound [OF pos nz] pos nz
      by (fastforce simp: pass3_reason_def infer_holds_def)
    have half: "infer_holds p a"
      if all: "\<forall>q \<in> set s. infer_holds q a" and c: "pass3_reason p s s' \<or> pass3_reason p s' s" for s s'
    proof (cases "pass3_reason p s s'")
      case True
      then show ?thesis using all by (simp add: pass3_reason_def)
    next
      case False
      have "lit x a" if "(x, 0) \<in> set s" for x
        using all that by (auto simp: infer_holds_def dest: bspec)
      then show ?thesis using lits False c by blast
    qed
    show ?thesis
      using half [of r e] half [of e r] r e f cs by (auto split: if_splits)
  qed
  have "infer_holds (v, 0) a" if "ef" using f ef that lv by (auto simp: infer_holds_def split: if_splits)
  moreover have "infer_holds (- v, 0) a" if "tf"
    using f tf that lv v by (auto simp: infer_holds_def lit_uminus split: if_splits)
  moreover have "p \<in> set r \<Longrightarrow> ef \<Longrightarrow> infer_holds p a" "p \<in> set e \<Longrightarrow> tf \<Longrightarrow> infer_holds p a"
    using f r e ef tf by (auto split: if_splits)
  ultimately show ?thesis
    using p p1 p2 p3 by (auto simp: GetInferFoAN_def split: if_splits)
qed

lemma inferences_sound:
  "robdd f \<Longrightarrow> ev f a \<Longrightarrow> p \<in> set (inferences d f) \<Longrightarrow> infer_holds p a"
proof (induction f arbitrary: p)
  case (Node v t e)
  show ?case
    by (rule GetInferFoAN_sound [where v = "int v" and T = "ev t a" and E = "ev e a"])
      (use Node in \<open>auto intro: inferences_wf\<close>)
qed auto

section \<open>Completeness for literals\<close>

text \<open>
  The merges rely on an order of the lists: no later literal has a larger variable. (The
  equivalences that pass 3 appends may break a full order.)
\<close>

fun infer_desc :: "infer list \<Rightarrow> bool" where
  "infer_desc [] \<longleftrightarrow> True"
| "infer_desc (p # ps) \<longleftrightarrow> (\<forall>q \<in> set ps. snd q = 0 \<longrightarrow> \<bar>fst q\<bar> \<le> \<bar>fst p\<bar>) \<and> infer_desc ps"

lemma infer_desc_append:
  "infer_desc (xs @ ys) \<longleftrightarrow> infer_desc xs \<and> infer_desc ys \<and>
    (\<forall>p \<in> set xs. \<forall>q \<in> set ys. snd q = 0 \<longrightarrow> \<bar>fst q\<bar> \<le> \<bar>fst p\<bar>)"
  by (induction xs) auto

lemma infer_desc_no_literals: "\<forall>p \<in> set xs. snd p \<noteq> 0 \<Longrightarrow> infer_desc xs"
  by (induction xs) auto

lemma infer_desc_pass2: "infer_desc r \<Longrightarrow> infer_desc (infer_pass2 d r e)"
  by (induction d r e rule: infer_pass2.induct) (auto dest: infer_pass2_left split: if_splits)

lemma GetInferFoAN_bound:
  assumes "0 < v" "\<forall>p \<in> set r. \<bar>fst p\<bar> < v" "\<forall>p \<in> set e. \<bar>fst p\<bar> < v"
    and "p \<in> set (GetInferFoAN d v tf ef r e)"
  shows "\<bar>fst p\<bar> \<le> v"
  using assms infer_pass1_set [of p v r e] infer_pass2_left [of p d r e] infer_pass3_set [of p r e]
  by (fastforce simp: GetInferFoAN_def pass3_reason_def split: if_splits)

lemma inferences_bound: "robdd f \<Longrightarrow> p \<in> set (inferences d f) \<Longrightarrow> \<bar>fst p\<bar> \<le> variable f"
proof (induction f arbitrary: p)
  case (Node v t e)
  have "\<forall>p \<in> set (inferences d t). \<bar>fst p\<bar> < int v" "\<forall>p \<in> set (inferences d e). \<bar>fst p\<bar> < int v"
    using Node by fastforce+
  then show ?case
    using GetInferFoAN_bound [of "int v" "inferences d t" "inferences d e" p] Node.prems by auto
qed auto

lemma GetInferFoAN_desc:
  assumes v: "0 < v" and b: "\<forall>p \<in> set r. \<bar>fst p\<bar> < v" "\<forall>p \<in> set e. \<bar>fst p\<bar> < v"
    and desc: "infer_desc r" "infer_desc e" and wf: "\<forall>p \<in> set r. infer_wf p"
  shows "infer_desc (GetInferFoAN d v tf ef r e)"
proof -
  have p3: "snd p \<noteq> 0" if "p \<in> set (infer_pass3 r e)" for p
    using infer_pass3_set [OF that] by simp
  have p1: "fst p = v \<and> snd p \<noteq> 0" if "p \<in> set (infer_pass1 v r e)" for p
    using infer_pass1_set [OF that] wf by (auto simp: infer_wf_def)
  have p2: "\<bar>fst p\<bar> \<le> v" if "p \<in> set (infer_pass2 d r e)" for p
    using infer_pass2_left [OF that] b(1) by fastforce
  have "infer_desc (infer_pass1 v r e @ infer_pass2 d r e @ infer_pass3 r e)"
    unfolding infer_desc_append
    using infer_desc_pass2 [OF desc(1)] p1 p2 p3 v by (auto intro!: infer_desc_no_literals)
  then show ?thesis
    using desc b v by (fastforce simp: GetInferFoAN_def infer_desc_append less_imp_le)
qed

lemma inferences_desc: "robdd f \<Longrightarrow> infer_desc (inferences d f)"
proof (induction f)
  case (Node v t e)
  have "\<forall>p \<in> set (inferences d t). \<bar>fst p\<bar> < int v" "\<forall>p \<in> set (inferences d e). \<bar>fst p\<bar> < int v"
    using inferences_bound Node.prems by fastforce+
  then show ?case
    using GetInferFoAN_desc [of "int v" "inferences d t" "inferences d e"] Node
      inferences_wf [of t _ d] by auto
qed auto

lemma infer_pass2_complete:
  "infer_desc r \<Longrightarrow> infer_desc e \<Longrightarrow> (l, 0) \<in> set r \<Longrightarrow> (l, 0) \<in> set e \<Longrightarrow> (- l, 0) \<notin> set e \<Longrightarrow>
    (l, 0) \<in> set (infer_pass2 d r e)"
proof (induction d r e rule: infer_pass2.induct)
  case (1 d r0 r1 rs e0 e1 es)
  have re: "\<bar>l\<bar> \<le> \<bar>r0\<bar>" "\<bar>l\<bar> \<le> \<bar>e0\<bar>" using "1.prems" by auto
  have eq: "(e0, e1) \<noteq> (- l, 0)" using "1.prems" by auto
  consider (lt) "abs_lt r0 e0" | (gt) "\<not> abs_lt r0 e0" "abs_lt e0 r0"
    | (same) "\<not> abs_lt r0 e0" "\<not> abs_lt e0 r0" "r0 = e0 \<and> r1 = 0 \<and> e1 = 0"
    | (lt1) "\<not> abs_lt r0 e0" "\<not> abs_lt e0 r0" "\<not> (r0 = e0 \<and> r1 = 0 \<and> e1 = 0)" "abs_lt r1 e1"
    | (gt1) "\<not> abs_lt r0 e0" "\<not> abs_lt e0 r0" "\<not> (r0 = e0 \<and> r1 = 0 \<and> e1 = 0)"
        "\<not> abs_lt r1 e1" "abs_lt e1 r1"
    | (eq1) "\<not> abs_lt r0 e0" "\<not> abs_lt e0 r0" "\<not> (r0 = e0 \<and> r1 = 0 \<and> e1 = 0)"
        "\<not> abs_lt r1 e1" "\<not> abs_lt e1 r1" by blast
  then show ?case
  proof cases
    case lt
    then have "(e0, e1) \<noteq> (l, 0)" using re(1) by (auto simp: abs_lt_def)
    then show ?thesis using "1.IH"(1) "1.prems" lt by auto
  next
    case gt
    then have "(r0, r1) \<noteq> (l, 0)" using re(2) by (auto simp: abs_lt_def)
    then show ?thesis using "1.IH"(2) "1.prems" gt by auto
  next
    case same
    then show ?thesis using "1.IH"(3) "1.prems" by auto
  next
    case lt1
    then have "(e0, e1) \<noteq> (l, 0)" by (auto simp: abs_lt_def)
    then show ?thesis using "1.IH"(4) "1.prems" lt1 by auto
  next
    case gt1
    then have "(r0, r1) \<noteq> (l, 0)" by (auto simp: abs_lt_def)
    then show ?thesis using "1.IH"(5) "1.prems" gt1 by auto
  next
    case eq1
    then have "\<bar>r0\<bar> = \<bar>e0\<bar>" "\<bar>r1\<bar> = \<bar>e1\<bar>" using not_abs_lt by blast+
    then have "(r0, r1) \<noteq> (l, 0)" using eq1(3) eq by auto
    moreover from this have "(e0, e1) \<noteq> (l, 0)" if "r1 = e1" "r1 \<noteq> 0" using that by auto
    ultimately show ?thesis using "1.IH"(6,7) "1.prems" eq1 by auto
  qed
qed auto

lemma robdd_satisfiable: "robdd f \<Longrightarrow> f \<noteq> FalseP \<Longrightarrow> \<exists>a. ev f a"
  using robdd_FalseP_iff by blast

lemma inferences_consistent:
  assumes "robdd f" "f \<noteq> FalseP" "(l, 0) \<in> set (inferences d f)"
  shows "(- l, 0) \<notin> set (inferences d f)"
proof
  assume "(- l, 0) \<in> set (inferences d f)"
  moreover obtain a where "ev f a" using robdd_satisfiable assms by blast
  ultimately have "lit l a" "lit (- l) a" "l \<noteq> 0"
    using inferences_sound [OF assms(1), of a] inferences_wf [OF assms(1)] assms(3)
    by (fastforce simp: infer_holds_def infer_wf_def)+
  then show False by (simp add: lit_uminus)
qed

lemma lit_upd: "nat \<bar>l\<bar> \<noteq> v \<Longrightarrow> lit l (a(v := b)) = lit l a"
  by (auto simp: lit_def abs_if split: if_splits)

text \<open>A literal that a node implies is implied by the sons that are not false.\<close>

lemma implied_literal_sons:
  assumes f: "robdd (Node v t e)" and l: "l \<noteq> 0" and imp: "\<And>a. ev (Node v t e) a \<Longrightarrow> lit l a"
  shows "l = int v \<and> e = FalseP \<or> l = - int v \<and> t = FalseP \<or>
    (\<forall>a. ev t a \<longrightarrow> lit l a) \<and> (\<forall>a. ev e a \<longrightarrow> lit l a)"
proof (cases "nat \<bar>l\<bar> = v")
  case True
  then consider "l = int v" | "l = - int v" by linarith
  then show ?thesis
  proof cases
    case 1
    have "\<not> ev e a" for a
      using imp [of "a(v := False)"] f 1 ev_upd_above [of e v a False] by auto
    then show ?thesis using f 1 robdd_FalseP_iff [of e] by auto
  next
    case 2
    have "\<not> ev t a" for a
      using imp [of "a(v := True)"] f 2 ev_upd_above [of t v a True] by auto
    then show ?thesis using f 2 robdd_FalseP_iff [of t] by auto
  qed
next
  case False
  have "lit l a" if "ev t a" for a
    using imp [of "a(v := True)"] f that ev_upd_above [of t v a True] lit_upd [OF False] by auto
  moreover have "lit l a" if "ev e a" for a
    using imp [of "a(v := False)"] f that ev_upd_above [of e v a False] lit_upd [OF False] by auto
  ultimately show ?thesis by blast
qed

lemma inferences_complete:
  "robdd f \<Longrightarrow> f \<noteq> FalseP \<Longrightarrow> l \<noteq> 0 \<Longrightarrow> (\<And>a. ev f a \<Longrightarrow> lit l a) \<Longrightarrow>
    (l, 0) \<in> set (inferences d f)"
proof (induction f)
  case TrueP
  then have "lit l (\<lambda>_. l < 0)" by simp
  then show ?case using TrueP by (auto simp: lit_def split: if_splits)
next
  case (Node v t e)
  have imp: "ev (Node v t e) a \<Longrightarrow> lit l a" for a using Node.prems(4) by blast
  have ts: "robdd t" "robdd e" using Node.prems(1) by simp_all
  consider "l = int v" "e = FalseP" | "l = - int v" "t = FalseP"
    | (sons) "\<forall>a. ev t a \<longrightarrow> lit l a" "\<forall>a. ev e a \<longrightarrow> lit l a"
    using implied_literal_sons [OF Node.prems(1,3) imp] by blast
  then show ?case
  proof cases
    case sons
    have IH: "(l, 0) \<in> set (inferences d t)" if "t \<noteq> FalseP"
      using Node.IH(1) ts(1) that Node.prems(3) sons(1) by blast
    have IH': "(l, 0) \<in> set (inferences d e)" if "e \<noteq> FalseP"
      using Node.IH(2) ts(2) that Node.prems(3) sons(2) by blast
    have "(l, 0) \<in> set (infer_pass2 d (inferences d t) (inferences d e))"
      if "t \<noteq> FalseP" "e \<noteq> FalseP"
      using infer_pass2_complete inferences_desc ts IH IH' that inferences_consistent by blast
    moreover have "inferences d t \<noteq> []" if "t \<noteq> FalseP" using IH [OF that] by auto
    moreover have "inferences d e \<noteq> []" if "e \<noteq> FalseP" using IH' [OF that] by auto
    moreover have "t \<noteq> FalseP \<or> e \<noteq> FalseP" using Node.prems(1) by auto
    ultimately show ?thesis using IH IH'
      by (cases "e = FalseP"; cases "t = FalseP") (simp_all add: GetInferFoAN_def)
  qed (use Node.prems in \<open>auto simp: GetInferFoAN_def\<close>)
qed auto

end
