(* ===== verification/Bddtable.thy ===== *)
theory Bddtable
  imports Infer
begin

text \<open>
  The unique table of utils/bddtable.cc over an explicit store: cells with addresses, hash
  chains, the free list and the memory pools. \<open>bddtable_find_or_add_node\<close> is proved to
  implement the constructor of trees (theory Bddnode): in every reachable table an address
  stands for one tree, two addresses stand for different trees, \<open>notCase\<close> points to the
  complement, and the stored inference list is the one of theory Infer.
\<close>

section \<open>The store\<close>

text \<open>
  An address is a memory block with an offset; block 0 is the null pointer. The allocator gives
  a block that was never used, filled with zeros. A hash chain and the free list, linked through
  \<open>next\<close> in the code, are lists of addresses. \<open>addr_int\<close> gives the bits of an address that the
  hash function adds.
\<close>

datatype addr = Addr (block: nat) (offset: nat)

definition NULL :: addr where "NULL = Addr 0 0"

lemma addr_eq_iff: "a = Addr b i \<longleftrightarrow> block a = b \<and> offset a = i"
  by (cases a) auto

record bddnode =
  bn_variable :: int
  bn_thenCase :: addr
  bn_elseCase :: addr
  bn_notCase :: addr
  bn_inferences :: "infer list"
  bn_flag :: int

definition zero_node :: bddnode where
  "zero_node = \<lparr>bn_variable = 0, bn_thenCase = NULL, bn_elseCase = NULL, bn_notCase = NULL,
     bn_inferences = [], bn_flag = 0\<rparr>"

record bdd_pool =
  pool_memory :: nat
  pool_max :: nat

record bddtab =
  bddmemory :: "bdd_pool list"
  store :: "addr \<Rightarrow> bddnode"
  next_block :: nat
  curBDDPos :: nat
  current_bddpool_size :: nat
  u_bdd_pool_size :: nat
  bddtable_hash_memory :: "int \<Rightarrow> addr list"
  bddtable_bits :: nat
  addr_int :: "addr \<Rightarrow> int"
  bddtable_free :: "addr list"
  false_ptr :: addr
  true_ptr :: addr
  DO_EQUIVALENCES :: bool

definition bddtable_hash_fn :: "bddtab \<Rightarrow> int \<Rightarrow> addr \<Rightarrow> addr \<Rightarrow> int" where
  "bddtable_hash_fn s v r e = (v + addr_int s r + addr_int s e) mod 2 ^ bddtable_bits s"

text \<open>\<open>bddtable_alloc_pool\<close>: a zeroed block; the pool size grows tenfold up to the limit.\<close>

definition bddtable_alloc_pool :: "bddtab \<Rightarrow> bddtab" where
  "bddtable_alloc_pool s =
     (let blk = next_block s; size = current_bddpool_size s in
      s\<lparr>bddmemory := bddmemory s @ [\<lparr>pool_memory = blk, pool_max = size\<rparr>],
        next_block := Suc blk,
        store := (\<lambda>a. if block a = blk then zero_node else store s a),
        current_bddpool_size :=
          (if size < u_bdd_pool_size s then min (size * 10) (u_bdd_pool_size s) else size)\<rparr>)"

definition bddtab0 :: "(addr \<Rightarrow> int) \<Rightarrow> nat \<Rightarrow> nat \<Rightarrow> bool \<Rightarrow> bddtab" where
  "bddtab0 addr bits poolsize d =
     \<lparr>bddmemory = [], store = (\<lambda>_. zero_node), next_block = 1, curBDDPos = 0,
      current_bddpool_size = 1000, u_bdd_pool_size = poolsize, bddtable_hash_memory = (\<lambda>_. []),
      bddtable_bits = bits, addr_int = addr, bddtable_free = [], false_ptr = NULL, true_ptr = NULL,
      DO_EQUIVALENCES = d\<rparr>"

text \<open>\<open>bdd_init\<close>: the first pool with the two constants in its first cells.\<close>

definition bdd_init :: "bddtab \<Rightarrow> bddtab" where
  "bdd_init s =
     (let s = bddtable_alloc_pool s;
          s = s\<lparr>curBDDPos := 2, bddtable_hash_memory := (\<lambda>_. [])\<rparr>
      in if false_ptr s = NULL \<and> true_ptr s = NULL then
           (let f = Addr (pool_memory (hd (bddmemory s))) 0; t = Addr (pool_memory (hd (bddmemory s))) 1 in
            s\<lparr>false_ptr := f, true_ptr := t,
              store := (store s)
                (f := (store s f)\<lparr>bn_variable := -1, bn_thenCase := f, bn_elseCase := f,
                        bn_notCase := t, bn_inferences := []\<rparr>,
                 t := (store s t)\<lparr>bn_variable := -1, bn_thenCase := t, bn_elseCase := t,
                        bn_notCase := f, bn_inferences := []\<rparr>)\<rparr>)
         else s)"

text \<open>
  \<open>bddtable_alloc_node\<close>: a cell of the free list, else the next one of the last pool, else the
  first one of a new pool; then the fields and the inferences of the node.
\<close>

definition bddtable_alloc_cell :: "bddtab \<Rightarrow> addr \<times> bddtab" where
  "bddtable_alloc_cell s =
     (case bddtable_free s of
        a # rest \<Rightarrow> (a, s\<lparr>bddtable_free := rest\<rparr>)
      | [] \<Rightarrow>
         (let s = (if pool_max (last (bddmemory s)) = curBDDPos s
                   then (bddtable_alloc_pool s)\<lparr>curBDDPos := 0\<rparr> else s)
          in (Addr (pool_memory (last (bddmemory s))) (curBDDPos s),
              s\<lparr>curBDDPos := Suc (curBDDPos s)\<rparr>)))"

definition bddtable_alloc_node :: "int \<Rightarrow> addr \<Rightarrow> addr \<Rightarrow> bddtab \<Rightarrow> addr \<times> bddtab" where
  "bddtable_alloc_node v r e s =
     (let (a, s) = bddtable_alloc_cell s in
      (a, s\<lparr>store := (store s)(a := (store s a)\<lparr>bn_variable := v, bn_thenCase := r, bn_elseCase := e,
              bn_inferences := GetInferFoAN (DO_EQUIVALENCES s) v (r = false_ptr s) (e = false_ptr s)
                (bn_inferences (store s r)) (bn_inferences (store s e))\<rparr>)\<rparr>))"

definition set_chain :: "int \<Rightarrow> addr list \<Rightarrow> bddtab \<Rightarrow> bddtab" where
  "set_chain h c s = s\<lparr>bddtable_hash_memory := (bddtable_hash_memory s)(h := c)\<rparr>"

text \<open>\<open>bddtable_alloc_not_node\<close>: the complement of a new node, pushed on its chain unsearched.\<close>

definition bddtable_alloc_not_node :: "addr \<Rightarrow> bddtab \<Rightarrow> bddtab" where
  "bddtable_alloc_not_node a s =
     (let v = bn_variable (store s a);
          r = bn_notCase (store s (bn_thenCase (store s a)));
          e = bn_notCase (store s (bn_elseCase (store s a)));
          h = bddtable_hash_fn s v r e;
          (b, s) = bddtable_alloc_node v r e s;
          s = s\<lparr>store := (store s)(a := (store s a)\<lparr>bn_notCase := b\<rparr>)\<rparr>;
          s = s\<lparr>store := (store s)(b := (store s b)\<lparr>bn_notCase := a\<rparr>)\<rparr>
      in set_chain h (b # bddtable_hash_memory s h) s)"

definition bn_match :: "bddtab \<Rightarrow> int \<Rightarrow> addr \<Rightarrow> addr \<Rightarrow> addr \<Rightarrow> bool" where
  "bn_match s v r e a \<longleftrightarrow> bn_variable (store s a) = v \<and> bn_thenCase (store s a) = r \<and>
     bn_elseCase (store s a) = e"

text \<open>
  \<open>bddtable_find_or_add_node\<close>; None is a failed assertion. A found cell is exchanged with its
  predecessor in the chain, a new one is linked at the end of it.
\<close>

definition bddtable_find_or_add_node ::
  "int \<Rightarrow> addr \<Rightarrow> addr \<Rightarrow> bddtab \<Rightarrow> (addr \<times> bddtab) option" where
  "bddtable_find_or_add_node v r e s =
     (if v = 0 \<or> v < bn_variable (store s r) \<or> v < bn_variable (store s e) then None
      else
        (let h = bddtable_hash_fn s v r e; chain = bddtable_hash_memory s h in
         case find_pos (bn_match s v r e) chain of
           Some i \<Rightarrow> Some (chain ! i, set_chain h (swap_prev i chain) s)
         | None \<Rightarrow>
            (let (a, s) = bddtable_alloc_node v r e s;
                 s = set_chain h (chain @ [a]) s
             in Some (a, bddtable_alloc_not_node a s))))"

section \<open>Which tree an address stands for\<close>

definition nodes :: "bddtab \<Rightarrow> addr set" where
  "nodes s = (\<Union>h. set (bddtable_hash_memory s h)) - {false_ptr s, true_ptr s}"

definition live :: "bddtab \<Rightarrow> addr set" where
  "live s = nodes s \<union> {false_ptr s, true_ptr s}"

inductive repr :: "bddtab \<Rightarrow> addr \<Rightarrow> bdd \<Rightarrow> bool" for s where
  repr_false: "repr s (false_ptr s) FalseP"
| repr_true: "repr s (true_ptr s) TrueP"
| repr_node: "a \<in> nodes s \<Longrightarrow> bn_variable (store s a) = int v \<Longrightarrow> 0 < v \<Longrightarrow>
    repr s (bn_thenCase (store s a)) t \<Longrightarrow> repr s (bn_elseCase (store s a)) e \<Longrightarrow>
    repr s a (Node v t e)"

inductive_cases repr_FalseE: "repr s a FalseP"
inductive_cases repr_TrueE: "repr s a TrueP"
inductive_cases repr_NodeE: "repr s a (Node v t e)"

lemma repr_live: "repr s a t \<Longrightarrow> a \<in> live s"
  by (induction rule: repr.induct) (auto simp: live_def)

text \<open>The cells handed out so far.\<close>

definition pool_used :: "bddtab \<Rightarrow> nat \<Rightarrow> nat" where
  "pool_used s k = (if Suc k = length (bddmemory s) then curBDDPos s else pool_max (bddmemory s ! k))"

definition cells :: "bddtab \<Rightarrow> addr set" where
  "cells s = {a. \<exists>k < length (bddmemory s). block a = pool_memory (bddmemory s ! k) \<and> offset a < pool_used s k}"

text \<open>
  The invariant, in three parts: the allocator, the two constants, and the table proper (cells
  sit in the chain of their hash, keys are unique, complements are linked both ways, every live
  cell stands for a tree and carries its inferences).
\<close>

definition alloc_ok :: "bddtab \<Rightarrow> bool" where
  "alloc_ok s \<longleftrightarrow> bddmemory s \<noteq> [] \<and> 0 < current_bddpool_size s \<and>
     curBDDPos s \<le> pool_max (last (bddmemory s)) \<and>
     (\<forall>p \<in> set (bddmemory s). pool_memory p < next_block s) \<and>
     distinct (map pool_memory (bddmemory s)) \<and>
     distinct (bddtable_free s) \<and> set (bddtable_free s) \<subseteq> cells s \<and>
     live s \<subseteq> cells s \<and> set (bddtable_free s) \<inter> live s = {}"

definition consts_ok :: "bddtab \<Rightarrow> bool" where
  "consts_ok s \<longleftrightarrow> false_ptr s \<noteq> true_ptr s \<and>
     bn_variable (store s (false_ptr s)) = -1 \<and> bn_variable (store s (true_ptr s)) = -1 \<and>
     bn_notCase (store s (false_ptr s)) = true_ptr s \<and> bn_notCase (store s (true_ptr s)) = false_ptr s \<and>
     bn_inferences (store s (false_ptr s)) = [] \<and> bn_inferences (store s (true_ptr s)) = []"

definition not_linked :: "bddtab \<Rightarrow> addr \<Rightarrow> bool" where
  "not_linked s a \<longleftrightarrow>
     (let n = store s a; b = bn_notCase n; m = store s b in
      b \<in> nodes s \<and> bn_notCase m = a \<and> bn_variable m = bn_variable n \<and>
      bn_thenCase m = bn_notCase (store s (bn_thenCase n)) \<and>
      bn_elseCase m = bn_notCase (store s (bn_elseCase n)))"

definition table_ok :: "bddtab \<Rightarrow> bool" where
  "table_ok s \<longleftrightarrow>
     (\<forall>h. \<forall>a \<in> set (bddtable_hash_memory s h).
        h = bddtable_hash_fn s (bn_variable (store s a)) (bn_thenCase (store s a)) (bn_elseCase (store s a))) \<and>
     (\<forall>a \<in> nodes s. \<forall>b \<in> nodes s.
        bn_match s (bn_variable (store s a)) (bn_thenCase (store s a)) (bn_elseCase (store s a)) b
          \<longrightarrow> b = a) \<and>
     (\<forall>a \<in> nodes s. not_linked s a) \<and>
     (\<forall>a \<in> live s. \<exists>t. repr s a t \<and> bn_inferences (store s a) = inferences (DO_EQUIVALENCES s) t)"

definition bddtable_inv :: "bddtab \<Rightarrow> bool" where
  "bddtable_inv s \<longleftrightarrow> alloc_ok s \<and> consts_ok s \<and> table_ok s"

text \<open>In such a table an address stands for exactly one tree, and a tree has at most one address.\<close>

lemma nodes_not_const: "a \<in> nodes s \<Longrightarrow> a \<noteq> false_ptr s \<and> a \<noteq> true_ptr s"
  by (auto simp: nodes_def)

lemma repr_fun: "bddtable_inv s \<Longrightarrow> repr s a t \<Longrightarrow> repr s a u \<Longrightarrow> t = u"
proof (induction t arbitrary: a u)
  case FalseP
  then have "a = false_ptr s" by (auto elim: repr_FalseE)
  then show ?case using FalseP
    by (cases u) (auto elim!: repr_TrueE repr_NodeE dest: nodes_not_const
        simp: bddtable_inv_def consts_ok_def)
next
  case TrueP
  then have "a = true_ptr s" by (auto elim: repr_TrueE)
  then show ?case using TrueP
    by (cases u) (auto elim!: repr_FalseE repr_NodeE dest: nodes_not_const
        simp: bddtable_inv_def consts_ok_def)
next
  case (Node v t1 t2)
  have a: "a \<in> nodes s" using Node.prems(2) by (auto elim: repr_NodeE)
  then obtain w u1 u2 where u: "u = Node w u1 u2"
    using Node.prems(3) nodes_not_const [OF a] by (cases u) (auto elim: repr_FalseE repr_TrueE)
  from Node.prems(2) Node.prems(3)[unfolded u] show ?case
    unfolding u by (elim repr_NodeE) (auto intro: Node.IH [OF Node.prems(1)])
qed

lemma repr_inj: "bddtable_inv s \<Longrightarrow> repr s a t \<Longrightarrow> repr s b t \<Longrightarrow> a = b"
proof (induction t arbitrary: a b)
  case (Node v t1 t2)
  from Node.prems(2,3) show ?case
  proof (elim repr_NodeE)
    assume a: "a \<in> nodes s" "bn_variable (store s a) = int v"
        "repr s (bn_thenCase (store s a)) t1" "repr s (bn_elseCase (store s a)) t2"
      and b: "b \<in> nodes s" "bn_variable (store s b) = int v"
        "repr s (bn_thenCase (store s b)) t1" "repr s (bn_elseCase (store s b)) t2"
    have "bn_match s (bn_variable (store s a)) (bn_thenCase (store s a)) (bn_elseCase (store s a)) b"
      using Node.IH(1) [OF Node.prems(1) a(3) b(3)] Node.IH(2) [OF Node.prems(1) a(4) b(4)] a(2) b(2)
      by (simp add: bn_match_def)
    then show ?thesis using Node.prems(1) a(1) b(1) by (auto simp: bddtable_inv_def table_ok_def)
  qed
qed (blast elim: repr_FalseE repr_TrueE)+

lemma inv_not_linked: "bddtable_inv s \<Longrightarrow> a \<in> nodes s \<Longrightarrow> not_linked s a"
  by (simp add: bddtable_inv_def table_ok_def)

lemma repr_ex: "bddtable_inv s \<Longrightarrow> a \<in> live s \<Longrightarrow> \<exists>t. repr s a t"
  by (auto simp: bddtable_inv_def table_ok_def)

lemma repr_variable: "bddtable_inv s \<Longrightarrow> repr s a t \<Longrightarrow> bn_variable (store s a) = variable t"
  by (erule repr.cases) (auto simp: bddtable_inv_def consts_ok_def)

lemma repr_notCase: "bddtable_inv s \<Longrightarrow> repr s a t \<Longrightarrow> repr s (bn_notCase (store s a)) (notCase t)"
proof (induction t arbitrary: a)
  case (Node v t1 t2)
  from Node.prems(2) show ?case
  proof (elim repr_NodeE)
    assume a: "a \<in> nodes s" "bn_variable (store s a) = int v" "0 < v"
      "repr s (bn_thenCase (store s a)) t1" "repr s (bn_elseCase (store s a)) t2"
    have "not_linked s a" using Node.prems(1) a(1) by (auto simp: bddtable_inv_def table_ok_def)
    then show ?thesis
      using a Node.IH(1) [OF Node.prems(1) a(4)] Node.IH(2) [OF Node.prems(1) a(5)]
      by (auto simp: not_linked_def Let_def intro!: repr_node)
  qed
qed (auto elim!: repr_FalseE repr_TrueE intro: repr.intros simp: bddtable_inv_def consts_ok_def)

lemma repr_inferences:
  "bddtable_inv s \<Longrightarrow> repr s a t \<Longrightarrow> bn_inferences (store s a) = inferences (DO_EQUIVALENCES s) t"
  using repr_live [of s a t] repr_fun [of s a t] unfolding bddtable_inv_def table_ok_def
  by (metis (no_types, lifting))

section \<open>The table after an operation\<close>

text \<open>A tree stays where it is as long as the live cells keep their fields.\<close>

lemma repr_frame:
  assumes "repr s a t" "nodes s \<subseteq> nodes s'" "false_ptr s' = false_ptr s" "true_ptr s' = true_ptr s"
    and "\<And>a. a \<in> nodes s \<Longrightarrow> bn_variable (store s' a) = bn_variable (store s a) \<and>
        bn_thenCase (store s' a) = bn_thenCase (store s a) \<and>
        bn_elseCase (store s' a) = bn_elseCase (store s a)"
  shows "repr s' a t"
  using assms(1)
proof (induction rule: repr.induct)
  case repr_false
  show ?case using repr.repr_false [of s'] assms(3) by simp
next
  case repr_true
  show ?case using repr.repr_true [of s'] assms(4) by simp
next
  case (repr_node a v t e)
  then show ?case using assms(2) assms(5) [OF repr_node(1)] by (intro repr.repr_node) auto
qed

text \<open>What the allocation of a cell gives: a cell outside the live ones and the free list.\<close>

lemma cells_pool: "block a < next_block s \<or> a \<notin> cells s" if "alloc_ok s"
  using that nth_mem by (fastforce simp: alloc_ok_def cells_def)

lemma alloc_cell_pool:
  assumes ok: "alloc_ok s" and full: "pool_max (last (bddmemory s)) = curBDDPos s"
    and free: "bddtable_free s = []" and run: "bddtable_alloc_cell s = (a, s')"
  shows "a \<notin> cells s \<and> cells s' = insert a (cells s) \<and> alloc_ok s' \<and>
    (\<forall>b. b \<in> cells s \<longrightarrow> store s' b = store s b)"
proof -
  have s': "bddmemory s' = bddmemory s @ [\<lparr>pool_memory = next_block s, pool_max = current_bddpool_size s\<rparr>]"
      "curBDDPos s' = 1" "a = Addr (next_block s) 0" "next_block s' = Suc (next_block s)"
      "bddtable_free s' = []" "live s' = live s" "0 < current_bddpool_size s'"
      "store s' = (\<lambda>a. if block a = next_block s then zero_node else store s a)"
    using run full free ok
    by (auto simp: bddtable_alloc_cell_def bddtable_alloc_pool_def Let_def live_def nodes_def alloc_ok_def)
  have new: "a \<notin> cells s" using cells_pool [OF ok, of a] s'(3) by simp
  have "cells s' = insert a (cells s)"
  proof -
    have "pool_used s' k = pool_used s k" if "k < length (bddmemory s)" for k
    proof (cases "Suc k = length (bddmemory s)")
      case True
      then have "last (bddmemory s) = bddmemory s ! k"
        by (metis diff_Suc_1 last_conv_nth length_0_conv nat.distinct(1))
      then show ?thesis using True full by (simp add: pool_used_def s' nth_append)
    qed (use that in \<open>simp add: pool_used_def s' nth_append\<close>)
    moreover have "pool_used s' (length (bddmemory s)) = 1" by (simp add: pool_used_def s')
    ultimately show ?thesis
      by (auto simp: cells_def s' nth_append less_Suc_eq addr_eq_iff)
  qed
  moreover have "block b \<noteq> next_block s" if "b \<in> cells s" for b using cells_pool [OF ok, of b] that by auto
  ultimately show ?thesis
    using ok new s' by (auto simp: alloc_ok_def s')
qed

lemma alloc_cell_next:
  assumes ok: "alloc_ok s" and full: "pool_max (last (bddmemory s)) \<noteq> curBDDPos s"
    and free: "bddtable_free s = []" and run: "bddtable_alloc_cell s = (a, s')"
  shows "a \<notin> cells s \<and> cells s' = insert a (cells s) \<and> alloc_ok s' \<and>
    (\<forall>b. b \<in> cells s \<longrightarrow> store s' b = store s b)"
proof -
  define n where "n = length (bddmemory s) - 1"
  have n: "length (bddmemory s) = Suc n" "last (bddmemory s) = bddmemory s ! n"
    using ok by (simp_all add: n_def alloc_ok_def last_conv_nth)
  have s': "bddmemory s' = bddmemory s" "curBDDPos s' = Suc (curBDDPos s)"
      "a = Addr (pool_memory (bddmemory s ! n)) (curBDDPos s)" "next_block s' = next_block s"
      "bddtable_free s' = []" "live s' = live s" "current_bddpool_size s' = current_bddpool_size s"
      "store s' = store s"
    using run full free n(2)
    by (auto simp: bddtable_alloc_cell_def Let_def live_def nodes_def)
  have dist: "pool_memory (bddmemory s ! k) \<noteq> pool_memory (bddmemory s ! n)" if "k < n" for k
    using ok that n(1) nth_eq_iff_index_eq [of "map pool_memory (bddmemory s)" k n]
    by (simp add: alloc_ok_def)
  have new: "a \<notin> cells s"
  proof
    assume "a \<in> cells s"
    then obtain k where "k < Suc n" "pool_memory (bddmemory s ! n) = pool_memory (bddmemory s ! k)"
        "curBDDPos s < pool_used s k"
      by (auto simp: cells_def s'(3) n(1))
    then show False using dist [of k] by (cases "k = n") (auto simp: pool_used_def n(1))
  qed
  moreover have "cells s' = insert a (cells s)"
    by (auto simp: cells_def pool_used_def s' n(1) less_Suc_eq addr_eq_iff)
  ultimately show ?thesis
    using ok full s' n(2) by (auto simp: alloc_ok_def s')
qed

lemma alloc_cell_free:
  assumes ok: "alloc_ok s" and free: "bddtable_free s \<noteq> []" and run: "bddtable_alloc_cell s = (a, s')"
  shows "a \<in> set (bddtable_free s) \<and> cells s' = cells s \<and> alloc_ok s' \<and> store s' = store s \<and>
    a \<notin> set (bddtable_free s')"
proof -
  obtain rest where s: "bddtable_free s = a # rest" "s' = s\<lparr>bddtable_free := rest\<rparr>"
    using run free by (auto simp: bddtable_alloc_cell_def split: list.splits)
  have same: "cells s' = cells s" "live s' = live s"
    by (simp_all add: s(2) cells_def pool_used_def live_def nodes_def)
  show ?thesis using ok s same by (auto simp: alloc_ok_def s(2))
qed

lemma alloc_cell_ok:
  assumes ok: "alloc_ok s" and run: "bddtable_alloc_cell s = (a, s')"
  shows "alloc_ok s'" "a \<notin> live s" "a \<in> cells s'" "a \<notin> set (bddtable_free s')"
    "\<And>b. b \<in> live s \<Longrightarrow> store s' b = store s b"
proof -
  have sub: "live s \<subseteq> cells s" "set (bddtable_free s) \<subseteq> cells s" "set (bddtable_free s) \<inter> live s = {}"
    using ok by (simp_all add: alloc_ok_def)
  consider "bddtable_free s \<noteq> []" | "bddtable_free s = []" "pool_max (last (bddmemory s)) = curBDDPos s"
    | "bddtable_free s = []" "pool_max (last (bddmemory s)) \<noteq> curBDDPos s" by blast
  then have "alloc_ok s' \<and> a \<notin> live s \<and> a \<in> cells s' \<and> a \<notin> set (bddtable_free s') \<and>
    (\<forall>b \<in> live s. store s' b = store s b)"
  proof cases
    case 1
    then show ?thesis using alloc_cell_free [OF ok 1 run] sub by auto
  next
    case 2
    have "bddtable_free s' = []"
      using run 2 by (auto simp: bddtable_alloc_cell_def bddtable_alloc_pool_def Let_def)
    then show ?thesis using alloc_cell_pool [OF ok 2(2,1) run] sub by auto
  next
    case 3
    have "bddtable_free s' = []" using run 3 by (auto simp: bddtable_alloc_cell_def Let_def)
    then show ?thesis using alloc_cell_next [OF ok 3(2,1) run] sub by auto
  qed
  then show "alloc_ok s'" "a \<notin> live s" "a \<in> cells s'" "a \<notin> set (bddtable_free s')"
    "\<And>b. b \<in> live s \<Longrightarrow> store s' b = store s b" by blast+
qed

lemma alloc_cell_same:
  assumes "bddtable_alloc_cell s = (a, s')"
  shows "bddtable_hash_memory s' = bddtable_hash_memory s" "false_ptr s' = false_ptr s"
    "true_ptr s' = true_ptr s" "DO_EQUIVALENCES s' = DO_EQUIVALENCES s"
    "bddtable_bits s' = bddtable_bits s" "addr_int s' = addr_int s"
    "bddtable_hash_fn s' = bddtable_hash_fn s"
  using assms by (auto simp: bddtable_alloc_cell_def bddtable_alloc_pool_def Let_def bddtable_hash_fn_def
      fun_eq_iff split: list.splits if_splits)

lemma alloc_ok_store [simp]: "alloc_ok (s\<lparr>store := st\<rparr>) = alloc_ok s"
  by (simp add: alloc_ok_def live_def nodes_def cells_def pool_used_def)

lemma live_store [simp]: "live (s\<lparr>store := st\<rparr>) = live s" "nodes (s\<lparr>store := st\<rparr>) = nodes s"
  by (simp_all add: live_def nodes_def)

lemma hash_fn_store [simp]: "bddtable_hash_fn (s\<lparr>store := st\<rparr>) = bddtable_hash_fn s"
  "bddtable_hash_fn (set_chain h c s) = bddtable_hash_fn s"
  by (simp_all add: bddtable_hash_fn_def fun_eq_iff set_chain_def)

lemma set_chain_simps [simp]:
  "bddtable_hash_memory (set_chain h c s) = (bddtable_hash_memory s)(h := c)"
  "store (set_chain h c s) = store s" "false_ptr (set_chain h c s) = false_ptr s"
  "true_ptr (set_chain h c s) = true_ptr s" "DO_EQUIVALENCES (set_chain h c s) = DO_EQUIVALENCES s"
  "bddtable_free (set_chain h c s) = bddtable_free s" "cells (set_chain h c s) = cells s"
  by (simp_all add: set_chain_def cells_def pool_used_def)

lemma alloc_ok_set_chain:
  assumes "alloc_ok s" "live (set_chain h c s) \<subseteq> live s \<union> A" "A \<subseteq> cells s" "A \<inter> set (bddtable_free s) = {}"
  shows "alloc_ok (set_chain h c s)"
proof -
  have "live (set_chain h c s) \<subseteq> cells s" "set (bddtable_free s) \<inter> live (set_chain h c s) = {}"
    using assms unfolding alloc_ok_def by blast+
  then show ?thesis using assms(1) by (simp add: alloc_ok_def) (simp add: set_chain_def)
qed

lemma nodes_set_chain:
  assumes "set c = insert a (set (bddtable_hash_memory s h))" "a \<notin> {false_ptr s, true_ptr s}"
  shows "nodes (set_chain h c s) = insert a (nodes s)"
proof -
  have "(\<Union>x. set (((bddtable_hash_memory s)(h := c)) x)) = insert a (\<Union>x. set (bddtable_hash_memory s x))"
    using assms(1) by (auto split: if_splits)
  then show ?thesis using assms(2) by (auto simp: nodes_def)
qed

text \<open>A new node that is linked into a chain.\<close>

lemma alloc_node_link:
  assumes ok: "alloc_ok s" and run: "bddtable_alloc_node v r e s = (a, s1)"
    and c: "set c = insert a (set (bddtable_hash_memory s h))"
  shows "alloc_ok (set_chain h c s1)" "a \<notin> live s"
    "nodes (set_chain h c s1) = insert a (nodes s)" "live (set_chain h c s1) = insert a (live s)"
proof -
  obtain s0 where cell: "bddtable_alloc_cell s = (a, s0)" and s1: "\<exists>st. s1 = s0\<lparr>store := st\<rparr>"
    using run by (auto simp: bddtable_alloc_node_def Let_def split: prod.splits)
  note alloc = alloc_cell_ok [OF ok cell] and same = alloc_cell_same [OF cell]
  have nl: "nodes s0 = nodes s" "live s0 = live s" by (simp_all add: nodes_def live_def same)
  show new: "a \<notin> live s" by (rule alloc)
  have hm: "bddtable_hash_memory s1 = bddtable_hash_memory s" "false_ptr s1 = false_ptr s"
      "true_ptr s1 = true_ptr s" "nodes s1 = nodes s" "live s1 = live s" "cells s1 = cells s0"
      "bddtable_free s1 = bddtable_free s0" "alloc_ok s1"
    using s1 same alloc(1) nl by (auto simp: cells_def pool_used_def)
  show n: "nodes (set_chain h c s1) = insert a (nodes s)"
    using nodes_set_chain [of c a s1 h] c new by (simp add: hm live_def)
  show l: "live (set_chain h c s1) = insert a (live s)"
    using n by (auto simp: live_def hm)
  show "alloc_ok (set_chain h c s1)"
    by (rule alloc_ok_set_chain [of _ _ _ "{a}"]) (use alloc hm l in auto)
qed

lemma alloc_node_store:
  assumes ok: "alloc_ok s" and run: "bddtable_alloc_node v r e s = (a, s1)"
    and re: "r \<in> live s" "e \<in> live s"
  shows "\<And>b. b \<in> live s \<Longrightarrow> store s1 b = store s b"
    and "bn_variable (store s1 a) = v" "bn_thenCase (store s1 a) = r" "bn_elseCase (store s1 a) = e"
    and "bn_inferences (store s1 a) =
      GetInferFoAN (DO_EQUIVALENCES s) v (r = false_ptr s) (e = false_ptr s)
        (bn_inferences (store s r)) (bn_inferences (store s e))"
    and "bddtable_hash_memory s1 = bddtable_hash_memory s" "false_ptr s1 = false_ptr s"
      "true_ptr s1 = true_ptr s" "DO_EQUIVALENCES s1 = DO_EQUIVALENCES s"
      "bddtable_hash_fn s1 = bddtable_hash_fn s"
proof -
  obtain s0 where cell: "bddtable_alloc_cell s = (a, s0)"
    and s1: "s1 = s0\<lparr>store := (store s0)(a := (store s0 a)\<lparr>bn_variable := v, bn_thenCase := r,
        bn_elseCase := e, bn_inferences := GetInferFoAN (DO_EQUIVALENCES s0) v (r = false_ptr s0)
          (e = false_ptr s0) (bn_inferences (store s0 r)) (bn_inferences (store s0 e))\<rparr>)\<rparr>"
    using run by (auto simp: bddtable_alloc_node_def Let_def split: prod.splits)
  note alloc = alloc_cell_ok [OF ok cell] and same = alloc_cell_same [OF cell]
  show "store s1 b = store s b" if "b \<in> live s" for b
    using alloc(2) alloc(5) [OF that] that by (auto simp: s1)
  show "bn_inferences (store s1 a) =
      GetInferFoAN (DO_EQUIVALENCES s) v (r = false_ptr s) (e = false_ptr s)
        (bn_inferences (store s r)) (bn_inferences (store s e))"
    using alloc(5) re by (simp add: s1 same)
qed (use run in \<open>auto simp: bddtable_alloc_node_def Let_def dest: alloc_cell_same split: prod.splits\<close>)

text \<open>What a call that finds no cell leaves: the new cell \<open>a\<close> and its complement \<open>b\<close>.\<close>

definition new_pair :: "int \<Rightarrow> addr \<Rightarrow> addr \<Rightarrow> bddtab \<Rightarrow> addr \<Rightarrow> addr \<Rightarrow> bddtab \<Rightarrow> bool" where
  "new_pair v r e s a b s' \<longleftrightarrow>
     (let nr = bn_notCase (store s r); ne = bn_notCase (store s e); I = \<lambda>r e.
        GetInferFoAN (DO_EQUIVALENCES s) v (r = false_ptr s) (e = false_ptr s)
          (bn_inferences (store s r)) (bn_inferences (store s e)) in
      a \<notin> live s \<and> b \<notin> live s \<and> a \<noteq> b \<and> nodes s' = insert a (insert b (nodes s)) \<and>
      (\<forall>c \<in> live s. store s' c = store s c) \<and>
      bn_variable (store s' a) = v \<and> bn_thenCase (store s' a) = r \<and> bn_elseCase (store s' a) = e \<and>
      bn_notCase (store s' a) = b \<and> bn_inferences (store s' a) = I r e \<and>
      bn_variable (store s' b) = v \<and> bn_thenCase (store s' b) = nr \<and> bn_elseCase (store s' b) = ne \<and>
      bn_notCase (store s' b) = a \<and> bn_inferences (store s' b) = I nr ne \<and>
      false_ptr s' = false_ptr s \<and> true_ptr s' = true_ptr s \<and>
      DO_EQUIVALENCES s' = DO_EQUIVALENCES s \<and> bddtable_hash_fn s' = bddtable_hash_fn s \<and>
      (let H = bddtable_hash_memory s; h = bddtable_hash_fn s v r e;
           H' = H(h := H h @ [a]); k = bddtable_hash_fn s v nr ne
       in bddtable_hash_memory s' = H'(k := b # H' k)))"

lemma alloc_pair:
  assumes ok: "alloc_ok s" and h: "h = bddtable_hash_fn s v r e"
    and re: "r \<in> live s" "e \<in> live s"
    and nre: "bn_notCase (store s r) \<in> live s" "bn_notCase (store s e) \<in> live s"
    and run: "bddtable_alloc_node v r e s = (a, s1)"
    and s': "s' = bddtable_alloc_not_node a (set_chain h (bddtable_hash_memory s h @ [a]) s1)"
  shows "alloc_ok s'" "\<exists>b. new_pair v r e s a b s'"
proof -
  define s2 where "s2 = set_chain h (bddtable_hash_memory s h @ [a]) s1"
  note st = alloc_node_store [OF ok run re]
  have "set (bddtable_hash_memory s h @ [a]) = insert a (set (bddtable_hash_memory s h))" by auto
  note link = alloc_node_link [OF ok run this, folded s2_def]
  have s2: "store s2 = store s1" "bddtable_hash_fn s2 = bddtable_hash_fn s"
      "false_ptr s2 = false_ptr s" "true_ptr s2 = true_ptr s" "DO_EQUIVALENCES s2 = DO_EQUIVALENCES s"
      "bddtable_hash_memory s2 = (bddtable_hash_memory s)(h := bddtable_hash_memory s h @ [a])"
    by (simp_all add: s2_def st(6-10))
  define nr where "nr = bn_notCase (store s r)"
  define ne where "ne = bn_notCase (store s e)"
  define k where "k = bddtable_hash_fn s v nr ne"
  obtain b s3 where b: "bddtable_alloc_node v nr ne s2 = (b, s3)" by fastforce
  have lv: "nr \<in> live s2" "ne \<in> live s2" "a \<in> live s2" using nre link(4) by (auto simp: nr_def ne_def)
  note st3 = alloc_node_store [OF link(1) b lv(1,2)]
  note link3 = alloc_node_link [OF link(1) b]
  have ba: "b \<noteq> a" "b \<notin> live s" using link3(2) [of "b # bddtable_hash_memory s2 k" k] link(4) lv(3) by auto
  have nots: "bn_notCase (store s1 r) = nr" "bn_notCase (store s1 e) = ne"
    using st(1) re by (simp_all add: nr_def ne_def)
  have s'_eq: "s' = set_chain k (b # bddtable_hash_memory s2 k)
      (s3\<lparr>store := ((store s3)(a := (store s3 a)\<lparr>bn_notCase := b\<rparr>))
           (b := (store s3 b)\<lparr>bn_notCase := a\<rparr>)\<rparr>)"
    using ba b
    by (simp add: s' flip: s2_def) (simp add: bddtable_alloc_not_node_def s2 st nots Let_def k_def st3)
  have app: "alloc_ok s' = alloc_ok (set_chain k (b # bddtable_hash_memory s2 k) s3)"
      "nodes s' = nodes (set_chain k (b # bddtable_hash_memory s2 k) s3)"
    by (simp_all add: s'_eq set_chain_def alloc_ok_def live_def nodes_def cells_def pool_used_def)
  show "alloc_ok s'" unfolding app by (rule link3(1)) auto
  have nodes: "nodes s' = insert a (insert b (nodes s))"
    unfolding app by (subst link3(3)) (auto simp: link(3))
  have old: "store s' c = store s c" if "c \<in> live s" for c
    using that ba link(2) st3(1) [of c] st(1) [of c] link(4) s2(1) by (auto simp: s'_eq)
  have infs: "bn_inferences (store s2 nr) = bn_inferences (store s nr)"
      "bn_inferences (store s2 ne) = bn_inferences (store s ne)"
    using st(1) nre by (simp_all add: s2 nr_def ne_def)
  show "\<exists>b. new_pair v r e s a b s'"
    unfolding new_pair_def Let_def
    using nodes old ba link(2) st st3 s2 infs lv(3)
    by (intro exI [of _ b]) (auto simp: s'_eq nr_def ne_def k_def h)
qed

lemma notP_notP: "bddtable_inv s \<Longrightarrow> repr s a t \<Longrightarrow> bn_notCase (store s (bn_notCase (store s a))) = a"
  using repr_inj [of s "bn_notCase (store s (bn_notCase (store s a)))" t a] repr_notCase [of s a t]
    repr_notCase [of s "bn_notCase (store s a)" "notCase t"] by simp

lemma repr_false_iff: "bddtable_inv s \<Longrightarrow> repr s a t \<Longrightarrow> a = false_ptr s \<longleftrightarrow> t = FalseP"
  using repr_fun [of s a t FalseP] repr.repr_false [of s] by (auto elim: repr_FalseE)

lemma unlisted_key:
  assumes inv: "bddtable_inv s" and c: "c \<in> nodes s"
    and none: "find_pos (bn_match s v r e) (bddtable_hash_memory s (bddtable_hash_fn s v r e)) = None"
  shows "\<not> bn_match s v r e c"
proof
  assume m: "bn_match s v r e c"
  obtain h where h: "c \<in> set (bddtable_hash_memory s h)" using c by (auto simp: nodes_def)
  then have "h = bddtable_hash_fn s v r e"
    using inv m by (auto simp: bddtable_inv_def table_ok_def bn_match_def)
  then show False using h m none by (auto simp: find_pos_None_iff)
qed

lemma unlisted_not_key:
  assumes inv: "bddtable_inv s" and c: "c \<in> nodes s" and r: "repr s r t" and e: "repr s e u"
    and none: "find_pos (bn_match s v r e) (bddtable_hash_memory s (bddtable_hash_fn s v r e)) = None"
  shows "\<not> bn_match s v (bn_notCase (store s r)) (bn_notCase (store s e)) c"
proof
  assume m: "bn_match s v (bn_notCase (store s r)) (bn_notCase (store s e)) c"
  have "not_linked s c" using inv c by (auto simp: bddtable_inv_def table_ok_def)
  then have "bn_notCase (store s c) \<in> nodes s" "bn_match s v r e (bn_notCase (store s c))"
    using m notP_notP [OF inv r] notP_notP [OF inv e] by (auto simp: not_linked_def bn_match_def Let_def)
  then show False using unlisted_key [OF inv _ none] by blast
qed

lemma nodes_sons_live:
  assumes inv: "bddtable_inv s" and a: "a \<in> nodes s"
  shows "bn_thenCase (store s a) \<in> live s" "bn_elseCase (store s a) \<in> live s"
    "bn_notCase (store s a) \<in> nodes s"
proof -
  obtain t where "repr s a t" using repr_ex [OF inv] a by (auto simp: live_def)
  then have "bn_thenCase (store s a) \<in> live s \<and> bn_elseCase (store s a) \<in> live s"
    by cases (use nodes_not_const [OF a] repr_live in blast)+
  then show "bn_thenCase (store s a) \<in> live s" "bn_elseCase (store s a) \<in> live s" by blast+
  show "bn_notCase (store s a) \<in> nodes s"
    using inv a by (auto simp: bddtable_inv_def table_ok_def not_linked_def Let_def)
qed

text \<open>The situation after such a call: the arguments represent \<open>t\<close> and \<open>u\<close> and no cell had the key.\<close>

definition new_call :: "bddtab \<Rightarrow> bddtab \<Rightarrow> int \<Rightarrow> addr \<Rightarrow> addr \<Rightarrow> addr \<Rightarrow> addr \<Rightarrow> nat \<Rightarrow> bdd \<Rightarrow> bdd \<Rightarrow> bool" where
  "new_call s s' v r e a b n t u \<longleftrightarrow> bddtable_inv s \<and> new_pair v r e s a b s' \<and> v = int n \<and> 0 < n \<and>
     repr s r t \<and> repr s e u \<and>
     find_pos (bn_match s v r e) (bddtable_hash_memory s (bddtable_hash_fn s v r e)) = None"

lemma new_callD:
  assumes "new_call s s' v r e a b n t u"
  shows "bddtable_inv s" "new_pair v r e s a b s'" "v = int n" "0 < n" "repr s r t" "repr s e u"
    "find_pos (bn_match s v r e) (bddtable_hash_memory s (bddtable_hash_fn s v r e)) = None"
  using assms unfolding new_call_def by blast+

lemma np_nodes:
  assumes H: "new_call s s' v r e a b n t u"
  shows "nodes s' = insert a (insert b (nodes s))" "a \<notin> live s" "b \<notin> live s" "a \<noteq> b"
    and np_old: "\<And>c. c \<in> live s \<Longrightarrow> store s' c = store s c"
    and np_a: "bn_variable (store s' a) = v" "bn_thenCase (store s' a) = r" "bn_elseCase (store s' a) = e"
    "bn_notCase (store s' a) = b"
    and np_a_infs: "bn_inferences (store s' a) =
      GetInferFoAN (DO_EQUIVALENCES s) v (r = false_ptr s) (e = false_ptr s)
        (bn_inferences (store s r)) (bn_inferences (store s e))"
    and np_b: "bn_variable (store s' b) = v" "bn_thenCase (store s' b) = bn_notCase (store s r)"
    "bn_elseCase (store s' b) = bn_notCase (store s e)" "bn_notCase (store s' b) = a"
    and np_b_infs: "bn_inferences (store s' b) =
      GetInferFoAN (DO_EQUIVALENCES s) v (bn_notCase (store s r) = false_ptr s)
        (bn_notCase (store s e) = false_ptr s)
        (bn_inferences (store s (bn_notCase (store s r)))) (bn_inferences (store s (bn_notCase (store s e))))"
    and np_same: "false_ptr s' = false_ptr s" "true_ptr s' = true_ptr s"
    "DO_EQUIVALENCES s' = DO_EQUIVALENCES s" "bddtable_hash_fn s' = bddtable_hash_fn s"
    and np_chain: "c \<in> set (bddtable_hash_memory s' h) \<Longrightarrow> c \<in> set (bddtable_hash_memory s h) \<or>
      c = a \<and> h = bddtable_hash_fn s v r e \<or>
      c = b \<and> h = bddtable_hash_fn s v (bn_notCase (store s r)) (bn_notCase (store s e))"
  using new_callD(2) [OF H] unfolding new_pair_def Let_def by (blast | force split: if_splits)+

lemma np_live:
  assumes H: "new_call s s' v r e a b n t u"
  shows "live s' = insert a (insert b (live s))"
  by (auto simp: live_def np_nodes [OF H] np_same [OF H])

lemma np_frame:
  assumes H: "new_call s s' v r e a b n t u"
  shows "repr s c w \<Longrightarrow> repr s' c w"
  by (erule repr_frame) (auto simp: live_def np_nodes(1) [OF H] np_same [OF H] np_old [OF H])

lemma np_repr:
  assumes H: "new_call s s' v r e a b n t u"
  shows "repr s' a (Node n t u)" "repr s' b (Node n (notCase t) (notCase u))"
  using new_callD(3,4) [OF H] np_frame [OF H new_callD(5) [OF H]] np_frame [OF H new_callD(6) [OF H]]
    np_frame [OF H repr_notCase [OF new_callD(1) [OF H] new_callD(5) [OF H]]]
    np_frame [OF H repr_notCase [OF new_callD(1) [OF H] new_callD(6) [OF H]]]
  by (auto intro!: repr_node simp: np_nodes(1) [OF H] np_a [OF H] np_b [OF H])

lemma np_consts:
  assumes H: "new_call s s' v r e a b n t u"
  shows "consts_ok s'"
proof -
  note inv = new_callD(1) [OF H] and new = new_callD(2) [OF H] and v = new_callD(3,4) [OF H]
    and r = new_callD(5) [OF H] and e = new_callD(6) [OF H] and none = new_callD(7) [OF H]
  show ?thesis
    using inv by (auto simp: bddtable_inv_def consts_ok_def live_def np_same [OF H] np_old [OF H])
qed

lemma np_hash:
  assumes H: "new_call s s' v r e a b n t u"
    and c: "c \<in> set (bddtable_hash_memory s' h)"
  shows "h = bddtable_hash_fn s' (bn_variable (store s' c)) (bn_thenCase (store s' c)) (bn_elseCase (store s' c))"
proof -
  note inv = new_callD(1) [OF H] and new = new_callD(2) [OF H] and v = new_callD(3,4) [OF H]
    and r = new_callD(5) [OF H] and e = new_callD(6) [OF H] and none = new_callD(7) [OF H]
  consider (old) "c \<in> set (bddtable_hash_memory s h)" | (a) "c = a" "h = bddtable_hash_fn s v r e"
    | (b) "c = b" "h = bddtable_hash_fn s v (bn_notCase (store s r)) (bn_notCase (store s e))"
    using np_chain [OF H c] by blast
  then show ?thesis
  proof cases
    case old
    then have "c \<in> live s" by (auto simp: live_def nodes_def)
    then show ?thesis using old inv by (simp add: np_old [OF H] np_same [OF H] bddtable_inv_def table_ok_def)
  qed (simp_all add: np_a [OF H] np_b [OF H] np_same [OF H])
qed

lemma np_keys_differ:
  assumes H: "new_call s s' v r e a b n t u"
  shows "bn_notCase (store s r) \<noteq> r"
proof -
  note inv = new_callD(1) [OF H] and new = new_callD(2) [OF H] and v = new_callD(3,4) [OF H]
    and r = new_callD(5) [OF H] and e = new_callD(6) [OF H] and none = new_callD(7) [OF H]
  show ?thesis
    using repr_fun [OF inv r, of "notCase t"] repr_notCase [OF inv r] by auto
qed

lemma np_match_old:
  assumes H: "new_call s s' v r e a b n t u"
  shows "c \<in> nodes s \<Longrightarrow> bn_match s' x y z c = bn_match s x y z c"
  by (simp add: bn_match_def np_old [OF H] live_def)

lemma np_unique:
  assumes H: "new_call s s' v r e a b n t u"
    and "c \<in> nodes s'" "d \<in> nodes s'" and m: "bn_match s' x y z c" "bn_match s' x y z d"
  shows "c = d"
proof -
  note inv = new_callD(1) [OF H] and new = new_callD(2) [OF H] and v = new_callD(3,4) [OF H]
    and r = new_callD(5) [OF H] and e = new_callD(6) [OF H] and none = new_callD(7) [OF H]
  have ma: "bn_match s' x y z a \<longleftrightarrow> x = v \<and> y = r \<and> z = e"
    and mb: "bn_match s' x y z b \<longleftrightarrow>
      x = v \<and> y = bn_notCase (store s r) \<and> z = bn_notCase (store s e)" for x y z
    by (auto simp: bn_match_def np_a [OF H] np_b [OF H])
  have na: "\<not> bn_match s' v r e w" "\<not> bn_match s' v (bn_notCase (store s r)) (bn_notCase (store s e)) w"
    if "w \<in> nodes s" for w
    using np_match_old [OF H that] unlisted_key [OF inv that none] unlisted_not_key [OF inv that r e none]
    by simp_all
  have old: "c = d" if "c \<in> nodes s" "d \<in> nodes s"
    using that m np_match_old [OF H] inv by (auto simp: bddtable_inv_def table_ok_def bn_match_def)
  consider "c = a" "d = a" | "c = b" "d = b" | "c = a" "d = b" | "c = b" "d = a"
    | "c \<in> nodes s" "d \<in> nodes s" | "c \<in> nodes s" "d = a" | "c \<in> nodes s" "d = b"
    | "c = a" "d \<in> nodes s" | "c = b" "d \<in> nodes s"
    using assms(2,3) np_nodes(1) [OF H] by blast
  then show ?thesis
    by cases (use m na old np_keys_differ [OF H] in \<open>simp_all add: ma mb\<close>)
qed

lemma np_linked:
  assumes H: "new_call s s' v r e a b n t u"
    and "c \<in> nodes s'" shows "not_linked s' c"
proof -
  note inv = new_callD(1) [OF H] and new = new_callD(2) [OF H] and v = new_callD(3,4) [OF H]
    and r = new_callD(5) [OF H] and e = new_callD(6) [OF H] and none = new_callD(7) [OF H]
  have live: "r \<in> live s" "e \<in> live s" "bn_notCase (store s r) \<in> live s" "bn_notCase (store s e) \<in> live s"
    using repr_live r e repr_notCase [OF inv] by blast+
  consider "c = a" | "c = b" | "c \<in> nodes s" using assms np_nodes(1) [OF H] by blast
  then show ?thesis
  proof cases
    case 1
    then show ?thesis by (simp add: not_linked_def np_a [OF H] np_b [OF H] np_nodes(1) [OF H] np_old [OF H] live)
  next
    case 2
    then show ?thesis
      by (simp add: not_linked_def np_a [OF H] np_b [OF H] np_nodes(1) [OF H] np_old [OF H] live notP_notP [OF inv r] notP_notP [OF inv e])
  next
    case 3
    have "not_linked s c" using 3 inv by (auto simp: bddtable_inv_def table_ok_def)
    moreover have "c \<in> live s" "bn_notCase (store s c) \<in> live s"
      using 3 nodes_sons_live(3) [OF inv 3] by (auto simp: live_def)
    ultimately show ?thesis
      using nodes_sons_live [OF inv 3] by (simp add: not_linked_def Let_def np_old [OF H] np_nodes(1) [OF H])
  qed
qed

lemma np_infs:
  assumes H: "new_call s s' v r e a b n t u"
    and "c \<in> live s'"
  shows "\<exists>w. repr s' c w \<and> bn_inferences (store s' c) = inferences (DO_EQUIVALENCES s') w"
proof -
  note inv = new_callD(1) [OF H] and new = new_callD(2) [OF H] and v = new_callD(3,4) [OF H]
    and r = new_callD(5) [OF H] and e = new_callD(6) [OF H] and none = new_callD(7) [OF H]
  note nr = repr_notCase [OF inv r] and ne = repr_notCase [OF inv e]
  consider "c = a" | "c = b" | "c \<in> live s" using assms np_live [OF H] by blast
  then show ?thesis
  proof cases
    case 1
    have "bn_inferences (store s' a) = inferences (DO_EQUIVALENCES s') (Node n t u)"
      using repr_inferences [OF inv r] repr_inferences [OF inv e] repr_false_iff [OF inv r]
        repr_false_iff [OF inv e] v by (simp add: np_a_infs [OF H] np_same [OF H])
    then show ?thesis using 1 np_repr(1) [OF H] by blast
  next
    case 2
    have "bn_inferences (store s' b) = inferences (DO_EQUIVALENCES s') (Node n (notCase t) (notCase u))"
      using repr_inferences [OF inv nr] repr_inferences [OF inv ne] repr_false_iff [OF inv nr]
        repr_false_iff [OF inv ne] v by (simp add: np_b_infs [OF H] np_same [OF H])
    then show ?thesis using 2 np_repr(2) [OF H] by blast
  next
    case 3
    obtain w where "repr s c w" using repr_ex [OF inv 3] by blast
    then have "repr s' c w" "bn_inferences (store s' c) = inferences (DO_EQUIVALENCES s') w"
      using repr_inferences [OF inv, of c w] np_frame [OF H] np_old [OF H 3] np_same(3) [OF H] by simp_all
    then show ?thesis by blast
  qed
qed

lemma np_table:
  assumes H: "new_call s s' v r e a b n t u"
  shows "table_ok s'"
  unfolding table_ok_def
proof (intro conjI allI ballI impI)
  fix c d
  assume "c \<in> nodes s'" "d \<in> nodes s'"
    "bn_match s' (bn_variable (store s' c)) (bn_thenCase (store s' c)) (bn_elseCase (store s' c)) d"
  then show "d = c" by (intro np_unique [OF H]) (auto simp: bn_match_def)
qed (rule np_hash [OF H] np_linked [OF H] np_infs [OF H]; assumption)+

text \<open>A call that finds the cell changes only the order of a chain.\<close>

lemma chain_order:
  assumes inv: "bddtable_inv s" and c: "set c = set (bddtable_hash_memory s h)"
  shows "bddtable_inv (set_chain h c s)" "repr s a t \<Longrightarrow> repr (set_chain h c s) a t"
proof -
  have nodes: "nodes (set_chain h c s) = nodes s"
    using c by (auto simp: nodes_def split: if_splits)
  then have live: "live (set_chain h c s) = live s" by (simp add: live_def)
  show fr: "repr (set_chain h c s) a t" if "repr s a t" for a t
    by (rule repr_frame [OF that]) (auto simp: nodes)
  have "alloc_ok (set_chain h c s)"
    using alloc_ok_set_chain [of s h c "{}"] inv live by (simp add: bddtable_inv_def)
  moreover have "consts_ok (set_chain h c s)" using inv by (simp add: bddtable_inv_def consts_ok_def)
  moreover have "table_ok (set_chain h c s)"
    unfolding table_ok_def nodes live set_chain_simps hash_fn_store
  proof (intro conjI ballI allI impI)
    show "h' = bddtable_hash_fn s (bn_variable (store s d)) (bn_thenCase (store s d)) (bn_elseCase (store s d))"
      if "d \<in> set (((bddtable_hash_memory s)(h := c)) h')" for h' d
      using that inv c by (auto simp: bddtable_inv_def table_ok_def split: if_splits)
    show "b = d"
      if "d \<in> nodes s" "b \<in> nodes s" "bn_match (set_chain h c s) (bn_variable (store s d))
        (bn_thenCase (store s d)) (bn_elseCase (store s d)) b" for b d
      using that inv by (auto simp: bddtable_inv_def table_ok_def bn_match_def)
    show "not_linked (set_chain h c s) d" if "d \<in> nodes s" for d
      using that inv by (simp add: bddtable_inv_def table_ok_def not_linked_def nodes)
    show "\<exists>w. repr (set_chain h c s) d w \<and> bn_inferences (store s d) = inferences (DO_EQUIVALENCES s) w"
      if "d \<in> live s" for d
      using that repr_ex [OF inv that] repr_inferences [OF inv] fr by blast
  qed
  ultimately show "bddtable_inv (set_chain h c s)" by (simp add: bddtable_inv_def)
qed

text \<open>The two ways in which a call ends.\<close>

lemma find_or_add_cases:
  assumes inv: "bddtable_inv s" and n: "0 < n"
    and r: "repr s r t" and e: "repr s e u" and vs: "variable t \<le> int n" "variable u \<le> int n"
  obtains (found) a h c where "bddtable_find_or_add_node (int n) r e s = Some (a, set_chain h c s)"
      "set c = set (bddtable_hash_memory s h)" "a \<in> nodes s" "bn_match s (int n) r e a"
  | (new) a b s' where "bddtable_find_or_add_node (int n) r e s = Some (a, s')"
      "new_call s s' (int n) r e a b n t u" "alloc_ok s'"
proof -
  define h where "h = bddtable_hash_fn s (int n) r e"
  have guard: "\<not> (int n = 0 \<or> int n < bn_variable (store s r) \<or> int n < bn_variable (store s e))"
    using n vs repr_variable [OF inv r] repr_variable [OF inv e] by simp
  show ?thesis
  proof (cases "find_pos (bn_match s (int n) r e) (bddtable_hash_memory s h)")
    case (Some i)
    note i = find_pos_SomeD [OF Some]
    define c where "c = swap_prev i (bddtable_hash_memory s h)"
    let ?a = "bddtable_hash_memory s h ! i"
    have a: "?a \<in> set (bddtable_hash_memory s h)" using i by simp
    moreover have "bn_variable (store s ?a) = int n" using i by (simp add: bn_match_def)
    ultimately have "?a \<in> nodes s" using inv n by (auto simp: nodes_def bddtable_inv_def consts_ok_def)
    moreover have "bddtable_find_or_add_node (int n) r e s = Some (?a, set_chain h c s)"
      using guard Some by (simp add: bddtable_find_or_add_node_def Let_def h_def c_def)
    ultimately show ?thesis using found [of ?a h c] i by (simp add: c_def)
  next
    case None
    obtain a s1 where a: "bddtable_alloc_node (int n) r e s = (a, s1)" by fastforce
    define s' where "s' = bddtable_alloc_not_node a (set_chain h (bddtable_hash_memory s h @ [a]) s1)"
    have live: "r \<in> live s" "e \<in> live s" "bn_notCase (store s r) \<in> live s" "bn_notCase (store s e) \<in> live s"
      using repr_live r e repr_notCase [OF inv] by blast+
    have "alloc_ok s" using inv by (simp add: bddtable_inv_def)
    note pair = alloc_pair [OF this h_def live a s'_def]
    then obtain b where "new_pair (int n) r e s a b s'" by blast
    then have "new_call s s' (int n) r e a b n t u"
      using inv n r e None by (simp add: new_call_def h_def)
    moreover have "bddtable_find_or_add_node (int n) r e s = Some (a, s')"
      using guard None a by (simp add: bddtable_find_or_add_node_def Let_def h_def s'_def)
    ultimately show ?thesis using new pair(1) by blast
  qed
qed

lemma find_or_add_refines:
  assumes inv: "bddtable_inv s" and n: "0 < n"
    and r: "repr s r t" and e: "repr s e u" and vs: "variable t \<le> int n" "variable u \<le> int n"
  shows "\<exists>a s'. bddtable_find_or_add_node (int n) r e s = Some (a, s') \<and> bddtable_inv s' \<and>
    repr s' a (Node n t u) \<and> (\<forall>c w. repr s c w \<longrightarrow> repr s' c w)"
  using assms
proof (cases rule: find_or_add_cases)
  case (found a h c)
  have "repr s a (Node n t u)" using found r e n by (auto simp: bn_match_def intro!: repr_node)
  then show ?thesis using found(1) chain_order [OF inv found(2)] by blast
next
  case (new a b s')
  note np = np_table [OF new(2)] np_consts [OF new(2)] np_repr [OF new(2)] np_frame [OF new(2)]
  then show ?thesis using new(1,3) by (auto simp: bddtable_inv_def)
qed

text \<open>The fields of the result, and which addresses a call adds.\<close>

lemma find_or_add_fields:
  assumes "bddtable_inv s" "0 < n" "repr s r t" "repr s e u" "variable t \<le> int n" "variable u \<le> int n"
    and run: "bddtable_find_or_add_node (int n) r e s = Some (a, s')"
  shows "a \<in> nodes s'" "bn_match s' (int n) r e a" "live s' \<subseteq> live s \<union> {a, bn_notCase (store s' a)}"
    "\<And>c. c \<in> live s \<Longrightarrow> store s' c = store s c" "DO_EQUIVALENCES s' = DO_EQUIVALENCES s"
proof -
  have "a \<in> nodes s' \<and> bn_match s' (int n) r e a \<and> live s' \<subseteq> live s \<union> {a, bn_notCase (store s' a)} \<and>
    (\<forall>c. c \<in> live s \<longrightarrow> store s' c = store s c) \<and> DO_EQUIVALENCES s' = DO_EQUIVALENCES s"
    using assms(1-6)
  proof (cases rule: find_or_add_cases)
    case (found a' h c)
    have "nodes (set_chain h c s) = nodes s" using found(2) by (auto simp: nodes_def split: if_splits)
    then show ?thesis using found run by (auto simp: bn_match_def live_def)
  next
    case (new a' b s'')
    then show ?thesis using run
      by (auto simp: bn_match_def np_a np_nodes(1) np_live np_old np_same)
  qed
  then show "a \<in> nodes s'" "bn_match s' (int n) r e a" "live s' \<subseteq> live s \<union> {a, bn_notCase (store s' a)}"
    "\<And>c. c \<in> live s \<Longrightarrow> store s' c = store s c" "DO_EQUIVALENCES s' = DO_EQUIVALENCES s" by blast+
qed

lemma find_or_add_fails:
  assumes "v = 0 \<or> v < bn_variable (store s r) \<or> v < bn_variable (store s e)"
  shows "bddtable_find_or_add_node v r e s = None"
  using assms by (simp add: bddtable_find_or_add_node_def)

section \<open>The initial table\<close>

lemma bdd_init_fields:
  fixes addr bits poolsize d
  defines "s \<equiv> bdd_init (bddtab0 addr bits poolsize d)"
  shows "false_ptr s = Addr 1 0" "true_ptr s = Addr 1 1" "bddtable_hash_memory s = (\<lambda>_. [])"
    "bddtable_free s = []" "curBDDPos s = 2" "next_block s = 2" "0 < current_bddpool_size s"
    "bddmemory s = [\<lparr>pool_memory = 1, pool_max = 1000\<rparr>]"
    "store s (Addr 1 0) = zero_node\<lparr>bn_variable := -1, bn_thenCase := Addr 1 0,
       bn_elseCase := Addr 1 0, bn_notCase := Addr 1 1, bn_inferences := []\<rparr>"
    "store s (Addr 1 1) = zero_node\<lparr>bn_variable := -1, bn_thenCase := Addr 1 1,
       bn_elseCase := Addr 1 1, bn_notCase := Addr 1 0, bn_inferences := []\<rparr>"
  unfolding s_def bdd_init_def bddtab0_def bddtable_alloc_pool_def Let_def NULL_def
  by (simp_all add: zero_node_def NULL_def)

lemma bdd_init_inv: "bddtable_inv (bdd_init (bddtab0 addr bits poolsize d))"
proof -
  let ?s = "bdd_init (bddtab0 addr bits poolsize d)"
  note f = bdd_init_fields [of addr bits poolsize d, simplified]
  have nl: "nodes ?s = {}" "live ?s = {Addr 1 0, Addr (Suc 0) (Suc 0)}" by (auto simp: nodes_def live_def f)
  have cells: "cells ?s = {Addr 1 0, Addr 1 1}"
    by (auto simp: cells_def f pool_used_def addr_eq_iff)
  have "alloc_ok ?s" by (simp add: alloc_ok_def f nl cells)
  moreover have "consts_ok ?s" by (simp add: consts_ok_def f)
  moreover have "table_ok ?s"
    using repr.repr_false [of ?s] repr.repr_true [of ?s]
    by (auto simp: table_ok_def f nl zero_node_def intro: exI [of _ FalseP] exI [of _ TrueP])
  ultimately show ?thesis by (simp add: bddtable_inv_def)
qed

section \<open>The interface that the routines on trees rely on\<close>

text \<open>
  A table that makes nodes: every address stands for one tree, every tree has one address, and
  \<open>mk\<close> makes the node of two sons and moves nothing. Comparing addresses is then comparing trees.
\<close>

locale node_table =
  fixes inv :: "'s \<Rightarrow> bool" and addr_of :: "'s \<Rightarrow> 'a \<Rightarrow> bdd \<Rightarrow> bool"
    and mk :: "int \<Rightarrow> 'a \<Rightarrow> 'a \<Rightarrow> 's \<Rightarrow> ('a \<times> 's) option" and compl :: "'s \<Rightarrow> 'a \<Rightarrow> 'a"
  assumes one_tree: "inv s \<Longrightarrow> addr_of s a t \<Longrightarrow> addr_of s a u \<Longrightarrow> t = u"
    and one_address: "inv s \<Longrightarrow> addr_of s a t \<Longrightarrow> addr_of s b t \<Longrightarrow> a = b"
    and mk_node: "inv s \<Longrightarrow> 0 < n \<Longrightarrow> addr_of s r t \<Longrightarrow> addr_of s e u \<Longrightarrow>
      variable t \<le> int n \<Longrightarrow> variable u \<le> int n \<Longrightarrow>
      \<exists>a s'. mk (int n) r e s = Some (a, s') \<and> inv s' \<and> addr_of s' a (Node n t u) \<and>
        (\<forall>c w. addr_of s c w \<longrightarrow> addr_of s' c w)"
    and compl_node: "inv s \<Longrightarrow> addr_of s a t \<Longrightarrow> addr_of s (compl s a) (notCase t)"
begin

lemma same_address_iff: "inv s \<Longrightarrow> addr_of s a t \<Longrightarrow> addr_of s b u \<Longrightarrow> a = b \<longleftrightarrow> t = u"
  using one_tree one_address by blast

lemma equivalent_iff_same_address:
  assumes "inv s" "addr_of s a t" "addr_of s b u" "robdd t" "robdd u"
  shows "a = b \<longleftrightarrow> (\<forall>x. ev t x = ev u x)"
  using same_address_iff [OF assms(1-3)] robdd_eq_iff [OF assms(4,5)] by simp

lemma compl_compl: "inv s \<Longrightarrow> addr_of s a t \<Longrightarrow> compl s (compl s a) = a"
  using compl_node [of s a t] compl_node [of s "compl s a" "notCase t"]
    one_address [of s "compl s (compl s a)" t a] by simp

text \<open>Asking twice for a node gives the same address, and for the complement the complement.\<close>

lemma mk_again:
  assumes "inv s" "0 < n" "addr_of s r t" "addr_of s e u" "variable t \<le> int n" "variable u \<le> int n"
    and run: "mk (int n) r e s = Some (a, s')"
  shows "\<exists>s''. mk (int n) r e s' = Some (a, s'')"
    and "\<exists>s''. mk (int n) (compl s' r) (compl s' e) s' = Some (compl s' a, s'')"
proof -
  have s': "inv s'" "addr_of s' a (Node n t u)" "addr_of s' r t" "addr_of s' e u"
    using mk_node [OF assms(1-6)] run assms(3,4) by auto
  obtain b s'' where b: "mk (int n) r e s' = Some (b, s'')" "inv s''" "addr_of s'' b (Node n t u)"
      "addr_of s'' a (Node n t u)"
    using mk_node [OF s'(1) assms(2) s'(3,4) assms(5,6)] s'(2) by blast
  then show "\<exists>s''. mk (int n) r e s' = Some (a, s'')" using one_address by blast
  note c = compl_node [OF s'(1)]
  obtain d s3 where d: "mk (int n) (compl s' r) (compl s' e) s' = Some (d, s3)" "inv s3"
      "addr_of s3 d (Node n (notCase t) (notCase u))" "addr_of s3 (compl s' a) (notCase (Node n t u))"
    using mk_node [OF s'(1) assms(2) c [OF s'(3)] c [OF s'(4)]] assms(5,6) c [OF s'(2)] by auto
  then have "d = compl s' a"
    using one_address [of s3 d "Node n (notCase t) (notCase u)" "compl s' a"] by simp
  then show "\<exists>s''. mk (int n) (compl s' r) (compl s' e) s' = Some (compl s' a, s'')" using d by blast
qed

end

interpretation ut: node_table bddtable_inv repr bddtable_find_or_add_node
    "\<lambda>s a. bn_notCase (store s a)"
  using repr_fun repr_inj repr_notCase find_or_add_refines by unfold_locales blast+

end
