(* ===== verification/Itetable.thy ===== *)
theory Itetable
  imports Bddnode
begin

text \<open>
  The computed table of utils/itetable.cc: a hash table from an operation number and two BDD
  nodes to the node computed for them. The interface its clients rely on is the locale
  \<open>memo_table\<close>; the table itself is proved to be one.
\<close>

section \<open>The interface\<close>

text \<open>Every entry of the table satisfies \<open>S\<close>.\<close>

definition memo_sound ::
  "('t \<Rightarrow> int \<Rightarrow> bdd \<Rightarrow> bdd \<Rightarrow> bdd option) \<Rightarrow> (int \<Rightarrow> bdd \<Rightarrow> bdd \<Rightarrow> bdd \<Rightarrow> bool) \<Rightarrow> 't \<Rightarrow> bool" where
  "memo_sound look S T \<longleftrightarrow> (\<forall>v r e c. look T v r e = Some c \<longrightarrow> S v r e c)"

locale memo_table =
  fixes look :: "'t \<Rightarrow> int \<Rightarrow> bdd \<Rightarrow> bdd \<Rightarrow> bdd option"
    and find :: "int \<Rightarrow> bdd \<Rightarrow> bdd \<Rightarrow> ('t, bdd option) state"
    and add :: "int \<Rightarrow> bdd \<Rightarrow> bdd \<Rightarrow> bdd \<Rightarrow> ('t, bdd) state"
  assumes find_value: "run_state (find v r e) T = (c, T') \<Longrightarrow> c = look T v r e"
    and find_look: "run_state (find v r e) T = (c, T') \<Longrightarrow> look T' v' r' e' = look T v' r' e'"
    and add_value: "run_state (add v r e p) T = (c', T') \<Longrightarrow> c' = p"
    and add_look: "run_state (add v r e p) T = (c', T') \<Longrightarrow>
      look T' v' r' e' = (if v' = v \<and> r' = r \<and> e' = e then Some p else look T v' r' e')"
begin

lemma find_sound:
  "triple (memo_sound look S) (find v r e)
     (\<lambda>c T. memo_sound look S T \<and> (\<forall>p. c = Some p \<longrightarrow> S v r e p))"
  by (rule tripleI) (auto simp: memo_sound_def find_look dest: find_value)

lemma add_sound:
  "S v r e p \<Longrightarrow> triple (memo_sound look S) (add v r e p) (\<lambda>c T. c = p \<and> memo_sound look S T)"
  by (rule tripleI) (auto simp: memo_sound_def add_look dest: add_value split: if_splits)

lemma add_then_find:
  "run_state (State_Monad.bind (add v r e p) (\<lambda>_. find v r e)) T = (c, T') \<Longrightarrow> c = Some p"
  by (auto split: prod.splits dest!: find_value simp: add_look)

end

section \<open>The table\<close>

text \<open>
  A cell of a chain (\<open>ITENode\<close>). The chain at a hash position is the list of its cells.
  \<open>node_addr\<close> gives the address of a node, of which the hash function adds the low bits;
  addresses come from the allocator and are arbitrary here. \<open>itetable_free\<close> is the length of
  the free list, \<open>itetable_num_pools\<close> and \<open>itetable_current_pos\<close> locate the next unused cell.
\<close>

record itenode =
  itn_variable :: int
  itn_r :: bdd
  itn_e :: bdd
  cached_ite :: bdd

record itetable =
  node_addr :: "bdd \<Rightarrow> int"
  hash_bits :: nat
  itetable_hash_memory :: "int \<Rightarrow> itenode list"
  itetable_free :: nat
  itetable_num_pools :: nat
  itetable_current_pos :: nat
  ite_pool_size :: nat

definition itetable_init :: "(bdd \<Rightarrow> int) \<Rightarrow> nat \<Rightarrow> nat \<Rightarrow> itetable" where
  "itetable_init addr bits poolsize =
     \<lparr>node_addr = addr, hash_bits = bits, itetable_hash_memory = (\<lambda>_. []), itetable_free = 0,
      itetable_num_pools = 0, itetable_current_pos = 0, ite_pool_size = poolsize\<rparr>"

text \<open>The mask is \<open>2 ^ bits - 1\<close>, so masking is the remainder modulo \<open>2 ^ bits\<close>.\<close>

definition itetable_hash_fn :: "itetable \<Rightarrow> int \<Rightarrow> bdd \<Rightarrow> bdd \<Rightarrow> int" where
  "itetable_hash_fn T v r e = (v + node_addr T r + node_addr T e) mod 2 ^ hash_bits T"

definition itetable_alloc_node :: "itetable \<Rightarrow> itetable" where
  "itetable_alloc_node T =
     (if itetable_free T \<noteq> 0 then T\<lparr>itetable_free := itetable_free T - 1\<rparr>
      else if ite_pool_size T = itetable_current_pos T
      then T\<lparr>itetable_num_pools := Suc (itetable_num_pools T), itetable_current_pos := 1\<rparr>
      else T\<lparr>itetable_current_pos := Suc (itetable_current_pos T)\<rparr>)"

definition itetable_set_chain :: "int \<Rightarrow> itenode list \<Rightarrow> itetable \<Rightarrow> itetable" where
  "itetable_set_chain h c T =
     T\<lparr>itetable_hash_memory := (itetable_hash_memory T)(h := c)\<rparr>"

definition itn_match :: "int \<Rightarrow> bdd \<Rightarrow> bdd \<Rightarrow> itenode \<Rightarrow> bool" where
  "itn_match v r e n \<longleftrightarrow> itn_variable n = v \<and> itn_r n = r \<and> itn_e n = e"

text \<open>
  \<open>itetable_add_node\<close> pushes a cell on the chain without searching it. Its callers never pass
  the null pointer, which the code returns at once.
\<close>

definition itetable_add_node :: "int \<Rightarrow> bdd \<Rightarrow> bdd \<Rightarrow> bdd \<Rightarrow> (itetable, bdd) state" where
  "itetable_add_node v r e cached = State (\<lambda>T.
     let h = itetable_hash_fn T v r e;
         T = itetable_alloc_node T;
         n = \<lparr>itn_variable = v, itn_r = r, itn_e = e, cached_ite = cached\<rparr>
     in (cached, itetable_set_chain h (n # itetable_hash_memory T h) T))"

text \<open>
  \<open>itetable_find_or_add_node\<close> walks the chain. A found cell is exchanged with its predecessor,
  and a given result is asserted to be the stored one (\<open>Inl ()\<close> is a failed assertion); on a
  miss a given result is appended, and without one the answer is the null pointer.
\<close>

definition itetable_find_or_add_node ::
  "int \<Rightarrow> bdd \<Rightarrow> bdd \<Rightarrow> bdd option \<Rightarrow> (itetable, unit + bdd option) state" where
  "itetable_find_or_add_node v r e cached = State (\<lambda>T.
     let h = itetable_hash_fn T v r e; chain = itetable_hash_memory T h
     in case find_pos (itn_match v r e) chain of
          Some i \<Rightarrow>
            (let found = cached_ite (chain ! i); T = itetable_set_chain h (swap_prev i chain) T
             in if cached \<noteq> None \<and> cached \<noteq> Some found then (Inl (), T)
                else (Inr (Some found), T))
        | None \<Rightarrow>
            (case cached of
               None \<Rightarrow> (Inr None, T)
             | Some c \<Rightarrow>
                 (let T = itetable_alloc_node T;
                      n = \<lparr>itn_variable = v, itn_r = r, itn_e = e, cached_ite = c\<rparr>
                  in (Inr (Some c), itetable_set_chain h (chain @ [n]) T))))"

text \<open>The call with \<open>cached_ite = NULL\<close>, the only form the program uses: it cannot fail.\<close>

definition itetable_find :: "int \<Rightarrow> bdd \<Rightarrow> bdd \<Rightarrow> (itetable, bdd option) state" where
  "itetable_find v r e = do {
     c \<leftarrow> itetable_find_or_add_node v r e None;
     State_Monad.return (case c of Inr p \<Rightarrow> p | Inl _ \<Rightarrow> None) }"

definition itetable_removeall :: "(itetable, unit) state" where
  "itetable_removeall = State (\<lambda>T. ((),
     T\<lparr>itetable_hash_memory := (\<lambda>_. []),
       itetable_free := itetable_num_pools T * ite_pool_size T + itetable_current_pos T\<rparr>))"

section \<open>The table is a memo table\<close>

definition itetable_lookup :: "itetable \<Rightarrow> int \<Rightarrow> bdd \<Rightarrow> bdd \<Rightarrow> bdd option" where
  "itetable_lookup T v r e =
     map_option cached_ite
       (List.find (itn_match v r e) (itetable_hash_memory T (itetable_hash_fn T v r e)))"

lemma find_eq_find_pos: "List.find p xs = map_option ((!) xs) (find_pos p xs)"
  by (induction xs) (auto simp: option.map_comp comp_def)

lemma find_append: "List.find p (xs @ ys) =
    (case List.find p xs of Some x \<Rightarrow> Some x | None \<Rightarrow> List.find p ys)"
  by (induction xs) auto

lemma swap_prev_split:
  assumes "0 < i" "i < length xs"
  obtains pre post where "xs = pre @ xs ! (i - 1) # xs ! i # post"
    and "swap_prev i xs = pre @ xs ! i # xs ! (i - 1) # post"
proof
  have "drop (i - 1) xs = xs ! (i - 1) # drop i xs"
    using assms Cons_nth_drop_Suc [of "i - 1" xs] by simp
  moreover have "drop i xs = xs ! i # drop (Suc i) xs"
    using assms by (simp add: Cons_nth_drop_Suc)
  ultimately show xs: "xs = take (i - 1) xs @ xs ! (i - 1) # xs ! i # drop (Suc i) xs"
    by (metis append_take_drop_id)
  have len: "length (take (i - 1) xs) = i - 1" using assms by simp
  have "swap_prev i xs = (take (i - 1) xs @ xs ! (i - 1) # xs ! i # drop (Suc i) xs)
      [i - 1 := xs ! i, i := xs ! (i - 1)]"
    using assms xs by (simp add: swap_prev_def)
  also have "\<dots> = take (i - 1) xs @ xs ! i # xs ! (i - 1) # drop (Suc i) xs"
    using assms len by (auto simp: list_update_append split: nat.splits)
  finally show "swap_prev i xs = take (i - 1) xs @ xs ! i # xs ! (i - 1) # drop (Suc i) xs" .
qed

lemma find_swap_prev:
  assumes "i < length xs" "0 < i \<Longrightarrow> \<not> (p (xs ! i) \<and> p (xs ! (i - 1)))"
  shows "List.find p (swap_prev i xs) = List.find p xs"
proof (cases "0 < i")
  case True
  obtain pre post where "xs = pre @ xs ! (i - 1) # xs ! i # post"
    "swap_prev i xs = pre @ xs ! i # xs ! (i - 1) # post"
    by (rule swap_prev_split [OF True assms(1)])
  then show ?thesis using assms(2) True
    by (metis (no_types, lifting) find.simps(2) find_append)
qed (simp add: swap_prev_def)

lemma itn_match_unique: "itn_match v r e n \<Longrightarrow> itn_match v' r' e' n \<Longrightarrow> v = v' \<and> r = r' \<and> e = e'"
  by (auto simp: itn_match_def)

lemma find_swap_itn_match:
  assumes "find_pos (itn_match v r e) xs = Some i"
  shows "List.find (itn_match v' r' e') (swap_prev i xs) = List.find (itn_match v' r' e') xs"
proof (rule find_swap_prev)
  show "i < length xs" using find_pos_SomeD [OF assms] by simp
  show "\<not> (itn_match v' r' e' (xs ! i) \<and> itn_match v' r' e' (xs ! (i - 1)))" if "0 < i"
    using find_pos_SomeD [OF assms] find_pos_Some_first [OF assms, of "i - 1"] that
      itn_match_unique by fastforce
qed

lemma hash_fn_set_chain [simp]:
  "itetable_hash_fn (itetable_set_chain h c T) v r e = itetable_hash_fn T v r e"
  by (simp add: itetable_set_chain_def itetable_hash_fn_def)

lemma hash_fn_alloc [simp]: "itetable_hash_fn (itetable_alloc_node T) v r e = itetable_hash_fn T v r e"
  by (simp add: itetable_alloc_node_def itetable_hash_fn_def)

lemma chain_alloc [simp]: "itetable_hash_memory (itetable_alloc_node T) = itetable_hash_memory T"
  by (simp add: itetable_alloc_node_def)

lemma chain_set_chain [simp]:
  "itetable_hash_memory (itetable_set_chain h c T) = (itetable_hash_memory T)(h := c)"
  by (simp add: itetable_set_chain_def)

lemma itetable_find_run:
  "run_state (itetable_find v r e) T =
     (let h = itetable_hash_fn T v r e; chain = itetable_hash_memory T h
      in case find_pos (itn_match v r e) chain of
           Some i \<Rightarrow> (Some (cached_ite (chain ! i)), itetable_set_chain h (swap_prev i chain) T)
         | None \<Rightarrow> (None, T))"
  by (simp add: itetable_find_def itetable_find_or_add_node_def Let_def split: option.splits)

interpretation itc: memo_table itetable_lookup itetable_find itetable_add_node
proof
  fix v r e T c T'
  assume run: "run_state (itetable_find v r e) T = (c, T')"
  show "c = itetable_lookup T v r e"
    using run by (auto simp: itetable_find_run itetable_lookup_def find_eq_find_pos Let_def
        split: option.splits)
  show "itetable_lookup T' v' r' e' = itetable_lookup T v' r' e'" for v' r' e'
    using run by (auto simp: itetable_find_run itetable_lookup_def Let_def find_swap_itn_match
        split: option.splits)
next
  fix v r e p T c' T'
  assume run: "run_state (itetable_add_node v r e p) T = (c', T')"
  show "c' = p" using run by (auto simp: itetable_add_node_def Let_def)
  show "itetable_lookup T' v' r' e' =
      (if v' = v \<and> r' = r \<and> e' = e then Some p else itetable_lookup T v' r' e')" for v' r' e'
    using run by (auto simp: itetable_add_node_def itetable_lookup_def Let_def itn_match_def)
qed

text \<open>A stored result is found again, whatever happened to the chain.\<close>

lemma itetable_add_find: "run_state (do { _ \<leftarrow> itetable_add_node v r e p; itetable_find v r e }) T = (c, T')
    \<Longrightarrow> c = Some p"
  by (rule itc.add_then_find)

lemma itetable_removeall_lookup:
  "run_state itetable_removeall T = (u, T') \<Longrightarrow> itetable_lookup T' v r e = None"
  by (auto simp: itetable_removeall_def itetable_lookup_def)

lemma itetable_init_lookup: "itetable_lookup (itetable_init addr bits n) v r e = None"
  by (simp add: itetable_init_def itetable_lookup_def)

section \<open>No cell is lost\<close>

text \<open>
  The cells handed out so far are those in the chains and those on the free list.
  \<open>itetable_removeall\<close> chains all of them on the free list.
\<close>

definition ite_cells :: "itetable \<Rightarrow> nat" where
  "ite_cells T = (\<Sum>h \<in> {0..<2 ^ hash_bits T}. length (itetable_hash_memory T h))"

definition itetable_inv :: "itetable \<Rightarrow> bool" where
  "itetable_inv T \<longleftrightarrow> 0 < ite_pool_size T \<and> itetable_current_pos T \<le> ite_pool_size T \<and>
     ite_cells T + itetable_free T
       = itetable_num_pools T * ite_pool_size T + itetable_current_pos T"

lemma itetable_inv_init: "0 < n \<Longrightarrow> itetable_inv (itetable_init addr bits n)"
  by (simp add: itetable_inv_def itetable_init_def ite_cells_def)

lemma itetable_inv_removeall:
  "itetable_inv T \<Longrightarrow> run_state itetable_removeall T = (u, T') \<Longrightarrow> itetable_inv T'"
  by (auto simp: itetable_inv_def itetable_removeall_def ite_cells_def)

lemma hash_fn_range: "itetable_hash_fn T v r e \<in> {0..<2 ^ hash_bits T}"
  by (simp add: itetable_hash_fn_def)

lemma hash_bits_simps [simp]:
  "hash_bits (itetable_set_chain h c T) = hash_bits T" "hash_bits (itetable_alloc_node T) = hash_bits T"
  by (simp_all add: itetable_set_chain_def itetable_alloc_node_def)

lemma ite_cells_set_chain:
  assumes "h \<in> {0..<2 ^ hash_bits T}"
  shows "ite_cells (itetable_set_chain h c T) + length (itetable_hash_memory T h)
    = ite_cells T + length c"
proof -
  have "(\<Sum>x \<in> {0..<2 ^ hash_bits T} - {h}. length (((itetable_hash_memory T)(h := c)) x))
      = (\<Sum>x \<in> {0..<2 ^ hash_bits T} - {h}. length (itetable_hash_memory T x))"
    by (rule sum.cong) auto
  then show ?thesis
    unfolding ite_cells_def hash_bits_simps chain_set_chain
    using assms sum.remove [of "{0..<2 ^ hash_bits T}" h "\<lambda>x. length (itetable_hash_memory T x)"]
      sum.remove [of "{0..<2 ^ hash_bits T}" h "\<lambda>x. length (((itetable_hash_memory T)(h := c)) x)"]
    by simp
qed

lemma ite_cells_alloc [simp]: "ite_cells (itetable_alloc_node T) = ite_cells T"
  by (simp add: ite_cells_def)

lemma itetable_alloc_accounts:
  assumes "itetable_inv T"
  shows "ite_cells T + itetable_free (itetable_alloc_node T) + 1
      = itetable_num_pools (itetable_alloc_node T) * ite_pool_size T
        + itetable_current_pos (itetable_alloc_node T)"
    and "itetable_current_pos (itetable_alloc_node T) \<le> ite_pool_size T"
  using assms by (auto simp: itetable_inv_def itetable_alloc_node_def)

lemma itetable_inv_add:
  assumes inv: "itetable_inv T" and run: "run_state (itetable_add_node v r e p) T = (c, T')"
  shows "itetable_inv T'"
proof -
  define h where "h = itetable_hash_fn T v r e"
  define A where "A = itetable_alloc_node T"
  obtain n where T': "T' = itetable_set_chain h (n # itetable_hash_memory A h) A"
    using run by (auto simp: itetable_add_node_def Let_def h_def A_def)
  have "ite_cells T' = ite_cells T + 1"
    using ite_cells_set_chain [of h A "n # itetable_hash_memory A h"] hash_fn_range [of T v r e]
    by (simp add: T' A_def h_def)
  moreover have "itetable_free T' = itetable_free A" "itetable_num_pools T' = itetable_num_pools A"
    "itetable_current_pos T' = itetable_current_pos A" "ite_pool_size T' = ite_pool_size T"
    by (simp_all add: T' itetable_set_chain_def A_def itetable_alloc_node_def)
  ultimately show ?thesis
    using itetable_alloc_accounts [OF inv] inv by (simp add: itetable_inv_def A_def)
qed

lemma itetable_inv_find:
  assumes inv: "itetable_inv T" and run: "run_state (itetable_find v r e) T = (c, T')"
  shows "itetable_inv T'"
proof (cases "find_pos (itn_match v r e) (itetable_hash_memory T (itetable_hash_fn T v r e))")
  case None
  then show ?thesis using run inv by (simp add: itetable_find_run Let_def)
next
  case (Some i)
  define h where "h = itetable_hash_fn T v r e"
  have T': "T' = itetable_set_chain h (swap_prev i (itetable_hash_memory T h)) T"
    using run Some by (simp add: itetable_find_run Let_def h_def)
  have "ite_cells T' = ite_cells T"
    using ite_cells_set_chain [of h T "swap_prev i (itetable_hash_memory T h)"]
      hash_fn_range [of T v r e] by (simp add: T' h_def)
  then show ?thesis using inv by (simp add: itetable_inv_def T' itetable_set_chain_def)
qed

end
