(* ===== verification/Bddgc.thy ===== *)
theory Bddgc
  imports Bddtable Itetable
begin

text \<open>
  The garbage collector of the unique table, \<open>bdd_gc\<close> of utils/bddtable.cc: it flags what the
  functions reach, empties the hash table, and passes over the cells of all pools, which chains the
  unflagged ones on the free list, hashes the flagged ones anew, and gives back the pools in which
  nothing was flagged. It is proved to keep the table's invariant and the diagrams of all functions
  at their addresses, and to free everything else. The last section is about the tables that calls
  of \<open>bddtable_find_or_add_node\<close> and collections lead to.
\<close>

section \<open>Flagging\<close>

definition set_flag :: "addr \<Rightarrow> int \<Rightarrow> bddtab \<Rightarrow> bddtab" where
  "set_flag a k s = s\<lparr>store := (store s)(a := (store s a)\<lparr>bn_flag := k\<rparr>)\<rparr>"

partial_function (option) bdd_flag_nodes :: "addr \<Rightarrow> bddtab \<Rightarrow> bddtab option" where
  "bdd_flag_nodes a s =
     (if bn_flag (store s a) = 1001001001 then Some s
      else do {
        s \<leftarrow> bdd_flag_nodes (bn_thenCase (store s a)) (set_flag a 1001001001 s);
        s \<leftarrow> bdd_flag_nodes (bn_elseCase (store s a)) s;
        bdd_flag_nodes (bn_notCase (store s a)) s })"

fun flag_functions :: "addr list \<Rightarrow> bddtab \<Rightarrow> bddtab option" where
  "flag_functions [] s = Some s"
| "flag_functions (f # fs) s = do { s \<leftarrow> bdd_flag_nodes f s; flag_functions fs s }"

section \<open>The pass over the cells\<close>

text \<open>\<open>used\<close> is \<open>bddtable_used_count_last\<close>.\<close>

definition sweep_cell :: "addr \<Rightarrow> nat \<times> bddtab \<Rightarrow> nat \<times> bddtab" where
  "sweep_cell a = (\<lambda>(used, s).
     if bn_flag (store s a) \<noteq> 1001001001
     then (used, s\<lparr>store := (store s)(a := zero_node), bddtable_free := bddtable_free s @ [a]\<rparr>)
     else
       (let n = store s a; h = bddtable_hash_fn s (bn_variable n) (bn_thenCase n) (bn_elseCase n)
        in (Suc used, set_flag a 0 (set_chain h (a # bddtable_hash_memory s h) s))))"

text \<open>
  The pools one by one, \<open>kept\<close> those that stay. In the last one only the cells before \<open>curBDDPos\<close>
  are in use, and it always stays.
\<close>

fun sweep_pools :: "bdd_pool list \<Rightarrow> bdd_pool list \<Rightarrow> nat \<times> bddtab \<Rightarrow> nat \<times> bddtab" where
  "sweep_pools kept [] (used, s) = (used, s\<lparr>bddmemory := kept\<rparr>)"
| "sweep_pools kept (p # ps) (used, s) =
     (let max = (if ps = [] then curBDDPos s else pool_max p);
          (used', s') = fold sweep_cell (map (Addr (pool_memory p)) [0..<max]) (used, s)
      in if used' = used \<and> ps \<noteq> []
         then sweep_pools kept ps (used', s'\<lparr>bddtable_free := bddtable_free s\<rparr>)
         else sweep_pools (kept @ [p]) ps (used', s'))"

section \<open>The collector\<close>

text \<open>
  The table with the computed table and the counters (\<open>fs\<close> below are \<open>functions[]\<close>): \<open>BDD_NODE_NEW\<close> is the entry of
  \<open>ite_counters\<close>; \<open>bddtable_free_count\<close> is the length of the free list.
\<close>

record gcst =
  tab :: bddtab
  computed :: itetable
  enable_gc :: bool
  BDD_NODE_NEW :: int
  bddtable_node_new_last :: int
  bddtable_free_count_last :: int

definition gc_declines :: "bool \<Rightarrow> gcst \<Rightarrow> bool" where
  "gc_declines force g \<longleftrightarrow> \<not> enable_gc g \<or>
     \<not> force \<and> (BDD_NODE_NEW g - bddtable_node_new_last g < int (u_bdd_pool_size (tab g)) \<or>
        int (length (bddtable_free (tab g))) > bddtable_free_count_last g)"

definition bddtable_gc :: "bool \<Rightarrow> addr list \<Rightarrow> addr list \<Rightarrow> gcst \<Rightarrow> gcst option" where
  "bddtable_gc force fs original_functions g =
     (if gc_declines force g then Some g
      else
        (let s = tab g; s = set_flag (true_ptr s) 1001001001 s; s = set_flag (false_ptr s) 1001001001 s in do {
           s \<leftarrow> flag_functions fs s;
           s \<leftarrow> flag_functions original_functions s;
           let s = s\<lparr>bddtable_hash_memory := (\<lambda>_. []), bddtable_free := []\<rparr>;
               (used, s) = sweep_pools [] (bddmemory s) (0, s);
               s = set_flag (true_ptr s) 0 s; s = set_flag (false_ptr s) 0 s
           in Some (g\<lparr>tab := s, computed := snd (run_state itetable_removeall (computed g)),
                bddtable_node_new_last := BDD_NODE_NEW g,
                bddtable_free_count_last := int (length (bddtable_free s))\<rparr>) }))"

section \<open>What the functions reach\<close>

inductive_set reach :: "bddtab \<Rightarrow> addr set \<Rightarrow> addr set" for s R where
  root: "a \<in> R \<Longrightarrow> a \<in> reach s R"
| thenCase: "a \<in> reach s R \<Longrightarrow> a \<in> nodes s \<Longrightarrow> bn_thenCase (store s a) \<in> reach s R"
| elseCase: "a \<in> reach s R \<Longrightarrow> a \<in> nodes s \<Longrightarrow> bn_elseCase (store s a) \<in> reach s R"
| notCase: "a \<in> reach s R \<Longrightarrow> a \<in> nodes s \<Longrightarrow> bn_notCase (store s a) \<in> reach s R"

definition sons_in :: "bddtab \<Rightarrow> addr \<Rightarrow> addr set \<Rightarrow> bool" where
  "sons_in s a B \<longleftrightarrow> bn_thenCase (store s a) \<in> B \<and> bn_elseCase (store s a) \<in> B \<and> bn_notCase (store s a) \<in> B"

lemma sons_in_mono: "sons_in s a B \<Longrightarrow> B \<subseteq> C \<Longrightarrow> sons_in s a C"
  by (auto simp: sons_in_def)

lemma sons_in_live: "bddtable_inv s \<Longrightarrow> a \<in> nodes s \<Longrightarrow> sons_in s a (live s)"
  using nodes_sons_live by (auto simp: sons_in_def live_def)

lemma reach_least:
  assumes "a \<in> reach s R" "R \<subseteq> B" "\<And>x. x \<in> B \<Longrightarrow> x \<in> nodes s \<Longrightarrow> sons_in s x B"
  shows "a \<in> B"
  using assms(1) by induction (use assms(2,3) in \<open>auto simp: sons_in_def\<close>)

lemma reach_live: "bddtable_inv s \<Longrightarrow> R \<subseteq> live s \<Longrightarrow> reach s R \<subseteq> live s"
  using reach_least [of _ s R "live s"] sons_in_live by blast

lemma sons_in_reach: "a \<in> reach s R \<Longrightarrow> a \<in> nodes s \<Longrightarrow> sons_in s a (reach s R)"
  by (auto simp: sons_in_def intro: reach.intros)

lemma reach_mono: "R \<subseteq> reach s R' \<Longrightarrow> reach s R \<subseteq> reach s R'"
  using reach_least [of _ s R "reach s R'"] sons_in_reach by blast

lemma reach_consts: "reach s {false_ptr s, true_ptr s} = {false_ptr s, true_ptr s}"
  using reach_least [of _ s "{false_ptr s, true_ptr s}" "{false_ptr s, true_ptr s}"] nodes_not_const
  by (blast intro: reach.root)

section \<open>Flagging visits exactly what is reached\<close>

text \<open>\<open>s\<close> with the cells of \<open>A\<close> flagged.\<close>

definition flag_all :: "addr set \<Rightarrow> bddtab \<Rightarrow> bddtab" where
  "flag_all A s = s\<lparr>store := (\<lambda>a. if a \<in> A then (store s a)\<lparr>bn_flag := 1001001001\<rparr> else store s a)\<rparr>"

lemma flag_all_simps [simp]:
  "bn_thenCase (store (flag_all A s) a) = bn_thenCase (store s a)"
  "bn_elseCase (store (flag_all A s) a) = bn_elseCase (store s a)"
  "bn_notCase (store (flag_all A s) a) = bn_notCase (store s a)"
  "bn_variable (store (flag_all A s) a) = bn_variable (store s a)"
  "bn_inferences (store (flag_all A s) a) = bn_inferences (store s a)"
  "true_ptr (flag_all A s) = true_ptr s" "false_ptr (flag_all A s) = false_ptr s"
  by (simp_all add: flag_all_def)

lemma flag_all_insert: "set_flag a 1001001001 (flag_all A s) = flag_all (insert a A) s"
  by (auto simp: set_flag_def flag_all_def fun_eq_iff)

lemma flag_all_iff:
  "bn_flag (store s a) \<noteq> 1001001001 \<Longrightarrow> bn_flag (store (flag_all A s) a) = 1001001001 \<longleftrightarrow> a \<in> A"
  by (simp add: flag_all_def)

lemma finite_live: assumes "alloc_ok s" shows "finite (live s)"
proof -
  have "cells s \<subseteq> (\<Union>k \<in> {..<length (bddmemory s)}. Addr (pool_memory (bddmemory s ! k)) ` {..<pool_used s k})"
  proof
    fix a assume "a \<in> cells s"
    then obtain k where k: "k < length (bddmemory s)" "block a = pool_memory (bddmemory s ! k)" "offset a < pool_used s k"
      by (auto simp: cells_def)
    then have "a = Addr (pool_memory (bddmemory s ! k)) (offset a)" by (simp add: addr_eq_iff)
    then show "a \<in> (\<Union>k \<in> {..<length (bddmemory s)}. Addr (pool_memory (bddmemory s ! k)) ` {..<pool_used s k})"
      using k by blast
  qed
  then have "finite (cells s)" by (rule finite_subset) auto
  then show ?thesis using assms by (auto simp: alloc_ok_def intro: finite_subset)
qed

text \<open>Of the flags set by a call: their cells are reached, and the sons of each are flagged at the end.\<close>

definition flags_added :: "bddtab \<Rightarrow> addr set \<Rightarrow> addr set \<Rightarrow> addr set \<Rightarrow> bool" where
  "flags_added s R A M \<longleftrightarrow> R \<subseteq> A \<union> M \<and> M \<subseteq> reach s R \<and> (\<forall>x \<in> M. sons_in s x (A \<union> M))"

lemma flags_addedD:
  assumes "flags_added s R A M" shows "R \<subseteq> A \<union> M" "M \<subseteq> reach s R" "x \<in> M \<Longrightarrow> sons_in s x (A \<union> M)"
  using assms by (auto simp: flags_added_def)

lemma bdd_flag_nodes_ok:
  assumes inv: "bddtable_inv s" and flags: "\<And>a. bn_flag (store s a) \<noteq> 1001001001"
    and TF: "{false_ptr s, true_ptr s} \<subseteq> A" and a: "a \<in> live s"
  shows "\<exists>M. bdd_flag_nodes a (flag_all A s) = Some (flag_all (A \<union> M) s) \<and> flags_added s {a} A M"
  using TF a
proof (induction "card (live s - A)" arbitrary: A a rule: less_induct)
  case less
  note IH = less.hyps
  show ?case
  proof (cases "a \<in> A")
    case True
    then show ?thesis using flag_all_iff [OF flags]
      by (intro exI [of _ "{}"]) (simp add: bdd_flag_nodes.simps [of a] flags_added_def)
  next
    case False
    let ?t = "bn_thenCase (store s a)" and ?e = "bn_elseCase (store s a)" and ?n = "bn_notCase (store s a)"
    have node: "a \<in> nodes s" using False less.prems by (auto simp: live_def)
    then have sons: "?t \<in> live s" "?e \<in> live s" "?n \<in> live s"
      using sons_in_live [OF inv] by (auto simp: sons_in_def)
    let ?A = "insert a A"
    have small: "card (live s - B) < card (live s - A)" if "?A \<subseteq> B" for B
      using that False less.prems(2) inv finite_live
      by (intro psubset_card_mono) (auto simp: bddtable_inv_def)
    have visit: "\<exists>M. bdd_flag_nodes x (flag_all B s) = Some (flag_all (B \<union> M) s) \<and> flags_added s {x} B M"
      if "?A \<subseteq> B" "x \<in> live s" for B x
      using IH [OF small [OF that(1)] _ that(2)] that(1) less.prems(1) by blast
    obtain M1 where M1: "bdd_flag_nodes ?t (flag_all ?A s) = Some (flag_all (?A \<union> M1) s)" "flags_added s {?t} ?A M1"
      using visit [OF subset_refl sons(1)] by blast
    obtain M2 where M2: "bdd_flag_nodes ?e (flag_all (?A \<union> M1) s) = Some (flag_all (?A \<union> M1 \<union> M2) s)"
        "flags_added s {?e} (?A \<union> M1) M2"
      using visit [OF Un_upper1 sons(2)] by blast
    obtain M3 where M3: "bdd_flag_nodes ?n (flag_all (?A \<union> M1 \<union> M2) s) = Some (flag_all (?A \<union> M1 \<union> M2 \<union> M3) s)"
        "flags_added s {?n} (?A \<union> M1 \<union> M2) M3"
      using visit [of "?A \<union> M1 \<union> M2", OF _ sons(3)] by blast
    let ?M = "insert a (M1 \<union> M2 \<union> M3)"
    have eq: "?A \<union> M1 \<union> M2 \<union> M3 = A \<union> ?M" by blast
    have "bdd_flag_nodes a (flag_all A s) = Some (flag_all (A \<union> ?M) s)"
      using False M1(1) M2(1) M3(1) flag_all_iff [OF flags]
      by (simp add: bdd_flag_nodes.simps [of a] flag_all_insert eq Un_assoc)
    moreover have "flags_added s {a} A ?M"
    proof -
      have r: "a \<in> reach s {a}" by (simp add: reach.root)
      have "reach s {?t} \<subseteq> reach s {a}" "reach s {?e} \<subseteq> reach s {a}" "reach s {?n} \<subseteq> reach s {a}"
        by (rule reach_mono, use r node in \<open>simp add: reach.intros\<close>)+
      moreover have "sons_in s a (A \<union> ?M)"
        using flags_addedD(1) [OF M1(2)] flags_addedD(1) [OF M2(2)] flags_addedD(1) [OF M3(2)]
        by (auto simp: sons_in_def)
      moreover have "sons_in s x (A \<union> ?M)" if "x \<in> M1 \<union> M2 \<union> M3" for x
        using that by (elim UnE) (erule sons_in_mono [OF flags_addedD(3) [OF M1(2)]]
            sons_in_mono [OF flags_addedD(3) [OF M2(2)]] sons_in_mono [OF flags_addedD(3) [OF M3(2)]], blast)+
      moreover have "?M \<subseteq> reach s {a}"
        using calculation(1-3) r flags_addedD(2) [OF M1(2)] flags_addedD(2) [OF M2(2)] flags_addedD(2) [OF M3(2)]
        by auto
      ultimately show ?thesis unfolding flags_added_def by auto
    qed
    ultimately show ?thesis by blast
  qed
qed

lemma flag_functions_ok:
  assumes inv: "bddtable_inv s" and flags: "\<And>a. bn_flag (store s a) \<noteq> 1001001001"
  shows "{false_ptr s, true_ptr s} \<subseteq> A \<Longrightarrow> set fs \<subseteq> live s \<Longrightarrow>
    \<exists>M. flag_functions fs (flag_all A s) = Some (flag_all (A \<union> M) s) \<and> flags_added s (set fs) A M"
proof (induction fs arbitrary: A)
  case Nil
  show ?case by (intro exI [of _ "{}"]) (simp add: flags_added_def)
next
  case (Cons f fs)
  obtain M where M: "bdd_flag_nodes f (flag_all A s) = Some (flag_all (A \<union> M) s)" "flags_added s {f} A M"
    using bdd_flag_nodes_ok [OF inv flags Cons.prems(1), of f] Cons.prems(2) by auto
  obtain N where N: "flag_functions fs (flag_all (A \<union> M) s) = Some (flag_all (A \<union> M \<union> N) s)"
      "flags_added s (set fs) (A \<union> M) N"
    using Cons.IH [of "A \<union> M"] Cons.prems by auto
  have sub: "reach s {f} \<subseteq> reach s (set (f # fs))" "reach s (set fs) \<subseteq> reach s (set (f # fs))"
    by (rule reach_mono, simp add: reach.root subsetI)+
  have "sons_in s x (A \<union> (M \<union> N))" if "x \<in> M \<union> N" for x
    using that
    by (elim UnE) (erule sons_in_mono [OF flags_addedD(3) [OF M(2)]] sons_in_mono [OF flags_addedD(3) [OF N(2)]], blast)+
  then have "flags_added s (set (f # fs)) A (M \<union> N)"
    using sub M(2) N(2) unfolding flags_added_def list.set by blast
  then show ?case using M(1) N(1) by (auto simp: Un_assoc)
qed

section \<open>What the pass leaves\<close>

text \<open>The cells in use of a list of pools, in the order of the pass.\<close>

fun pool_cells :: "nat \<Rightarrow> bdd_pool list \<Rightarrow> addr list" where
  "pool_cells pos [] = []"
| "pool_cells pos (p # ps) =
     map (Addr (pool_memory p)) [0..<if ps = [] then pos else pool_max p] @ pool_cells pos ps"

lemma set_pool_cells:
  "set (pool_cells pos ps) = {a. \<exists>k < length ps. block a = pool_memory (ps ! k) \<and>
     offset a < (if Suc k = length ps then pos else pool_max (ps ! k))}"
proof (induction ps)
  case (Cons p ps)
  have "a \<in> set (pool_cells pos (p # ps)) \<longleftrightarrow>
      block a = pool_memory p \<and> offset a < (if ps = [] then pos else pool_max p) \<or> a \<in> set (pool_cells pos ps)" for a
    by (cases a) auto
  then show ?case unfolding Cons.IH
    by (intro set_eqI) (simp add: Ex_less_Suc2 disj_commute)
qed simp

lemma cells_eq: "cells s = set (pool_cells (curBDDPos s) (bddmemory s))"
  by (simp add: cells_def pool_used_def set_pool_cells)

lemma pool_cells_block: "a \<in> set (pool_cells pos ps) \<Longrightarrow> block a \<in> pool_memory ` set ps"
  by (auto simp: set_pool_cells)

lemma distinct_pool_cells: "distinct (map pool_memory ps) \<Longrightarrow> distinct (pool_cells pos ps)"
proof (induction ps)
  case (Cons p ps)
  have "a \<notin> set (pool_cells pos ps)" if "block a = pool_memory p" for a
    using pool_cells_block [of a pos ps] that Cons.prems by auto
  then show ?case using Cons by (auto simp: distinct_map inj_on_def)
qed simp

text \<open>
  After the pass over the cells \<open>C\<close>: the flagged ones are unflagged and in the chain of their hash,
  the others are zero.
\<close>

definition flagged :: "bddtab \<Rightarrow> addr \<Rightarrow> bool" where
  "flagged s a \<longleftrightarrow> bn_flag (store s a) = 1001001001"

definition hash_of :: "bddtab \<Rightarrow> addr \<Rightarrow> int" where
  "hash_of s a = bddtable_hash_fn s (bn_variable (store s a)) (bn_thenCase (store s a)) (bn_elseCase (store s a))"

definition same_globals :: "bddtab \<Rightarrow> bddtab \<Rightarrow> bool" where
  "same_globals s s' \<longleftrightarrow> next_block s' = next_block s \<and> curBDDPos s' = curBDDPos s \<and>
     current_bddpool_size s' = current_bddpool_size s \<and> false_ptr s' = false_ptr s \<and> true_ptr s' = true_ptr s \<and>
     DO_EQUIVALENCES s' = DO_EQUIVALENCES s \<and> bddtable_hash_fn s' = bddtable_hash_fn s"

definition swept :: "addr set \<Rightarrow> bddtab \<Rightarrow> bddtab \<Rightarrow> bool" where
  "swept C s s' \<longleftrightarrow> same_globals s s' \<and>
     (\<forall>a. store s' a = (if a \<notin> C then store s a else if flagged s a then (store s a)\<lparr>bn_flag := 0\<rparr> else zero_node)) \<and>
     (\<forall>h. set (bddtable_hash_memory s' h) = set (bddtable_hash_memory s h) \<union> {a \<in> C. flagged s a \<and> hash_of s a = h})"

lemma swept_empty: "swept {} s s"
  by (simp add: swept_def same_globals_def)

lemma swept_Un:
  assumes C: "swept C s s'" and D: "swept D s' s''" and disj: "C \<inter> D = {}"
  shows "swept (C \<union> D) s s''"
proof -
  have D_eq: "store s' a = store s a" "flagged s' a = flagged s a" "hash_of s' a = hash_of s a" if "a \<in> D" for a
    using that C disj by (auto simp: swept_def same_globals_def flagged_def hash_of_def)
  have "{a \<in> C \<union> D. flagged s a \<and> hash_of s a = h} =
      {a \<in> C. flagged s a \<and> hash_of s a = h} \<union> {a \<in> D. flagged s' a \<and> hash_of s' a = h}" for h
    using D_eq by auto
  moreover have "store s'' a = (if a \<notin> C \<union> D then store s a
      else if flagged s a then (store s a)\<lparr>bn_flag := 0\<rparr> else zero_node)" for a
    using C D D_eq [of a] disj by (auto simp: swept_def)
  ultimately show ?thesis using C D by (auto simp: swept_def same_globals_def)
qed

lemma swept_cell:
  assumes "sweep_cell a (used, s) = (used', s')"
  shows "swept {a} s s'" "used' = (if flagged s a then Suc used else used)"
    "bddtable_free s' = bddtable_free s @ (if flagged s a then [] else [a])" "bddmemory s' = bddmemory s"
  using assms
  by (auto simp: sweep_cell_def swept_def same_globals_def flagged_def hash_of_def set_flag_def set_chain_def
      bddtable_hash_fn_def fun_eq_iff Let_def split: if_splits)

lemma swept_flagged: "swept C s s' \<Longrightarrow> a \<notin> C \<Longrightarrow> flagged s' a = flagged s a"
  by (simp add: swept_def flagged_def)

lemma sweep_cells:
  "distinct cs \<Longrightarrow> fold sweep_cell cs (used, s) = (used', s') \<Longrightarrow>
    swept (set cs) s s' \<and> used' = used + length (filter (flagged s) cs) \<and>
    bddtable_free s' = bddtable_free s @ filter (\<lambda>a. \<not> flagged s a) cs \<and> bddmemory s' = bddmemory s"
proof (induction cs arbitrary: used s)
  case Nil
  then show ?case by (simp add: swept_empty)
next
  case (Cons c cs)
  obtain used1 s1 where c: "sweep_cell c (used, s) = (used1, s1)" by fastforce
  note c1 = swept_cell [OF c]
  have IH: "swept (set cs) s1 s'" "used' = used1 + length (filter (flagged s1) cs)"
      "bddtable_free s' = bddtable_free s1 @ filter (\<lambda>a. \<not> flagged s1 a) cs" "bddmemory s' = bddmemory s1"
    using Cons.IH [of used1 s1] Cons.prems c by auto
  have same: "filter (flagged s1) cs = filter (flagged s) cs" "filter (\<lambda>a. \<not> flagged s1 a) cs = filter (\<lambda>a. \<not> flagged s a) cs"
    using Cons.prems(1) swept_flagged [OF c1(1)]
    by (metis (mono_tags, lifting) filter_cong distinct.simps(2) singletonD)+
  have "swept ({c} \<union> set cs) s s'" using swept_Un [OF c1(1) IH(1)] Cons.prems(1) by simp
  then show ?case using c1 IH same by auto
qed

text \<open>The pools \<open>ks\<close> that stay hold all flagged cells; the free list gets their other cells.\<close>

lemma sweep_pools_ok:
  assumes "distinct (map pool_memory ps)" "ps \<noteq> []" "sweep_pools kept ps (used, s) = (used', s')"
  shows "\<exists>ks. swept (set (pool_cells (curBDDPos s) ps)) s s' \<and> bddmemory s' = kept @ ks \<and>
    ks \<noteq> [] \<and> last ks = last ps \<and> set ks \<subseteq> set ps \<and> distinct (map pool_memory ks) \<and>
    bddtable_free s' = bddtable_free s @ filter (\<lambda>a. \<not> flagged s a) (pool_cells (curBDDPos s) ks) \<and>
    set (pool_cells (curBDDPos s) ks) \<subseteq> set (pool_cells (curBDDPos s) ps) \<and>
    (\<forall>a \<in> set (pool_cells (curBDDPos s) ps). flagged s a \<longrightarrow> a \<in> set (pool_cells (curBDDPos s) ks))"
  using assms
proof (induction ps arbitrary: kept used s)
  case (Cons p ps)
  let ?pos = "curBDDPos s"
  define cs where "cs = map (Addr (pool_memory p)) [0..<if ps = [] then ?pos else pool_max p]"
  obtain used1 s1 where f: "fold sweep_cell cs (used, s) = (used1, s1)" by fastforce
  have dist: "distinct (cs @ pool_cells ?pos ps)"
    using distinct_pool_cells [OF Cons.prems(1), of ?pos] by (simp add: cs_def)
  then have sw: "swept (set cs) s s1" "used1 = used + length (filter (flagged s) cs)"
      "bddtable_free s1 = bddtable_free s @ filter (\<lambda>a. \<not> flagged s a) cs" "bddmemory s1 = bddmemory s"
    using sweep_cells [OF _ f] by auto
  have pos: "curBDDPos s1 = ?pos" using sw(1) by (simp add: swept_def same_globals_def)
  have disj: "set cs \<inter> set (pool_cells ?pos ps) = {}" using dist by auto
  have same: "flagged s1 a = flagged s a" if "a \<in> set (pool_cells ?pos ps)" for a
    using swept_flagged [OF sw(1)] that disj by blast
  show ?case
  proof (cases "ps = []")
    case True
    have "s' = s1\<lparr>bddmemory := kept @ [p]\<rparr>" using Cons.prems(3) True f by (simp add: cs_def Let_def)
    then have "swept (set cs) s s'" "bddmemory s' = kept @ [p]" "bddtable_free s' = bddtable_free s1"
      using sw(1) by (auto simp: swept_def same_globals_def bddtable_hash_fn_def fun_eq_iff)
    then show ?thesis using sw True by (intro exI [of _ "[p]"]) (auto simp: cs_def)
  next
    case False
    define drop_p where "drop_p \<longleftrightarrow> used1 = used"
    define s2 where "s2 = (if drop_p then s1\<lparr>bddtable_free := bddtable_free s\<rparr> else s1)"
    have sw2: "swept (set cs) s s2" "bddtable_free s2 = bddtable_free s @ (if drop_p then [] else filter (\<lambda>a. \<not> flagged s a) cs)"
      using sw by (auto simp: s2_def swept_def same_globals_def bddtable_hash_fn_def fun_eq_iff)
    have pos2: "curBDDPos s2 = ?pos" using sw2(1) by (simp add: swept_def same_globals_def)
    have same2: "flagged s2 a = flagged s a" if "a \<in> set (pool_cells ?pos ps)" for a
      using swept_flagged [OF sw2(1)] that disj by blast
    have "sweep_pools (if drop_p then kept else kept @ [p]) ps (used1, s2) = (used', s')"
      using Cons.prems(3) False f by (auto simp: cs_def Let_def s2_def drop_p_def split: if_splits)
    then obtain ks where ks: "swept (set (pool_cells ?pos ps)) s2 s'"
        "bddmemory s' = (if drop_p then kept else kept @ [p]) @ ks" "ks \<noteq> []" "last ks = last ps" "set ks \<subseteq> set ps"
        "distinct (map pool_memory ks)"
        "bddtable_free s' = bddtable_free s2 @ filter (\<lambda>a. \<not> flagged s2 a) (pool_cells ?pos ks)"
        "set (pool_cells ?pos ks) \<subseteq> set (pool_cells ?pos ps)"
        "\<forall>a \<in> set (pool_cells ?pos ps). flagged s2 a \<longrightarrow> a \<in> set (pool_cells ?pos ks)"
      using Cons.IH [of "if drop_p then kept else kept @ [p]" used1 s2] Cons.prems(1) False pos2 by auto
    have "filter (\<lambda>a. \<not> flagged s2 a) (pool_cells ?pos ks) = filter (\<lambda>a. \<not> flagged s a) (pool_cells ?pos ks)"
      using ks(8) same2 by (intro filter_cong) auto
    note free = ks(7) [unfolded this sw2(2)]
    have all: "swept (set (pool_cells ?pos (p # ps))) s s'"
      using swept_Un [OF sw2(1) ks(1) disj] False by (simp add: cs_def)
    let ?ks = "if drop_p then ks else p # ks"
    have pc: "pool_cells ?pos (p # ks) = cs @ pool_cells ?pos ks" "pool_cells ?pos (p # ps) = cs @ pool_cells ?pos ps"
      using False ks(3) by (simp_all add: cs_def)
    have none: "\<not> flagged s a" if "drop_p" "a \<in> set cs" for a
      using that sw(2) by (auto simp: drop_p_def filter_empty_conv)
    have mem: "pool_memory p \<notin> pool_memory ` set ks" using Cons.prems(1) ks(5) by auto
    show ?thesis
    proof (intro exI [of _ ?ks] conjI ballI impI)
      show "swept (set (pool_cells ?pos (p # ps))) s s'" by (rule all)
      show "bddtable_free s' = bddtable_free s @ filter (\<lambda>a. \<not> flagged s a) (pool_cells ?pos ?ks)"
        using free by (simp add: pc(1) del: pool_cells.simps)
      show "set (pool_cells ?pos ?ks) \<subseteq> set (pool_cells ?pos (p # ps))"
        using ks(8) by (auto simp: pc simp del: pool_cells.simps)
      show "a \<in> set (pool_cells ?pos ?ks)" if "a \<in> set (pool_cells ?pos (p # ps))" "flagged s a" for a
        using that none ks(9) same2 by (cases "a \<in> set cs") (auto simp: pc simp del: pool_cells.simps)
    qed (use ks(2-6) False mem in auto)
  qed
qed simp

section \<open>The collector keeps the table\<close>

text \<open>The table after a collection that has flagged \<open>A\<close>.\<close>

definition collected :: "addr set \<Rightarrow> bddtab \<Rightarrow> bddtab \<Rightarrow> bool" where
  "collected A s s' \<longleftrightarrow> same_globals s s' \<and>
     (\<forall>a. store s' a = (if a \<notin> cells s then store s a else if a \<in> A then (store s a)\<lparr>bn_flag := 0\<rparr> else zero_node)) \<and>
     (\<forall>h. set (bddtable_hash_memory s' h) = {a \<in> A. hash_of s a = h}) \<and>
     bddmemory s' \<noteq> [] \<and> last (bddmemory s') = last (bddmemory s) \<and> set (bddmemory s') \<subseteq> set (bddmemory s) \<and>
     distinct (map pool_memory (bddmemory s')) \<and> A \<subseteq> cells s' \<and> cells s' \<subseteq> cells s \<and>
     distinct (bddtable_free s') \<and> set (bddtable_free s') = cells s' - A"

lemma same_globals_cells: "same_globals s s' \<Longrightarrow> cells s' = set (pool_cells (curBDDPos s) (bddmemory s'))"
  by (simp add: cells_eq same_globals_def)

lemma sweep_collects:
  assumes ok: "alloc_ok s" and A: "A \<subseteq> cells s" and flags: "\<And>a. bn_flag (store s a) \<noteq> 1001001001"
    and s1: "s1 = (flag_all A s)\<lparr>bddtable_hash_memory := (\<lambda>_. []), bddtable_free := []\<rparr>"
    and run: "sweep_pools [] (bddmemory s1) (0, s1) = (used, s2)"
  shows "collected A s s2"
proof -
  have f: "flagged s1 a \<longleftrightarrow> a \<in> A" for a using flags by (simp add: flagged_def s1 flag_all_def)
  have s1': "bddmemory s1 = bddmemory s" "curBDDPos s1 = curBDDPos s" "bddtable_free s1 = []" "hash_of s1 = hash_of s"
    and glob: "same_globals s s1"
    by (auto simp: s1 flag_all_def hash_of_def fun_eq_iff same_globals_def bddtable_hash_fn_def)
  obtain ks where ks: "swept (cells s) s1 s2" "bddmemory s2 = ks" "ks \<noteq> []"
      "last ks = last (bddmemory s)" "set ks \<subseteq> set (bddmemory s)" "distinct (map pool_memory ks)"
      "bddtable_free s2 = filter (\<lambda>a. a \<notin> A) (pool_cells (curBDDPos s) ks)"
      "set (pool_cells (curBDDPos s) ks) \<subseteq> cells s" "\<forall>a \<in> cells s. a \<in> A \<longrightarrow> a \<in> set (pool_cells (curBDDPos s) ks)"
    using sweep_pools_ok [OF _ _ run] ok by (auto simp: s1' f cells_eq alloc_ok_def)
  have g: "same_globals s s2" using ks(1) glob by (simp add: swept_def same_globals_def)
  note cells = same_globals_cells [OF g, unfolded ks(2)]
  have "store s2 a = (if a \<notin> cells s then store s a else if a \<in> A then (store s a)\<lparr>bn_flag := 0\<rparr> else zero_node)" for a
    using ks(1) A by (auto simp: swept_def f) (auto simp: s1 flag_all_def)
  moreover have "set (bddtable_hash_memory s2 h) = {a \<in> A. hash_of s a = h}" for h
    using ks(1) A by (auto simp: swept_def f s1'(4)) (auto simp: s1)
  ultimately show ?thesis
    using g ks cells A distinct_pool_cells [OF ks(6)] unfolding collected_def by auto
qed

lemma collectedD:
  assumes c: "collected (reach s R) s s'" and inv: "bddtable_inv s"
    and R: "{false_ptr s, true_ptr s} \<subseteq> R" "R \<subseteq> live s"
  shows "live s' = reach s R" "nodes s' = reach s R - {false_ptr s, true_ptr s}"
    and "a \<in> reach s R \<Longrightarrow> store s' a = (store s a)\<lparr>bn_flag := 0\<rparr>"
    and "a \<in> reach s R \<Longrightarrow> repr s a t \<Longrightarrow> repr s' a t"
proof -
  have glob: "false_ptr s' = false_ptr s" "true_ptr s' = true_ptr s" using c by (simp_all add: collected_def same_globals_def)
  have chains: "(\<Union>h. set (bddtable_hash_memory s' h)) = reach s R" using c by (auto simp: collected_def)
  show nodes: "nodes s' = reach s R - {false_ptr s, true_ptr s}" unfolding nodes_def chains glob by (rule refl)
  then show "live s' = reach s R" using R(1) by (auto simp: live_def glob intro: reach.root)
  have sub: "reach s R \<subseteq> cells s" using reach_live [OF inv R(2)] inv by (auto simp: bddtable_inv_def alloc_ok_def)
  then show st: "store s' a = (store s a)\<lparr>bn_flag := 0\<rparr>" if "a \<in> reach s R" for a
    using c that by (auto simp: collected_def)
  show "repr s' a t" if "a \<in> reach s R" "repr s a t"
    using that(2,1)
  proof (induction rule: repr.induct)
    case repr_false
    show ?case using repr.repr_false [of s'] by (simp add: glob)
  next
    case repr_true
    show ?case using repr.repr_true [of s'] by (simp add: glob)
  next
    case (repr_node a v t e)
    then have "a \<in> nodes s'" using nodes_not_const [OF repr_node(1)] by (simp add: nodes)
    then show ?case using repr_node st [of a]
      by (intro repr.repr_node) (auto intro: reach.intros)
  qed
qed

lemma collected_inv:
  assumes c: "collected (reach s R) s s'" and inv: "bddtable_inv s"
    and R: "{false_ptr s, true_ptr s} \<subseteq> R" "R \<subseteq> live s"
  shows "bddtable_inv s'"
proof -
  note D = collectedD [OF assms]
  have glob: "same_globals s s'" using c by (simp add: collected_def)
  have live: "reach s R \<subseteq> live s" by (rule reach_live [OF inv R(2)])
  have TF: "false_ptr s \<in> reach s R" "true_ptr s \<in> reach s R" using R(1) by (auto intro: reach.root)
  have node: "a \<in> nodes s" if "a \<in> nodes s'" for a using that live by (auto simp: D(2) live_def)
  have alloc: "alloc_ok s'"
    using c inv D(1) unfolding collected_def alloc_ok_def bddtable_inv_def same_globals_def by auto
  moreover have "consts_ok s'"
    using inv glob TF by (auto simp: bddtable_inv_def consts_ok_def same_globals_def D(3))
  moreover have "table_ok s'"
    unfolding table_ok_def
  proof (intro conjI allI ballI impI)
    fix h a assume "a \<in> set (bddtable_hash_memory s' h)"
    then have "a \<in> reach s R" "hash_of s a = h" using c by (auto simp: collected_def)
    then show "h = bddtable_hash_fn s' (bn_variable (store s' a)) (bn_thenCase (store s' a)) (bn_elseCase (store s' a))"
      using glob by (simp add: D(3) hash_of_def same_globals_def)
  next
    fix a b assume a: "a \<in> nodes s'" and b: "b \<in> nodes s'"
      and m: "bn_match s' (bn_variable (store s' a)) (bn_thenCase (store s' a)) (bn_elseCase (store s' a)) b"
    then have "a \<in> reach s R" "b \<in> reach s R" by (simp_all add: D(2))
    then have "bn_match s (bn_variable (store s a)) (bn_thenCase (store s a)) (bn_elseCase (store s a)) b"
      using m by (simp add: bn_match_def D(3))
    then show "b = a" using inv node [OF a] node [OF b] unfolding bddtable_inv_def table_ok_def by blast
  next
    fix a assume a: "a \<in> nodes s'"
    then have r: "a \<in> reach s R" by (simp add: D(2))
    note sons = sons_in_reach [OF r node [OF a], unfolded sons_in_def]
    have "not_linked s a" using inv node [OF a] by (simp add: bddtable_inv_def table_ok_def)
    moreover have "bn_notCase (store s a) \<in> nodes s'"
      using nodes_sons_live(3) [OF inv node [OF a]] sons nodes_not_const by (auto simp: D(2))
    ultimately show "not_linked s' a" using r sons by (simp add: not_linked_def Let_def D(3))
  next
    fix a assume "a \<in> live s'"
    then have r: "a \<in> reach s R" by (simp add: D(1))
    then obtain t where t: "repr s a t" using repr_ex [OF inv] live by blast
    then have "bn_inferences (store s' a) = inferences (DO_EQUIVALENCES s') t"
      using repr_inferences [OF inv t] r glob by (simp add: D(3) same_globals_def)
    then show "\<exists>t. repr s' a t \<and> bn_inferences (store s' a) = inferences (DO_EQUIVALENCES s') t"
      using D(4) [OF r t] by blast
  qed
  ultimately show ?thesis by (simp add: bddtable_inv_def)
qed

text \<open>The flags that the functions and the constants get are those of the cells they reach.\<close>

definition gc_roots :: "bddtab \<Rightarrow> addr list \<Rightarrow> addr list \<Rightarrow> addr set" where
  "gc_roots s fs ofs = {false_ptr s, true_ptr s} \<union> set fs \<union> set ofs"

lemma flag_functions_reach:
  assumes inv: "bddtable_inv s" and flags: "\<And>a. bn_flag (store s a) \<noteq> 1001001001"
    and fs: "set fs \<subseteq> live s" "set ofs \<subseteq> live s"
  shows "\<exists>s1. flag_functions fs (flag_all {false_ptr s, true_ptr s} s) = Some s1 \<and>
    flag_functions ofs s1 = Some (flag_all (reach s (gc_roots s fs ofs)) s)"
proof -
  let ?C = "{false_ptr s, true_ptr s}" and ?R = "gc_roots s fs ofs"
  obtain M where M: "flag_functions fs (flag_all ?C s) = Some (flag_all (?C \<union> M) s)" "flags_added s (set fs) ?C M"
    using flag_functions_ok [OF inv flags subset_refl fs(1)] by blast
  obtain N where N: "flag_functions ofs (flag_all (?C \<union> M) s) = Some (flag_all (?C \<union> M \<union> N) s)"
      "flags_added s (set ofs) (?C \<union> M) N"
    using flag_functions_ok [OF inv flags Un_upper1 fs(2)] by blast
  note MD = flags_addedD [OF M(2)] and ND = flags_addedD [OF N(2)]
  let ?A = "?C \<union> M \<union> N"
  have "?R \<subseteq> reach s ?R" by (auto intro: reach.root)
  then have "set fs \<subseteq> reach s ?R" "set ofs \<subseteq> reach s ?R" "?C \<subseteq> reach s ?R"
    unfolding gc_roots_def by simp_all
  then have "reach s (set fs) \<subseteq> reach s ?R" "reach s (set ofs) \<subseteq> reach s ?R" "?C \<subseteq> reach s ?R"
    using reach_mono by simp_all
  then have "?A \<subseteq> reach s ?R" using MD(2) ND(2) by blast
  moreover have "sons_in s x ?A" if "x \<in> ?A" "x \<in> nodes s" for x
  proof -
    have "x \<in> M \<or> x \<in> N" using that nodes_not_const by blast
    then show ?thesis using sons_in_mono [OF MD(3)] ND(3) by blast
  qed
  then have "reach s ?R \<subseteq> ?A"
    using MD(1) ND(1) by (intro subsetI) (erule reach_least, auto simp: gc_roots_def)
  ultimately have "reach s ?R = ?A" by blast
  then show ?thesis using M(1) N(1) by simp
qed

text \<open>
  The collection as a whole: when it runs, it leaves exactly what the functions reach, each diagram
  at its address; every other cell of the pools is zero and free, and no computed result is left.
\<close>

lemma set_flag_simps [simp]:
  "true_ptr (set_flag a k s) = true_ptr s" "false_ptr (set_flag a k s) = false_ptr s"
  "bddtable_free (set_flag a k s) = bddtable_free s" "nodes (set_flag a k s) = nodes s"
  by (simp_all add: set_flag_def)

lemma set_flag_same: "bn_flag (store s a) = k \<Longrightarrow> set_flag a k s = s"
proof -
  assume "bn_flag (store s a) = k"
  then have "(store s a)\<lparr>bn_flag := k\<rparr> = store s a" by (cases "store s a") simp
  then have "(store s)(a := (store s a)\<lparr>bn_flag := k\<rparr>) = store s" by (rule fun_upd_idem [OF sym])
  then show ?thesis by (simp add: set_flag_def)
qed

lemma bddtable_gc_ok:
  assumes inv: "bddtable_inv (tab g)" and flags: "\<And>a. bn_flag (store (tab g) a) \<noteq> 1001001001"
    and fs: "set fs \<subseteq> live (tab g)" "set ofs \<subseteq> live (tab g)" and runs: "\<not> gc_declines force g"
  shows "\<exists>g'. bddtable_gc force fs ofs g = Some g' \<and>
    collected (reach (tab g) (gc_roots (tab g) fs ofs)) (tab g) (tab g') \<and>
    enable_gc g' = enable_gc g \<and> (\<forall>v r e. itetable_lookup (computed g') v r e = None)"
proof -
  let ?s = "tab g" and ?R = "gc_roots (tab g) fs ofs"
  have TF: "{false_ptr ?s, true_ptr ?s} \<subseteq> ?R" "?R \<subseteq> live ?s" using fs by (auto simp: gc_roots_def live_def)
  obtain s1 where s1: "flag_functions fs (flag_all {false_ptr ?s, true_ptr ?s} ?s) = Some s1"
      "flag_functions ofs s1 = Some (flag_all (reach ?s ?R) ?s)"
    using flag_functions_reach [OF inv flags fs] by blast
  define s2 where "s2 = (flag_all (reach ?s ?R) ?s)\<lparr>bddtable_hash_memory := (\<lambda>_. []), bddtable_free := []\<rparr>"
  have m: "bddmemory (flag_all (reach ?s ?R) ?s) = bddmemory s2" by (simp add: s2_def)
  obtain used s3 where s3: "sweep_pools [] (bddmemory s2) (0, s2) = (used, s3)" by fastforce
  have c: "collected (reach ?s ?R) ?s s3"
    using sweep_collects [OF _ _ flags s2_def s3] reach_live [OF inv TF(2)] inv
    by (auto simp: bddtable_inv_def alloc_ok_def)
  have "set_flag a 0 s3 = s3" if "a \<in> {false_ptr ?s, true_ptr ?s}" for a
    by (rule set_flag_same) (use collectedD(3) [OF c inv TF, of a] that TF(1) in \<open>auto simp: reach.root\<close>)
  moreover have "false_ptr s3 = false_ptr ?s" "true_ptr s3 = true_ptr ?s"
    using c by (simp_all add: collected_def same_globals_def)
  moreover have "set_flag (false_ptr ?s) 1001001001 (set_flag (true_ptr ?s) 1001001001 ?s) =
      flag_all {false_ptr ?s, true_ptr ?s} ?s"
    by (auto simp: set_flag_def flag_all_def fun_eq_iff)
  ultimately have "bddtable_gc force fs ofs g = Some (g\<lparr>tab := s3, computed := snd (run_state itetable_removeall (computed g)),
      bddtable_node_new_last := BDD_NODE_NEW g, bddtable_free_count_last := int (length (bddtable_free s3))\<rparr>)"
    using runs s1 s3 m by (simp add: bddtable_gc_def Let_def flip: s2_def)
  moreover have "itetable_lookup (snd (run_state itetable_removeall (computed g))) v r e = None" for v r e
    by (metis itetable_removeall_lookup prod.collapse)
  ultimately show ?thesis using c by simp
qed

section \<open>The tables that the program builds\<close>

text \<open>
  \<open>find_or_add_node\<close> with its counter of new nodes, and the steps of a run: a caller asks for a
  node above two different addresses of the table, a traversal marks a node (its numbers stop at
  1000000000), or the collector is called while \<open>functions[]\<close> and \<open>original_functions[]\<close> are in
  the table.
\<close>

definition counted_find_or_add :: "int \<Rightarrow> addr \<Rightarrow> addr \<Rightarrow> gcst \<Rightarrow> (addr \<times> gcst) option" where
  "counted_find_or_add v r e g =
     (case bddtable_find_or_add_node v r e (tab g) of
        None \<Rightarrow> None
      | Some (a, s) \<Rightarrow>
          let found = find_pos (bn_match (tab g) v r e) (bddtable_hash_memory (tab g) (bddtable_hash_fn (tab g) v r e))
          in Some (a, g\<lparr>tab := s, BDD_NODE_NEW := (if found = None then BDD_NODE_NEW g + 1 else BDD_NODE_NEW g)\<rparr>))"

definition table_start :: "(addr \<Rightarrow> int) \<Rightarrow> nat \<Rightarrow> nat \<Rightarrow> bool \<Rightarrow> itetable \<Rightarrow> bool \<Rightarrow> gcst" where
  "table_start addr bits poolsize d T gc =
     \<lparr>tab = bdd_init (bddtab0 addr bits poolsize d), computed = T, enable_gc = gc, BDD_NODE_NEW = 0,
      bddtable_node_new_last = 0, bddtable_free_count_last = 0\<rparr>"

inductive table_step :: "gcst \<Rightarrow> gcst \<Rightarrow> bool" where
  find: "r \<in> live (tab g) \<Longrightarrow> e \<in> live (tab g) \<Longrightarrow> r \<noteq> e \<Longrightarrow> 0 < v \<Longrightarrow>
    bn_variable (store (tab g) r) < v \<Longrightarrow> bn_variable (store (tab g) e) < v \<Longrightarrow>
    counted_find_or_add v r e g = Some (a, g') \<Longrightarrow> table_step g g'"
| mark: "a \<in> live (tab g) \<Longrightarrow> k \<le> 1000000000 \<Longrightarrow> table_step g (g\<lparr>tab := set_flag a k (tab g)\<rparr>)"
| collect: "set fs \<subseteq> live (tab g) \<Longrightarrow> set ofs \<subseteq> live (tab g) \<Longrightarrow>
    bddtable_gc force fs ofs g = Some g' \<Longrightarrow> table_step g g'"

inductive_cases table_stepE: "table_step g g'"

definition run_inv :: "gcst \<Rightarrow> bool" where
  "run_inv g \<longleftrightarrow> bddtable_inv (tab g) \<and> (\<forall>a. bn_flag (store (tab g) a) \<le> 1000000000) \<and>
     (\<forall>a t. repr (tab g) a t \<longrightarrow> robdd t)"

lemma run_inv_start: "run_inv (table_start addr bits poolsize d T gc)"
proof -
  let ?s = "bdd_init (bddtab0 addr bits poolsize d)"
  have "nodes ?s = {}" by (simp add: nodes_def bdd_init_fields)
  then have "robdd t" if "repr ?s a t" for a t by - (rule repr.cases [OF that], simp_all)
  moreover have "bn_flag (store ?s a) \<le> 1000000000" for a
    by (simp add: bdd_init_def bddtab0_def bddtable_alloc_pool_def Let_def zero_node_def NULL_def)
  ultimately show ?thesis by (simp add: run_inv_def table_start_def bdd_init_inv)
qed

lemma alloc_node_flags:
  assumes "bddtable_alloc_node v r e s = (a, s')" "\<forall>a. bn_flag (store s a) \<le> k" "0 \<le> k"
  shows "\<forall>a. bn_flag (store s' a) \<le> k"
  using assms by (auto simp: bddtable_alloc_node_def bddtable_alloc_cell_def bddtable_alloc_pool_def zero_node_def
      Let_def split: list.splits if_splits prod.splits)

lemma find_or_add_flags:
  assumes "bddtable_find_or_add_node v r e s = Some (a, s')" "\<forall>a. bn_flag (store s a) \<le> k" "0 \<le> k"
  shows "\<forall>a. bn_flag (store s' a) \<le> k"
  using assms
  by (auto simp: bddtable_find_or_add_node_def bddtable_alloc_not_node_def Let_def
      dest!: alloc_node_flags split: option.splits if_splits prod.splits)

lemma repr_set_flag [simp]: "repr (set_flag a k s) b t = repr s b t"
proof
  show "repr (set_flag a k s) b t" if "repr s b t" using that by (rule repr_frame) (auto simp: set_flag_def)
  show "repr s b t" if "repr (set_flag a k s) b t" using that by (rule repr_frame) (auto simp: set_flag_def)
qed

lemma bddtable_inv_set_flag: "bddtable_inv s \<Longrightarrow> bddtable_inv (set_flag a k s)"
proof -
  assume inv: "bddtable_inv s"
  have f: "bn_variable (store (set_flag a k s) b) = bn_variable (store s b)"
    "bn_thenCase (store (set_flag a k s) b) = bn_thenCase (store s b)"
    "bn_elseCase (store (set_flag a k s) b) = bn_elseCase (store s b)"
    "bn_notCase (store (set_flag a k s) b) = bn_notCase (store s b)"
    "bn_inferences (store (set_flag a k s) b) = bn_inferences (store s b)" for b by (simp_all add: set_flag_def)
  have g: "bddtable_hash_memory (set_flag a k s) = bddtable_hash_memory s" "alloc_ok (set_flag a k s) = alloc_ok s"
    "live (set_flag a k s) = live s" "DO_EQUIVALENCES (set_flag a k s) = DO_EQUIVALENCES s"
    "bddtable_hash_fn (set_flag a k s) = bddtable_hash_fn s" by (simp_all add: set_flag_def)
  show ?thesis
    using inv by (simp add: bddtable_inv_def consts_ok_def table_ok_def not_linked_def bn_match_def Let_def f g)
qed

text \<open>Whatever an address of the new table stands for is a reduced node over the old diagrams or its complement.\<close>

lemma find_or_add_robdd:
  assumes inv: "bddtable_inv s" and all: "\<forall>a t. repr s a t \<longrightarrow> robdd t"
    and re: "repr s r t" "repr s e u" "r \<noteq> e" and n: "0 < n" "variable t < int n" "variable u < int n"
    and run: "bddtable_find_or_add_node (int n) r e s = Some (a, s')" and c: "repr s' c w"
  shows "robdd w"
proof -
  have "t \<noteq> u" using repr_inj [OF inv] re by blast
  then have new: "robdd (Node n t u)" using n all re by auto
  have inv': "bddtable_inv s'" and fr: "\<forall>c w. repr s c w \<longrightarrow> repr s' c w" and a: "repr s' a (Node n t u)"
    using find_or_add_refines [OF inv n(1) re(1,2)] n run by auto
  have "c \<in> live s \<or> c = a \<or> c = bn_notCase (store s' a)"
    using repr_live [OF c] find_or_add_fields(3) [OF inv n(1) re(1,2) _ _ run] n by auto
  then show ?thesis
  proof (elim disjE)
    assume "c \<in> live s"
    then obtain x where "repr s c x" using repr_ex [OF inv] by blast
    then show ?thesis using all fr repr_fun [OF inv' c] by blast
  next
    assume "c = a"
    then show ?thesis using new repr_fun [OF inv' c, of "Node n t u"] a by simp
  next
    assume "c = bn_notCase (store s' a)"
    then show ?thesis using new repr_fun [OF inv' c, of "notCase (Node n t u)"] repr_notCase [OF inv' a] by simp
  qed
qed

lemma step_find:
  assumes inv: "run_inv g" and re: "r \<in> live (tab g)" "e \<in> live (tab g)" "r \<noteq> e" and v: "0 < v"
    "bn_variable (store (tab g) r) < v" "bn_variable (store (tab g) e) < v"
    and run: "counted_find_or_add v r e g = Some (a, g')"
  shows "run_inv g'"
proof -
  have tab: "bddtable_inv (tab g)" using inv by (simp add: run_inv_def)
  obtain t u where tu: "repr (tab g) r t" "repr (tab g) e u" using repr_ex [OF tab] re by blast
  obtain n where n: "v = int n" "0 < n" using v(1) by (metis zero_less_imp_eq_int)
  have vs: "variable t < int n" "variable u < int n"
    using v n repr_variable [OF tab] tu by auto
  have find: "bddtable_find_or_add_node (int n) r e (tab g) = Some (a, tab g')"
    using run n by (auto simp: counted_find_or_add_def Let_def split: option.splits)
  have "bddtable_inv (tab g')" using find_or_add_refines [OF tab n(2) tu] vs find by auto
  moreover have "\<forall>a. bn_flag (store (tab g') a) \<le> 1000000000"
    using find_or_add_flags [OF find] inv by (simp add: run_inv_def)
  moreover have "\<forall>c w. repr (tab g') c w \<longrightarrow> robdd w"
    using find_or_add_robdd [OF tab _ tu re(3) n(2) vs find] inv by (auto simp: run_inv_def)
  ultimately show ?thesis by (simp add: run_inv_def)
qed

lemma step_collect:
  assumes inv: "run_inv g" and fs: "set fs \<subseteq> live (tab g)" "set ofs \<subseteq> live (tab g)"
    and run: "bddtable_gc force fs ofs g = Some g'"
  shows "run_inv g'"
proof (cases "gc_declines force g")
  case True
  then show ?thesis using run inv by (simp add: bddtable_gc_def)
next
  case False
  let ?R = "gc_roots (tab g) fs ofs"
  have tab: "bddtable_inv (tab g)" and low: "\<forall>a. bn_flag (store (tab g) a) \<le> 1000000000"
    using inv by (simp_all add: run_inv_def)
  have "bn_flag (store (tab g) a) \<noteq> 1001001001" for a using low [rule_format, of a] by simp
  then have c: "collected (reach (tab g) ?R) (tab g) (tab g')"
    using bddtable_gc_ok [OF tab _ fs False] run by auto
  have R: "{false_ptr (tab g), true_ptr (tab g)} \<subseteq> ?R" "?R \<subseteq> live (tab g)"
    using fs by (auto simp: gc_roots_def live_def)
  have "bn_flag (store (tab g') a) \<le> 1000000000" for a
    using c low by (auto simp: collected_def zero_node_def)
  moreover have "robdd t" if t: "repr (tab g') a t" for a t
  proof -
    have a: "a \<in> reach (tab g) ?R" using repr_live [OF t] collectedD(1) [OF c tab R] by simp
    then obtain u where u: "repr (tab g) a u" using repr_ex [OF tab] reach_live [OF tab R(2)] by blast
    then have "u = t" using collectedD(4) [OF c tab R a] repr_fun [OF collected_inv [OF c tab R] t] by blast
    then show ?thesis using u inv by (auto simp: run_inv_def)
  qed
  ultimately show ?thesis using collected_inv [OF c tab R] by (simp add: run_inv_def)
qed

lemma step_inv: "table_step g g' \<Longrightarrow> run_inv g \<Longrightarrow> run_inv g'"
proof (induction rule: table_step.induct)
  case (mark a g k)
  then show ?case by (simp add: run_inv_def bddtable_inv_set_flag) (simp add: set_flag_def)
qed (blast intro: step_find step_collect)+

lemma run_reachable: "table_step\<^sup>*\<^sup>* (table_start addr bits poolsize d T gc) g \<Longrightarrow> run_inv g"
  by (induction rule: rtranclp_induct) (auto intro: run_inv_start step_inv)

end
