(* ===== verification/Equivclass.thy ===== *)
theory Equivclass
  imports Prelude
begin

text \<open>
  The equivalence classes of preproc/equivclass.cc: inverted trees over the variables and the two
  constants, with a "super" node for each pair of classes of opposite value. \<open>insertEquiv\<close> and
  \<open>insertOppos\<close> join classes; their results name the smallest variables of the joined classes,
  which is how the preprocessor learns which variable replaces which. The linear equations that the
  same class keeps when \<open>ge_preproc\<close> is set are not modelled.
\<close>

section \<open>The arrays\<close>

record equiv =
  no_inp_vars :: int
  Tr :: int
  Fa :: int
  equiv_idx :: int
  equiv_fwd :: "int \<Rightarrow> int"
  equiv_cnt :: "int \<Rightarrow> int"
  equiv_min :: "int \<Rightarrow> int"
  equiv_bck :: "int \<Rightarrow> int"
  equiv_end :: "int \<Rightarrow> int"
  equiv_rgt :: "int \<Rightarrow> int"
  equiv_lft :: "int \<Rightarrow> int"

text \<open>
  The constructor: the start values of the fields, and its two error exits, which are None. The
  layout of the one memory frame that holds all arrays is not modelled.
\<close>

definition equiv_start :: "int \<Rightarrow> int \<Rightarrow> int \<Rightarrow> equiv" where
  "equiv_start inp tru fls = \<lparr>no_inp_vars = inp, Tr = tru, Fa = fls, equiv_idx = 3,
        equiv_fwd = (\<lambda>_. -1)(tru := -2, fls := -2),
        equiv_cnt = (\<lambda>_. 1), equiv_min = (\<lambda>i. i), equiv_bck = (\<lambda>_. -1), equiv_end = (\<lambda>i. i),
        equiv_rgt = (\<lambda>_. -1)(2 := tru), equiv_lft = (\<lambda>_. -1)(2 := fls)\<rparr>"

definition Equiv :: "int \<Rightarrow> int \<Rightarrow> int \<Rightarrow> equiv option" where
  "Equiv inp tru fls =
     (if inp \<ge> tru \<or> inp \<ge> fls then None
      else if tru = fls then None
      else Some (equiv_start inp tru fls))"

text \<open>
  The loop \<open>for (a=x; equiv_fwd[a] >= 0; a=equiv_fwd[a]) xlist[xidx++] = a;\<close>: the root and the
  variables on the way to it.
\<close>

partial_function (option) find_root :: "(int \<Rightarrow> int) \<Rightarrow> int \<Rightarrow> (int \<times> int list) option" where
  "find_root f x =
     (if f x \<ge> 0 then do { (a, xlist) \<leftarrow> find_root f (f x); Some (a, x # xlist) }
      else Some (x, []))"

definition get_equiv :: "int \<Rightarrow> equiv \<Rightarrow> int option" where
  "get_equiv x e = do { (a, _) \<leftarrow> find_root (equiv_fwd e) x; Some (equiv_min e a) }"

text \<open>Joining the tree of \<open>auxx\<close> to the one of \<open>root\<close>, the same lines in all cases.\<close>

definition join_trees :: "int \<Rightarrow> int \<Rightarrow> equiv \<Rightarrow> equiv" where
  "join_trees root auxx e = e
     \<lparr>equiv_bck := (if equiv_bck e root = -1 then (equiv_bck e)(root := auxx)
                   else (equiv_bck e)(equiv_end e root := auxx)),
      equiv_end := (equiv_end e)(root := equiv_end e auxx),
      equiv_cnt := (equiv_cnt e)(root := equiv_cnt e root + equiv_cnt e auxx),
      equiv_min :=
        (if (equiv_min e root < no_inp_vars e \<and> equiv_min e auxx < equiv_min e root) \<or>
            equiv_min e auxx \<ge> no_inp_vars e
         then (equiv_min e)(root := equiv_min e auxx) else equiv_min e),
      equiv_fwd := (equiv_fwd e)(auxx := root)\<rparr>"

text \<open>The path compression at the end.\<close>

definition set_fwd :: "int list \<Rightarrow> int \<Rightarrow> equiv \<Rightarrow> equiv" where
  "set_fwd xlist root e = e\<lparr>equiv_fwd := foldl (\<lambda>f x. f(x := root)) (equiv_fwd e) xlist\<rparr>"

text \<open>
  The smallest variable of the class of the root \<open>a\<close>, or of the opposite class, then with a minus;
  a class with a constant has the constant as its smallest variable.
\<close>

definition signed_min :: "equiv \<Rightarrow> int \<Rightarrow> int" where
  "signed_min e a =
     (let lft = equiv_min e a; s = - equiv_fwd e a in
      if equiv_fwd e a \<le> -2 \<and> lft < no_inp_vars e then
        (if equiv_lft e s = a then
           (let tmp = equiv_min e (equiv_rgt e s) in if tmp < lft then - tmp else lft)
         else (let tmp = equiv_min e (equiv_lft e s) in if tmp < lft then - tmp else lft))
      else lft)"

definition opposite_root :: "equiv \<Rightarrow> int \<Rightarrow> int \<Rightarrow> int" where
  "opposite_root e s a = (if equiv_rgt e s = a then equiv_lft e s else equiv_rgt e s)"

text \<open>
  Joining the tree of \<open>auxx\<close> to \<open>root\<close> and straightening out the opposite classes: nothing when
  \<open>auxx\<close> has no super node; the super node of \<open>auxx\<close> when \<open>root\<close> has none; else the opposite
  classes are joined and the super node of \<open>root\<close> stays.
\<close>

definition join_equiv :: "int \<Rightarrow> int \<Rightarrow> equiv \<Rightarrow> equiv" where
  "join_equiv root auxx e =
     (let auxx_super = - equiv_fwd e auxx; root_super = - equiv_fwd e root;
          e = join_trees root auxx e
      in if auxx_super > 1 then
           (if root_super = 1 then
              (if equiv_lft e auxx_super = auxx
               then e\<lparr>equiv_lft := (equiv_lft e)(auxx_super := root),
                      equiv_fwd := (equiv_fwd e)(root := - auxx_super)\<rparr>
               else e\<lparr>equiv_rgt := (equiv_rgt e)(auxx_super := root),
                      equiv_fwd := (equiv_fwd e)(root := - auxx_super)\<rparr>)
            else if root_super > 1 then
              (let auxx_opp = (if equiv_lft e auxx_super = auxx then equiv_rgt e auxx_super
                               else equiv_lft e auxx_super);
                   root_opp = (if equiv_lft e root_super = root then equiv_rgt e root_super
                               else equiv_lft e root_super)
               in if equiv_cnt e auxx_opp < equiv_cnt e root_opp then
                    (let e = join_trees root_opp auxx_opp e
                     in e\<lparr>equiv_fwd := (equiv_fwd e)(root_opp := - root_super)\<rparr>)
                  else
                    (let e = join_trees auxx_opp root_opp e;
                         e = e\<lparr>equiv_fwd := (equiv_fwd e)(auxx_opp := - root_super)\<rparr>
                     in if equiv_rgt e root_super = root
                        then e\<lparr>equiv_lft := (equiv_lft e)(root_super := auxx_opp)\<rparr>
                        else e\<lparr>equiv_rgt := (equiv_rgt e)(root_super := auxx_opp)\<rparr>))
            else e)
         else e)"

definition insertEquiv :: "int \<Rightarrow> int \<Rightarrow> equiv \<Rightarrow> ((int \<times> int) option \<times> equiv) option" where
  "insertEquiv x y e = do {
     (a, xlist) \<leftarrow> find_root (equiv_fwd e) x;
     (b, ylist) \<leftarrow> find_root (equiv_fwd e) y;
     if a \<noteq> b then
       (if \<not> (equiv_fwd e a = equiv_fwd e b \<and> equiv_fwd e a \<le> -2) then
          (let lft = signed_min e a; rgt = signed_min e b;
               (lft, rgt) = (if lft < 0 \<and> rgt < Tr e then (- lft, - rgt) else (lft, rgt));
               root = (if equiv_cnt e a < equiv_cnt e b then b else a);
               auxx = (if equiv_cnt e a < equiv_cnt e b then a else b)
           in Some (Some (lft, rgt), set_fwd ylist root (set_fwd xlist root (join_equiv root auxx e))))
        else Some (Some (Tr e, Fa e), e))
     else Some (None, e) }"

text \<open>
  The three ways to make two classes opposite: a new super node for two classes without one; the
  class \<open>b\<close> without a super node joins the opposite class of \<open>a\<close>; two joins across when both have
  one. The results name the new roots of the joined classes.
\<close>

definition pair_classes :: "int \<Rightarrow> int \<Rightarrow> equiv \<Rightarrow> equiv" where
  "pair_classes a b e =
     (let k = equiv_idx e in
      e\<lparr>equiv_lft := (equiv_lft e)(k := a), equiv_rgt := (equiv_rgt e)(k := b),
        equiv_fwd := (equiv_fwd e)(a := - k, b := - k), equiv_idx := k + 1\<rparr>)"

definition join_opposite :: "int \<Rightarrow> int \<Rightarrow> equiv \<Rightarrow> int \<times> equiv" where
  "join_opposite a b e =
     (let a_super = - equiv_fwd e a;
          r = opposite_root e a_super a;
          root = (if equiv_cnt e r < equiv_cnt e b then b else r);
          auxx = (if equiv_cnt e r < equiv_cnt e b then r else b);
          e = join_trees root auxx e;
          e = e\<lparr>equiv_fwd := (equiv_fwd e)(root := - a_super)\<rparr>
      in (root, if equiv_rgt e a_super = a
                then e\<lparr>equiv_lft := (equiv_lft e)(a_super := root)\<rparr>
                else e\<lparr>equiv_rgt := (equiv_rgt e)(a_super := root)\<rparr>))"

definition join_across :: "int \<Rightarrow> int \<Rightarrow> equiv \<Rightarrow> int \<times> int \<times> equiv" where
  "join_across a b e =
     (let a_super = - equiv_fwd e a; b_super = - equiv_fwd e b;
          rb = opposite_root e b_super b; ra = opposite_root e a_super a;
          root1 = (if equiv_cnt e rb < equiv_cnt e a then a else rb);
          auxx1 = (if equiv_cnt e rb < equiv_cnt e a then rb else a);
          e = join_trees root1 auxx1 e;
          root2 = (if equiv_cnt e ra < equiv_cnt e b then b else ra);
          auxx2 = (if equiv_cnt e ra < equiv_cnt e b then ra else b);
          e = join_trees root2 auxx2 e
      in (root1, root2, e\<lparr>equiv_fwd := (equiv_fwd e)(root1 := - a_super, root2 := - a_super),
                          equiv_rgt := (equiv_rgt e)(a_super := root1),
                          equiv_lft := (equiv_lft e)(a_super := root2)\<rparr>))"

definition insertOppos :: "int \<Rightarrow> int \<Rightarrow> equiv \<Rightarrow> ((int \<times> int) option \<times> equiv) option" where
  "insertOppos x y e = do {
     (a, xlist) \<leftarrow> find_root (equiv_fwd e) x;
     (b, ylist) \<leftarrow> find_root (equiv_fwd e) y;
     if a = b then Some (Some (Tr e, Fa e), e)
     else if equiv_fwd e a = equiv_fwd e b \<and> equiv_fwd e a \<le> -2 then Some (None, e)
     else
       (let lft = (if equiv_min e a < no_inp_vars e then - signed_min e a
                   else if equiv_min e a = Fa e then Tr e else - equiv_min e a);
            rgt = (if equiv_min e b < no_inp_vars e then - signed_min e b
                   else if equiv_min e b = Tr e then Fa e
                   else if equiv_min e b = Fa e then Tr e else - equiv_min e b);
            (lft, rgt) = (if lft < 0 \<and> rgt < Tr e then (- lft, - rgt) else (lft, rgt));
            a_super = - equiv_fwd e a; b_super = - equiv_fwd e b;
            e = (if a_super = 1 \<and> b_super = 1 then
                   set_fwd ylist b (set_fwd xlist a (pair_classes a b e))
                 else if a_super > 1 \<and> b_super = 1 then
                   (let (root, e) = join_opposite a b e in set_fwd ylist root (set_fwd xlist a e))
                 else if a_super = 1 \<and> b_super > 1 then
                   (let (root, e) = join_opposite b a e in set_fwd ylist b (set_fwd xlist root e))
                 else
                   (let (root1, root2, e) = join_across a b e
                    in set_fwd ylist root2 (set_fwd xlist root1 e)))
        in Some (Some (lft, rgt), e)) }"

text \<open>1 for equivalent, -1 for opposite, 0 for neither.\<close>

definition isEquiv :: "int \<Rightarrow> int \<Rightarrow> equiv \<Rightarrow> int option" where
  "isEquiv x y e =
     (if x < 0 \<or> y < 0 then Some 0
      else do {
        (a, _) \<leftarrow> find_root (equiv_fwd e) x;
        (b, _) \<leftarrow> find_root (equiv_fwd e) y;
        Some (if a = b then 1
              else if equiv_fwd e a = equiv_fwd e b \<and> equiv_fwd e a < -1 then -1 else 0) })"

section \<open>Roots\<close>

inductive rooted :: "(int \<Rightarrow> int) \<Rightarrow> int \<Rightarrow> int \<Rightarrow> bool" for f where
  rooted_root: "f a < 0 \<Longrightarrow> rooted f a a"
| rooted_step: "0 \<le> f x \<Longrightarrow> rooted f (f x) a \<Longrightarrow> rooted f x a"

lemma rooted_neg: "rooted f x a \<Longrightarrow> f a < 0"
  by (induction rule: rooted.induct)

lemma rooted_fun: "rooted f x a \<Longrightarrow> rooted f x b \<Longrightarrow> a = b"
proof (induction rule: rooted.induct)
  case (rooted_root a)
  from rooted_root.prems rooted_root.hyps show ?case by (cases rule: rooted.cases) auto
next
  case (rooted_step x a)
  from rooted_step.prems rooted_step.hyps rooted_step.IH show ?case by (cases rule: rooted.cases) auto
qed

lemma rooted_self_iff: "f a < 0 \<Longrightarrow> rooted f a b \<longleftrightarrow> b = a"
  using rooted_fun rooted_root by blast

lemma find_root_rooted:
  "rooted f x a \<Longrightarrow> \<exists>xs. find_root f x = Some (a, xs) \<and> (\<forall>z \<in> set xs. 0 \<le> f z \<and> rooted f z a)"
proof (induction rule: rooted.induct)
  case (rooted_root a)
  then show ?case by (subst find_root.simps) simp
next
  case (rooted_step x a)
  then show ?case by (subst find_root.simps) (auto intro: rooted.rooted_step)
qed

lemma rooted_stepI: "g x = y \<Longrightarrow> 0 \<le> y \<Longrightarrow> rooted g y a \<Longrightarrow> rooted g x a"
  by (rule rooted_step) simp_all

lemma rooted_join:
  assumes "rooted f x a" and r: "f r < 0" "f q < 0" "r \<noteq> q" "0 \<le> r"
  shows "rooted (f(q := r)) x (if a = q then r else a)"
  using assms(1)
proof (induction rule: rooted.induct)
  case (rooted_root a)
  have "rooted (f(q := r)) r r" by (rule rooted.rooted_root) (use r in simp)
  then have "rooted (f(q := r)) q r" by (rule rooted_stepI [where y = r, rotated 2]) (use r in simp_all)
  moreover have "rooted (f(q := r)) a a" if "a \<noteq> q"
    by (rule rooted.rooted_root) (use that rooted_root in simp)
  ultimately show ?case by (cases "a = q") (simp_all add: fun_upd_def)
next
  case (rooted_step x a)
  show ?case by (rule rooted_stepI [OF _ _ rooted_step.IH]) (use rooted_step.hyps r in auto)
qed

lemma rooted_neg_upd:
  assumes "rooted f x a" and r: "f r < 0" "k < 0" shows "rooted (f(r := k)) x a"
  using assms(1)
proof (induction rule: rooted.induct)
  case (rooted_root a)
  show ?case by (rule rooted.rooted_root) (use rooted_root r in simp)
next
  case (rooted_step x a)
  show ?case by (rule rooted_stepI [OF _ _ rooted_step.IH]) (use rooted_step.hyps r in auto)
qed

lemma rooted_compress:
  assumes "rooted f x b" and z: "rooted f z a" "0 \<le> f z" "0 \<le> a"
  shows "rooted (f(z := a)) x b"
  using assms(1)
proof (induction rule: rooted.induct)
  case (rooted_root b)
  show ?case by (rule rooted.rooted_root) (use rooted_root z in auto)
next
  case (rooted_step x b)
  have "rooted (f(z := a)) a a"
    by (rule rooted.rooted_root) (use rooted_neg [OF z(1)] z in auto)
  then have "rooted (f(z := a)) z a" by (rule rooted_stepI [where y = a, rotated 2]) (use z in simp_all)
  moreover have "b = a" if "x = z"
    using rooted_fun [OF rooted.rooted_step [OF rooted_step.hyps(1,2)]] z(1) that by blast
  moreover have "rooted (f(z := a)) x b" if "x \<noteq> z"
    by (rule rooted_stepI [OF _ _ rooted_step.IH]) (use rooted_step.hyps that in auto)
  ultimately show ?case by (cases "x = z") (simp_all add: fun_upd_def)
qed

text \<open>The root of a variable.\<close>

definition ro :: "equiv \<Rightarrow> int \<Rightarrow> int" where
  "ro e x = (THE a. rooted (equiv_fwd e) x a)"

lemma ro_eq: "rooted (equiv_fwd e) x a \<Longrightarrow> ro e x = a"
  unfolding ro_def using rooted_fun by blast

section \<open>The invariant\<close>

definition vars_of :: "equiv \<Rightarrow> int set" where
  "vars_of e = {1..<no_inp_vars e} \<union> {Tr e, Fa e}"

definition super_pair :: "equiv \<Rightarrow> int \<Rightarrow> int set" where
  "super_pair e s = {equiv_lft e s, equiv_rgt e s}"

definition super_ok :: "equiv \<Rightarrow> int \<Rightarrow> bool" where
  "super_ok e a \<longleftrightarrow> - equiv_fwd e a < equiv_idx e \<and>
     (\<exists>b \<in> vars_of e. b \<noteq> a \<and> equiv_fwd e b = equiv_fwd e a \<and> super_pair e (- equiv_fwd e a) = {a, b})"

definition min_ok :: "equiv \<Rightarrow> int \<Rightarrow> bool" where
  "min_ok e a \<longleftrightarrow> equiv_min e a \<in> vars_of e \<and> ro e (equiv_min e a) = a \<and>
     (no_inp_vars e \<le> equiv_min e a \<or>
      (\<forall>z \<in> vars_of e. ro e z = a \<longrightarrow> z < no_inp_vars e \<and> equiv_min e a \<le> z))"

definition equiv_inv :: "equiv \<Rightarrow> bool" where
  "equiv_inv e \<longleftrightarrow> 1 \<le> no_inp_vars e \<and> no_inp_vars e < Tr e \<and> no_inp_vars e < Fa e \<and> Tr e \<noteq> Fa e \<and>
     3 \<le> equiv_idx e \<and>
     (\<forall>x \<in> vars_of e. \<exists>a \<in> vars_of e. rooted (equiv_fwd e) x a) \<and>
     (\<forall>a \<in> vars_of e. equiv_fwd e a \<le> -2 \<longrightarrow> super_ok e a) \<and>
     (\<forall>a \<in> vars_of e. equiv_fwd e a < 0 \<longrightarrow> min_ok e a) \<and>
     ro e (Tr e) \<noteq> ro e (Fa e) \<and>
     equiv_fwd e (ro e (Tr e)) = equiv_fwd e (ro e (Fa e)) \<and> equiv_fwd e (ro e (Tr e)) \<le> -2"

text \<open>
  The assignments that the classes allow, and a key of each variable's class and its opposite
  together: the super node when there is one, else the root.
\<close>

definition models :: "equiv \<Rightarrow> (int \<Rightarrow> bool) set" where
  "models e = {v. v (Tr e) \<and> \<not> v (Fa e) \<and> (\<forall>z \<in> vars_of e. v z = v (ro e z)) \<and>
     (\<forall>a \<in> vars_of e. \<forall>b \<in> vars_of e.
        equiv_fwd e a \<le> -2 \<and> equiv_fwd e b = equiv_fwd e a \<and> a \<noteq> b \<longrightarrow> v a \<noteq> v b)}"

definition key :: "equiv \<Rightarrow> int \<Rightarrow> int" where
  "key e z = (if equiv_fwd e (ro e z) \<le> -2 then equiv_fwd e (ro e z) else ro e z)"

lemma inv_sizes:
  assumes "equiv_inv e"
  shows "1 \<le> no_inp_vars e" "no_inp_vars e < Tr e" "no_inp_vars e < Fa e" "Tr e \<noteq> Fa e" "3 \<le> equiv_idx e"
  using assms unfolding equiv_inv_def by blast+

lemma vars_pos: "equiv_inv e \<Longrightarrow> x \<in> vars_of e \<Longrightarrow> 0 < x"
  using inv_sizes [of e] by (auto simp: vars_of_def)

lemma inv_root:
  assumes "equiv_inv e" "x \<in> vars_of e"
  shows "ro e x \<in> vars_of e" "rooted (equiv_fwd e) x (ro e x)" "equiv_fwd e (ro e x) < 0"
    "ro e (ro e x) = ro e x"
proof -
  have "\<forall>x \<in> vars_of e. \<exists>a \<in> vars_of e. rooted (equiv_fwd e) x a"
    using assms(1) unfolding equiv_inv_def by blast
  then obtain a where a: "a \<in> vars_of e" "rooted (equiv_fwd e) x a" using assms(2) by blast
  then show "ro e x \<in> vars_of e" "rooted (equiv_fwd e) x (ro e x)" by (simp_all add: ro_eq)
  show "equiv_fwd e (ro e x) < 0" using a rooted_neg by (simp add: ro_eq)
  then show "ro e (ro e x) = ro e x" by (intro ro_eq rooted_root)
qed

lemma ro_self: "equiv_fwd e a < 0 \<Longrightarrow> ro e a = a"
  by (intro ro_eq rooted_root)

lemma find_root_ro:
  assumes "equiv_inv e" "x \<in> vars_of e"
  obtains xs where "find_root (equiv_fwd e) x = Some (ro e x, xs)"
    "\<forall>z \<in> set xs. 0 \<le> equiv_fwd e z \<and> rooted (equiv_fwd e) z (ro e x)"
  using find_root_rooted [OF inv_root(2) [OF assms]] by blast

lemma inv_super:
  assumes "equiv_inv e" "a \<in> vars_of e" "equiv_fwd e a \<le> -2"
  obtains b where "b \<in> vars_of e" "b \<noteq> a" "equiv_fwd e b = equiv_fwd e a"
    "super_pair e (- equiv_fwd e a) = {a, b}" "- equiv_fwd e a < equiv_idx e"
    "\<And>c. c \<in> vars_of e \<Longrightarrow> equiv_fwd e c = equiv_fwd e a \<Longrightarrow> c = a \<or> c = b"
proof -
  obtain b where b: "b \<in> vars_of e" "b \<noteq> a" "equiv_fwd e b = equiv_fwd e a"
      "super_pair e (- equiv_fwd e a) = {a, b}" "- equiv_fwd e a < equiv_idx e"
    using assms unfolding equiv_inv_def super_ok_def by blast
  moreover have "c = a \<or> c = b" if c: "c \<in> vars_of e" "equiv_fwd e c = equiv_fwd e a" for c
  proof -
    have "super_ok e c" using assms c by (simp add: equiv_inv_def)
    then have "c \<in> super_pair e (- equiv_fwd e a)" using c by (auto simp: super_ok_def)
    then show ?thesis using b(4) by simp
  qed
  ultimately show ?thesis using that by blast
qed

section \<open>Joining classes\<close>

definition same_frame :: "equiv \<Rightarrow> equiv \<Rightarrow> bool" where
  "same_frame e e' \<longleftrightarrow> no_inp_vars e' = no_inp_vars e \<and> Tr e' = Tr e \<and> Fa e' = Fa e"

lemma same_frame_vars: "same_frame e e' \<Longrightarrow> vars_of e' = vars_of e"
  by (simp add: same_frame_def vars_of_def)

definition is_root :: "equiv \<Rightarrow> int \<Rightarrow> bool" where
  "is_root e a \<longleftrightarrow> a \<in> vars_of e \<and> equiv_fwd e a < 0"

lemma is_rootD:
  assumes "equiv_inv e" "is_root e a"
  shows "a \<in> vars_of e" "equiv_fwd e a < 0" "ro e a = a" "0 < a" "min_ok e a"
  using assms ro_self vars_pos by (auto simp: is_root_def equiv_inv_def)

lemma is_root_ro: "equiv_inv e \<Longrightarrow> z \<in> vars_of e \<Longrightarrow> is_root e (ro e z)"
  using inv_root by (simp add: is_root_def)

lemma const_vars: "Tr e \<in> vars_of e" "Fa e \<in> vars_of e"
  by (simp_all add: vars_of_def)

lemma inv_consts:
  assumes "equiv_inv e"
  shows "ro e (Tr e) \<noteq> ro e (Fa e)" "equiv_fwd e (ro e (Tr e)) = equiv_fwd e (ro e (Fa e))"
    "equiv_fwd e (ro e (Tr e)) \<le> -2" "equiv_fwd e (ro e (Fa e)) \<le> -2"
  using assms unfolding equiv_inv_def by simp_all

text \<open>
  A step that moves the class of each root \<open>a\<close> under the root \<open>g a\<close> keeps the invariant when the
  super nodes and the smallest variables of the new roots are right.
\<close>

lemma merge_inv:
  assumes inv: "equiv_inv e" and fr: "same_frame e e'" and idx: "equiv_idx e \<le> equiv_idx e'"
    and ro': "\<And>z. z \<in> vars_of e \<Longrightarrow> rooted (equiv_fwd e') z (g (ro e z))"
    and g: "\<And>a. is_root e a \<Longrightarrow> g a \<in> vars_of e"
    and sup: "\<And>a. is_root e a \<Longrightarrow> equiv_fwd e' (g a) \<le> -2 \<Longrightarrow> super_ok e' (g a)"
    and mins: "\<And>a. is_root e a \<Longrightarrow> min_ok e' (g a)"
    and const: "g (ro e (Tr e)) \<noteq> g (ro e (Fa e))"
      "equiv_fwd e' (g (ro e (Tr e))) = equiv_fwd e' (g (ro e (Fa e)))" "equiv_fwd e' (g (ro e (Tr e))) \<le> -2"
  shows "equiv_inv e'"
proof -
  note v = same_frame_vars [OF fr]
  have r: "ro e' z = g (ro e z)" if "z \<in> vars_of e" for z using ro_eq [OF ro' [OF that]] .
  have img: "\<exists>b. is_root e b \<and> a = g b" if "a \<in> vars_of e" "equiv_fwd e' a < 0" for a
    using r [OF that(1)] ro_self [OF that(2)] is_root_ro [OF inv that(1)] by metis
  have "\<forall>x \<in> vars_of e'. \<exists>a \<in> vars_of e'. rooted (equiv_fwd e') x a"
    unfolding v using ro' g is_root_ro [OF inv] by blast
  moreover have "\<forall>a \<in> vars_of e'. equiv_fwd e' a \<le> -2 \<longrightarrow> super_ok e' a"
    "\<forall>a \<in> vars_of e'. equiv_fwd e' a < 0 \<longrightarrow> min_ok e' a"
    unfolding v using img sup mins by fastforce+
  moreover have "3 \<le> equiv_idx e'" using inv_sizes(5) [OF inv] idx by linarith
  moreover have "1 \<le> no_inp_vars e'" "no_inp_vars e' < Tr e'" "no_inp_vars e' < Fa e'" "Tr e' \<noteq> Fa e'"
    using inv_sizes [OF inv] fr by (simp_all add: same_frame_def)
  moreover have "ro e' (Tr e') = g (ro e (Tr e))" "ro e' (Fa e') = g (ro e (Fa e))"
    using fr r const_vars by (simp_all add: same_frame_def)
  ultimately show ?thesis using const unfolding equiv_inv_def by simp
qed

definition jmin :: "equiv \<Rightarrow> int \<Rightarrow> int \<Rightarrow> int" where
  "jmin e m n = (if (m < no_inp_vars e \<and> n < m) \<or> n \<ge> no_inp_vars e then n else m)"

lemma min_ok_same:
  assumes "min_ok e a" "same_frame e e'" "equiv_min e' a = equiv_min e a"
    and "\<And>z. z \<in> vars_of e \<Longrightarrow> ro e' z = a \<longleftrightarrow> ro e z = a"
  shows "min_ok e' a"
  using assms unfolding min_ok_def same_frame_vars [OF assms(2)] by (simp add: same_frame_def)

lemma min_ok_join:
  assumes "min_ok e a" "min_ok e b" "same_frame e e'"
    and "equiv_min e' r = jmin e (equiv_min e a) (equiv_min e b)"
    and ro': "\<And>z. z \<in> vars_of e \<Longrightarrow> ro e' z = r \<longleftrightarrow> ro e z = a \<or> ro e z = b"
  shows "min_ok e' r"
proof -
  have n: "no_inp_vars e' = no_inp_vars e" and v: "vars_of e' = vars_of e"
    using assms(3) same_frame_vars [OF assms(3)] by (simp_all add: same_frame_def)
  have "equiv_min e' r = equiv_min e a \<or> equiv_min e' r = equiv_min e b"
    using assms(4) by (simp add: jmin_def)
  moreover have "equiv_min e a \<in> vars_of e" "ro e (equiv_min e a) = a"
      "equiv_min e b \<in> vars_of e" "ro e (equiv_min e b) = b"
    using assms(1,2) by (simp_all add: min_ok_def)
  ultimately have 1: "equiv_min e' r \<in> vars_of e" "ro e' (equiv_min e' r) = r"
    using ro' by metis+
  have 2: "z < no_inp_vars e \<and> equiv_min e' r \<le> z"
    if small: "\<not> no_inp_vars e \<le> equiv_min e' r" and z: "z \<in> vars_of e" "ro e' z = r" for z
  proof -
    have m: "equiv_min e a < no_inp_vars e" "equiv_min e b < no_inp_vars e"
        "equiv_min e' r \<le> equiv_min e a" "equiv_min e' r \<le> equiv_min e b"
      using small unfolding assms(4) jmin_def by (simp_all split: if_splits)
    have "ro e z = a \<or> ro e z = b" using ro' [OF z(1)] z(2) by simp
    then have "z < no_inp_vars e \<and> (equiv_min e a \<le> z \<or> equiv_min e b \<le> z)"
      using assms(1,2) m z(1) by (auto simp: min_ok_def)
    then show ?thesis using m by linarith
  qed
  show ?thesis unfolding min_ok_def n v using 1 2 by blast
qed

text \<open>
  One join: the class of \<open>x\<close> goes under \<open>r\<close>; at most one of them has an opposite class, which
  becomes the opposite class of both.
\<close>

definition one_join :: "equiv \<Rightarrow> equiv \<Rightarrow> int \<Rightarrow> int \<Rightarrow> bool" where
  "one_join e e' r x \<longleftrightarrow> same_frame e e' \<and> equiv_idx e' = equiv_idx e \<and> is_root e r \<and> is_root e x \<and> r \<noteq> x \<and>
     (equiv_fwd e r = -1 \<or> equiv_fwd e x = -1) \<and>
     equiv_fwd e' = (equiv_fwd e)(x := r, r := if equiv_fwd e x \<le> -2 then equiv_fwd e x else equiv_fwd e r) \<and>
     equiv_min e' = (equiv_min e)(r := jmin e (equiv_min e r) (equiv_min e x)) \<and>
     (\<forall>a. is_root e a \<and> equiv_fwd e a \<le> -2 \<longrightarrow>
        super_pair e' (- equiv_fwd e a) = (\<lambda>z. if z = x then r else z) ` super_pair e (- equiv_fwd e a))"

lemma one_join_rooted:
  assumes inv: "equiv_inv e" and j: "one_join e e' r x" and z: "rooted (equiv_fwd e) z a"
  shows "rooted (equiv_fwd e') z (if a = x then r else a)"
proof -
  have r: "is_root e r" "is_root e x" "r \<noteq> x" using j by (simp_all add: one_join_def)
  define S where "S = (if equiv_fwd e x \<le> -2 then equiv_fwd e x else equiv_fwd e r)"
  have S: "S < 0" using r by (simp add: S_def is_root_def)
  have f: "equiv_fwd e' = ((equiv_fwd e)(x := r))(r := S)" using j by (simp add: one_join_def S_def)
  have "rooted ((equiv_fwd e)(x := r)) z (if a = x then r else a)"
    using rooted_join [OF z, of r x] r is_rootD [OF inv] by (simp add: less_imp_le)
  then show ?thesis unfolding f by (rule rooted_neg_upd) (use r S in \<open>simp_all add: is_root_def\<close>)
qed

lemma one_join_ro:
  assumes inv: "equiv_inv e" and j: "one_join e e' r x" and z: "z \<in> vars_of e"
  shows "rooted (equiv_fwd e') z (if ro e z = x then r else ro e z)"
  by (rule one_join_rooted [OF inv j inv_root(2) [OF inv z]])

lemma one_join_facts:
  assumes inv: "equiv_inv e" and j: "one_join e e' r x"
  defines "S \<equiv> if equiv_fwd e x \<le> -2 then equiv_fwd e x else equiv_fwd e r"
  shows "same_frame e e'" "is_root e r" "is_root e x" "r \<noteq> x" "equiv_idx e' = equiv_idx e"
    "equiv_fwd e' r = S" "S < 0" "\<And>a. equiv_fwd e' a = (if a = r then S else if a = x then r else equiv_fwd e a)"
    "equiv_fwd e' x = r" "equiv_fwd e r = -1 \<or> equiv_fwd e x = -1"
    "\<And>z. z \<in> vars_of e \<Longrightarrow> ro e' z = (if ro e z = x then r else ro e z)"
    "\<And>a. is_root e a \<Longrightarrow> equiv_fwd e a \<le> -2 \<Longrightarrow>
       super_pair e' (- equiv_fwd e a) = (\<lambda>z. if z = x then r else z) ` super_pair e (- equiv_fwd e a)"
  using j one_join_ro [OF inv j, THEN ro_eq] unfolding one_join_def is_root_def S_def by simp_all

lemma root_super:
  assumes "equiv_inv e" "is_root e a" "equiv_fwd e a \<le> -2"
  obtains b where "is_root e b" "b \<noteq> a" "equiv_fwd e b = equiv_fwd e a"
    "super_pair e (- equiv_fwd e a) = {a, b}" "- equiv_fwd e a < equiv_idx e"
    "\<And>c. c \<in> vars_of e \<Longrightarrow> equiv_fwd e c = equiv_fwd e a \<Longrightarrow> c = a \<or> c = b"
proof -
  have "a \<in> vars_of e" using assms(2) by (simp add: is_root_def)
  from inv_super [OF assms(1) this assms(3)] show ?thesis
    using that assms(2,3) unfolding is_root_def by metis
qed

lemma one_join_inv:
  assumes inv: "equiv_inv e" and j: "one_join e e' r x"
  shows "equiv_inv e'"
proof -
  define S where "S = (if equiv_fwd e x \<le> -2 then equiv_fwd e x else equiv_fwd e r)"
  define g where "g a = (if a = x then r else a)" for a
  note f = one_join_facts [OF inv j, folded S_def]
  note v = same_frame_vars [OF f(1)]
  have fwd: "equiv_fwd e' (g a) = equiv_fwd e a" if "equiv_fwd e a \<le> -2" for a
    using that f(4,8,10) by (auto simp: g_def S_def)
  have bk: "\<exists>b. is_root e b \<and> g b = g a \<and> equiv_fwd e b = equiv_fwd e' (g a)"
    if a: "is_root e a" "equiv_fwd e' (g a) \<le> -2" for a
  proof (cases "g a = r")
    case True
    then show ?thesis using f(2,3,4,6) a(2) by (cases "equiv_fwd e x \<le> -2") (auto simp: g_def S_def)
  next
    case False
    then show ?thesis using a f(8) by (auto simp: g_def split: if_splits)
  qed
  show ?thesis
  proof (rule merge_inv [OF inv f(1), of g])
    show "rooted (equiv_fwd e') z (g (ro e z))" if "z \<in> vars_of e" for z
      using one_join_ro [OF inv j that] by (simp add: g_def)
    show "g a \<in> vars_of e" if "is_root e a" for a using that f(2) by (simp add: g_def is_root_def)
    show "super_ok e' (g a)" if a: "is_root e a" "equiv_fwd e' (g a) \<le> -2" for a
    proof -
      obtain b where b: "is_root e b" "g b = g a" "equiv_fwd e b = equiv_fwd e' (g a)"
        using bk [OF a] by blast
      have b2: "equiv_fwd e b \<le> -2" using b a by simp
      obtain c where c: "is_root e c" "c \<noteq> b" "equiv_fwd e c = equiv_fwd e b"
          "super_pair e (- equiv_fwd e b) = {b, c}" "- equiv_fwd e b < equiv_idx e"
        using root_super [OF inv b(1) b2] by metis
      have "super_pair e' (- equiv_fwd e b) = {g b, g c}" using f(12) [OF b(1) b2] c(4) by (simp add: g_def)
      moreover have "g c \<noteq> g b" using c b2 f(4,10) by (auto simp: g_def)
      moreover have "equiv_fwd e' (g c) = equiv_fwd e b" using fwd c(3) b2 by simp
      moreover have "g c \<in> vars_of e'" using c(1) f(2) v by (simp add: g_def is_root_def)
      ultimately show ?thesis unfolding super_ok_def f(5) using b(2,3) c(5) by metis
    qed
    show "min_ok e' (g a)" if a: "is_root e a" for a
    proof (cases "g a = r")
      case True
      have "equiv_min e' r = jmin e (equiv_min e r) (equiv_min e x)" using j by (simp add: one_join_def)
      moreover have "ro e' z = r \<longleftrightarrow> ro e z = r \<or> ro e z = x" if "z \<in> vars_of e" for z
        using f(11) [OF that] by simp
      ultimately show ?thesis
        unfolding True using min_ok_join [OF is_rootD(5) [OF inv f(2)] is_rootD(5) [OF inv f(3)] f(1)] by blast
    next
      case False
      then have "a \<noteq> x" "a \<noteq> r" by (auto simp: g_def)
      moreover have "ro e' z = a \<longleftrightarrow> ro e z = a" if "z \<in> vars_of e" for z
        using f(11) [OF that] \<open>a \<noteq> x\<close> \<open>a \<noteq> r\<close> by auto
      ultimately show ?thesis
        using min_ok_same [OF is_rootD(5) [OF inv a] f(1)] j by (simp add: g_def one_join_def)
    qed
    have "equiv_fwd e (ro e (Tr e)) \<le> -2" "equiv_fwd e (ro e (Fa e)) \<le> -2" using inv_consts [OF inv] by simp_all
    then show "equiv_fwd e' (g (ro e (Tr e))) = equiv_fwd e' (g (ro e (Fa e)))"
      "equiv_fwd e' (g (ro e (Tr e))) \<le> -2" "g (ro e (Tr e)) \<noteq> g (ro e (Fa e))"
      using fwd inv_consts(1,2) [OF inv] f(4,10) by (auto simp: g_def)
  qed (simp add: f(5))
qed

lemma one_join_key:
  assumes inv: "equiv_inv e" and j: "one_join e e' r x"
  shows "\<exists>K. \<forall>z \<in> vars_of e.
    key e' z = (if key e z = key e r \<or> key e z = key e x then K else key e z) \<and>
    (key e z = K \<longrightarrow> key e z = key e r \<or> key e z = key e x)"
proof -
  define S where "S = (if equiv_fwd e x \<le> -2 then equiv_fwd e x else equiv_fwd e r)"
  note f = one_join_facts [OF inv j, folded S_def]
  define K where "K = (if S \<le> -2 then S else r)"
  have pos: "0 < ro e z" if "z \<in> vars_of e" for z
    using is_rootD(4) [OF inv is_root_ro [OF inv that]] .
  have rx: "ro e r = r" "ro e x = x" "0 < r" "0 < x" using is_rootD [OF inv] f(2,3) by simp_all
  have "key e' z = (if key e z = key e r \<or> key e z = key e x then K else key e z) \<and>
    (key e z = K \<longrightarrow> key e z = key e r \<or> key e z = key e x)" if z: "z \<in> vars_of e" for z
    using pos [OF z] rx f(4,7,8,10) f(11) [OF z]
    by (auto simp: key_def K_def S_def)
  then show ?thesis by blast
qed

definition opp :: "equiv \<Rightarrow> int \<Rightarrow> int \<Rightarrow> bool" where
  "opp e a b \<longleftrightarrow> equiv_fwd e a \<le> -2 \<and> equiv_fwd e b = equiv_fwd e a \<and> a \<noteq> b"

lemma models_iff:
  assumes "equiv_inv e"
  shows "v \<in> models e \<longleftrightarrow> v (Tr e) \<and> \<not> v (Fa e) \<and> (\<forall>z \<in> vars_of e. v z = v (ro e z)) \<and>
    (\<forall>a b. is_root e a \<longrightarrow> is_root e b \<longrightarrow> opp e a b \<longrightarrow> v a \<noteq> v b)"
  unfolding models_def opp_def is_root_def by fastforce

lemma merge_models:
  assumes inv: "equiv_inv e" "equiv_inv e'" and fr: "same_frame e e'"
    and ro': "\<And>z. z \<in> vars_of e \<Longrightarrow> ro e' z = g (ro e z)"
    and fw: "\<And>a b. is_root e a \<Longrightarrow> is_root e b \<Longrightarrow> opp e a b \<Longrightarrow> is_root e' (g a) \<and> is_root e' (g b) \<and> opp e' (g a) (g b)"
    and bw: "\<And>a b. is_root e' a \<Longrightarrow> is_root e' b \<Longrightarrow> opp e' a b \<Longrightarrow>
      \<exists>a0 b0. is_root e a0 \<and> is_root e b0 \<and> opp e a0 b0 \<and> g a0 = a \<and> g b0 = b"
  shows "models e' = {v \<in> models e. \<forall>a. is_root e a \<longrightarrow> v (g a) = v a}"
proof -
  note v' = same_frame_vars [OF fr]
  have c: "Tr e' = Tr e" "Fa e' = Fa e" using fr by (simp_all add: same_frame_def)
  have 1: "v \<in> models e \<and> (\<forall>a. is_root e a \<longrightarrow> v (g a) = v a)" if v: "v \<in> models e'" for v
  proof -
    note m = v [unfolded models_iff [OF inv(2)] c v']
    have g: "v (g a) = v a" if "is_root e a" for a
      using m ro' is_rootD [OF inv(1) that] by metis
    have "v z = v (ro e z)" if "z \<in> vars_of e" for z
      using m ro' [OF that] g [OF is_root_ro [OF inv(1) that]] that by metis
    moreover have "v a \<noteq> v b" if "is_root e a" "is_root e b" "opp e a b" for a b
      using m fw [OF that] g that by metis
    ultimately show ?thesis using m g unfolding models_iff [OF inv(1)] by blast
  qed
  have 2: "v \<in> models e'" if v: "v \<in> models e" and g: "\<And>a. is_root e a \<Longrightarrow> v (g a) = v a" for v
  proof -
    note m = v [unfolded models_iff [OF inv(1)]]
    have "v z = v (ro e' z)" if "z \<in> vars_of e" for z
      using m ro' [OF that] g [OF is_root_ro [OF inv(1) that]] that by metis
    moreover have "v a \<noteq> v b" if "is_root e' a" "is_root e' b" "opp e' a b" for a b
      using bw [OF that] g m by metis
    ultimately show ?thesis using m unfolding models_iff [OF inv(2)] c v' by blast
  qed
  show ?thesis using 1 2 by blast
qed

lemma one_join_models:
  assumes inv: "equiv_inv e" and j: "one_join e e' r x"
  shows "models e' = {v \<in> models e. v r = v x}"
proof -
  define g where "g a = (if a = x then r else a)" for a
  define S where "S = (if equiv_fwd e x \<le> -2 then equiv_fwd e x else equiv_fwd e r)"
  note f = one_join_facts [OF inv j, folded S_def]
  note v = same_frame_vars [OF f(1)]
  have fwd: "equiv_fwd e' (g a) = equiv_fwd e a" if "equiv_fwd e a \<le> -2" for a
    using that f(4,8,10) by (auto simp: g_def S_def)
  have root: "is_root e' (g a)" if "is_root e a" for a
    using that f(2,3,4,7,8) v by (auto simp: is_root_def g_def)
  have "models e' = {v \<in> models e. \<forall>a. is_root e a \<longrightarrow> v (g a) = v a}"
  proof (rule merge_models [OF inv one_join_inv [OF inv j] f(1)])
    show "ro e' z = g (ro e z)" if "z \<in> vars_of e" for z using f(11) [OF that] by (simp add: g_def)
    show "is_root e' (g a) \<and> is_root e' (g b) \<and> opp e' (g a) (g b)"
      if "is_root e a" "is_root e b" "opp e a b" for a b
      using root that fwd f(4,10) by (auto simp: opp_def g_def)
    show "\<exists>a0 b0. is_root e a0 \<and> is_root e b0 \<and> opp e a0 b0 \<and> g a0 = a \<and> g b0 = b"
      if ab: "is_root e' a" "is_root e' b" "opp e' a b" for a b
    proof -
      have pre: "\<exists>c. is_root e c \<and> g c = a \<and> equiv_fwd e c = equiv_fwd e' a"
        if "is_root e' a" "equiv_fwd e' a \<le> -2" for a
      proof (cases "a = r")
        case True
        then show ?thesis using that f(2,3,4,6) by (cases "equiv_fwd e x \<le> -2") (auto simp: g_def S_def)
      next
        case False
        have "a \<noteq> x" using that f(8) [of x] f(4) is_rootD [OF inv f(2)] by auto
        then have "is_root e a" "g a = a" "equiv_fwd e a = equiv_fwd e' a"
          using that False f(8) [of a] v by (auto simp: is_root_def g_def)
        then show ?thesis by blast
      qed
      show ?thesis using pre [OF ab(1)] pre [OF ab(2)] ab(3) unfolding opp_def by metis
    qed
  qed
  moreover have "(\<forall>a. is_root e a \<longrightarrow> w (g a) = w a) \<longleftrightarrow> w r = w x" for w :: "int \<Rightarrow> bool"
    using f(2,3) by (auto simp: g_def)
  ultimately show ?thesis by blast
qed

text \<open>
  Two joins: \<open>x1\<close> goes under \<open>r1\<close> and \<open>x2\<close>, from the opposite classes, under \<open>r2\<close>; one of the two
  super nodes connects the results.
\<close>

definition two_join :: "equiv \<Rightarrow> equiv \<Rightarrow> int \<Rightarrow> int \<Rightarrow> int \<Rightarrow> int \<Rightarrow> int \<Rightarrow> bool" where
  "two_join e e' r1 x1 r2 x2 S \<longleftrightarrow> same_frame e e' \<and> equiv_idx e' = equiv_idx e \<and>
     is_root e r1 \<and> is_root e x1 \<and> is_root e r2 \<and> is_root e x2 \<and> distinct [r1, x1, r2, x2] \<and>
     equiv_fwd e r1 \<le> -2 \<and> equiv_fwd e x1 \<le> -2 \<and> equiv_fwd e r1 \<noteq> equiv_fwd e x1 \<and>
     (equiv_fwd e r2 = equiv_fwd e r1 \<and> equiv_fwd e x2 = equiv_fwd e x1 \<or>
      equiv_fwd e r2 = equiv_fwd e x1 \<and> equiv_fwd e x2 = equiv_fwd e r1) \<and>
     (S = equiv_fwd e r1 \<or> S = equiv_fwd e x1) \<and>
     equiv_fwd e' = (equiv_fwd e)(x1 := r1, x2 := r2, r1 := S, r2 := S) \<and>
     equiv_min e' = (equiv_min e)
       (r1 := jmin e (equiv_min e r1) (equiv_min e x1), r2 := jmin e (equiv_min e r2) (equiv_min e x2)) \<and>
     super_pair e' (- S) = {r1, r2} \<and>
     (\<forall>a. is_root e a \<and> equiv_fwd e a \<le> -2 \<and> equiv_fwd e a \<noteq> equiv_fwd e r1 \<and> equiv_fwd e a \<noteq> equiv_fwd e x1 \<longrightarrow>
        super_pair e' (- equiv_fwd e a) = super_pair e (- equiv_fwd e a))"

definition join2 :: "int \<Rightarrow> int \<Rightarrow> int \<Rightarrow> int \<Rightarrow> int \<Rightarrow> int" where
  "join2 r1 x1 r2 x2 a = (if a = x1 then r1 else if a = x2 then r2 else a)"

lemma two_join_facts:
  assumes inv: "equiv_inv e" and j: "two_join e e' r1 x1 r2 x2 S"
  shows "same_frame e e'" "is_root e r1" "is_root e x1" "is_root e r2" "is_root e x2"
    "distinct [r1, x1, r2, x2]" "equiv_idx e' = equiv_idx e" "S \<le> -2"
    "\<And>a. equiv_fwd e' a =
       (if a = r1 \<or> a = r2 then S else if a = x1 then r1 else if a = x2 then r2 else equiv_fwd e a)"
    "super_pair e' (- S) = {r1, r2}"
    "\<And>a. is_root e a \<Longrightarrow> equiv_fwd e a \<le> -2 \<Longrightarrow> a \<notin> {r1, x1, r2, x2} \<Longrightarrow>
      super_pair e' (- equiv_fwd e a) = super_pair e (- equiv_fwd e a)"
    "\<And>a. is_root e a \<Longrightarrow> equiv_fwd e a = equiv_fwd e r1 \<or> equiv_fwd e a = equiv_fwd e x1 \<longleftrightarrow>
      a \<in> {r1, x1, r2, x2}"
    "\<And>z. z \<in> vars_of e \<Longrightarrow> rooted (equiv_fwd e') z (join2 r1 x1 r2 x2 (ro e z))"
    "\<And>z a. rooted (equiv_fwd e) z a \<Longrightarrow> rooted (equiv_fwd e') z (join2 r1 x1 r2 x2 a)"
proof -
  note d = j [unfolded two_join_def]
  show basic: "same_frame e e'" "is_root e r1" "is_root e x1" "is_root e r2" "is_root e x2"
    "distinct [r1, x1, r2, x2]" "equiv_idx e' = equiv_idx e" "super_pair e' (- S) = {r1, r2}"
    using d by simp_all
  show S: "S \<le> -2" using d by auto
  have f: "equiv_fwd e' = (equiv_fwd e)(x1 := r1, x2 := r2, r1 := S, r2 := S)" using d by simp
  show "equiv_fwd e' a =
       (if a = r1 \<or> a = r2 then S else if a = x1 then r1 else if a = x2 then r2 else equiv_fwd e a)" for a
    unfolding f using basic(6) by simp
  have s: "equiv_fwd e r1 \<le> -2" "equiv_fwd e x1 \<le> -2" using d by simp_all
  show four: "equiv_fwd e a = equiv_fwd e r1 \<or> equiv_fwd e a = equiv_fwd e x1 \<longleftrightarrow> a \<in> {r1, x1, r2, x2}"
    if a: "is_root e a" for a
  proof -
    have av: "a \<in> vars_of e" using a by (simp add: is_root_def)
    obtain b where b: "\<And>c. c \<in> vars_of e \<Longrightarrow> equiv_fwd e c = equiv_fwd e r1 \<Longrightarrow> c = r1 \<or> c = b"
      using root_super [OF inv basic(2) s(1)] by metis
    obtain b' where b': "\<And>c. c \<in> vars_of e \<Longrightarrow> equiv_fwd e c = equiv_fwd e x1 \<Longrightarrow> c = x1 \<or> c = b'"
      using root_super [OF inv basic(3) s(2)] by metis
    have v: "r2 \<in> vars_of e" "x2 \<in> vars_of e" using basic(4,5) by (simp_all add: is_root_def)
    from d have "equiv_fwd e r2 = equiv_fwd e r1 \<and> equiv_fwd e x2 = equiv_fwd e x1 \<or>
      equiv_fwd e r2 = equiv_fwd e x1 \<and> equiv_fwd e x2 = equiv_fwd e r1" by simp
    then show ?thesis using b [OF av] b' [OF av] b [OF v(1)] b [OF v(2)] b' [OF v(1)] b' [OF v(2)] basic(6)
      by auto
  qed
  show "super_pair e' (- equiv_fwd e a) = super_pair e (- equiv_fwd e a)"
    if "is_root e a" "equiv_fwd e a \<le> -2" "a \<notin> {r1, x1, r2, x2}" for a
    using d four [OF that(1)] that by blast
  show rt: "rooted (equiv_fwd e') z (join2 r1 x1 r2 x2 a)" if z: "rooted (equiv_fwd e) z a" for z a
  proof -
    have pos: "0 < r1" "0 < r2" using is_rootD(4) [OF inv] basic(2,4) by blast+
    have neg: "equiv_fwd e r1 < 0" "equiv_fwd e x1 < 0" "equiv_fwd e r2 < 0" "equiv_fwd e x2 < 0"
      using basic(2-5) by (simp_all add: is_root_def)
    have "rooted ((equiv_fwd e)(x1 := r1)) z (if a = x1 then r1 else a)"
      using rooted_join [OF z, of r1 x1] pos neg basic(6) by simp
    then have "rooted ((equiv_fwd e)(x1 := r1, x2 := r2)) z (join2 r1 x1 r2 x2 a)"
      using rooted_join [of "(equiv_fwd e)(x1 := r1)" z _ r2 x2] pos neg basic(6)
      by (fastforce simp: join2_def)
    then have "rooted ((equiv_fwd e)(x1 := r1, x2 := r2, r1 := S)) z (join2 r1 x1 r2 x2 a)"
      by (rule rooted_neg_upd) (use neg basic(6) S in auto)
    then show ?thesis unfolding f by (rule rooted_neg_upd) (use neg basic(6) S in auto)
  qed
  show "rooted (equiv_fwd e') z (join2 r1 x1 r2 x2 (ro e z))" if "z \<in> vars_of e" for z
    by (rule rt [OF inv_root(2) [OF inv that]])
qed

lemma two_join_inv:
  assumes inv: "equiv_inv e" and j: "two_join e e' r1 x1 r2 x2 S"
  shows "equiv_inv e'"
proof -
  note f = two_join_facts [OF inv j]
  note v = same_frame_vars [OF f(1)]
  let ?g = "join2 r1 x1 r2 x2"
  have ro': "ro e' z = ?g (ro e z)" if "z \<in> vars_of e" for z using ro_eq [OF f(13) [OF that]] .
  have neq: "r1 \<noteq> x1" "r1 \<noteq> r2" "r1 \<noteq> x2" "x1 \<noteq> r2" "x1 \<noteq> x2" "r2 \<noteq> x2" using f(6) by auto
  have idx: "- S < equiv_idx e"
    using j inv f(2,3) by (auto simp: two_join_def equiv_inv_def is_root_def super_ok_def)
  have mins: "equiv_min e' r1 = jmin e (equiv_min e r1) (equiv_min e x1)"
      "equiv_min e' r2 = jmin e (equiv_min e r2) (equiv_min e x2)"
      "\<And>a. a \<noteq> r1 \<Longrightarrow> a \<noteq> r2 \<Longrightarrow> equiv_min e' a = equiv_min e a"
    using j neq by (simp_all add: two_join_def)
  have four: "ro e' z = r1 \<longleftrightarrow> ro e z = r1 \<or> ro e z = x1" "ro e' z = r2 \<longleftrightarrow> ro e z = r2 \<or> ro e z = x2"
      "a \<notin> {r1, x1, r2, x2} \<Longrightarrow> ro e' z = a \<longleftrightarrow> ro e z = a"
    if "z \<in> vars_of e" for z a
    using ro' [OF that] neq by (auto simp: join2_def)
  have img: "?g a \<in> {r1, r2} \<or> ?g a = a \<and> a \<notin> {r1, x1, r2, x2}" for a by (auto simp: join2_def)
  show ?thesis
  proof (rule merge_inv [OF inv f(1), of ?g])
    show "equiv_idx e \<le> equiv_idx e'" by (simp add: f(7))
    show "rooted (equiv_fwd e') z (?g (ro e z))" if "z \<in> vars_of e" for z using f(13) [OF that] .
    show "?g a \<in> vars_of e" if "is_root e a" for a using that f(2,4) by (simp add: join2_def is_root_def)
    show "super_ok e' (?g a)" if a: "is_root e a" "equiv_fwd e' (?g a) \<le> -2" for a
    proof (cases "?g a \<in> {r1, r2}")
      case True
      have S: "equiv_fwd e' r1 = S" "equiv_fwd e' r2 = S" using f(9) by simp_all
      have "super_ok e' r1" unfolding super_ok_def S
        using idx f(7,10) neq v f(4) S by (intro conjI bexI [of _ r2]) (simp_all add: is_root_def)
      moreover have "super_ok e' r2" unfolding super_ok_def S
        using idx f(7,10) neq v f(2) S
        by (intro conjI bexI [of _ r1]) (simp_all add: is_root_def insert_commute)
      ultimately show ?thesis using True by auto
    next
      case False
      then have n: "?g a = a" "a \<notin> {r1, x1, r2, x2}" using img by blast+
      have a2: "equiv_fwd e a \<le> -2" using a(2) n f(9) by simp
      obtain c where c: "is_root e c" "c \<noteq> a" "equiv_fwd e c = equiv_fwd e a"
          "super_pair e (- equiv_fwd e a) = {a, c}" "- equiv_fwd e a < equiv_idx e"
        using root_super [OF inv a(1) a2] by metis
      have "c \<notin> {r1, x1, r2, x2}" using f(12) [OF a(1)] f(12) [OF c(1)] c(3) n by simp
      then show ?thesis unfolding n super_ok_def
        using f(7,9) f(11) [OF a(1) a2 n(2)] c n v by (auto simp: is_root_def)
    qed
    show "min_ok e' (?g a)" if a: "is_root e a" for a
    proof -
      consider "?g a = r1" | "?g a = r2" | "?g a = a" "a \<notin> {r1, x1, r2, x2}" using img by blast
      then show ?thesis
      proof cases
        case 1
        show ?thesis unfolding 1
          by (rule min_ok_join [OF is_rootD(5) [OF inv f(2)] is_rootD(5) [OF inv f(3)] f(1) mins(1) four(1)])
      next
        case 2
        show ?thesis unfolding 2
          by (rule min_ok_join [OF is_rootD(5) [OF inv f(4)] is_rootD(5) [OF inv f(5)] f(1) mins(2) four(2)])
      next
        case 3
        then show ?thesis
          using min_ok_same [OF is_rootD(5) [OF inv a] f(1) mins(3) four(3)] by simp
      qed
    qed
    let ?t = "ro e (Tr e)" and ?f = "ro e (Fa e)"
    have tf: "is_root e ?t" "is_root e ?f" using is_root_ro [OF inv] const_vars by blast+
    note c = inv_consts [OF inv]
    have "equiv_fwd e' (?g ?t) = equiv_fwd e' (?g ?f) \<and> equiv_fwd e' (?g ?t) \<le> -2 \<and> ?g ?t \<noteq> ?g ?f"
    proof (cases "?t \<in> {r1, x1, r2, x2}")
      case True
      then have "?f \<in> {r1, x1, r2, x2}" using f(12) [OF tf(1)] f(12) [OF tf(2)] c(2) by simp
      moreover have "equiv_fwd e r1 \<noteq> equiv_fwd e x1" "equiv_fwd e r2 \<noteq> equiv_fwd e x2"
        using j by (auto simp: two_join_def)
      ultimately have "?t \<in> {r1, x1} \<and> ?f \<in> {r2, x2} \<or> ?t \<in> {r2, x2} \<and> ?f \<in> {r1, x1}"
        using True c(1,2) by auto
      then have "?g ?t = r1 \<and> ?g ?f = r2 \<or> ?g ?t = r2 \<and> ?g ?f = r1"
        using neq by (auto simp: join2_def)
      then show ?thesis using f(8,9) neq(2) by (elim disjE) simp_all
    next
      case False
      then have "?f \<notin> {r1, x1, r2, x2}" using f(12) [OF tf(1)] f(12) [OF tf(2)] c(2) by simp
      then show ?thesis using False c f(9) by (simp add: join2_def)
    qed
    then show "?g ?t \<noteq> ?g ?f" "equiv_fwd e' (?g ?t) = equiv_fwd e' (?g ?f)" "equiv_fwd e' (?g ?t) \<le> -2"
      by blast+
  qed
qed

lemma two_join_sides:
  assumes inv: "equiv_inv e" and j: "two_join e e' r1 x1 r2 x2 S"
    and ab: "is_root e a" "is_root e b" "opp e a b" "a \<in> {r1, x1, r2, x2}"
  shows "join2 r1 x1 r2 x2 a = r1 \<and> join2 r1 x1 r2 x2 b = r2 \<or>
    join2 r1 x1 r2 x2 a = r2 \<and> join2 r1 x1 r2 x2 b = r1"
proof -
  note f = two_join_facts [OF inv j]
  have "b \<in> {r1, x1, r2, x2}" using f(12) [OF ab(1)] f(12) [OF ab(2)] ab(3,4) by (simp add: opp_def)
  moreover have "equiv_fwd e r1 \<noteq> equiv_fwd e x1" "equiv_fwd e r2 \<noteq> equiv_fwd e x2"
    using j by (auto simp: two_join_def)
  ultimately have "a \<in> {r1, x1} \<and> b \<in> {r2, x2} \<or> a \<in> {r2, x2} \<and> b \<in> {r1, x1}"
    using ab(3,4) by (auto simp: opp_def)
  then show ?thesis using f(6) by (auto simp: join2_def)
qed

lemma two_join_key:
  assumes inv: "equiv_inv e" and j: "two_join e e' r1 x1 r2 x2 S"
  shows "\<exists>K. \<forall>z \<in> vars_of e.
    key e' z = (if key e z = key e r1 \<or> key e z = key e x1 then K else key e z) \<and>
    (key e z = K \<longrightarrow> key e z = key e r1 \<or> key e z = key e x1)"
proof -
  note f = two_join_facts [OF inv j]
  have k: "key e r1 = equiv_fwd e r1" "key e x1 = equiv_fwd e x1"
    using is_rootD(3) [OF inv] f(2,3) j by (simp_all add: key_def two_join_def)
  have S: "S = equiv_fwd e r1 \<or> S = equiv_fwd e x1" using j by (simp add: two_join_def)
  have "key e' z = (if key e z = key e r1 \<or> key e z = key e x1 then S else key e z) \<and>
    (key e z = S \<longrightarrow> key e z = key e r1 \<or> key e z = key e x1)" if z: "z \<in> vars_of e" for z
  proof -
    have rz: "is_root e (ro e z)" "0 < ro e z" using is_root_ro [OF inv z] is_rootD(4) [OF inv] by blast+
    have ro': "ro e' z = join2 r1 x1 r2 x2 (ro e z)" using ro_eq [OF f(13) [OF z]] .
    have k4: "key e z = key e r1 \<or> key e z = key e x1 \<longleftrightarrow> ro e z \<in> {r1, x1, r2, x2}"
    proof -
      have "equiv_fwd e r1 \<le> -2" "equiv_fwd e x1 \<le> -2" using j by (simp_all add: two_join_def)
      moreover have "key e z = t \<longleftrightarrow> equiv_fwd e (ro e z) = t" if "t \<le> -2" for t
        using rz(2) that by (auto simp: key_def)
      ultimately show ?thesis unfolding k using f(12) [OF rz(1)] by simp
    qed
    have "key e' z = S" if "ro e z \<in> {r1, x1, r2, x2}"
    proof -
      have "ro e' z = r1 \<or> ro e' z = r2" using that f(6) unfolding ro' by (auto simp: join2_def)
      then show ?thesis using f(8,9) by (auto simp: key_def)
    qed
    moreover have "key e' z = key e z" if "ro e z \<notin> {r1, x1, r2, x2}"
    proof -
      have "ro e' z = ro e z" using that unfolding ro' by (simp add: join2_def)
      moreover have "equiv_fwd e' (ro e z) = equiv_fwd e (ro e z)" using that f(9) by simp
      ultimately show ?thesis by (simp add: key_def)
    qed
    ultimately show ?thesis using k4 S k by auto
  qed
  then show ?thesis by blast
qed

lemma two_join_models:
  assumes inv: "equiv_inv e" and j: "two_join e e' r1 x1 r2 x2 S"
  shows "models e' = {v \<in> models e. v r1 = v x1}"
proof -
  note f = two_join_facts [OF inv j]
  note v = same_frame_vars [OF f(1)]
  let ?g = "join2 r1 x1 r2 x2"
  have pos: "0 < r1" "0 < r2" using is_rootD(4) [OF inv] f(2,4) by blast+
  have rt: "is_root e' r1" "is_root e' r2" using f(2,4,8,9) v by (simp_all add: is_root_def)
  have other: "is_root e' a \<longleftrightarrow> is_root e a" "equiv_fwd e' a = equiv_fwd e a" "?g a = a"
    if "a \<notin> {r1, x1, r2, x2}" for a
    using that f(9) v by (simp_all add: is_root_def join2_def)
  have new: "a \<in> {r1, r2} \<or> a \<notin> {r1, x1, r2, x2}" if "is_root e' a" for a
    using that f(6,9) pos by (auto simp: is_root_def)
  have nn: "r1 \<noteq> r2" using f(6) by simp
  have "models e' = {v \<in> models e. \<forall>a. is_root e a \<longrightarrow> v (?g a) = v a}"
  proof (rule merge_models [OF inv two_join_inv [OF inv j] f(1)])
    show "ro e' z = ?g (ro e z)" if "z \<in> vars_of e" for z using ro_eq [OF f(13) [OF that]] .
    show "is_root e' (?g a) \<and> is_root e' (?g b) \<and> opp e' (?g a) (?g b)"
      if ab: "is_root e a" "is_root e b" "opp e a b" for a b
    proof (cases "a \<in> {r1, x1, r2, x2}")
      case True
      have "opp e' r1 r2" "opp e' r2 r1" using nn f(8,9) by (simp_all add: opp_def)
      then show ?thesis using two_join_sides [OF inv j ab True] rt by (elim disjE) simp_all
    next
      case False
      then have "b \<notin> {r1, x1, r2, x2}" using f(12) [OF ab(1)] f(12) [OF ab(2)] ab(3) by (simp add: opp_def)
      then show ?thesis using other [OF False] other [of b] ab by (simp add: opp_def)
    qed
    show "\<exists>a0 b0. is_root e a0 \<and> is_root e b0 \<and> opp e a0 b0 \<and> ?g a0 = a \<and> ?g b0 = b"
      if ab: "is_root e' a" "is_root e' b" "opp e' a b" for a b
    proof -
      consider "a = r1" "b = r2" | "a = r2" "b = r1" | "a \<notin> {r1, x1, r2, x2}" "b \<notin> {r1, x1, r2, x2}"
        | "a \<in> {r1, r2}" "b \<notin> {r1, x1, r2, x2}" | "b \<in> {r1, r2}" "a \<notin> {r1, x1, r2, x2}"
        using new [OF ab(1)] new [OF ab(2)] ab(3) by (auto simp: opp_def)
      then show ?thesis
      proof cases
        case 1
        have g: "?g r1 = r1" "?g r2 = r2" "?g x2 = r2" using f(6) by (auto simp: join2_def)
        have "opp e r1 r2 \<or> opp e r1 x2" using j by (auto simp: two_join_def opp_def)
        then show ?thesis using 1 f(2,4,5) g by metis
      next
        case 2
        have g: "?g r1 = r1" "?g r2 = r2" "?g x1 = r1" using f(6) by (auto simp: join2_def)
        have "opp e r2 r1 \<or> opp e r2 x1" using j by (auto simp: two_join_def opp_def)
        then show ?thesis using 2 f(2,3,4) g by metis
      next
        case 3
        then show ?thesis using other [of a] other [of b] ab by (metis opp_def)
      next
        case 4
        have "equiv_fwd e b = S" using 4 ab(3) f(9) other(2) [of b] by (auto simp: opp_def)
        then show ?thesis using f(12) [of b] other(1) [of b] 4 ab(2) j by (auto simp: two_join_def)
      next
        case 5
        have "equiv_fwd e a = S" using 5 ab(3) f(9) other(2) [of a] by (auto simp: opp_def)
        then show ?thesis using f(12) [of a] other(1) [of a] 5 ab(1) j by (auto simp: two_join_def)
      qed
    qed
  qed
  moreover have "(\<forall>a. is_root e a \<longrightarrow> w (?g a) = w a) \<longleftrightarrow> w r1 = w x1" if w: "w \<in> models e" for w
  proof -
    have 1: "(\<forall>a. is_root e a \<longrightarrow> w (?g a) = w a) \<longleftrightarrow> w r1 = w x1 \<and> w r2 = w x2"
    proof -
      have g: "?g x1 = r1" "?g x2 = r2" "\<And>a. a \<noteq> x1 \<Longrightarrow> a \<noteq> x2 \<Longrightarrow> ?g a = a"
        using f(6) by (simp_all add: join2_def)
      show ?thesis using g f(3,5) by metis
    qed
    have op: "opp e r1 r2 \<and> opp e x1 x2 \<or> opp e r1 x2 \<and> opp e x1 r2" using j f(6) by (auto simp: two_join_def opp_def)
    have ww: "w a \<noteq> w b" if "is_root e a" "is_root e b" "opp e a b" for a b
      using w that unfolding models_iff [OF inv] by blast
    have "w r1 \<noteq> w r2 \<and> w x1 \<noteq> w x2 \<or> w r1 \<noteq> w x2 \<and> w x1 \<noteq> w r2"
      using op ww f(2-5) by metis
    then show ?thesis using 1 by auto
  qed
  ultimately show ?thesis by blast
qed

text \<open>A new super node connects two classes without opposite classes.\<close>

definition new_super :: "equiv \<Rightarrow> equiv \<Rightarrow> int \<Rightarrow> int \<Rightarrow> bool" where
  "new_super e e' a b \<longleftrightarrow> same_frame e e' \<and> is_root e a \<and> is_root e b \<and> a \<noteq> b \<and>
     equiv_fwd e a = -1 \<and> equiv_fwd e b = -1 \<and> equiv_idx e' = equiv_idx e + 1 \<and>
     equiv_fwd e' = (equiv_fwd e)(a := - equiv_idx e, b := - equiv_idx e) \<and>
     equiv_min e' = equiv_min e \<and> super_pair e' (equiv_idx e) = {a, b} \<and>
     (\<forall>s. s \<noteq> equiv_idx e \<longrightarrow> super_pair e' s = super_pair e s)"

lemma new_super_facts:
  assumes inv: "equiv_inv e" and j: "new_super e e' a b"
  shows "same_frame e e'" "is_root e a" "is_root e b" "a \<noteq> b" "equiv_fwd e a = -1" "equiv_fwd e b = -1"
    "equiv_idx e' = equiv_idx e + 1" "3 \<le> equiv_idx e"
    "\<And>c. equiv_fwd e' c = (if c = a \<or> c = b then - equiv_idx e else equiv_fwd e c)"
    "\<And>z. z \<in> vars_of e \<Longrightarrow> rooted (equiv_fwd e') z (ro e z)"
    "\<And>c. is_root e c \<Longrightarrow> equiv_fwd e c \<le> -2 \<Longrightarrow> - equiv_fwd e c < equiv_idx e"
    "\<And>z c. rooted (equiv_fwd e) z c \<Longrightarrow> rooted (equiv_fwd e') z c"
proof -
  note d = j [unfolded new_super_def]
  show basic: "same_frame e e'" "is_root e a" "is_root e b" "a \<noteq> b" "equiv_fwd e a = -1" "equiv_fwd e b = -1"
    "equiv_idx e' = equiv_idx e + 1" using d by simp_all
  show i: "3 \<le> equiv_idx e" using inv_sizes(5) [OF inv] .
  have f: "equiv_fwd e' = (equiv_fwd e)(a := - equiv_idx e, b := - equiv_idx e)" using d by simp
  show "equiv_fwd e' c = (if c = a \<or> c = b then - equiv_idx e else equiv_fwd e c)" for c
    unfolding f by simp
  show rt: "rooted (equiv_fwd e') z c" if "rooted (equiv_fwd e) z c" for z c
  proof -
    have "rooted ((equiv_fwd e)(a := - equiv_idx e)) z c"
      by (rule rooted_neg_upd [OF that]) (use basic i in simp_all)
    then show ?thesis unfolding f by (rule rooted_neg_upd) (use basic i in simp_all)
  qed
  show "rooted (equiv_fwd e') z (ro e z)" if "z \<in> vars_of e" for z
    by (rule rt [OF inv_root(2) [OF inv that]])
  show "- equiv_fwd e c < equiv_idx e" if "is_root e c" "equiv_fwd e c \<le> -2" for c
    using root_super [OF inv that] by metis
qed

lemma new_super_inv:
  assumes inv: "equiv_inv e" and j: "new_super e e' a b"
  shows "equiv_inv e'"
proof -
  note f = new_super_facts [OF inv j]
  note v = same_frame_vars [OF f(1)]
  have ro': "ro e' z = ro e z" if "z \<in> vars_of e" for z using ro_eq [OF f(10) [OF that]] .
  show ?thesis
  proof (rule merge_inv [OF inv f(1), of "\<lambda>a. a"])
    show "super_ok e' c" if c: "is_root e c" "equiv_fwd e' c \<le> -2" for c
    proof (cases "c = a \<or> c = b")
      case True
      have "super_pair e' (equiv_idx e) = {a, b}" using j by (simp add: new_super_def)
      then have "super_ok e' a" "super_ok e' b"
        unfolding super_ok_def using f(2,3,4,7,9) v
        by (auto simp: is_root_def insert_commute intro: bexI [of _ b] bexI [of _ a])
      then show ?thesis using True by blast
    next
      case False
      then have c2: "equiv_fwd e c \<le> -2" using c f(9) by simp
      obtain d where d: "is_root e d" "d \<noteq> c" "equiv_fwd e d = equiv_fwd e c"
          "super_pair e (- equiv_fwd e c) = {c, d}" "- equiv_fwd e c < equiv_idx e"
        using root_super [OF inv c(1) c2] by metis
      have "d \<noteq> a \<and> d \<noteq> b" using d(3) c2 f(5,6) by auto
      moreover have "super_pair e' (- equiv_fwd e c) = {c, d}" using d(4,5) j by (simp add: new_super_def)
      ultimately show ?thesis unfolding super_ok_def using False d f(7,9) v by (auto simp: is_root_def)
    qed
    show "min_ok e' c" if "is_root e c" for c
      using min_ok_same [OF is_rootD(5) [OF inv that] f(1)] ro' j by (simp add: new_super_def)
    have "ro e (Tr e) \<noteq> a \<and> ro e (Tr e) \<noteq> b \<and> ro e (Fa e) \<noteq> a \<and> ro e (Fa e) \<noteq> b"
      using inv_consts [OF inv] f(5,6) by auto
    then show "equiv_fwd e' (ro e (Tr e)) = equiv_fwd e' (ro e (Fa e))" "equiv_fwd e' (ro e (Tr e)) \<le> -2"
      using inv_consts [OF inv] f(9) by simp_all
  qed (use f inv_consts [OF inv] in \<open>simp_all add: is_root_def\<close>)
qed

lemma new_super_key:
  assumes inv: "equiv_inv e" and j: "new_super e e' a b"
  shows "\<exists>K. \<forall>z \<in> vars_of e.
    key e' z = (if key e z = key e a \<or> key e z = key e b then K else key e z) \<and>
    (key e z = K \<longrightarrow> key e z = key e a \<or> key e z = key e b)"
proof -
  note f = new_super_facts [OF inv j]
  have k: "key e a = a" "key e b = b" "0 < a" "0 < b"
    using is_rootD [OF inv f(2)] is_rootD [OF inv f(3)] f(5,6) by (simp_all add: key_def)
  have "key e' z = (if key e z = key e a \<or> key e z = key e b then - equiv_idx e else key e z) \<and>
    (key e z = - equiv_idx e \<longrightarrow> key e z = key e a \<or> key e z = key e b)" if z: "z \<in> vars_of e" for z
  proof -
    have rz: "is_root e (ro e z)" "0 < ro e z" using is_root_ro [OF inv z] is_rootD(4) [OF inv] by blast+
    have ro': "ro e' z = ro e z" using ro_eq [OF f(10) [OF z]] .
    show ?thesis
      using k rz(2) f(5,6,8) f(9) [of "ro e z"] f(11) [OF rz(1)]
      by (auto simp: key_def ro')
  qed
  then show ?thesis by blast
qed

lemma new_super_models:
  assumes inv: "equiv_inv e" and j: "new_super e e' a b"
  shows "models e' = {v \<in> models e. v a \<noteq> v b}"
proof -
  note f = new_super_facts [OF inv j]
  note v = same_frame_vars [OF f(1)]
  have c: "Tr e' = Tr e" "Fa e' = Fa e" using f(1) by (simp_all add: same_frame_def)
  have ro': "ro e' z = ro e z" if "z \<in> vars_of e" for z using ro_eq [OF f(10) [OF that]] .
  have rt: "is_root e' d \<longleftrightarrow> is_root e d" for d using f(2,3,8,9) v by (auto simp: is_root_def)
  have op: "opp e' d d' \<longleftrightarrow> opp e d d' \<or> {d, d'} = {a, b} \<and> d \<noteq> d'" if "is_root e d" "is_root e d'" for d d'
    using that f(4,5,6,8,9) f(11) [OF that(1)] f(11) [OF that(2)]
    by (auto simp: opp_def doubleton_eq_iff)
  have "w \<in> models e' \<longleftrightarrow> w \<in> models e \<and> w a \<noteq> w b" for w
  proof -
    have lr: "(\<forall>d d'. is_root e d \<longrightarrow> is_root e d' \<longrightarrow> opp e' d d' \<longrightarrow> w d \<noteq> w d') \<longleftrightarrow>
      (\<forall>d d'. is_root e d \<longrightarrow> is_root e d' \<longrightarrow> opp e d d' \<longrightarrow> w d \<noteq> w d') \<and> w a \<noteq> w b"
      (is "?l \<longleftrightarrow> ?r")
    proof
      assume l: ?l
      have "w a \<noteq> w b" using l f(2,3,4) op by blast
      then show ?r using l op by blast
    next
      assume r: ?r
      then show ?l using op by (metis doubleton_eq_iff)
    qed
    then show ?thesis
    proof -
      have "(\<forall>z \<in> vars_of e. w z = w (ro e' z)) = (\<forall>z \<in> vars_of e. w z = w (ro e z))" using ro' by simp
      then show ?thesis
        using lr
        unfolding models_iff [OF inv] models_iff [OF new_super_inv [OF inv j]] v c rt by simp
    qed
  qed
  then show ?thesis by blast
qed

section \<open>Path compression\<close>

lemma compress_fold:
  assumes "\<forall>z \<in> set zs. 0 \<le> f z \<and> rooted f z r" "0 \<le> r"
  shows "(rooted f y b \<longrightarrow> rooted (foldl (\<lambda>f x. f(x := r)) f zs) y b) \<and>
    (f y < 0 \<longrightarrow> foldl (\<lambda>f x. f(x := r)) f zs y = f y) \<and>
    (0 \<le> f y \<longrightarrow> 0 \<le> foldl (\<lambda>f x. f(x := r)) f zs y)"
  using assms
proof (induction zs arbitrary: f)
  case Nil
  then show ?case by simp
next
  case (Cons z zs)
  define g where "g = f(z := r)"
  have z: "0 \<le> f z" "rooted f z r" using Cons.prems by simp_all
  have rt: "rooted f y b \<longrightarrow> rooted g y b" for y b
    unfolding g_def using rooted_compress [OF _ z(2,1) Cons.prems(2)] by blast
  have g: "g w = (if w = z then r else f w)" for w by (simp add: g_def)
  have "\<forall>w \<in> set zs. 0 \<le> g w \<and> rooted g w r" using Cons.prems rt g by simp
  note ih = Cons.IH [OF this Cons.prems(2)]
  have "foldl (\<lambda>f x. f(x := r)) f (z # zs) = foldl (\<lambda>f x. f(x := r)) g zs" by (simp add: g_def)
  moreover have "f y < 0 \<longrightarrow> g y = f y" "0 \<le> f y \<longrightarrow> 0 \<le> g y" using g z(1) Cons.prems(2) by auto
  ultimately show ?case using ih rt by metis
qed

lemma set_fwd_ok:
  assumes inv: "equiv_inv e" and zs: "\<forall>z \<in> set zs. 0 \<le> equiv_fwd e z \<and> rooted (equiv_fwd e) z r" "is_root e r"
  defines "e' \<equiv> set_fwd zs r e"
  shows "equiv_inv e'" "same_frame e e'" "models e' = models e" "\<And>z. z \<in> vars_of e \<Longrightarrow> key e' z = key e z"
    "\<And>z a. rooted (equiv_fwd e) z a \<Longrightarrow> rooted (equiv_fwd e') z a"
    "\<And>z. 0 \<le> equiv_fwd e z \<Longrightarrow> 0 \<le> equiv_fwd e' z"
    "\<And>z. is_root e z \<Longrightarrow> is_root e' z"
    "equiv_idx e' = equiv_idx e"
    "\<And>z. equiv_fwd e z < 0 \<Longrightarrow> equiv_fwd e' z = equiv_fwd e z"
proof -
  have r: "0 \<le> r" using is_rootD(4) [OF inv zs(2)] by simp
  note c = compress_fold [OF zs(1) r]
  have f: "equiv_fwd e' = foldl (\<lambda>f x. f(x := r)) (equiv_fwd e) zs" by (simp add: e'_def set_fwd_def)
  show rt: "\<And>z a. rooted (equiv_fwd e) z a \<Longrightarrow> rooted (equiv_fwd e') z a"
    and neg: "\<And>z. equiv_fwd e z < 0 \<Longrightarrow> equiv_fwd e' z = equiv_fwd e z"
    and nn: "\<And>z. 0 \<le> equiv_fwd e z \<Longrightarrow> 0 \<le> equiv_fwd e' z"
    unfolding f using c by blast+
  show fr: "same_frame e e'" by (simp add: e'_def set_fwd_def same_frame_def)
  show idx: "equiv_idx e' = equiv_idx e" by (simp add: e'_def set_fwd_def)
  note v = same_frame_vars [OF fr]
  have rts: "is_root e' z \<longleftrightarrow> is_root e z" for z
    using neg [of z] nn [of z] unfolding is_root_def v by linarith
  then show "\<And>z. is_root e z \<Longrightarrow> is_root e' z" by simp
  have ro': "ro e' z = ro e z" if "z \<in> vars_of e" for z
    by (rule ro_eq [OF rt [OF inv_root(2) [OF inv that]]])
  have fw: "equiv_fwd e' (ro e z) = equiv_fwd e (ro e z)" if "z \<in> vars_of e" for z
    using neg inv_root(3) [OF inv that] by blast
  have mn: "equiv_min e' = equiv_min e" and sp: "super_pair e' = super_pair e"
    by (simp_all add: e'_def set_fwd_def super_pair_def fun_eq_iff)
  show inv': "equiv_inv e'"
  proof (rule merge_inv [OF inv fr, of "\<lambda>a. a"])
    show "super_ok e' a" if a: "is_root e a" "equiv_fwd e' a \<le> -2" for a
    proof -
      have a2: "equiv_fwd e a \<le> -2" "equiv_fwd e' a = equiv_fwd e a" using a neg [of a] by (simp_all add: is_root_def)
      obtain b where "is_root e b" "b \<noteq> a" "equiv_fwd e b = equiv_fwd e a"
          "super_pair e (- equiv_fwd e a) = {a, b}" "- equiv_fwd e a < equiv_idx e"
        using root_super [OF inv a(1) a2(1)] by metis
      then show ?thesis unfolding super_ok_def v idx sp using neg a2 by (auto simp: is_root_def)
    qed
    show "min_ok e' a" if "is_root e a" for a
      by (rule min_ok_same [OF is_rootD(5) [OF inv that] fr]) (simp_all add: mn ro')
    show "ro e (Tr e) \<noteq> ro e (Fa e)" "equiv_fwd e' (ro e (Tr e)) = equiv_fwd e' (ro e (Fa e))"
      "equiv_fwd e' (ro e (Tr e)) \<le> -2"
      using inv_consts [OF inv] fw [OF const_vars(1)] fw [OF const_vars(2)] by simp_all
    show "rooted (equiv_fwd e') z (ro e z)" if "z \<in> vars_of e" for z by (rule rt [OF inv_root(2) [OF inv that]])
  qed (simp_all add: idx is_root_def)
  show "key e' z = key e z" if "z \<in> vars_of e" for z
    using ro' [OF that] fw [OF that] by (simp add: key_def)
  have c: "Tr e' = Tr e" "Fa e' = Fa e" using fr by (simp_all add: same_frame_def)
  have op: "opp e' a b \<longleftrightarrow> opp e a b" if "is_root e a" "is_root e b" for a b
    using that neg by (simp add: opp_def is_root_def)
  have "w \<in> models e' \<longleftrightarrow> w \<in> models e" for w
  proof -
    have "(\<forall>z \<in> vars_of e. w z = w (ro e' z)) = (\<forall>z \<in> vars_of e. w z = w (ro e z))" using ro' by simp
    moreover have "(\<forall>a b. is_root e a \<longrightarrow> is_root e b \<longrightarrow> opp e' a b \<longrightarrow> w a \<noteq> w b) =
        (\<forall>a b. is_root e a \<longrightarrow> is_root e b \<longrightarrow> opp e a b \<longrightarrow> w a \<noteq> w b)" using op by blast
    ultimately show ?thesis unfolding models_iff [OF inv] models_iff [OF inv'] v c rts by simp
  qed
  then show "models e' = models e" by blast
qed

section \<open>The smallest variable of a class and its opposite\<close>

text \<open>The value of a signed variable.\<close>

definition lval :: "(int \<Rightarrow> bool) \<Rightarrow> int \<Rightarrow> bool" where
  "lval v n = (if n < 0 then \<not> v (- n) else v n)"

lemma lval_simps [simp]: "0 < n \<Longrightarrow> lval v n = v n" "0 < n \<Longrightarrow> lval v (- n) = (\<not> v n)"
  by (simp_all add: lval_def)

lemma lval_neg: "n \<noteq> 0 \<Longrightarrow> lval v (- n) = (\<not> lval v n)"
  by (simp add: lval_def)

lemma vars_const: "z \<in> vars_of e \<Longrightarrow> no_inp_vars e \<le> z \<Longrightarrow> z = Tr e \<or> z = Fa e"
  by (auto simp: vars_of_def)

lemma key_iff:
  assumes inv: "equiv_inv e" and a: "is_root e a" and z: "z \<in> vars_of e"
  shows "key e z = key e a \<longleftrightarrow> ro e z = a \<or> opp e a (ro e z)"
proof -
  have "is_root e (ro e z)" "ro e a = a" using is_root_ro [OF inv z] is_rootD(3) [OF inv a] by simp_all
  moreover have "0 < a" "0 < ro e z" using is_rootD(4) [OF inv] a calculation(1) by blast+
  ultimately show ?thesis by (auto simp: key_def opp_def)
qed

lemma model_root: "equiv_inv e \<Longrightarrow> v \<in> models e \<Longrightarrow> z \<in> vars_of e \<Longrightarrow> v z = v (ro e z)"
  unfolding models_iff by blast

lemma model_opp: "equiv_inv e \<Longrightarrow> v \<in> models e \<Longrightarrow> is_root e a \<Longrightarrow> is_root e b \<Longrightarrow> opp e a b \<Longrightarrow> v a \<noteq> v b"
  unfolding models_iff by blast

lemma min_const_super:
  assumes inv: "equiv_inv e" and a: "is_root e a" and m: "no_inp_vars e \<le> equiv_min e a"
  shows "equiv_fwd e a \<le> -2"
proof -
  have "equiv_min e a \<in> vars_of e" "ro e (equiv_min e a) = a"
    using is_rootD(5) [OF inv a] by (simp_all add: min_ok_def)
  then show ?thesis using vars_const [OF _ m] inv_consts [OF inv] by auto
qed

lemma signed_min_ok:
  assumes inv: "equiv_inv e" and a: "is_root e a"
  defines "m \<equiv> signed_min e a"
  shows "\<bar>m\<bar> \<in> vars_of e" "key e \<bar>m\<bar> = key e a" "\<And>v. v \<in> models e \<Longrightarrow> lval v m = v a"
    "no_inp_vars e \<le> equiv_min e a \<Longrightarrow> m = equiv_min e a"
    "equiv_min e a < no_inp_vars e \<Longrightarrow> z \<in> vars_of e \<Longrightarrow> key e z = key e a \<Longrightarrow> z < no_inp_vars e \<and> \<bar>m\<bar> \<le> z"
proof -
  have mo: "equiv_min e a \<in> vars_of e" "ro e (equiv_min e a) = a" "0 < equiv_min e a"
    using is_rootD(5) [OF inv a] vars_pos [OF inv] by (simp_all add: min_ok_def)
  have least: "z < no_inp_vars e \<and> equiv_min e c \<le> z"
    if "is_root e c" "equiv_min e c < no_inp_vars e" "z \<in> vars_of e" "ro e z = c" for c z
    using is_rootD(5) [OF inv that(1)] that by (auto simp: min_ok_def)
  have k: "key e z = key e a \<longleftrightarrow> ro e z = a \<or> opp e a (ro e z)" if "z \<in> vars_of e" for z
    using key_iff [OF inv a that] .
  have "\<bar>m\<bar> \<in> vars_of e \<and> key e \<bar>m\<bar> = key e a \<and> (\<forall>v \<in> models e. lval v m = v a) \<and>
    (no_inp_vars e \<le> equiv_min e a \<longrightarrow> m = equiv_min e a) \<and>
    (equiv_min e a < no_inp_vars e \<longrightarrow>
      (\<forall>z \<in> vars_of e. key e z = key e a \<longrightarrow> z < no_inp_vars e \<and> \<bar>m\<bar> \<le> z))"
  proof (cases "equiv_fwd e a \<le> -2 \<and> equiv_min e a < no_inp_vars e")
    case False
    then have m: "m = equiv_min e a" by (auto simp: m_def signed_min_def Let_def)
    have "z < no_inp_vars e \<and> \<bar>m\<bar> \<le> z"
      if small: "equiv_min e a < no_inp_vars e" and z: "z \<in> vars_of e" "key e z = key e a" for z
    proof -
      have "\<not> opp e a (ro e z)" using False small by (simp add: opp_def)
      then show ?thesis using k [OF z(1)] z(2) least [OF a small z(1)] mo(3) m by simp
    qed
    then show ?thesis using m mo k [OF mo(1)] model_root [OF inv _ mo(1)] by simp
  next
    case True
    obtain b where b: "is_root e b" "b \<noteq> a" "equiv_fwd e b = equiv_fwd e a"
        "super_pair e (- equiv_fwd e a) = {a, b}"
      and uniq: "\<And>c. c \<in> vars_of e \<Longrightarrow> equiv_fwd e c = equiv_fwd e a \<Longrightarrow> c = a \<or> c = b"
      using root_super [OF inv a] True by metis
    have m: "m = (if equiv_min e b < equiv_min e a then - equiv_min e b else equiv_min e a)"
      using b(2,4) True by (auto simp: m_def signed_min_def Let_def super_pair_def doubleton_eq_iff)
    have mb: "equiv_min e b \<in> vars_of e" "ro e (equiv_min e b) = b" "0 < equiv_min e b"
      using is_rootD(5) [OF inv b(1)] vars_pos [OF inv] by (simp_all add: min_ok_def)
    have ab: "opp e a b" using True b by (simp add: opp_def)
    have small: "equiv_min e b < no_inp_vars e"
    proof (rule ccontr)
      assume big: "\<not> equiv_min e b < no_inp_vars e"
      then have "equiv_min e b = Tr e \<or> equiv_min e b = Fa e" using vars_const [OF mb(1)] by simp
      then have "ro e (Tr e) = b \<or> ro e (Fa e) = b" using mb(2) by auto
      then have "ro e (Tr e) = a \<or> ro e (Fa e) = a"
        using inv_consts(1,2) [OF inv] b(3) uniq inv_root(1) [OF inv] const_vars by metis
      then show False
        using least [OF a _ const_vars(1)] least [OF a _ const_vars(2)] True inv_sizes(2,3) [OF inv] by auto
    qed
    have "z < no_inp_vars e \<and> \<bar>m\<bar> \<le> z" if z: "z \<in> vars_of e" "key e z = key e a" for z
    proof -
      have "ro e z = a \<or> ro e z = b"
        using k [OF z(1)] z(2) uniq inv_root(1) [OF inv z(1)] by (auto simp: opp_def)
      then have "z < no_inp_vars e \<and> (equiv_min e a \<le> z \<or> equiv_min e b \<le> z)"
        using least [OF a _ z(1)] least [OF b(1) small z(1)] True by auto
      then show ?thesis using mo(3) mb(3) m by auto
    qed
    moreover have "lval v m = v a" if v: "v \<in> models e" for v
      using m mo mb model_root [OF inv v mo(1)] model_root [OF inv v mb(1)] model_opp [OF inv v a b(1) ab] by auto
    moreover have "\<bar>m\<bar> = equiv_min e a \<or> \<bar>m\<bar> = equiv_min e b" using m mo(3) mb(3) by auto
    moreover have "key e (equiv_min e a) = key e a" "key e (equiv_min e b) = key e a"
      using k [OF mo(1)] k [OF mb(1)] mo(2) mb(2) ab by simp_all
    ultimately show ?thesis using True mo(1) mb(1) by (metis not_le)
  qed
  then show "\<bar>m\<bar> \<in> vars_of e" "key e \<bar>m\<bar> = key e a" "\<And>v. v \<in> models e \<Longrightarrow> lval v m = v a"
    "no_inp_vars e \<le> equiv_min e a \<Longrightarrow> m = equiv_min e a"
    "equiv_min e a < no_inp_vars e \<Longrightarrow> z \<in> vars_of e \<Longrightarrow> key e z = key e a \<Longrightarrow> z < no_inp_vars e \<and> \<bar>m\<bar> \<le> z"
    by blast+
qed

section \<open>The joins of the code\<close>

lemma join_trees_fields:
  "no_inp_vars (join_trees r x e) = no_inp_vars e" "Tr (join_trees r x e) = Tr e" "Fa (join_trees r x e) = Fa e"
  "equiv_idx (join_trees r x e) = equiv_idx e" "equiv_lft (join_trees r x e) = equiv_lft e"
  "equiv_rgt (join_trees r x e) = equiv_rgt e" "equiv_fwd (join_trees r x e) = (equiv_fwd e)(x := r)"
  "equiv_min (join_trees r x e) = (equiv_min e)(r := jmin e (equiv_min e r) (equiv_min e x))"
  by (auto simp: join_trees_def jmin_def fun_eq_iff)

lemma opposite_root_eq:
  "super_pair e s = {a, b} \<Longrightarrow> a \<noteq> b \<Longrightarrow> opposite_root e s a = b"
  by (auto simp: opposite_root_def super_pair_def doubleton_eq_iff)

lemma other_root_eq:
  "super_pair e s = {a, b} \<Longrightarrow> a \<noteq> b \<Longrightarrow> (if equiv_lft e s = a then equiv_rgt e s else equiv_lft e s) = b"
  by (auto simp: super_pair_def doubleton_eq_iff)

text \<open>What both kinds of join give.\<close>

definition joined_roots :: "equiv \<Rightarrow> equiv \<Rightarrow> int \<Rightarrow> int \<Rightarrow> bool" where
  "joined_roots e e' r x \<longleftrightarrow> one_join e e' r x \<or> (\<exists>r2 x2 S. two_join e e' r x r2 x2 S)"

lemma joined_roots_facts:
  assumes inv: "equiv_inv e" and j: "joined_roots e e' r x"
  shows "equiv_inv e'" "same_frame e e'" "models e' = {v \<in> models e. v r = v x}" "is_root e' r"
    "\<exists>K. \<forall>z \<in> vars_of e. key e' z = (if key e z = key e r \<or> key e z = key e x then K else key e z) \<and>
       (key e z = K \<longrightarrow> key e z = key e r \<or> key e z = key e x)"
    "\<And>z. 0 \<le> equiv_fwd e z \<Longrightarrow> 0 \<le> equiv_fwd e' z"
    "\<And>z a. rooted (equiv_fwd e) z a \<Longrightarrow> a = r \<or> a = x \<Longrightarrow> rooted (equiv_fwd e') z r"
proof -
  have "equiv_inv e' \<and> same_frame e e' \<and> models e' = {v \<in> models e. v r = v x} \<and> is_root e' r \<and>
    (\<exists>K. \<forall>z \<in> vars_of e. key e' z = (if key e z = key e r \<or> key e z = key e x then K else key e z) \<and>
       (key e z = K \<longrightarrow> key e z = key e r \<or> key e z = key e x)) \<and>
    (\<forall>z. 0 \<le> equiv_fwd e z \<longrightarrow> 0 \<le> equiv_fwd e' z) \<and>
    (\<forall>z a. rooted (equiv_fwd e) z a \<longrightarrow> a = r \<or> a = x \<longrightarrow> rooted (equiv_fwd e') z r)"
    using j unfolding joined_roots_def
  proof (elim disjE exE)
    assume o: "one_join e e' r x"
    note f = one_join_facts [OF inv o]
    have "is_root e' r" using f(2,6,7) same_frame_vars [OF f(1)] by (simp add: is_root_def)
    moreover have "0 \<le> equiv_fwd e' z" if "0 \<le> equiv_fwd e z" for z
      using that f(2,3) f(8) [of z] is_rootD(4) [OF inv f(2)] by (auto simp: is_root_def)
    moreover have "rooted (equiv_fwd e') z r" if "rooted (equiv_fwd e) z a" "a = r \<or> a = x" for z a
      using one_join_rooted [OF inv o that(1)] that(2) by (auto split: if_splits)
    ultimately show ?thesis
      using one_join_inv [OF inv o] one_join_models [OF inv o] one_join_key [OF inv o] f(1) by blast
  next
    fix r2 x2 S assume t: "two_join e e' r x r2 x2 S"
    note f = two_join_facts [OF inv t]
    have "is_root e' r" using f(2,8,9) same_frame_vars [OF f(1)] by (simp add: is_root_def)
    moreover have "0 \<le> equiv_fwd e' z" if "0 \<le> equiv_fwd e z" for z
      using that f(2-5) f(9) [of z] is_rootD(4) [OF inv f(2)] is_rootD(4) [OF inv f(4)]
      by (auto simp: is_root_def)
    moreover have "rooted (equiv_fwd e') z r" if "rooted (equiv_fwd e) z a" "a = r \<or> a = x" for z a
      using f(14) [OF that(1)] that(2) f(6) by (auto simp: join2_def)
    ultimately show ?thesis
      using two_join_inv [OF inv t] two_join_models [OF inv t] two_join_key [OF inv t] f(1) by blast
  qed
  then show "equiv_inv e'" "same_frame e e'" "models e' = {v \<in> models e. v r = v x}" "is_root e' r"
    "\<exists>K. \<forall>z \<in> vars_of e. key e' z = (if key e z = key e r \<or> key e z = key e x then K else key e z) \<and>
       (key e z = K \<longrightarrow> key e z = key e r \<or> key e z = key e x)"
    "\<And>z. 0 \<le> equiv_fwd e z \<Longrightarrow> 0 \<le> equiv_fwd e' z"
    "\<And>z a. rooted (equiv_fwd e) z a \<Longrightarrow> a = r \<or> a = x \<Longrightarrow> rooted (equiv_fwd e') z r"
    by blast+
qed

lemma super_pair_notin:
  assumes inv: "equiv_inv e" and a: "is_root e a" "equiv_fwd e a \<le> -2" and x: "equiv_fwd e x \<noteq> equiv_fwd e a"
  shows "x \<notin> super_pair e (- equiv_fwd e a)"
  using root_super [OF inv a] x by (metis insertE singletonD)

lemma join_equiv_joins:
  assumes inv: "equiv_inv e" and r: "is_root e r" and x: "is_root e x" and rx: "r \<noteq> x" "\<not> opp e r x"
  shows "joined_roots e (join_equiv r x e) r x"
proof -
  let ?e = "join_equiv r x e"
  have neg: "equiv_fwd e r < 0" "equiv_fwd e x < 0" using r x by (simp_all add: is_root_def)
  note J = join_equiv_def Let_def join_trees_fields
  consider (c0) "equiv_fwd e x = -1" | (c1) "equiv_fwd e x \<le> -2" "equiv_fwd e r = -1"
    | (c2) "equiv_fwd e x \<le> -2" "equiv_fwd e r \<le> -2" using neg by linarith
  then show ?thesis
  proof cases
    case c0
    have "(\<lambda>z. if z = x then r else z) ` super_pair e (- equiv_fwd e a) = super_pair e (- equiv_fwd e a)"
      if "is_root e a" "equiv_fwd e a \<le> -2" for a
      using super_pair_notin [OF inv that, of x] c0 that by force
    moreover have "super_pair ?e = super_pair e" using c0 by (simp add: fun_eq_iff super_pair_def J)
    moreover have "equiv_fwd ?e = (equiv_fwd e)(x := r, r := equiv_fwd e r)" using c0 rx by (auto simp: J)
    ultimately have "one_join e ?e r x"
      using c0 r x rx by (simp add: one_join_def same_frame_def J)
    then show ?thesis by (simp add: joined_roots_def)
  next
    case c1
    obtain q where o: "is_root e q" "q \<noteq> x" "super_pair e (- equiv_fwd e x) = {x, q}"
      and uniq: "\<And>c. c \<in> vars_of e \<Longrightarrow> equiv_fwd e c = equiv_fwd e x \<Longrightarrow> c = x \<or> c = q"
      using root_super [OF inv x c1(1)] by metis
    have "super_pair ?e (- equiv_fwd e a) = (\<lambda>z. if z = x then r else z) ` super_pair e (- equiv_fwd e a)"
      if a: "is_root e a" "equiv_fwd e a \<le> -2" for a
    proof (cases "equiv_fwd e a = equiv_fwd e x")
      case True
      then show ?thesis using o c1 unfolding True
        by (auto simp: super_pair_def J doubleton_eq_iff split: if_splits)
    next
      case False
      then have "x \<notin> super_pair e (- equiv_fwd e a)" using super_pair_notin [OF inv a] by metis
      then show ?thesis using False c1 by (force simp: super_pair_def J split: if_splits)
    qed
    moreover have "equiv_fwd ?e = (equiv_fwd e)(x := r, r := equiv_fwd e x)" using c1 by (auto simp: J)
    ultimately have "one_join e ?e r x"
      using c1 r x rx by (auto simp: one_join_def same_frame_def J)
    then show ?thesis by (simp add: joined_roots_def)
  next
    case c2
    obtain xo where xo: "is_root e xo" "xo \<noteq> x" "equiv_fwd e xo = equiv_fwd e x"
        "super_pair e (- equiv_fwd e x) = {x, xo}"
      using root_super [OF inv x c2(1)] by metis
    obtain ro where ro: "is_root e ro" "ro \<noteq> r" "equiv_fwd e ro = equiv_fwd e r"
        "super_pair e (- equiv_fwd e r) = {r, ro}"
      using root_super [OF inv r c2(2)] by metis
    have d: "equiv_fwd e r \<noteq> equiv_fwd e x" using rx c2 by (simp add: opp_def)
    have dist: "distinct [r, x, ro, xo]" using rx(1) xo ro d by auto
    have o: "(if equiv_lft e (- equiv_fwd e x) = x then equiv_rgt e (- equiv_fwd e x)
         else equiv_lft e (- equiv_fwd e x)) = xo"
        "(if equiv_lft e (- equiv_fwd e r) = r then equiv_rgt e (- equiv_fwd e r)
         else equiv_lft e (- equiv_fwd e r)) = ro"
      using other_root_eq [OF xo(4)] other_root_eq [OF ro(4)] xo(2) ro(2) by metis+
    show ?thesis
    proof (cases "equiv_cnt (join_trees r x e) xo < equiv_cnt (join_trees r x e) ro")
      case True
      have e: "?e = (join_trees ro xo (join_trees r x e))
          \<lparr>equiv_fwd := (equiv_fwd (join_trees ro xo (join_trees r x e)))(ro := equiv_fwd e r)\<rparr>"
        unfolding join_equiv_def Let_def join_trees_fields o using True c2 by (simp add: join_trees_fields)
      have "super_pair ?e = super_pair e" by (simp add: e super_pair_def join_trees_fields fun_eq_iff)
      then have "two_join e ?e r x ro xo (equiv_fwd e r)"
        unfolding two_join_def
        using r x xo ro d dist c2
        by (auto simp: e same_frame_def join_trees_fields jmin_def)
      then show ?thesis by (auto simp: joined_roots_def)
    next
      case False
      define e1 where "e1 = join_trees xo ro (join_trees r x e)"
      have e: "?e = (if equiv_rgt e (- equiv_fwd e r) = r
          then e1\<lparr>equiv_fwd := (equiv_fwd e1)(xo := equiv_fwd e r),
                  equiv_lft := (equiv_lft e1)(- equiv_fwd e r := xo)\<rparr>
          else e1\<lparr>equiv_fwd := (equiv_fwd e1)(xo := equiv_fwd e r),
                  equiv_rgt := (equiv_rgt e1)(- equiv_fwd e r := xo)\<rparr>)"
        unfolding join_equiv_def Let_def join_trees_fields o e1_def
        using False c2 by (simp add: join_trees_fields)
      have sp: "super_pair ?e (- equiv_fwd e r) = {r, xo}"
        using ro(2,4) by (auto simp: e e1_def super_pair_def join_trees_fields doubleton_eq_iff)
      have sp': "super_pair ?e s = super_pair e s" if "s \<noteq> - equiv_fwd e r" for s
        using that by (simp add: e e1_def super_pair_def join_trees_fields)
      have f: "equiv_fwd ?e = (equiv_fwd e)(x := r, ro := xo, r := equiv_fwd e r, xo := equiv_fwd e r)"
        using dist by (auto simp: e e1_def join_trees_fields)
      have m: "equiv_min ?e = (equiv_min e)(r := jmin e (equiv_min e r) (equiv_min e x),
          xo := jmin e (equiv_min e xo) (equiv_min e ro))"
        using dist by (auto simp: e e1_def join_trees_fields jmin_def)
      have "same_frame e ?e" "equiv_idx ?e = equiv_idx e"
        by (simp_all add: e e1_def same_frame_def join_trees_fields)
      then have "two_join e ?e r x xo ro (equiv_fwd e r)"
        unfolding two_join_def f m
        using r x xo ro d dist c2 sp sp' by auto
      then show ?thesis by (auto simp: joined_roots_def)
    qed
  qed
qed

section \<open>Insertion of an equivalence\<close>

text \<open>
  \<open>stands_for e z n\<close>: the variable \<open>n\<close> is the one that stays for the class of \<open>z\<close> and its
  opposite class, a constant or the smallest variable of both. \<open>joined e e' x y b\<close>: from \<open>e\<close> to \<open>e'\<close> the two
  classes became one pair of classes, in which \<open>x\<close> and \<open>y\<close> are equal (\<open>b\<close>) or opposite.
\<close>

definition stands_for :: "equiv \<Rightarrow> int \<Rightarrow> int \<Rightarrow> bool" where
  "stands_for e z n \<longleftrightarrow> n \<in> vars_of e \<and> key e n = key e z \<and>
     (n < no_inp_vars e \<longrightarrow> (\<forall>w \<in> vars_of e. key e w = key e z \<longrightarrow> w < no_inp_vars e \<and> n \<le> w))"

definition joined :: "equiv \<Rightarrow> equiv \<Rightarrow> int \<Rightarrow> int \<Rightarrow> bool \<Rightarrow> bool" where
  "joined e e' x y b \<longleftrightarrow> equiv_inv e' \<and> same_frame e e' \<and> models e' = {v \<in> models e. (v x = v y) = b} \<and>
     (\<exists>K. \<forall>z \<in> vars_of e. key e' z = (if key e z = key e x \<or> key e z = key e y then K else key e z) \<and>
        (key e z = K \<longrightarrow> key e z = key e x \<or> key e z = key e y))"

lemma key_ro: "equiv_inv e \<Longrightarrow> z \<in> vars_of e \<Longrightarrow> key e (ro e z) = key e z"
  using inv_root(4) by (simp add: key_def)

lemma key_eq_iff:
  assumes "equiv_inv e" "x \<in> vars_of e" "y \<in> vars_of e"
  shows "key e x = key e y \<longleftrightarrow> ro e x = ro e y \<or> opp e (ro e x) (ro e y)"
  using key_iff [OF assms(1) is_root_ro [OF assms(1,2)] assms(3)] key_ro [OF assms(1,2)] by metis

lemma signed_min_stands_for:
  assumes "equiv_inv e" "x \<in> vars_of e"
  shows "stands_for e x \<bar>signed_min e (ro e x)\<bar>"
proof -
  note m = signed_min_ok [OF assms(1) is_root_ro [OF assms]]
  have k: "key e (ro e x) = key e x" using key_ro [OF assms] .
  have "\<bar>signed_min e (ro e x)\<bar> < no_inp_vars e \<longrightarrow> equiv_min e (ro e x) < no_inp_vars e"
  proof (rule impI, rule ccontr)
    assume "\<bar>signed_min e (ro e x)\<bar> < no_inp_vars e" and big: "\<not> equiv_min e (ro e x) < no_inp_vars e"
    then show False using m(4) by linarith
  qed
  then show ?thesis unfolding stands_for_def k [symmetric] using m(1,2,5) by blast
qed

text \<open>A value of a result pair, up to the simultaneous negation of both.\<close>

lemma flip_pair:
  assumes "l \<noteq> 0" "r \<noteq> 0" "(l', r') = (if c then (- l, - r) else (l, r))"
  shows "\<bar>l'\<bar> = \<bar>l\<bar>" "\<bar>r'\<bar> = \<bar>r\<bar>" "lval v l' = lval v r' \<longleftrightarrow> lval v l = lval v r"
  using assms by (auto simp: lval_def split: if_splits)

lemma joined_after_compress:
  assumes inv: "equiv_inv e" and j: "equiv_inv e1" "same_frame e e1" "models e1 = {v \<in> models e. (v x = v y) = b}"
      "\<exists>K. \<forall>z \<in> vars_of e. key e1 z = (if key e z = key e x \<or> key e z = key e y then K else key e z) \<and>
        (key e z = K \<longrightarrow> key e z = key e x \<or> key e z = key e y)"
    and xs: "\<forall>z \<in> set xs. 0 \<le> equiv_fwd e1 z \<and> rooted (equiv_fwd e1) z p" "is_root e1 p"
    and ys: "\<forall>z \<in> set ys. 0 \<le> equiv_fwd e1 z \<and> rooted (equiv_fwd e1) z q" "is_root e1 q"
  shows "joined e (set_fwd ys q (set_fwd xs p e1)) x y b"
proof -
  note c = set_fwd_ok [OF j(1) xs]
  let ?e2 = "set_fwd xs p e1"
  have "\<forall>z \<in> set ys. 0 \<le> equiv_fwd ?e2 z \<and> rooted (equiv_fwd ?e2) z q" using ys(1) c(5,6) by blast
  note d = set_fwd_ok [OF c(1) this c(7) [OF ys(2)]]
  note v1 = same_frame_vars [OF j(2)] and v2 = same_frame_vars [OF c(2)]
  have "same_frame e (set_fwd ys q ?e2)" using j(2) c(2) d(2) by (simp add: same_frame_def)
  moreover have "key (set_fwd ys q ?e2) z = key e1 z" if "z \<in> vars_of e" for z
    using c(4) d(4) that v1 v2 by simp
  ultimately show ?thesis unfolding joined_def using d(1,3) c(3) j(3,4) by simp
qed

theorem insertEquiv_correct:
  assumes inv: "equiv_inv e" and x: "x \<in> vars_of e" and y: "y \<in> vars_of e"
  shows "\<exists>r e'. insertEquiv x y e = Some (r, e') \<and>
    (case r of None \<Rightarrow> e' = e \<and> (\<forall>v \<in> models e. v x = v y)
     | Some (l, g) \<Rightarrow>
        if l = Tr e \<and> g = Fa e then e' = e \<and> (\<forall>v \<in> models e. v x \<noteq> v y)
        else joined e e' x y True \<and> key e x \<noteq> key e y \<and> stands_for e x \<bar>l\<bar> \<and> stands_for e y \<bar>g\<bar> \<and>
          (\<forall>v \<in> models e. (v x = v y) = (lval v l = lval v g)))"
proof -
  obtain xs where xs: "find_root (equiv_fwd e) x = Some (ro e x, xs)"
      "\<forall>z \<in> set xs. 0 \<le> equiv_fwd e z \<and> rooted (equiv_fwd e) z (ro e x)"
    by (rule find_root_ro [OF inv x])
  obtain ys where ys: "find_root (equiv_fwd e) y = Some (ro e y, ys)"
      "\<forall>z \<in> set ys. 0 \<le> equiv_fwd e z \<and> rooted (equiv_fwd e) z (ro e y)"
    by (rule find_root_ro [OF inv y])
  let ?a = "ro e x" and ?b = "ro e y"
  note a = is_root_ro [OF inv x] and b = is_root_ro [OF inv y]
  have mv: "v x = v ?a" "v y = v ?b" if "v \<in> models e" for v using model_root [OF inv that] x y by blast+
  show ?thesis
  proof (cases "?a = ?b")
    case True
    then have "\<forall>v \<in> models e. v x = v y" using mv by metis
    then show ?thesis using True xs(1) ys(1) by (simp add: insertEquiv_def)
  next
    case ab: False
    show ?thesis
    proof (cases "equiv_fwd e ?a = equiv_fwd e ?b \<and> equiv_fwd e ?a \<le> -2")
      case True
      then have "opp e ?a ?b" using ab by (simp add: opp_def)
      then have "\<forall>v \<in> models e. v x \<noteq> v y" using mv model_opp [OF inv _ a b] by metis
      then show ?thesis using True xs(1) ys(1) ab by (simp add: insertEquiv_def)
    next
      case False
      have no: "\<not> opp e ?a ?b" "\<not> opp e ?b ?a" using False by (auto simp: opp_def)
      define root auxx where "root = (if equiv_cnt e ?a < equiv_cnt e ?b then ?b else ?a)"
        and "auxx = (if equiv_cnt e ?a < equiv_cnt e ?b then ?a else ?b)"
      have ra: "root = ?a \<and> auxx = ?b \<or> root = ?b \<and> auxx = ?a" by (simp add: root_def auxx_def)
      let ?e1 = "join_equiv root auxx e"
      have "joined_roots e ?e1 root auxx"
        using ra by (elim disjE conjE) (simp_all add: join_equiv_joins [OF inv] a b ab ab [symmetric] no)
      note j = joined_roots_facts [OF inv this]
      let ?e' = "set_fwd ys root (set_fwd xs root ?e1)"
      have "models ?e1 = {v \<in> models e. (v x = v y) = True}" using j(3) ra mv by auto
      moreover have k: "key e x = key e ?a" "key e y = key e ?b" using key_ro [OF inv] x y by simp_all
      then have "\<exists>K. \<forall>z \<in> vars_of e. key ?e1 z = (if key e z = key e x \<or> key e z = key e y then K else key e z) \<and>
          (key e z = K \<longrightarrow> key e z = key e x \<or> key e z = key e y)"
        using j(5) ra by (elim disjE conjE) (simp_all add: disj_commute)
      ultimately have J: "joined e ?e' x y True"
    proof (intro joined_after_compress [OF inv j(1,2)])
      show "\<forall>z \<in> set xs. 0 \<le> equiv_fwd ?e1 z \<and> rooted (equiv_fwd ?e1) z root"
        "\<forall>z \<in> set ys. 0 \<le> equiv_fwd ?e1 z \<and> rooted (equiv_fwd ?e1) z root"
        using xs(2) ys(2) j(6,7) ra by blast+
    qed (use j(4) in blast)+
      define l0 g0 where "l0 = signed_min e ?a" and "g0 = signed_min e ?b"
      obtain l g where lg: "(l, g) = (if l0 < 0 \<and> g0 < Tr e then (- l0, - g0) else (l0, g0))" by metis
      note sa = signed_min_ok [OF inv a, folded l0_def] and sb = signed_min_ok [OF inv b, folded g0_def]
      have nz: "l0 \<noteq> 0" "g0 \<noteq> 0" using vars_pos [OF inv sa(1)] vars_pos [OF inv sb(1)] by simp_all
      note fp = flip_pair [OF nz lg]
      have kk: "key e x \<noteq> key e y" using key_eq_iff [OF inv x y] ab no by simp
      have st: "stands_for e x \<bar>l\<bar>" "stands_for e y \<bar>g\<bar>"
        using signed_min_stands_for [OF inv x] signed_min_stands_for [OF inv y] fp(1,2) by (simp_all add: l0_def g0_def)
      have "\<not> (l = Tr e \<and> g = Fa e)"
      proof
        assume tf: "l = Tr e \<and> g = Fa e"
        then have "key e (Tr e) = key e x" "key e (Fa e) = key e y"
          using st vars_pos [OF inv const_vars(1)] vars_pos [OF inv const_vars(2)] by (simp_all add: stands_for_def)
        moreover have "key e (Tr e) = key e (Fa e)" using inv_consts [OF inv] by (simp add: key_def)
        ultimately show False using kk by simp
      qed
      moreover have "insertEquiv x y e = Some (Some (l, g), ?e')"
        using xs(1) ys(1) ab False lg
        by (simp add: insertEquiv_def Let_def l0_def g0_def root_def auxx_def split: if_splits)
      moreover have "\<forall>v \<in> models e. (v x = v y) = (lval v l = lval v g)"
      proof
        fix v assume v: "v \<in> models e"
        show "(v x = v y) = (lval v l = lval v g)" unfolding fp(3) mv(1) [OF v] mv(2) [OF v] sa(3) [OF v] sb(3) [OF v] ..
      qed
      ultimately show ?thesis using J kk st by auto
    qed
  qed
qed

section \<open>Insertion of an opposite\<close>

lemma pair_classes_new:
  assumes inv: "equiv_inv e" and a: "is_root e a" "is_root e b" "a \<noteq> b" "equiv_fwd e a = -1" "equiv_fwd e b = -1"
  shows "new_super e (pair_classes a b e) a b"
  using a by (auto simp: new_super_def pair_classes_def Let_def same_frame_def super_pair_def)

lemma join_opposite_joins:
  assumes inv: "equiv_inv e" and a: "is_root e a" "equiv_fwd e a \<le> -2" and b: "is_root e b" "equiv_fwd e b = -1"
  obtains r root auxx e1 where "join_opposite a b e = (root, e1)" "is_root e r" "opp e a r"
    "root = r \<and> auxx = b \<or> root = b \<and> auxx = r" "one_join e e1 root auxx"
proof -
  obtain r where r: "is_root e r" "r \<noteq> a" "equiv_fwd e r = equiv_fwd e a"
      "super_pair e (- equiv_fwd e a) = {a, r}"
    using root_super [OF inv a] by metis
  have o: "opposite_root e (- equiv_fwd e a) a = r" using opposite_root_eq [OF r(4)] r(2) by simp
  define root auxx where "root = (if equiv_cnt e r < equiv_cnt e b then b else r)"
    and "auxx = (if equiv_cnt e r < equiv_cnt e b then r else b)"
  have ra: "root = r \<and> auxx = b \<or> root = b \<and> auxx = r" by (simp add: root_def auxx_def)
  define e1 where "e1 = snd (join_opposite a b e)"
  have j: "join_opposite a b e = (root, e1)"
    by (simp add: e1_def join_opposite_def Let_def o root_def)
  define X where "X = (join_trees root auxx e)
    \<lparr>equiv_fwd := (equiv_fwd (join_trees root auxx e))(root := equiv_fwd e a)\<rparr>"
  have e1: "e1 = (if equiv_rgt X (- equiv_fwd e a) = a
      then X\<lparr>equiv_lft := (equiv_lft X)(- equiv_fwd e a := root)\<rparr>
      else X\<lparr>equiv_rgt := (equiv_rgt X)(- equiv_fwd e a := root)\<rparr>)"
    unfolding e1_def join_opposite_def Let_def o root_def [symmetric] auxx_def [symmetric] X_def by simp
  note J = e1 X_def join_trees_fields
  have br: "b \<noteq> r" "b \<noteq> a" using b a r by auto
  have f: "equiv_fwd e1 = (equiv_fwd e)(auxx := root, root := equiv_fwd e a)" by (simp add: J)
  have m: "equiv_min e1 = (equiv_min e)(root := jmin e (equiv_min e root) (equiv_min e auxx))"
    by (simp add: J)
  have fr: "same_frame e e1" "equiv_idx e1 = equiv_idx e" by (simp_all add: J same_frame_def)
  have sp: "super_pair e1 (- equiv_fwd e a) = {a, root}"
    using r(2,4) by (auto simp: J super_pair_def doubleton_eq_iff)
  have sp': "super_pair e1 s = super_pair e s" if "s \<noteq> - equiv_fwd e a" for s
    using that by (simp add: J super_pair_def)
  have "super_pair e1 (- equiv_fwd e c) = (\<lambda>z. if z = auxx then root else z) ` super_pair e (- equiv_fwd e c)"
    if c: "is_root e c" "equiv_fwd e c \<le> -2" for c
  proof (cases "equiv_fwd e c = equiv_fwd e a")
    case True
    then show ?thesis unfolding True sp r(4) using ra br r(2) by auto
  next
    case False
    have "auxx \<notin> super_pair e (- equiv_fwd e c)"
      using super_pair_notin [OF inv c, of auxx] ra False r(3) b c by auto
    then show ?thesis using sp' [of "- equiv_fwd e c"] False by force
  qed
  then have "one_join e e1 root auxx"
    unfolding one_join_def f m using fr ra a b r br by auto
  moreover have "opp e a r" using a r by (simp add: opp_def)
  ultimately show ?thesis using that j r(1) ra by blast
qed

lemma join_across_joins:
  assumes inv: "equiv_inv e" and a: "is_root e a" "equiv_fwd e a \<le> -2"
    and b: "is_root e b" "equiv_fwd e b \<le> -2" and d: "equiv_fwd e b \<noteq> equiv_fwd e a"
  obtains ra rb r1 x1 r2 x2 e1 where "join_across a b e = (r1, r2, e1)" "is_root e ra" "opp e a ra"
    "is_root e rb" "opp e b rb" "r1 = a \<and> x1 = rb \<or> r1 = rb \<and> x1 = a" "r2 = b \<and> x2 = ra \<or> r2 = ra \<and> x2 = b"
    "two_join e e1 r1 x1 r2 x2 (equiv_fwd e a)"
proof -
  obtain ra where ra: "is_root e ra" "ra \<noteq> a" "equiv_fwd e ra = equiv_fwd e a"
      "super_pair e (- equiv_fwd e a) = {a, ra}"
    using root_super [OF inv a] by metis
  obtain rb where rb: "is_root e rb" "rb \<noteq> b" "equiv_fwd e rb = equiv_fwd e b"
      "super_pair e (- equiv_fwd e b) = {b, rb}"
    using root_super [OF inv b] by metis
  have o: "opposite_root e (- equiv_fwd e a) a = ra" "opposite_root e (- equiv_fwd e b) b = rb"
    using opposite_root_eq [OF ra(4)] opposite_root_eq [OF rb(4)] ra(2) rb(2) by simp_all
  have dist: "distinct [a, b, ra, rb]" using ra rb d by auto
  define r1 x1 where "r1 = (if equiv_cnt e rb < equiv_cnt e a then a else rb)"
    and "x1 = (if equiv_cnt e rb < equiv_cnt e a then rb else a)"
  define c where "c \<longleftrightarrow> equiv_cnt (join_trees r1 x1 e) ra < equiv_cnt (join_trees r1 x1 e) b"
  define r2 x2 where "r2 = (if c then b else ra)" and "x2 = (if c then ra else b)"
  have 1: "r1 = a \<and> x1 = rb \<or> r1 = rb \<and> x1 = a" by (simp add: r1_def x1_def)
  have 2: "r2 = b \<and> x2 = ra \<or> r2 = ra \<and> x2 = b" by (simp add: r2_def x2_def)
  define e1 where "e1 = snd (snd (join_across a b e))"
  have j: "join_across a b e = (r1, r2, e1)"
    unfolding e1_def join_across_def Let_def o r1_def [symmetric] x1_def [symmetric] c_def [symmetric]
      r2_def [symmetric] x2_def [symmetric] by simp
  have e1: "e1 = (join_trees r2 x2 (join_trees r1 x1 e))
    \<lparr>equiv_fwd := (equiv_fwd (join_trees r2 x2 (join_trees r1 x1 e)))(r1 := equiv_fwd e a, r2 := equiv_fwd e a),
     equiv_rgt := (equiv_rgt e)(- equiv_fwd e a := r1), equiv_lft := (equiv_lft e)(- equiv_fwd e a := r2)\<rparr>"
    unfolding e1_def join_across_def Let_def o r1_def [symmetric] x1_def [symmetric] c_def [symmetric]
      r2_def [symmetric] x2_def [symmetric] by (simp add: join_trees_fields)
  have f: "equiv_fwd e1 = (equiv_fwd e)(x1 := r1, x2 := r2, r1 := equiv_fwd e a, r2 := equiv_fwd e a)"
    by (simp add: e1 join_trees_fields)
  have m: "equiv_min e1 = (equiv_min e)(r1 := jmin e (equiv_min e r1) (equiv_min e x1),
      r2 := jmin e (equiv_min e r2) (equiv_min e x2))"
    using 1 2 dist by (auto simp: e1 join_trees_fields jmin_def)
  have fr: "same_frame e e1" "equiv_idx e1 = equiv_idx e"
    by (simp_all add: e1 same_frame_def join_trees_fields)
  have sp: "super_pair e1 (- equiv_fwd e a) = {r1, r2}" by (auto simp: e1 super_pair_def)
  have sp': "super_pair e1 s = super_pair e s" if "s \<noteq> - equiv_fwd e a" for s
    using that by (simp add: e1 super_pair_def join_trees_fields)
  have "two_join e e1 r1 x1 r2 x2 (equiv_fwd e a)"
    unfolding two_join_def f m
    using 1 2 dist fr sp sp' a b ra rb d by auto
  moreover have "opp e a ra" "opp e b rb" using a b ra rb by (simp_all add: opp_def)
  ultimately show ?thesis using that j 1 2 ra(1) rb(1) by blast
qed

lemma opp_sym: "opp e a b \<Longrightarrow> opp e b a"
  by (auto simp: opp_def)

lemma opp_unique:
  assumes "equiv_inv e" "is_root e a" "is_root e b" "is_root e c" "opp e a b" "opp e a c" shows "b = c"
proof -
  have a: "equiv_fwd e a \<le> -2" using assms(5) by (simp add: opp_def)
  obtain d where "\<And>w. w \<in> vars_of e \<Longrightarrow> equiv_fwd e w = equiv_fwd e a \<Longrightarrow> w = a \<or> w = d"
    using root_super [OF assms(1,2) a] by metis
  then show ?thesis using assms unfolding opp_def is_root_def by metis
qed

lemma key_opp: "equiv_inv e \<Longrightarrow> is_root e a \<Longrightarrow> is_root e b \<Longrightarrow> opp e a b \<Longrightarrow> key e b = key e a"
  using is_rootD(3) by (simp add: key_def opp_def)

lemma const_min:
  assumes inv: "equiv_inv e" and a: "is_root e a" and big: "\<not> equiv_min e a < no_inp_vars e"
  shows "equiv_min e a = Tr e \<or> equiv_min e a = Fa e" "v \<in> models e \<Longrightarrow> v a = (equiv_min e a = Tr e)"
    "key e (Tr e) = key e a" "key e (Fa e) = key e a"
proof -
  have m: "equiv_min e a \<in> vars_of e" "ro e (equiv_min e a) = a"
    using is_rootD(5) [OF inv a] by (simp_all add: min_ok_def)
  show c: "equiv_min e a = Tr e \<or> equiv_min e a = Fa e" using vars_const [OF m(1)] big by simp
  show "v a = (equiv_min e a = Tr e)" if v: "v \<in> models e"
  proof -
    have "v (equiv_min e a) = v a" using model_root [OF inv v m(1)] m(2) by simp
    moreover have "v (Tr e)" "\<not> v (Fa e)" using v unfolding models_iff [OF inv] by blast+
    ultimately show ?thesis using c inv_sizes(4) [OF inv] by metis
  qed
  have "key e (equiv_min e a) = key e a" using key_ro [OF inv m(1)] m(2) by simp
  moreover have "key e (Tr e) = key e (Fa e)" using inv_consts [OF inv] by (simp add: key_def)
  ultimately show "key e (Tr e) = key e a" "key e (Fa e) = key e a" using c by auto
qed

text \<open>The literal that \<open>insertOppos\<close> computes for a root: the value of the root is its negation.\<close>

lemma oppos_literal:
  assumes inv: "equiv_inv e" and x: "x \<in> vars_of e"
    and l: "l = (if equiv_min e (ro e x) < no_inp_vars e then - signed_min e (ro e x)
      else if equiv_min e (ro e x) = Tr e then t else Tr e)"
    and t: "t = - Tr e \<or> t = Fa e"
  shows "stands_for e x \<bar>l\<bar>" "\<And>v. v \<in> models e \<Longrightarrow> v x = (\<not> lval v l)" "l \<noteq> 0"
proof -
  let ?a = "ro e x"
  note a = is_root_ro [OF inv x]
  have k: "key e ?a = key e x" using key_ro [OF inv x] .
  have pos: "0 < Tr e" "0 < Fa e" using inv_sizes [OF inv] by simp_all
  have "stands_for e x \<bar>l\<bar> \<and> (\<forall>v \<in> models e. v x = (\<not> lval v l)) \<and> l \<noteq> 0"
  proof (cases "equiv_min e ?a < no_inp_vars e")
    case True
    note s = signed_min_ok [OF inv a]
    have nz: "signed_min e ?a \<noteq> 0" using vars_pos [OF inv s(1)] by simp
    have "v x = (\<not> lval v l)" if v: "v \<in> models e" for v
      using model_root [OF inv v x] s(3) [OF v] lval_neg [OF nz] l True by simp
    then show ?thesis using signed_min_stands_for [OF inv x] nz l True by simp
  next
    case False
    note c = const_min [OF inv a False]
    have "stands_for e x (Tr e)" "stands_for e x (Fa e)"
      using c(3,4) k const_vars inv_sizes(2,3) [OF inv] by (simp_all add: stands_for_def)
    moreover have "v x = (\<not> lval v l)" if v: "v \<in> models e" for v
    proof -
      have "v (Tr e)" "\<not> v (Fa e)" using v unfolding models_iff [OF inv] by blast+
      then show ?thesis
        using l False c(2) [OF v] model_root [OF inv v x] t pos by (auto simp: lval_def split: if_splits)
    qed
    moreover have "\<bar>l\<bar> = Tr e \<or> \<bar>l\<bar> = Fa e" "l \<noteq> 0" using l False t pos by auto
    ultimately show ?thesis by auto
  qed
  then show "stands_for e x \<bar>l\<bar>" "\<And>v. v \<in> models e \<Longrightarrow> v x = (\<not> lval v l)" "l \<noteq> 0" by blast+
qed

lemma models_opposite:
  assumes m: "models e1 = {v \<in> models e. v r = v q}" and rq: "r = p \<and> q = c \<or> r = c \<and> q = p"
    and d: "\<And>v. v \<in> models e \<Longrightarrow> v d \<noteq> v p"
    and xy: "\<And>v. v \<in> models e \<Longrightarrow> v x = v d \<and> v y = v c \<or> v x = v c \<and> v y = v d"
  shows "models e1 = {v \<in> models e. (v x = v y) = False}"
proof -
  have "(v r = v q) = ((v x = v y) = False)" if v: "v \<in> models e" for v
    using rq d [OF v] xy [OF v] by (elim disjE conjE) auto
  then show ?thesis unfolding m by blast
qed

text \<open>The state after the joins, before the result is looked at.\<close>

lemma oppos_joined:
  assumes inv: "equiv_inv e" and x: "x \<in> vars_of e" and y: "y \<in> vars_of e"
    and ab: "ro e x \<noteq> ro e y" "\<not> opp e (ro e x) (ro e y)"
    and xs: "\<forall>z \<in> set xs. 0 \<le> equiv_fwd e z \<and> rooted (equiv_fwd e) z (ro e x)"
    and ys: "\<forall>z \<in> set ys. 0 \<le> equiv_fwd e z \<and> rooted (equiv_fwd e) z (ro e y)"
  defines "a \<equiv> ro e x" and "b \<equiv> ro e y"
  shows "joined e
    (if - equiv_fwd e a = 1 \<and> - equiv_fwd e b = 1 then set_fwd ys b (set_fwd xs a (pair_classes a b e))
     else if - equiv_fwd e a > 1 \<and> - equiv_fwd e b = 1 then
       (let (root, e) = join_opposite a b e in set_fwd ys root (set_fwd xs a e))
     else if - equiv_fwd e a = 1 \<and> - equiv_fwd e b > 1 then
       (let (root, e) = join_opposite b a e in set_fwd ys b (set_fwd xs root e))
     else (let (root1, root2, e) = join_across a b e in set_fwd ys root2 (set_fwd xs root1 e))) x y False"
proof -
  have a: "is_root e a" and b: "is_root e b" unfolding a_def b_def using is_root_ro [OF inv] x y by blast+
  have neg: "equiv_fwd e a < 0" "equiv_fwd e b < 0" using a b by (simp_all add: is_root_def)
  have k: "key e x = key e a" "key e y = key e b" using key_ro [OF inv] x y by (simp_all add: a_def b_def)
  have mv: "v x = v a" "v y = v b" if "v \<in> models e" for v
    using model_root [OF inv that] x y by (simp_all add: a_def b_def)
  note xs = xs [folded a_def] and ys = ys [folded b_def] and ab = ab [folded a_def b_def]
  consider (n) "equiv_fwd e a = -1" "equiv_fwd e b = -1" | (l) "equiv_fwd e a \<le> -2" "equiv_fwd e b = -1"
    | (r) "equiv_fwd e a = -1" "equiv_fwd e b \<le> -2" | (s) "equiv_fwd e a \<le> -2" "equiv_fwd e b \<le> -2"
    using neg by linarith
  then show ?thesis
  proof cases
    case n
    let ?e1 = "pair_classes a b e"
    have p: "new_super e ?e1 a b" using pair_classes_new [OF inv a b ab(1) n] .
    note f = new_super_facts [OF inv p]
    have "((v x = v y) = False) = (v a \<noteq> v b)" if "v \<in> models e" for v using mv [OF that] by simp
    then have m: "models ?e1 = {v \<in> models e. (v x = v y) = False}"
      unfolding new_super_models [OF inv p] by blast
    have rt: "is_root ?e1 a" "is_root ?e1 b"
      using a b f(8,9) same_frame_vars [OF f(1)] by (simp_all add: is_root_def)
    have nn: "0 \<le> equiv_fwd ?e1 z" if "0 \<le> equiv_fwd e z" for z using that neg f(9) [of z] by auto
    have kk: "\<exists>K. \<forall>z \<in> vars_of e. key ?e1 z = (if key e z = key e x \<or> key e z = key e y then K else key e z) \<and>
       (key e z = K \<longrightarrow> key e z = key e x \<or> key e z = key e y)"
      unfolding k by (rule new_super_key [OF inv p])
    have xs': "\<forall>z \<in> set xs. 0 \<le> equiv_fwd ?e1 z \<and> rooted (equiv_fwd ?e1) z a" using nn xs f(12) by blast
    have ys': "\<forall>z \<in> set ys. 0 \<le> equiv_fwd ?e1 z \<and> rooted (equiv_fwd ?e1) z b" using nn ys f(12) by blast
    have "joined e (set_fwd ys b (set_fwd xs a ?e1)) x y False"
      by (rule joined_after_compress [OF inv new_super_inv [OF inv p] f(1) m kk xs' rt(1) ys' rt(2)])
    then show ?thesis using n by simp
  next
    case l
    obtain r root auxx e1 where j: "join_opposite a b e = (root, e1)" "is_root e r" "opp e a r"
        "root = r \<and> auxx = b \<or> root = b \<and> auxx = r" "one_join e e1 root auxx"
      using join_opposite_joins [OF inv a l(1) b l(2)] by metis
    have J: "joined_roots e e1 root auxx" using j(5) by (simp add: joined_roots_def)
    note f = joined_roots_facts [OF inv J] and g = one_join_facts [OF inv j(5)]
    have ka: "key e r = key e a" using key_opp [OF inv a j(2,3)] .
    have na: "a \<noteq> root" "a \<noteq> auxx" using j(3,4) ab(1) by (auto simp: opp_def)
    have mm: "models e1 = {v \<in> models e. (v x = v y) = False}"
      by (rule models_opposite [where d = a and p = r and c = b, OF f(3) j(4) model_opp [OF inv _ a j(2,3)]]) (simp_all add: mv)
    have rt: "is_root e1 a" using a g(8) [of a] na same_frame_vars [OF g(1)] by (simp add: is_root_def)
    have rd: "rooted (equiv_fwd e1) z a" if "rooted (equiv_fwd e) z a" for z
      using one_join_rooted [OF inv j(5) that] na by simp
    have kk: "\<exists>K. \<forall>z \<in> vars_of e. key e1 z = (if key e z = key e x \<or> key e z = key e y then K else key e z) \<and>
       (key e z = K \<longrightarrow> key e z = key e x \<or> key e z = key e y)"
      using f(5) j(4) unfolding k ka [symmetric] by (elim disjE conjE) (simp_all add: disj_commute)
    have xs': "\<forall>z \<in> set xs. 0 \<le> equiv_fwd e1 z \<and> rooted (equiv_fwd e1) z a" using xs f(6) rd by blast
    have ys': "\<forall>z \<in> set ys. 0 \<le> equiv_fwd e1 z \<and> rooted (equiv_fwd e1) z root" using ys f(6,7) j(4) by blast
    have "joined e (set_fwd ys root (set_fwd xs a e1)) x y False"
      by (rule joined_after_compress [OF inv f(1,2) mm kk xs' rt ys' f(4)])
    then show ?thesis using l j(1) by simp
  next
    case r
    obtain r root auxx e1 where j: "join_opposite b a e = (root, e1)" "is_root e r" "opp e b r"
        "root = r \<and> auxx = a \<or> root = a \<and> auxx = r" "one_join e e1 root auxx"
      using join_opposite_joins [OF inv b r(2) a r(1)] by metis
    have J: "joined_roots e e1 root auxx" using j(5) by (simp add: joined_roots_def)
    note f = joined_roots_facts [OF inv J] and g = one_join_facts [OF inv j(5)]
    have ka: "key e r = key e b" using key_opp [OF inv b j(2,3)] .
    have na: "b \<noteq> root" "b \<noteq> auxx" using j(3,4) ab(1) by (auto simp: opp_def)
    have mm: "models e1 = {v \<in> models e. (v x = v y) = False}"
      by (rule models_opposite [where d = b and p = r and c = a, OF f(3) j(4) model_opp [OF inv _ b j(2,3)]]) (simp_all add: mv)
    have rt: "is_root e1 b" using b g(8) [of b] na same_frame_vars [OF g(1)] by (simp add: is_root_def)
    have rd: "rooted (equiv_fwd e1) z b" if "rooted (equiv_fwd e) z b" for z
      using one_join_rooted [OF inv j(5) that] na by simp
    have kk: "\<exists>K. \<forall>z \<in> vars_of e. key e1 z = (if key e z = key e x \<or> key e z = key e y then K else key e z) \<and>
       (key e z = K \<longrightarrow> key e z = key e x \<or> key e z = key e y)"
      using f(5) j(4) unfolding k ka [symmetric] by (elim disjE conjE) (simp_all add: disj_commute)
    have xs': "\<forall>z \<in> set xs. 0 \<le> equiv_fwd e1 z \<and> rooted (equiv_fwd e1) z root" using xs f(6,7) j(4) by blast
    have ys': "\<forall>z \<in> set ys. 0 \<le> equiv_fwd e1 z \<and> rooted (equiv_fwd e1) z b" using ys f(6) rd by blast
    have "joined e (set_fwd ys b (set_fwd xs root e1)) x y False"
      by (rule joined_after_compress [OF inv f(1,2) mm kk xs' f(4) ys' rt])
    then show ?thesis using r j(1) by simp
  next
    case s
    have d: "equiv_fwd e b \<noteq> equiv_fwd e a" using ab s by (simp add: opp_def)
    obtain ra rb r1 x1 r2 x2 e1 where j: "join_across a b e = (r1, r2, e1)" "is_root e ra" "opp e a ra"
        "is_root e rb" "opp e b rb" "r1 = a \<and> x1 = rb \<or> r1 = rb \<and> x1 = a" "r2 = b \<and> x2 = ra \<or> r2 = ra \<and> x2 = b"
        "two_join e e1 r1 x1 r2 x2 (equiv_fwd e a)"
      using join_across_joins [OF inv a s(1) b s(2) d] by metis
    have J: "joined_roots e e1 r1 x1" using j(8) by (auto simp: joined_roots_def)
    note f = joined_roots_facts [OF inv J] and g = two_join_facts [OF inv j(8)]
    have kb: "key e rb = key e b" using key_opp [OF inv b j(4,5)] .
    have mm: "models e1 = {v \<in> models e. (v x = v y) = False}"
      by (rule models_opposite [where d = b and p = rb and c = a, OF f(3) j(6) [THEN disj_commute [THEN iffD1]] model_opp [OF inv _ b j(4,5)]]) (simp_all add: mv)
    have rt: "is_root e1 r2" using g(4,8,9) same_frame_vars [OF g(1)] by (simp add: is_root_def)
    have rd: "rooted (equiv_fwd e1) z r2" if "rooted (equiv_fwd e) z b" for z
      using g(14) [OF that] j(7) g(6) by (auto simp: join2_def)
    have kk: "\<exists>K. \<forall>z \<in> vars_of e. key e1 z = (if key e z = key e x \<or> key e z = key e y then K else key e z) \<and>
       (key e z = K \<longrightarrow> key e z = key e x \<or> key e z = key e y)"
      using f(5) j(6) unfolding k kb [symmetric] by (elim disjE conjE) (simp_all add: disj_commute)
    have xs': "\<forall>z \<in> set xs. 0 \<le> equiv_fwd e1 z \<and> rooted (equiv_fwd e1) z r1" using xs f(6,7) j(6) by blast
    have ys': "\<forall>z \<in> set ys. 0 \<le> equiv_fwd e1 z \<and> rooted (equiv_fwd e1) z r2" using ys f(6) rd by blast
    have "joined e (set_fwd ys r2 (set_fwd xs r1 e1)) x y False"
      by (rule joined_after_compress [OF inv f(1,2) mm kk xs' f(4) ys' rt])
    then show ?thesis using s j(1) by simp
  qed
qed

lemma not_both_consts:
  assumes inv: "equiv_inv e" and k: "key e x \<noteq> key e y"
    and st: "stands_for e x \<bar>l\<bar>" "stands_for e y \<bar>g\<bar>"
  shows "\<not> (l = Tr e \<and> g = Fa e)"
proof
  assume "l = Tr e \<and> g = Fa e"
  then have "key e (Tr e) = key e x" "key e (Fa e) = key e y"
    using st vars_pos [OF inv const_vars(1)] vars_pos [OF inv const_vars(2)] by (simp_all add: stands_for_def)
  moreover have "key e (Tr e) = key e (Fa e)" using inv_consts [OF inv] by (simp add: key_def)
  ultimately show False using k by simp
qed

theorem insertOppos_correct:
  assumes inv: "equiv_inv e" and x: "x \<in> vars_of e" and y: "y \<in> vars_of e"
  shows "\<exists>r e'. insertOppos x y e = Some (r, e') \<and>
    (case r of None \<Rightarrow> e' = e \<and> (\<forall>v \<in> models e. v x \<noteq> v y)
     | Some (l, g) \<Rightarrow>
        if l = Tr e \<and> g = Fa e then e' = e \<and> (\<forall>v \<in> models e. v x = v y)
        else joined e e' x y False \<and> key e x \<noteq> key e y \<and> stands_for e x \<bar>l\<bar> \<and> stands_for e y \<bar>g\<bar> \<and>
          (\<forall>v \<in> models e. (v x = v y) = (lval v l = lval v g)))"
proof -
  obtain xs where xs: "find_root (equiv_fwd e) x = Some (ro e x, xs)"
      "\<forall>z \<in> set xs. 0 \<le> equiv_fwd e z \<and> rooted (equiv_fwd e) z (ro e x)"
    by (rule find_root_ro [OF inv x])
  obtain ys where ys: "find_root (equiv_fwd e) y = Some (ro e y, ys)"
      "\<forall>z \<in> set ys. 0 \<le> equiv_fwd e z \<and> rooted (equiv_fwd e) z (ro e y)"
    by (rule find_root_ro [OF inv y])
  let ?a = "ro e x" and ?b = "ro e y"
  note a = is_root_ro [OF inv x] and b = is_root_ro [OF inv y]
  have mv: "v x = v ?a" "v y = v ?b" if "v \<in> models e" for v using model_root [OF inv that] x y by blast+
  consider (same) "?a = ?b" | (opp) "?a \<noteq> ?b" "equiv_fwd e ?a = equiv_fwd e ?b \<and> equiv_fwd e ?a \<le> -2"
    | (join) "?a \<noteq> ?b" "\<not> (equiv_fwd e ?a = equiv_fwd e ?b \<and> equiv_fwd e ?a \<le> -2)" by blast
  then show ?thesis
  proof cases
    case same
    then have "\<forall>v \<in> models e. v x = v y" using mv by metis
    then show ?thesis using same xs(1) ys(1) by (simp add: insertOppos_def)
  next
    case opp
    then have "opp e ?a ?b" by (simp add: opp_def)
    then have "\<forall>v \<in> models e. v x \<noteq> v y" using mv model_opp [OF inv _ a b] by metis
    then show ?thesis using opp xs(1) ys(1) by (simp add: insertOppos_def)
  next
    case join
    have no: "\<not> opp e ?a ?b" using join by (auto simp: opp_def)
    define l0 where "l0 = (if equiv_min e ?a < no_inp_vars e then - signed_min e ?a
      else if equiv_min e ?a = Fa e then Tr e else - equiv_min e ?a)"
    define g0 where "g0 = (if equiv_min e ?b < no_inp_vars e then - signed_min e ?b
      else if equiv_min e ?b = Tr e then Fa e else if equiv_min e ?b = Fa e then Tr e else - equiv_min e ?b)"
    have ne: "Tr e \<noteq> Fa e" using inv_sizes(4) [OF inv] .
    have "l0 = (if equiv_min e ?a < no_inp_vars e then - signed_min e ?a
      else if equiv_min e ?a = Tr e then - Tr e else Tr e)"
      using const_min(1) [OF inv a] ne by (auto simp: l0_def)
    note p = oppos_literal [OF inv x this]
    have "g0 = (if equiv_min e ?b < no_inp_vars e then - signed_min e ?b
      else if equiv_min e ?b = Tr e then Fa e else Tr e)"
      using const_min(1) [OF inv b] ne by (auto simp: g0_def)
    note q = oppos_literal [OF inv y this]
    obtain l g where lg: "(l, g) = (if l0 < 0 \<and> g0 < Tr e then (- l0, - g0) else (l0, g0))" by metis
    note fp = flip_pair [OF p(3) q(3) lg, simplified]
    have kk: "key e x \<noteq> key e y" using key_eq_iff [OF inv x y] join(1) no by simp
    have st: "stands_for e x \<bar>l\<bar>" "stands_for e y \<bar>g\<bar>" using p(1) q(1) fp(1,2) by simp_all
    have eq: "\<forall>v \<in> models e. (v x = v y) = (lval v l = lval v g)"
      using p(2) q(2) fp(3) by auto
    have nt: "\<not> (l = Tr e \<and> g = Fa e)" by (rule not_both_consts [OF inv kk st])
    note J = oppos_joined [OF inv x y join(1) no xs(2) ys(2)]
    have "insertOppos x y e = Some (Some (l, g),
      (if - equiv_fwd e ?a = 1 \<and> - equiv_fwd e ?b = 1 then set_fwd ys ?b (set_fwd xs ?a (pair_classes ?a ?b e))
       else if - equiv_fwd e ?a > 1 \<and> - equiv_fwd e ?b = 1 then
         (let (root, e) = join_opposite ?a ?b e in set_fwd ys root (set_fwd xs ?a e))
       else if - equiv_fwd e ?a = 1 \<and> - equiv_fwd e ?b > 1 then
         (let (root, e) = join_opposite ?b ?a e in set_fwd ys ?b (set_fwd xs root e))
       else (let (root1, root2, e) = join_across ?a ?b e in set_fwd ys root2 (set_fwd xs root1 e))))"
      unfolding insertOppos_def Let_def xs(1) ys(1) Option.bind.simps prod.case if_not_P [OF join(1)] if_not_P [OF join(2)]
        l0_def [symmetric] g0_def [symmetric] lg [symmetric] ..
    from exI [where P = "\<lambda>e'. joined e e' x y False \<and> insertOppos x y e = Some (Some (l, g), e')", OF conjI [OF J this]]
    obtain e' where "joined e e' x y False" "insertOppos x y e = Some (Some (l, g), e')" by blast
    then show ?thesis using kk st nt eq by auto
  qed
qed

section \<open>The start and the queries\<close>

lemma Equiv_inv:
  assumes "Equiv inp tru fls = Some e" "1 \<le> inp"
  shows "equiv_inv e" "vars_of e = {1..<inp} \<union> {tru, fls}" "models e = {v. v tru \<and> \<not> v fls}"
    "\<And>x y. x \<in> vars_of e \<Longrightarrow> y \<in> vars_of e \<Longrightarrow> key e x = key e y \<Longrightarrow> x = y \<or> {x, y} = {tru, fls}"
proof -
  have e: "inp < tru" "inp < fls" "tru \<noteq> fls" "no_inp_vars e = inp" "Tr e = tru" "Fa e = fls" "equiv_idx e = 3"
      "equiv_fwd e = (\<lambda>_. -1)(tru := -2, fls := -2)" "equiv_min e = (\<lambda>i. i)"
      "equiv_rgt e = (\<lambda>_. -1)(2 := tru)" "equiv_lft e = (\<lambda>_. -1)(2 := fls)"
    using assms(1) by (auto simp: Equiv_def equiv_start_def split: if_splits)
  have neg: "equiv_fwd e x < 0" for x by (simp add: e)
  have ro: "ro e x = x" for x by (rule ro_self) (rule neg)
  have rt: "rooted (equiv_fwd e) x x" for x by (rule rooted_root) (rule neg)
  show v: "vars_of e = {1..<inp} \<union> {tru, fls}" by (simp add: vars_of_def e)
  have sup: "super_ok e a" if "equiv_fwd e a \<le> -2" for a
    using that e(3) by (auto simp: super_ok_def super_pair_def v e split: if_splits)
  have "min_ok e a" if "a \<in> vars_of e" for a
    using that by (auto simp: min_ok_def ro e v)
  then show "equiv_inv e"
    unfolding equiv_inv_def ro using e rt sup assms(2) by auto
  show "models e = {v. v tru \<and> \<not> v fls}"
    unfolding models_def ro using e(3) by (auto simp: e v split: if_splits)
  show "\<And>x y. x \<in> vars_of e \<Longrightarrow> y \<in> vars_of e \<Longrightarrow> key e x = key e y \<Longrightarrow> x = y \<or> {x, y} = {tru, fls}"
    using assms(2) e(1-3) by (auto simp: key_def ro e v split: if_splits)
qed

theorem isEquiv_correct:
  assumes inv: "equiv_inv e" and x: "x \<in> vars_of e" and y: "y \<in> vars_of e"
  shows "\<exists>r. isEquiv x y e = Some r \<and> r \<in> {1, -1, 0} \<and>
    (r = 1 \<longrightarrow> (\<forall>v \<in> models e. v x = v y)) \<and> (r = -1 \<longrightarrow> (\<forall>v \<in> models e. v x \<noteq> v y)) \<and>
    (r = 0 \<longleftrightarrow> key e x \<noteq> key e y)"
proof -
  let ?a = "ro e x" and ?b = "ro e y"
  have pos: "\<not> x < 0" "\<not> y < 0" using vars_pos [OF inv] x y by fastforce+
  have mv: "v x = v ?a" "v y = v ?b" if "v \<in> models e" for v using model_root [OF inv that] x y by blast+
  note a = is_root_ro [OF inv x] and b = is_root_ro [OF inv y]
  have op: "opp e ?a ?b \<longleftrightarrow> ?a \<noteq> ?b \<and> equiv_fwd e ?a = equiv_fwd e ?b \<and> equiv_fwd e ?a < -1"
    by (auto simp: opp_def)
  have r: "isEquiv x y e = Some (if ?a = ?b then 1 else if opp e ?a ?b then -1 else 0)"
  proof -
    obtain xs where xs: "find_root (equiv_fwd e) x = Some (?a, xs)" by (rule find_root_ro [OF inv x])
    obtain ys where ys: "find_root (equiv_fwd e) y = Some (?b, ys)" by (rule find_root_ro [OF inv y])
    show ?thesis using pos unfolding isEquiv_def op by (simp add: xs ys)
  qed
  have "\<forall>v \<in> models e. v x \<noteq> v y" if "opp e ?a ?b" using mv model_opp [OF inv _ a b that] by metis
  moreover have "\<forall>v \<in> models e. v x = v y" if "?a = ?b" using mv that by metis
  moreover note key_eq_iff [OF inv x y]
  ultimately show ?thesis unfolding r by auto
qed

theorem get_equiv_correct:
  assumes inv: "equiv_inv e" and x: "x \<in> vars_of e"
  shows "\<exists>m. get_equiv x e = Some m \<and> m \<in> vars_of e \<and> (\<forall>v \<in> models e. v m = v x) \<and>
    (m < no_inp_vars e \<longrightarrow> (\<forall>z \<in> vars_of e. ro e z = ro e x \<longrightarrow> m \<le> z))"
proof -
  let ?m = "equiv_min e (ro e x)"
  have m: "?m \<in> vars_of e" "ro e ?m = ro e x"
      "no_inp_vars e \<le> ?m \<or> (\<forall>z \<in> vars_of e. ro e z = ro e x \<longrightarrow> ?m \<le> z)"
    using is_rootD(5) [OF inv is_root_ro [OF inv x]] by (auto simp: min_ok_def)
  obtain xs where xs: "find_root (equiv_fwd e) x = Some (ro e x, xs)" by (rule find_root_ro [OF inv x])
  then have "get_equiv x e = Some ?m" by (simp add: get_equiv_def)
  moreover have "\<forall>v \<in> models e. v ?m = v x" using model_root [OF inv] m(1,2) x by metis
  ultimately show ?thesis using m by auto
qed

end
