(* ===== verification/Reduceinfs.thy ===== *)
theory Reduceinfs
  imports Equivclass Infer
begin

text \<open>
  \<open>ReduceInferences\<close> of preproc/do_applyinfs.cc: the new inferences at the end of the list are
  entered into the equivalence classes; what the classes imply already is removed, and the rest is
  rewritten to speak of the smallest variables of the classes, so that each one left eliminates a
  variable that no other one eliminates.
\<close>

section \<open>The definitions\<close>

datatype prep_result = TRIV_UNSAT | TRIV_SAT | PREP_ERROR | PREP_NO_CHANGE | PREP_CHANGED

text \<open>One inference: a contradiction, nothing new, or the inference as it is rewritten.\<close>

datatype reduced = Unsat | Removed | Kept infer

definition reduce_equ :: "int \<times> int \<Rightarrow> equiv \<Rightarrow> reduced" where
  "reduce_equ = (\<lambda>(left, rght) l.
     if left = Tr l \<and> rght = Fa l then Unsat
     else if left = Tr l then Kept (rght, 0)
     else if rght = Tr l then Kept (left, 0)
     else if left = Fa l then Kept (- rght, 0)
     else if rght = Fa l then Kept (- left, 0)
     else if \<bar>left\<bar> < \<bar>rght\<bar> then
       (if left < 0 then Kept (- left, - rght) else Kept (left, rght))
     else (if rght < 0 then Kept (- rght, - left) else Kept (rght, left)))"

definition reduce_opp :: "int \<times> int \<Rightarrow> equiv \<Rightarrow> reduced" where
  "reduce_opp = (\<lambda>(left, rght) l.
     if left = Tr l \<and> rght = Fa l then Unsat
     else if left = Tr l then Kept (- rght, 0)
     else if rght = Tr l then Kept (- left, 0)
     else if left = Fa l then Kept (rght, 0)
     else if rght = Fa l then Kept (left, 0)
     else if \<bar>left\<bar> < \<bar>rght\<bar> then
       (if left < 0 then Kept (- left, rght) else Kept (left, - rght))
     else (if rght < 0 then Kept (- rght, left) else Kept (rght, - left)))"

definition reduce_infer :: "infer \<Rightarrow> equiv \<Rightarrow> (reduced \<times> equiv) option" where
  "reduce_infer = (\<lambda>(n0, n1) l. do {
     (r, l) \<leftarrow>
       (if n1 = 0 then
          (if n0 > 0 then do {
             (result, l) \<leftarrow> insertEquiv n0 (Tr l) l;
             Some (case result of None \<Rightarrow> Removed
               | Some (left, rght) \<Rightarrow>
                   if left = Tr l \<and> rght = Fa l then Unsat
                   else if left < Tr l then Kept (left, n1) else Kept (rght, n1), l) }
           else do {
             (result, l) \<leftarrow> insertEquiv (- n0) (Fa l) l;
             Some (case result of None \<Rightarrow> Removed
               | Some (left, rght) \<Rightarrow>
                   if left = Tr l \<and> rght = Fa l then Unsat
                   else if left < Tr l then Kept (- left, n1) else Kept (- rght, n1), l) })
        else if n1 > 0 then do {
          (result, l) \<leftarrow> insertEquiv n0 n1 l;
          Some (case result of None \<Rightarrow> Removed | Some r \<Rightarrow> reduce_equ r l, l) }
        else do {
          (result, l) \<leftarrow> insertOppos n0 (- n1) l;
          Some (case result of None \<Rightarrow> Removed | Some r \<Rightarrow> reduce_opp r l, l) });
     case r of
       Kept (m0, m1) \<Rightarrow> if (m1 \<noteq> 0 \<longrightarrow> m0 > 0) \<and> m0 \<noteq> 0 then Some (r, l) else None
     | _ \<Rightarrow> Some (r, l) })"

text \<open>
  The loop over the inferences after \<open>lastinfer\<close>: the list that is left there, and the code that is
  returned. None is a failed assertion. At a contradiction the rest of the list stays as it is.
\<close>

fun ReduceInferences :: "infer list \<Rightarrow> equiv \<Rightarrow> (prep_result \<times> infer list \<times> equiv) option" where
  "ReduceInferences [] l = Some (PREP_NO_CHANGE, [], l)"
| "ReduceInferences (i # is) l = do {
     (r, l) \<leftarrow> reduce_infer i l;
     case r of
       Unsat \<Rightarrow> Some (TRIV_UNSAT, i # is, l)
     | Removed \<Rightarrow> ReduceInferences is l
     | Kept j \<Rightarrow> do {
         (r, js, l) \<leftarrow> ReduceInferences is l;
         Some (r, j # js, l) } }"

section \<open>Smallest variables\<close>

text \<open>
  An assignment of the variables, with the values of the constants; the variables that are the
  smallest of their class and its opposite, when that has no constant; the variable that an
  inference eliminates.
\<close>

definition with_consts :: "equiv \<Rightarrow> assignment \<Rightarrow> int \<Rightarrow> bool" where
  "with_consts e a z = (if z = Tr e then True else if z = Fa e then False else a (nat z))"

definition mins :: "equiv \<Rightarrow> int set" where
  "mins e = {z \<in> vars_of e. z < no_inp_vars e \<and>
     (\<forall>w \<in> vars_of e. key e w = key e z \<longrightarrow> w < no_inp_vars e \<and> z \<le> w)}"

definition elim :: "infer \<Rightarrow> int" where
  "elim i = (if snd i = 0 then \<bar>fst i\<bar> else \<bar>snd i\<bar>)"

definition infer_in :: "equiv \<Rightarrow> infer \<Rightarrow> bool" where
  "infer_in e i \<longleftrightarrow> infer_wf i \<and> \<bar>fst i\<bar> < no_inp_vars e \<and> \<bar>snd i\<bar> < no_inp_vars e"

lemma vars_small: "1 \<le> z \<Longrightarrow> z < no_inp_vars e \<Longrightarrow> z \<in> vars_of e"
  by (simp add: vars_of_def)

lemma vars_smallI: "z \<in> vars_of e \<Longrightarrow> z < no_inp_vars e \<or> z = Tr e \<or> z = Fa e"
  by (auto simp: vars_of_def)

lemma stands_mins: "stands_for e x n \<Longrightarrow> n < no_inp_vars e \<Longrightarrow> n \<in> mins e"
  by (auto simp: stands_for_def mins_def)

lemma stands_const:
  assumes "equiv_inv e" "stands_for e x n" "\<not> n < no_inp_vars e"
  shows "key e x = key e (Tr e)" "n = Tr e \<or> n = Fa e"
proof -
  show n: "n = Tr e \<or> n = Fa e" using assms vars_smallI by (auto simp: stands_for_def)
  have "key e (Tr e) = key e (Fa e)" using inv_consts [OF assms(1)] by (simp add: key_def)
  moreover have "key e n = key e x" using assms(2) by (simp add: stands_for_def)
  ultimately show "key e x = key e (Tr e)" using n by (elim disjE) simp_all
qed

lemma mins_bounds: "equiv_inv e \<Longrightarrow> z \<in> mins e \<Longrightarrow> 0 < z \<and> z < no_inp_vars e"
  using vars_pos by (auto simp: mins_def)

lemma stands_nonzero: "equiv_inv e \<Longrightarrow> stands_for e x \<bar>n\<bar> \<Longrightarrow> n \<noteq> 0"
  using vars_pos [of e "\<bar>n\<bar>"] by (auto simp: stands_for_def)

lemma with_consts_lval:
  "equiv_inv e \<Longrightarrow> l \<noteq> 0 \<Longrightarrow> \<bar>l\<bar> < no_inp_vars e \<Longrightarrow> lval (with_consts e a) l = lit l a"
  using inv_sizes [of e] by (auto simp: lval_def with_consts_def lit_def)

lemma with_consts_val:
  "equiv_inv e \<Longrightarrow> 0 < z \<Longrightarrow> z < no_inp_vars e \<Longrightarrow> with_consts e a z = lit z a"
  using with_consts_lval [of e z a] by simp

lemma with_consts_const [simp]:
  "with_consts e a (Tr e)" "equiv_inv e \<Longrightarrow> \<not> with_consts e a (Fa e)"
  using inv_sizes(4) [of e] by (auto simp: with_consts_def)

lemma with_consts_frame: "same_frame e e' \<Longrightarrow> with_consts e' = with_consts e"
  by (auto simp: same_frame_def with_consts_def fun_eq_iff)

text \<open>Joining two classes: the larger of the two smallest variables is no longer a smallest one.\<close>

lemma joined_mins:
  assumes inv: "equiv_inv e" and j: "joined e e' x y b" and k: "key e x \<noteq> key e y"
    and x: "stands_for e x m" and y: "stands_for e y n"
  defines "d \<equiv> if \<not> m < no_inp_vars e then n else if \<not> n < no_inp_vars e then m else max m n"
  shows "mins e' = mins e - {d}" "d \<in> mins e" "m \<noteq> n"
    "m < no_inp_vars e \<Longrightarrow> n < no_inp_vars e \<Longrightarrow> min m n \<in> mins e'"
proof -
  have fr: "same_frame e e'" and inv': "equiv_inv e'" using j by (simp_all add: joined_def)
  have v: "vars_of e' = vars_of e" and i: "no_inp_vars e' = no_inp_vars e"
    using fr same_frame_vars [OF fr] by (simp_all add: same_frame_def)
  have "\<exists>K. \<forall>z \<in> vars_of e. key e' z = (if key e z = key e x \<or> key e z = key e y then K else key e z) \<and>
      (key e z = K \<longrightarrow> key e z = key e x \<or> key e z = key e y)"
    using j unfolding joined_def by (elim conjE)
  then obtain K where "\<forall>z \<in> vars_of e. key e' z = (if key e z = key e x \<or> key e z = key e y then K else key e z) \<and>
      (key e z = K \<longrightarrow> key e z = key e x \<or> key e z = key e y)" ..
  note K = bspec [OF this]
  have same: "key e' w = key e' z \<longleftrightarrow> (if key e z = key e x \<or> key e z = key e y
      then key e w = key e x \<or> key e w = key e y else key e w = key e z)"
    if "w \<in> vars_of e" "z \<in> vars_of e" for w z
    using K [OF that(1)] K [OF that(2)] by metis
  have mn: "m \<in> vars_of e" "key e m = key e x" "n \<in> vars_of e" "key e n = key e y"
    using x y by (simp_all add: stands_for_def)
  show "m \<noteq> n" using mn k by auto
  have one: "m < no_inp_vars e \<or> n < no_inp_vars e"
    using stands_const(1) [OF inv x] stands_const(1) [OF inv y] k by metis
  have dm: "m < no_inp_vars e \<Longrightarrow> m \<in> mins e" "n < no_inp_vars e \<Longrightarrow> n \<in> mins e"
    using stands_mins x y by blast+
  show d: "d \<in> mins e" using dm one by (auto simp: d_def max_def)
  have low: "w < no_inp_vars e \<and> m \<le> w" if "m < no_inp_vars e" "w \<in> vars_of e" "key e w = key e x" for w
    using x that by (simp add: stands_for_def)
  have low': "w < no_inp_vars e \<and> n \<le> w" if "n < no_inp_vars e" "w \<in> vars_of e" "key e w = key e y" for w
    using y that by (simp add: stands_for_def)
  have in_x: "z = m" if "z \<in> mins e" "key e z = key e x" for z
  proof -
    have "z \<le> m" "m < no_inp_vars e" using that mn by (auto simp: mins_def)
    then show ?thesis using low that by (fastforce simp: mins_def)
  qed
  have in_y: "z = n" if "z \<in> mins e" "key e z = key e y" for z
  proof -
    have "z \<le> n" "n < no_inp_vars e" using that mn by (auto simp: mins_def)
    then show ?thesis using low' that by (fastforce simp: mins_def)
  qed
  have out: "z \<in> mins e' \<longleftrightarrow> z \<in> mins e" if "\<not> (key e z = key e x \<or> key e z = key e y)" for z
    using same that by (auto simp: mins_def v i)
  have into: "z \<in> mins e" if z: "z \<in> mins e'" for z
    using that same by (cases "key e z = key e x \<or> key e z = key e y") (auto simp: mins_def v i)
  have keep: "min m n \<in> mins e'" if lt: "m < no_inp_vars e" "n < no_inp_vars e"
    using lt mn low low' same
    by (auto simp: mins_def v i min_def intro: order_trans [of m n] order_trans [of n m])
  then show "m < no_inp_vars e \<Longrightarrow> n < no_inp_vars e \<Longrightarrow> min m n \<in> mins e'" .
  have gone: "d \<notin> mins e'"
  proof
    assume d': "d \<in> mins e'"
    have dv: "d \<in> vars_of e" "key e d = key e x \<or> key e d = key e y" using mn by (auto simp: d_def max_def)
    have "w < no_inp_vars e \<and> d \<le> w" if "w \<in> vars_of e" "key e w = key e x \<or> key e w = key e y" for w
      using d' same [OF that(1) dv(1)] dv(2) that by (auto simp: mins_def v i)
    from this [OF mn(1)] this [OF mn(3)] show False using mn \<open>m \<noteq> n\<close> by (auto simp: d_def max_def split: if_splits)
  qed
  show "mins e' = mins e - {d}"
  proof (rule set_eqI)
    fix z
    show "z \<in> mins e' \<longleftrightarrow> z \<in> mins e - {d}"
    proof (cases "key e z = key e x \<or> key e z = key e y")
      case False
      then show ?thesis using out [OF False] mn by (auto simp: d_def max_def)
    next
      case True
      have "z \<in> mins e'" if z: "z \<in> mins e" "z \<noteq> d"
      proof -
        have "z = m \<or> z = n" using in_x in_y z True by blast
        moreover have "z < no_inp_vars e" using z by (simp add: mins_def)
        ultimately have lt: "m < no_inp_vars e" "n < no_inp_vars e" and "z = min m n"
          using z(2) by (auto simp: d_def min_def max_def split: if_splits)
        then show ?thesis using keep by simp
      qed
      then show ?thesis using into gone by blast
    qed
  qed
qed

section \<open>The results of the insertions\<close>

text \<open>
  A constant in a result of \<open>insertEquiv\<close> is the one of the variable's own class; one in a result of
  \<open>insertOppos\<close> has no minus. This needs the constants in the order in which the program numbers them.
\<close>

lemma signed_min_big:
  assumes "equiv_inv e" "is_root e a" "\<not> \<bar>signed_min e a\<bar> < no_inp_vars e"
  shows "signed_min e a = equiv_min e a" "equiv_min e a = Tr e \<or> equiv_min e a = Fa e"
proof -
  have m: "equiv_min e a \<in> vars_of e" "ro e (equiv_min e a) = a"
    using is_rootD(5) [OF assms(1,2)] by (simp_all add: min_ok_def)
  have "key e (equiv_min e a) = key e a" using key_ro [OF assms(1) m(1)] m(2) by simp
  then have big: "\<not> equiv_min e a < no_inp_vars e"
    using signed_min_ok(5) [OF assms(1,2) _ m(1)] assms(3) by force
  then show "signed_min e a = equiv_min e a" using signed_min_ok(4) [OF assms(1,2)] by simp
  show "equiv_min e a = Tr e \<or> equiv_min e a = Fa e" using const_min(1) [OF assms(1,2) big] .
qed

lemma insertEquiv_consts:
  assumes inv: "equiv_inv e" "Tr e < Fa e" and x: "x \<in> vars_of e" and y: "y \<in> vars_of e"
    and r: "insertEquiv x y e = Some (Some (l, g), e')" "\<not> (l = Tr e \<and> g = Fa e)"
  shows "\<not> \<bar>l\<bar> < no_inp_vars e \<longrightarrow> l = equiv_min e (ro e x)" "\<not> \<bar>g\<bar> < no_inp_vars e \<longrightarrow> g = equiv_min e (ro e y)"
proof -
  obtain xs where xs: "find_root (equiv_fwd e) x = Some (ro e x, xs)" by (rule find_root_ro [OF inv(1) x])
  obtain ys where ys: "find_root (equiv_fwd e) y = Some (ro e y, ys)" by (rule find_root_ro [OF inv(1) y])
  define l0 g0 where "l0 = signed_min e (ro e x)" and "g0 = signed_min e (ro e y)"
  have lg: "(l, g) = (if l0 < 0 \<and> g0 < Tr e then (- l0, - g0) else (l0, g0))"
    using r xs ys by (auto simp: insertEquiv_def Let_def l0_def g0_def split: if_split_asm)
  note bx = signed_min_big [OF inv(1) is_root_ro [OF inv(1) x], folded l0_def]
    and by' = signed_min_big [OF inv(1) is_root_ro [OF inv(1) y], folded g0_def]
  have pos: "0 < Tr e" using inv_sizes [OF inv(1)] by simp
  show "\<not> \<bar>l\<bar> < no_inp_vars e \<longrightarrow> l = equiv_min e (ro e x)"
    using lg bx pos inv(2) by (auto split: if_splits)
  show "\<not> \<bar>g\<bar> < no_inp_vars e \<longrightarrow> g = equiv_min e (ro e y)"
    using lg by' pos inv(2) by (auto split: if_splits)
qed

lemma insertOppos_consts:
  assumes inv: "equiv_inv e" "Tr e < Fa e" and x: "x \<in> vars_of e" and y: "y \<in> vars_of e"
    and r: "insertOppos x y e = Some (Some (l, g), e')" "\<not> (l = Tr e \<and> g = Fa e)" "key e x \<noteq> key e y"
  shows "\<not> \<bar>l\<bar> < no_inp_vars e \<longrightarrow> l = Tr e \<or> l = Fa e" "\<not> \<bar>g\<bar> < no_inp_vars e \<longrightarrow> g = Tr e \<or> g = Fa e"
proof -
  obtain xs where xs: "find_root (equiv_fwd e) x = Some (ro e x, xs)" by (rule find_root_ro [OF inv(1) x])
  obtain ys where ys: "find_root (equiv_fwd e) y = Some (ro e y, ys)" by (rule find_root_ro [OF inv(1) y])
  let ?a = "ro e x" and ?b = "ro e y"
  note a = is_root_ro [OF inv(1) x] and b = is_root_ro [OF inv(1) y]
  have pos: "0 < Tr e" "0 < Fa e" "no_inp_vars e < Tr e" using inv_sizes [OF inv(1)] by simp_all
  define l0 where "l0 = (if equiv_min e ?a < no_inp_vars e then - signed_min e ?a
    else if equiv_min e ?a = Fa e then Tr e else - equiv_min e ?a)"
  define g0 where "g0 = (if equiv_min e ?b < no_inp_vars e then - signed_min e ?b
    else if equiv_min e ?b = Tr e then Fa e else if equiv_min e ?b = Fa e then Tr e else - equiv_min e ?b)"
  have ab: "?a \<noteq> ?b" using r(1,2) xs ys by (auto simp: insertOppos_def)
  have nop: "\<not> (equiv_fwd e ?a = equiv_fwd e ?b \<and> equiv_fwd e ?a \<le> -2)"
    using r(1) xs ys ab by (auto simp: insertOppos_def)
  obtain e2 where "insertOppos x y e = Some (Some (if l0 < 0 \<and> g0 < Tr e then (- l0, - g0) else (l0, g0)), e2)"
    unfolding insertOppos_def Let_def xs ys Option.bind.simps prod.case if_not_P [OF ab] if_not_P [OF nop]
      l0_def [symmetric] g0_def [symmetric] by (simp split: if_splits prod.splits)
  then have lg: "(l, g) = (if l0 < 0 \<and> g0 < Tr e then (- l0, - g0) else (l0, g0))" using r(1) by simp
  have small: "\<bar>signed_min e c\<bar> < no_inp_vars e" if "is_root e c" "equiv_min e c < no_inp_vars e" for c
    using signed_min_big [OF inv(1) that(1)] that(2) inv_sizes(2,3) [OF inv(1)] by force
  have l0: "\<not> \<bar>l0\<bar> < no_inp_vars e \<Longrightarrow> l0 = Tr e \<or> l0 = - Tr e"
    using small [OF a] const_min(1) [OF inv(1) a] by (auto simp: l0_def split: if_splits)
  have g0: "\<not> \<bar>g0\<bar> < no_inp_vars e \<Longrightarrow> g0 = Tr e \<or> g0 = Fa e"
    using small [OF b] const_min(1) [OF inv(1) b] by (auto simp: g0_def split: if_splits)
  have one: "\<bar>l0\<bar> < no_inp_vars e \<or> \<bar>g0\<bar> < no_inp_vars e"
  proof (rule ccontr)
    assume n: "\<not> ?thesis"
    have "\<not> equiv_min e ?a < no_inp_vars e" "\<not> equiv_min e ?b < no_inp_vars e"
      using n small [OF a] small [OF b] by (auto simp: l0_def g0_def)
    from const_min(3) [OF inv(1) a this(1)] const_min(3) [OF inv(1) b this(2)]
    show False using r(3) key_ro [OF inv(1) x] key_ro [OF inv(1) y] by simp
  qed
  show "\<not> \<bar>l\<bar> < no_inp_vars e \<longrightarrow> l = Tr e \<or> l = Fa e" using lg l0 one pos by (auto split: if_splits)
  show "\<not> \<bar>g\<bar> < no_inp_vars e \<longrightarrow> g = Tr e \<or> g = Fa e" using lg g0 one pos inv(2) by (auto split: if_splits)
qed

section \<open>One inference\<close>

definition reduced_ok :: "equiv \<Rightarrow> infer \<Rightarrow> reduced \<Rightarrow> equiv \<Rightarrow> bool" where
  "reduced_ok e i r e' \<longleftrightarrow>
     (case r of
        Unsat \<Rightarrow> e' = e \<and> (\<forall>a. with_consts e a \<in> models e \<longrightarrow> \<not> infer_holds i a)
      | Removed \<Rightarrow> e' = e \<and> (\<forall>a. with_consts e a \<in> models e \<longrightarrow> infer_holds i a)
      | Kept j \<Rightarrow> equiv_inv e' \<and> same_frame e e' \<and> infer_in e j \<and>
          (\<forall>a. with_consts e a \<in> models e' \<longleftrightarrow> with_consts e a \<in> models e \<and> infer_holds i a) \<and>
          (\<forall>a. with_consts e a \<in> models e \<longrightarrow> infer_holds j a = infer_holds i a) \<and>
          elim j \<in> mins e \<and> mins e' = mins e - {elim j} \<and> (snd j \<noteq> 0 \<longrightarrow> fst j \<in> mins e'))"

lemma consts_not_both:
  "equiv_inv e \<Longrightarrow> key e x \<noteq> key e y \<Longrightarrow> stands_for e x m \<Longrightarrow> stands_for e y n \<Longrightarrow>
    m < no_inp_vars e \<or> n < no_inp_vars e"
  using stands_const(1) by metis

text \<open>
  The kept inference from the literals \<open>l\<close> and \<open>g\<close> for two variables that are joined: a literal when
  one of them is a constant of value \<open>c\<close>, else the equivalence of the two, the smaller variable first.
\<close>

lemma reduced_literal:
  assumes inv: "equiv_inv e" and j: "joined e e' x y b" and k: "key e x \<noteq> key e y"
    and st: "stands_for e x m" "stands_for e y n"
    and one: "\<not> m < no_inp_vars e \<and> n = \<bar>l\<bar> \<or> \<not> n < no_inp_vars e \<and> m = \<bar>l\<bar>"
    and i: "\<And>a. infer_holds i a = ((with_consts e a x = with_consts e a y) = b)"
    and l: "\<And>a. with_consts e a \<in> models e \<Longrightarrow> ((with_consts e a x = with_consts e a y) = b) = lval (with_consts e a) l"
  shows "reduced_ok e i (Kept (l, 0)) e'"
proof -
  note m = joined_mins [OF inv j k st]
  have d: "(if \<not> m < no_inp_vars e then n else if \<not> n < no_inp_vars e then m else max m n) = \<bar>l\<bar>"
    using one consts_not_both [OF inv k st] by auto
  have le: "\<bar>l\<bar> \<in> mins e" using m(2) d by simp
  then have lb: "\<bar>l\<bar> < no_inp_vars e" "l \<noteq> 0" using mins_bounds [OF inv le] by auto
  have "models e' = {v \<in> models e. (v x = v y) = b}" and fr: "same_frame e e'" and inv': "equiv_inv e'"
    using j by (simp_all add: joined_def)
  then show ?thesis
    using m(1) le lb l i with_consts_lval [OF inv lb(2,1)]
    by (simp add: reduced_ok_def elim_def d infer_in_def infer_wf_def infer_holds_def)
qed

lemma reduced_equivalence:
  assumes inv: "equiv_inv e" and j: "joined e e' x y b" and k: "key e x \<noteq> key e y"
    and st: "stands_for e x m" "stands_for e y n" and small: "m < no_inp_vars e" "n < no_inp_vars e"
    and p: "p = min m n" "\<bar>q\<bar> = max m n"
    and i: "\<And>a. infer_holds i a = ((with_consts e a x = with_consts e a y) = b)"
    and l: "\<And>a. with_consts e a \<in> models e \<Longrightarrow>
      ((with_consts e a x = with_consts e a y) = b) = (with_consts e a p = lval (with_consts e a) q)"
  shows "reduced_ok e i (Kept (p, q)) e'"
proof -
  note m = joined_mins [OF inv j k st]
  have d: "(if \<not> m < no_inp_vars e then n else if \<not> n < no_inp_vars e then m else max m n) = \<bar>q\<bar>"
    using small p by simp
  have le: "\<bar>q\<bar> \<in> mins e" "p \<in> mins e'" using m(2,4) d small p by simp_all
  then have "p \<in> mins e" using m(1) by blast
  then have pb: "0 < p" "p < no_inp_vars e" using mins_bounds [OF inv] by simp_all
  have qb: "\<bar>q\<bar> < no_inp_vars e" "q \<noteq> 0" using mins_bounds [OF inv le(1)] by auto
  have "models e' = {v \<in> models e. (v x = v y) = b}" and fr: "same_frame e e'" and inv': "equiv_inv e'"
    using j by (simp_all add: joined_def)
  then show ?thesis
    using m(1) le pb qb l i with_consts_lval [OF inv qb(2,1)] with_consts_val [OF inv pb]
    by (simp add: reduced_ok_def elim_def d infer_in_def infer_wf_def infer_holds_def)
qed

lemma reduce_pair:
  assumes inv: "equiv_inv e" "Tr e < Fa e" and j: "joined e e' x y b" and k: "key e x \<noteq> key e y"
    and st: "stands_for e x \<bar>l\<bar>" "stands_for e y \<bar>g\<bar>"
    and lg: "\<And>v. v \<in> models e \<Longrightarrow> (v x = v y) = (lval v l = lval v g)"
    and pos: "\<not> \<bar>l\<bar> < no_inp_vars e \<longrightarrow> l = Tr e \<or> l = Fa e" "\<not> \<bar>g\<bar> < no_inp_vars e \<longrightarrow> g = Tr e \<or> g = Fa e"
    and tf: "\<not> (l = Tr e \<and> g = Fa e)"
    and i: "\<And>a. infer_holds i a = ((with_consts e a x = with_consts e a y) = b)"
  shows "reduced_ok e i (if b then reduce_equ (l, g) e' else reduce_opp (l, g) e') e'"
proof -
  have c: "Tr e' = Tr e" "Fa e' = Fa e" using j by (simp_all add: joined_def same_frame_def)
  have s: "no_inp_vars e < Tr e" "no_inp_vars e < Fa e" "Tr e \<noteq> Fa e" "0 < Tr e" "0 < Fa e"
    using inv_sizes [OF inv(1)] by simp_all
  have WT: "lval (with_consts e a) (Tr e)" "\<not> lval (with_consts e a) (Fa e)" for a
    using s inv(1) by simp_all
  have nz: "l \<noteq> 0" "g \<noteq> 0" using st stands_nonzero [OF inv(1)] by blast+
  note L = reduced_literal [OF inv(1) j k st _ i] and Q = reduced_equivalence [OF inv(1) j k st _ _ _ _ i]
  consider (l) "\<not> \<bar>l\<bar> < no_inp_vars e" "\<bar>g\<bar> < no_inp_vars e"
    | (g) "\<bar>l\<bar> < no_inp_vars e" "\<not> \<bar>g\<bar> < no_inp_vars e"
    | (n) "\<bar>l\<bar> < no_inp_vars e" "\<bar>g\<bar> < no_inp_vars e"
    using consts_not_both [OF inv(1) k st] by blast
  then show ?thesis
  proof cases
    case l
    have gn: "g \<noteq> Tr e" "g \<noteq> Fa e" using l s by auto
    have lc: "l = Tr e \<or> l = Fa e" using pos(1) l by blast
    define h where "h = (if (l = Tr e) = b then g else - g)"
    have "(if b then reduce_equ (l, g) e' else reduce_opp (l, g) e') = Kept (h, 0)"
      using lc gn s(3) by (auto simp: reduce_equ_def reduce_opp_def c h_def)
    moreover have "reduced_ok e i (Kept (h, 0)) e'"
    proof (rule L)
      show "\<not> \<bar>l\<bar> < no_inp_vars e \<and> \<bar>g\<bar> = \<bar>h\<bar> \<or> \<not> \<bar>g\<bar> < no_inp_vars e \<and> \<bar>l\<bar> = \<bar>h\<bar>"
        using l by (simp add: h_def)
      fix a assume "with_consts e a \<in> models e"
      from lg [OF this]
      show "((with_consts e a x = with_consts e a y) = b) = lval (with_consts e a) h"
        using lc WT [of a] s(3) lval_neg [OF nz(2), of "with_consts e a"] by (cases b) (auto simp: h_def)
    qed
    ultimately show ?thesis by simp
  next
    case g
    have gn: "l \<noteq> Tr e" "l \<noteq> Fa e" using g s by auto
    have lc: "g = Tr e \<or> g = Fa e" using pos(2) g by blast
    define h where "h = (if (g = Tr e) = b then l else - l)"
    have "(if b then reduce_equ (l, g) e' else reduce_opp (l, g) e') = Kept (h, 0)"
      using lc gn s(3) by (auto simp: reduce_equ_def reduce_opp_def c h_def)
    moreover have "reduced_ok e i (Kept (h, 0)) e'"
    proof (rule L)
      show "\<not> \<bar>l\<bar> < no_inp_vars e \<and> \<bar>g\<bar> = \<bar>h\<bar> \<or> \<not> \<bar>g\<bar> < no_inp_vars e \<and> \<bar>l\<bar> = \<bar>h\<bar>"
        using g by (simp add: h_def)
      fix a assume "with_consts e a \<in> models e"
      from lg [OF this]
      show "((with_consts e a x = with_consts e a y) = b) = lval (with_consts e a) h"
        using lc WT [of a] s(3) lval_neg [OF nz(1), of "with_consts e a"] by (cases b) (auto simp: h_def)
    qed
    ultimately show ?thesis by simp
  next
    case n
    have gn: "l \<noteq> Tr e" "l \<noteq> Fa e" "g \<noteq> Tr e" "g \<noteq> Fa e" using n s by auto
    have ne: "\<bar>l\<bar> \<noteq> \<bar>g\<bar>" using joined_mins(3) [OF inv(1) j k st] .
    define p q where "p = min \<bar>l\<bar> \<bar>g\<bar>"
      and "q = (let f = if \<bar>l\<bar> < \<bar>g\<bar> then l else g; h = if \<bar>l\<bar> < \<bar>g\<bar> then g else l in if (f < 0) = b then - h else h)"
    have "(if b then reduce_equ (l, g) e' else reduce_opp (l, g) e') = Kept (p, q)"
      using gn ne by (auto simp: reduce_equ_def reduce_opp_def c p_def q_def Let_def)
    moreover have "reduced_ok e i (Kept (p, q)) e'"
    proof (rule Q [OF n])
      show "p = min \<bar>l\<bar> \<bar>g\<bar>" by (simp add: p_def)
      show "\<bar>q\<bar> = max \<bar>l\<bar> \<bar>g\<bar>" using ne by (auto simp: q_def Let_def)
      fix a assume "with_consts e a \<in> models e"
      from lg [OF this]
      show "((with_consts e a x = with_consts e a y) = b) = (with_consts e a p = lval (with_consts e a) q)"
        using nz ne by (cases b) (auto simp: p_def q_def lval_def Let_def min_def split: if_splits)
    qed
    ultimately show ?thesis by simp
  qed
qed

lemma equiv_step:
  assumes inv: "equiv_inv e" "Tr e < Fa e" and x: "x \<in> vars_of e" and y: "y \<in> vars_of e"
    and i: "\<And>a. infer_holds i a = (with_consts e a x = with_consts e a y)"
    and keep: "\<And>l g e'. joined e e' x y True \<Longrightarrow> key e x \<noteq> key e y \<Longrightarrow> stands_for e x \<bar>l\<bar> \<Longrightarrow> stands_for e y \<bar>g\<bar> \<Longrightarrow>
      (\<And>v. v \<in> models e \<Longrightarrow> (v x = v y) = (lval v l = lval v g)) \<Longrightarrow>
      (\<not> \<bar>l\<bar> < no_inp_vars e \<longrightarrow> l = equiv_min e (ro e x)) \<Longrightarrow>
      (\<not> \<bar>g\<bar> < no_inp_vars e \<longrightarrow> g = equiv_min e (ro e y)) \<Longrightarrow> \<not> (l = Tr e \<and> g = Fa e) \<Longrightarrow>
      reduced_ok e i (K l g e') e'"
  shows "\<exists>r e'. insertEquiv x y e = Some (r, e') \<and> reduced_ok e i
    (case r of None \<Rightarrow> Removed | Some (l, g) \<Rightarrow> if l = Tr e' \<and> g = Fa e' then Unsat else K l g e') e'"
proof -
  obtain r e' where r: "insertEquiv x y e = Some (r, e')"
      "case r of None \<Rightarrow> e' = e \<and> (\<forall>v \<in> models e. v x = v y)
       | Some (l, g) \<Rightarrow> if l = Tr e \<and> g = Fa e then e' = e \<and> (\<forall>v \<in> models e. v x \<noteq> v y)
          else joined e e' x y True \<and> key e x \<noteq> key e y \<and> stands_for e x \<bar>l\<bar> \<and> stands_for e y \<bar>g\<bar> \<and>
            (\<forall>v \<in> models e. (v x = v y) = (lval v l = lval v g))"
    using insertEquiv_correct [OF inv(1) x y] by (elim exE conjE) (rule that)
  show ?thesis
  proof (cases r)
    case None
    then show ?thesis using r by (simp add: reduced_ok_def i)
  next
    case (Some lg)
    obtain l g where lg: "lg = (l, g)" by (cases lg)
    show ?thesis
    proof (cases "l = Tr e \<and> g = Fa e")
      case True
      then show ?thesis using r by (simp add: Some lg reduced_ok_def i)
    next
      case False
      have J: "joined e e' x y True" "key e x \<noteq> key e y" "stands_for e x \<bar>l\<bar>" "stands_for e y \<bar>g\<bar>"
          "\<forall>v \<in> models e. (v x = v y) = (lval v l = lval v g)"
        using r(2) False unfolding Some lg by simp_all
      have c: "Tr e' = Tr e" "Fa e' = Fa e" using J(1) by (simp_all add: joined_def same_frame_def)
      note cs = insertEquiv_consts [OF inv x y r(1) [unfolded Some lg] False]
      have "reduced_ok e i (K l g e') e'"
        by (rule keep [OF J(1-4) bspec [OF J(5)] cs False])
      then show ?thesis using r(1) False c by (auto simp: Some lg)
    qed
  qed
qed

lemma oppos_step:
  assumes inv: "equiv_inv e" "Tr e < Fa e" and x: "x \<in> vars_of e" and y: "y \<in> vars_of e"
    and i: "\<And>a. infer_holds i a = (with_consts e a x \<noteq> with_consts e a y)"
  shows "\<exists>r e'. insertOppos x y e = Some (r, e') \<and>
    reduced_ok e i (case r of None \<Rightarrow> Removed | Some r \<Rightarrow> reduce_opp r e') e'"
proof -
  obtain r e' where r: "insertOppos x y e = Some (r, e')"
      "case r of None \<Rightarrow> e' = e \<and> (\<forall>v \<in> models e. v x \<noteq> v y)
       | Some (l, g) \<Rightarrow> if l = Tr e \<and> g = Fa e then e' = e \<and> (\<forall>v \<in> models e. v x = v y)
          else joined e e' x y False \<and> key e x \<noteq> key e y \<and> stands_for e x \<bar>l\<bar> \<and> stands_for e y \<bar>g\<bar> \<and>
            (\<forall>v \<in> models e. (v x = v y) = (lval v l = lval v g))"
    using insertOppos_correct [OF inv(1) x y] by (elim exE conjE) (rule that)
  show ?thesis
  proof (cases r)
    case None
    then show ?thesis using r by (simp add: reduced_ok_def i)
  next
    case (Some lg)
    obtain l g where lg: "lg = (l, g)" by (cases lg)
    show ?thesis
    proof (cases "l = Tr e \<and> g = Fa e")
      case True
      then show ?thesis using r by (simp add: Some lg reduced_ok_def i reduce_opp_def)
    next
      case False
      have J: "joined e e' x y False" "key e x \<noteq> key e y" "stands_for e x \<bar>l\<bar>" "stands_for e y \<bar>g\<bar>"
          "\<forall>v \<in> models e. (v x = v y) = (lval v l = lval v g)"
        using r(2) False unfolding Some lg by simp_all
      note cs = insertOppos_consts [OF inv x y r(1) [unfolded Some lg] False J(2)]
      have "reduced_ok e i (if False then reduce_equ (l, g) e' else reduce_opp (l, g) e') e'"
        by (rule reduce_pair [OF inv J(1-4) bspec [OF J(5)] cs False]) (auto simp: i)
      then show ?thesis using r(1) by (simp add: Some lg)
    qed
  qed
qed

lemma small_key: "equiv_inv e \<Longrightarrow> stands_for e x m \<Longrightarrow> key e x \<noteq> key e (Tr e) \<Longrightarrow> m < no_inp_vars e"
  using stands_const(1) by blast

lemma const_root_min:
  assumes inv: "equiv_inv e" and c: "c = Tr e \<or> c = Fa e" and st: "stands_for e c \<bar>g\<bar>"
    and g: "\<not> \<bar>g\<bar> < no_inp_vars e \<longrightarrow> g = equiv_min e (ro e c)"
  shows "g = c" "\<not> \<bar>g\<bar> < no_inp_vars e"
proof -
  have cv: "c \<in> vars_of e" using c const_vars by blast
  have big: "\<not> c < no_inp_vars e" using c inv_sizes [OF inv] by auto
  show b: "\<not> \<bar>g\<bar> < no_inp_vars e" using st cv big by (auto simp: stands_for_def)
  have m: "equiv_min e (ro e c) \<in> vars_of e" "ro e (equiv_min e (ro e c)) = ro e c"
    using is_rootD(5) [OF inv is_root_ro [OF inv cv]] by (simp_all add: min_ok_def)
  have "g = Tr e \<or> g = Fa e" using vars_smallI [OF m(1)] g b vars_pos [OF inv m(1)] by auto
  moreover have "ro e g = ro e c" using g b m(2) by simp
  ultimately show "g = c" using c inv_consts(1) [OF inv] by metis
qed

lemma reduce_infer_ok:
  assumes inv: "equiv_inv e" "Tr e < Fa e" and i: "infer_in e i"
  shows "\<exists>r e'. reduce_infer i e = Some (r, e') \<and> reduced_ok e i r e'"
proof -
  obtain n0 n1 where n: "i = (n0, n1)" by (cases i)
  have b: "n0 \<noteq> 0" "n1 \<noteq> 0 \<Longrightarrow> 0 < n0" "\<bar>n0\<bar> < no_inp_vars e" "\<bar>n1\<bar> < no_inp_vars e"
    using i by (simp_all add: n infer_in_def infer_wf_def)
  have v: "\<bar>n0\<bar> \<in> vars_of e" "n1 \<noteq> 0 \<Longrightarrow> \<bar>n1\<bar> \<in> vars_of e" using b by (auto intro!: vars_small)
  have W: "with_consts e a \<bar>n0\<bar> = lit \<bar>n0\<bar> a" "n1 \<noteq> 0 \<Longrightarrow> with_consts e a \<bar>n1\<bar> = lit \<bar>n1\<bar> a" for a
    using with_consts_val [OF inv(1)] b by simp_all
  have fin: "\<exists>r e'. reduce_infer i e = Some (r, e') \<and> reduced_ok e i r e'"
    if "(if n1 = 0 then
          (if n0 > 0 then do {
             (result, l) \<leftarrow> insertEquiv n0 (Tr e) e;
             Some (case result of None \<Rightarrow> Removed
               | Some (left, rght) \<Rightarrow>
                   if left = Tr l \<and> rght = Fa l then Unsat
                   else if left < Tr l then Kept (left, n1) else Kept (rght, n1), l) }
           else do {
             (result, l) \<leftarrow> insertEquiv (- n0) (Fa e) e;
             Some (case result of None \<Rightarrow> Removed
               | Some (left, rght) \<Rightarrow>
                   if left = Tr l \<and> rght = Fa l then Unsat
                   else if left < Tr l then Kept (- left, n1) else Kept (- rght, n1), l) })
        else if n1 > 0 then do {
          (result, l) \<leftarrow> insertEquiv n0 n1 e;
          Some (case result of None \<Rightarrow> Removed | Some r \<Rightarrow> reduce_equ r l, l) }
        else do {
          (result, l) \<leftarrow> insertOppos n0 (- n1) e;
          Some (case result of None \<Rightarrow> Removed | Some r \<Rightarrow> reduce_opp r l, l) }) = Some (r, e')"
      "reduced_ok e i r e'" for r e'
  proof -
    have "reduce_infer i e = Some (r, e')"
      unfolding reduce_infer_def n prod.case that(1) Option.bind.simps
      using that(2) by (auto simp: reduced_ok_def infer_in_def infer_wf_def split: reduced.splits)
    then show ?thesis using that(2) by blast
  qed
  have nT: "no_inp_vars e < Tr e" using inv_sizes(2) [OF inv(1)] .
  consider (p) "n1 = 0" "0 < n0" | (m) "n1 = 0" "n0 < 0" | (e) "0 < n1" | (q) "n1 < 0" using b(1) by linarith
  then show ?thesis
  proof cases
    case p
    have h: "infer_holds i a = (with_consts e a n0 = with_consts e a (Tr e))" for a
      using p W(1) [of a] by (simp add: n infer_holds_def)
    have "\<exists>r e'. insertEquiv n0 (Tr e) e = Some (r, e') \<and> reduced_ok e i (case r of None \<Rightarrow> Removed | Some (l, g) \<Rightarrow>
        if l = Tr e' \<and> g = Fa e' then Unsat else if l < Tr e' then Kept (l, n1) else Kept (g, n1)) e'"
    proof (rule equiv_step [OF inv _ const_vars(1) h])
      show "n0 \<in> vars_of e" using v p by simp
      fix l g e'
      assume J: "joined e e' n0 (Tr e) True" "key e n0 \<noteq> key e (Tr e)" "stands_for e n0 \<bar>l\<bar>" "stands_for e (Tr e) \<bar>g\<bar>"
        and lg: "\<And>v. v \<in> models e \<Longrightarrow> (v n0 = v (Tr e)) = (lval v l = lval v g)"
        and g: "\<not> \<bar>g\<bar> < no_inp_vars e \<longrightarrow> g = equiv_min e (ro e (Tr e))"
      note gT = const_root_min [OF inv(1) disjI1 [OF refl] J(4) g]
      have lb: "\<bar>l\<bar> < no_inp_vars e" using small_key [OF inv(1) J(3,2)] .
      have "Tr e' = Tr e" using J(1) by (simp add: joined_def same_frame_def)
      moreover have "reduced_ok e i (Kept (l, 0)) e'"
        by (rule reduced_literal [OF inv(1) J]) (use gT lb lg inv_sizes [OF inv(1)] h in auto)
      ultimately show "reduced_ok e i (if l < Tr e' then Kept (l, n1) else Kept (g, n1)) e'"
        using p lb nT by auto
    qed
    then show ?thesis using fin p by (elim exE conjE) (force split: option.splits)
  next
    case m
    have h: "infer_holds i a = (with_consts e a (- n0) = with_consts e a (Fa e))" for a
      using m W(1) [of a] inv(1) by (simp add: n infer_holds_def lit_def)
    have "\<exists>r e'. insertEquiv (- n0) (Fa e) e = Some (r, e') \<and> reduced_ok e i (case r of None \<Rightarrow> Removed | Some (l, g) \<Rightarrow>
        if l = Tr e' \<and> g = Fa e' then Unsat else if l < Tr e' then Kept (- l, n1) else Kept (- g, n1)) e'"
    proof (rule equiv_step [OF inv _ const_vars(2) h])
      show "- n0 \<in> vars_of e" using v m by simp
      fix l g e'
      assume J: "joined e e' (- n0) (Fa e) True" "key e (- n0) \<noteq> key e (Fa e)" "stands_for e (- n0) \<bar>l\<bar>" "stands_for e (Fa e) \<bar>g\<bar>"
        and lg: "\<And>v. v \<in> models e \<Longrightarrow> (v (- n0) = v (Fa e)) = (lval v l = lval v g)"
        and g: "\<not> \<bar>g\<bar> < no_inp_vars e \<longrightarrow> g = equiv_min e (ro e (Fa e))"
      note gT = const_root_min [OF inv(1) disjI2 [OF refl] J(4) g]
      have "key e (Tr e) = key e (Fa e)" using inv_consts [OF inv(1)] by (simp add: key_def)
      then have lb: "\<bar>l\<bar> < no_inp_vars e" using small_key [OF inv(1) J(3)] J(2) by simp
      have nl: "l \<noteq> 0" using stands_nonzero [OF inv(1) J(3)] .
      have "Tr e' = Tr e" using J(1) by (simp add: joined_def same_frame_def)
      moreover have "reduced_ok e i (Kept (- l, 0)) e'"
        by (rule reduced_literal [OF inv(1) J]) (use gT lb lg inv_sizes [OF inv(1)] inv(1) h lval_neg [OF nl] in auto)
      ultimately show "reduced_ok e i (if l < Tr e' then Kept (- l, n1) else Kept (- g, n1)) e'"
        using m lb nT by auto
    qed
    then show ?thesis using fin m by (elim exE conjE) (force split: option.splits)
  next
    case e
    have h: "infer_holds i a = (with_consts e a n0 = with_consts e a n1)" for a
      using e W [of a] b(2) by (simp add: n infer_holds_def)
    have "\<exists>r e'. insertEquiv n0 n1 e = Some (r, e') \<and> reduced_ok e i (case r of None \<Rightarrow> Removed | Some (l, g) \<Rightarrow>
        if l = Tr e' \<and> g = Fa e' then Unsat else reduce_equ (l, g) e') e'"
    proof (rule equiv_step [OF inv _ _ h])
      show "n0 \<in> vars_of e" "n1 \<in> vars_of e" using v e b(2) by simp_all
      then have r: "ro e n0 \<in> vars_of e" "ro e n1 \<in> vars_of e" "is_root e (ro e n0)" "is_root e (ro e n1)"
        using inv_root [OF inv(1)] is_root_ro [OF inv(1)] by blast+
      fix l g e'
      assume J: "joined e e' n0 n1 True" "key e n0 \<noteq> key e n1" "stands_for e n0 \<bar>l\<bar>" "stands_for e n1 \<bar>g\<bar>"
        and lg: "\<And>v. v \<in> models e \<Longrightarrow> (v n0 = v n1) = (lval v l = lval v g)"
        and c: "\<not> \<bar>l\<bar> < no_inp_vars e \<longrightarrow> l = equiv_min e (ro e n0)" "\<not> \<bar>g\<bar> < no_inp_vars e \<longrightarrow> g = equiv_min e (ro e n1)"
        and tf: "\<not> (l = Tr e \<and> g = Fa e)"
      have mv: "equiv_min e (ro e n0) \<in> vars_of e" "equiv_min e (ro e n1) \<in> vars_of e"
        using is_rootD(5) [OF inv(1)] r by (simp_all add: min_ok_def)
      have "\<not> \<bar>l\<bar> < no_inp_vars e \<longrightarrow> l = Tr e \<or> l = Fa e" "\<not> \<bar>g\<bar> < no_inp_vars e \<longrightarrow> g = Tr e \<or> g = Fa e"
        using c vars_smallI [OF mv(1)] vars_smallI [OF mv(2)] vars_pos [OF inv(1) mv(1)] vars_pos [OF inv(1) mv(2)] by auto
      from reduce_pair [OF inv J lg this tf, of i]
      show "reduced_ok e i (reduce_equ (l, g) e') e'" using h by simp
    qed
    then obtain r e' where r: "insertEquiv n0 n1 e = Some (r, e')" "reduced_ok e i (case r of None \<Rightarrow> Removed | Some (l, g) \<Rightarrow>
        if l = Tr e' \<and> g = Fa e' then Unsat else reduce_equ (l, g) e') e'"
      by (elim exE conjE) (rule that)
    have "(case r of None \<Rightarrow> Removed | Some r \<Rightarrow> reduce_equ r e') = (case r of None \<Rightarrow> Removed | Some (l, g) \<Rightarrow>
        if l = Tr e' \<and> g = Fa e' then Unsat else reduce_equ (l, g) e')"
      by (simp add: reduce_equ_def split: option.splits prod.splits)
    with r(2) have "reduced_ok e i (case r of None \<Rightarrow> Removed | Some r \<Rightarrow> reduce_equ r e') e'" by simp
    then show ?thesis by (rule fin [rotated]) (use e r(1) in simp)
  next
    case q
    have h: "infer_holds i a = (with_consts e a n0 \<noteq> with_consts e a (- n1))" for a
      using q W [of a] b(2) by (auto simp: n infer_holds_def lit_def)
    obtain r e' where r: "insertOppos n0 (- n1) e = Some (r, e')"
        "reduced_ok e i (case r of None \<Rightarrow> Removed | Some r \<Rightarrow> reduce_opp r e') e'"
      using oppos_step [OF inv _ _ h] v q b(2) by auto
    show ?thesis by (rule fin [OF _ r(2)]) (use q r(1) in simp)
  qed
qed

section \<open>The list\<close>

text \<open>
  A list of inferences that can be applied one after the other when the variables in \<open>E\<close> are
  eliminated: none eliminates a variable twice or speaks of one that is gone.
\<close>

fun elims_ok :: "int set \<Rightarrow> infer list \<Rightarrow> bool" where
  "elims_ok E [] \<longleftrightarrow> True"
| "elims_ok E (i # q) \<longleftrightarrow> elim i \<notin> E \<and> (snd i \<noteq> 0 \<longrightarrow> fst i \<notin> E \<and> fst i \<noteq> elim i) \<and> elims_ok (insert (elim i) E) q"

lemma elims_ok_append: "elims_ok E (p @ q) \<longleftrightarrow> elims_ok E p \<and> elims_ok (E \<union> elim ` set p) q"
  by (induction p arbitrary: E) (auto simp: insert_commute)

definition reduced_list :: "equiv \<Rightarrow> int set \<Rightarrow> infer list \<Rightarrow> infer list \<Rightarrow> equiv \<Rightarrow> bool" where
  "reduced_list e E is js e' \<longleftrightarrow> equiv_inv e' \<and> same_frame e e' \<and> (\<forall>j \<in> set js. infer_in e j) \<and> elims_ok E js \<and>
     mins e' \<inter> (E \<union> elim ` set js) = {} \<and>
     (\<forall>a. with_consts e a \<in> models e' \<longleftrightarrow> with_consts e a \<in> models e \<and> (\<forall>i \<in> set is. infer_holds i a)) \<and>
     (\<forall>a. with_consts e a \<in> models e \<longrightarrow> (\<forall>j \<in> set js. infer_holds j a) = (\<forall>i \<in> set is. infer_holds i a))"

lemma infer_in_frame: "same_frame e e' \<Longrightarrow> infer_in e' i = infer_in e i"
  by (simp add: same_frame_def infer_in_def)

lemma same_frame_trans: "same_frame e e' \<Longrightarrow> same_frame e' e'' \<Longrightarrow> same_frame e e''"
  by (simp add: same_frame_def)

lemma reduced_list_Kept:
  assumes i: "reduced_ok e i (Kept j) e1" and E: "mins e \<inter> E = {}"
    and r: "reduced_list e1 (insert (elim j) E) is js e2"
  shows "reduced_list e E (i # is) (j # js) e2"
proof -
  have fr: "same_frame e e1" and k: "infer_in e j" "elim j \<in> mins e" "mins e1 = mins e - {elim j}"
      "snd j \<noteq> 0 \<Longrightarrow> fst j \<in> mins e1"
    and m: "\<And>a. with_consts e a \<in> models e1 \<longleftrightarrow> with_consts e a \<in> models e \<and> infer_holds i a"
      "\<And>a. with_consts e a \<in> models e \<Longrightarrow> infer_holds j a = infer_holds i a"
    using i unfolding reduced_ok_def reduced.case by blast+
  have rl: "equiv_inv e2" "same_frame e1 e2" "\<forall>j \<in> set js. infer_in e j" "elims_ok (insert (elim j) E) js"
      "mins e2 \<inter> (insert (elim j) E \<union> elim ` set js) = {}"
    and n: "\<And>a. with_consts e a \<in> models e2 \<longleftrightarrow> with_consts e a \<in> models e1 \<and> (\<forall>i \<in> set is. infer_holds i a)"
      "\<And>a. with_consts e a \<in> models e1 \<Longrightarrow> (\<forall>j \<in> set js. infer_holds j a) = (\<forall>i \<in> set is. infer_holds i a)"
    using r by (simp_all add: reduced_list_def infer_in_frame [OF fr] with_consts_frame [OF fr])
  have "elims_ok E (j # js)" using k rl(4) E by auto
  moreover have "mins e2 \<inter> (E \<union> elim ` set (j # js)) = {}" using rl(5) by auto
  moreover have "(\<forall>j \<in> set (j # js). infer_holds j a) = (\<forall>i \<in> set (i # is). infer_holds i a)"
    if "with_consts e a \<in> models e" for a
    using m(1) [of a] m(2) [OF that] n(2) [of a] that by auto
  moreover have "with_consts e a \<in> models e2 \<longleftrightarrow> with_consts e a \<in> models e \<and> (\<forall>i \<in> set (i # is). infer_holds i a)" for a
    using m(1) [of a] n(1) [of a] by auto
  ultimately show ?thesis
    unfolding reduced_list_def using rl(1,3) k(1) same_frame_trans [OF fr rl(2)] by auto
qed

lemma ReduceInferences_ok:
  assumes "equiv_inv e" "Tr e < Fa e" "\<forall>i \<in> set is. infer_in e i" "mins e \<inter> E = {}"
  shows "\<exists>r js e'. ReduceInferences is e = Some (r, js, e') \<and>
    (r = PREP_NO_CHANGE \<and> reduced_list e E is js e' \<or>
     r = TRIV_UNSAT \<and> (\<forall>a. with_consts e a \<in> models e \<longrightarrow> \<not> (\<forall>i \<in> set is. infer_holds i a)))"
  using assms
proof (induction "is" arbitrary: e E)
  case Nil
  then show ?case by (simp add: reduced_list_def same_frame_def)
next
  case (Cons i "is")
  obtain r e1 where r: "reduce_infer i e = Some (r, e1)" "reduced_ok e i r e1"
    using reduce_infer_ok [OF Cons.prems(1,2), of i] Cons.prems(3) by auto
  show ?case
  proof (cases r)
    case Unsat
    then show ?thesis using r by (auto simp: reduced_ok_def)
  next
    case Removed
    then have e1: "e1 = e" "\<And>a. with_consts e a \<in> models e \<Longrightarrow> infer_holds i a" using r by (simp_all add: reduced_ok_def)
    obtain r js e' where q: "ReduceInferences is e = Some (r, js, e')"
        "r = PREP_NO_CHANGE \<and> reduced_list e E is js e' \<or>
         r = TRIV_UNSAT \<and> (\<forall>a. with_consts e a \<in> models e \<longrightarrow> \<not> (\<forall>i \<in> set is. infer_holds i a))"
      using Cons.IH [OF Cons.prems(1,2) _ Cons.prems(4)] Cons.prems(3) by auto
    have "reduced_list e E (i # is) js e'" if "reduced_list e E is js e'"
      using that e1(2) by (auto simp: reduced_list_def)
    then show ?thesis using q r(1) by (auto simp: Removed e1(1))
  next
    case (Kept j)
    have k: "equiv_inv e1" "same_frame e e1" "elim j \<in> mins e" "mins e1 = mins e - {elim j}"
        "\<And>a. with_consts e a \<in> models e1 \<longleftrightarrow> with_consts e a \<in> models e \<and> infer_holds i a"
      using r(2) by (simp_all add: Kept reduced_ok_def)
    have "Tr e1 < Fa e1" using k(2) Cons.prems(2) by (simp add: same_frame_def)
    moreover have "\<forall>i \<in> set is. infer_in e1 i" using Cons.prems(3) infer_in_frame [OF k(2)] by simp
    moreover have "mins e1 \<inter> insert (elim j) E = {}" using k(4) Cons.prems(4) by auto
    ultimately obtain r js e' where q: "ReduceInferences is e1 = Some (r, js, e')"
        "r = PREP_NO_CHANGE \<and> reduced_list e1 (insert (elim j) E) is js e' \<or>
         r = TRIV_UNSAT \<and> (\<forall>a. with_consts e1 a \<in> models e1 \<longrightarrow> \<not> (\<forall>i \<in> set is. infer_holds i a))"
      using Cons.IH [OF k(1)] by blast
    have "reduced_list e E (i # is) (j # js) e'" if "reduced_list e1 (insert (elim j) E) is js e'"
      by (rule reduced_list_Kept [OF r(2) [unfolded Kept] Cons.prems(4) that])
    then show ?thesis
      using q r(1) k(5) by (auto simp: Kept with_consts_frame [OF k(2)])
  qed
qed

end
