(* ===== verification/BddIte.thy ===== *)
theory BddIte
  imports Itetable
begin

text \<open>
  The if-then-else package of utils/bdd_ite.cc: the specialised two-operand recursions with
  their computed-table calls, \<open>ite_xvar_y_z\<close>, the general \<open>ite\<close>, and the connectives. Each
  routine is written over the computed table as a state, with the branches of the source in
  their order, and is proved to return the node of the boolean function it stands for.
\<close>

section \<open>What the table stores\<close>

text \<open>
  The meaning of an entry by its operation number: 1 to 5 are the routines of this file,
  numbers above 30 are \<open>ite_xvar_y_z\<close> for the variable that number is off by, and 9, 10, 13 to
  16 belong to the routines of utils/bdd.cc. The other numbers are unconstrained.

  \<open>safe_value v f p\<close>: \<open>p\<close> is a constant or a literal of \<open>v\<close>, and it holds only for values of \<open>v\<close>
  that can replace the opposite value in every model of \<open>f\<close>.
\<close>

definition safe_value :: "nat \<Rightarrow> bdd \<Rightarrow> bdd \<Rightarrow> bool" where
  "safe_value v f p \<longleftrightarrow> p \<in> {TrueP, FalseP, ite_var (int v), ite_var (- int v)} \<and>
     (\<forall>a b. ev p a \<longrightarrow> ev f (b(v := \<not> a v)) \<longrightarrow> ev f (b(v := a v)))"

definition ite_entry_ok :: "int \<Rightarrow> bdd \<Rightarrow> bdd \<Rightarrow> bdd \<Rightarrow> bool" where
  "ite_entry_ok op r e p \<longleftrightarrow>
     (let B = max (variable r) (variable e) in
      (op \<in> {1, 2, 3, 4, 5, 10, 13, 14, 16} \<or> 30 < op \<longrightarrow> robdd r \<and> robdd e \<longrightarrow>
        (op = 1 \<longrightarrow> is_node B (\<lambda>a. ev r a \<and> ev e a) p) \<and>
        (op = 2 \<longrightarrow> is_node B (\<lambda>a. ev r a \<longrightarrow> ev e a) p) \<and>
        (op = 3 \<longrightarrow> is_node B (\<lambda>a. ev r a \<or> ev e a) p) \<and>
        (op = 4 \<longrightarrow> is_node B (\<lambda>a. \<not> ev r a \<and> ev e a) p) \<and>
        (op = 5 \<longrightarrow> is_node B (\<lambda>a. ev r a = ev e a) p) \<and>
        (op = 10 \<longrightarrow> is_node (variable r) (\<lambda>a. \<exists>b. ev r (a(nat (variable e) := b))) p) \<and>
        (op = 13 \<longrightarrow> p = (if \<exists>a. ev r a \<and> ev e a then TrueP else FalseP)) \<and>
        (op = 14 \<longrightarrow> safe_value (nat (variable r)) e p) \<and>
        (op = 16 \<longrightarrow> (let v = nat (variable r) in
           is_node B (\<lambda>a. ev e (a(v := a v)) \<and> \<not> ev e (a(v := \<not> a v))) p)) \<and>
        (30 < op \<longrightarrow> is_node (max (op - 30) B)
           (\<lambda>a. if a (nat (op - 30)) then ev r a else ev e a) p)) \<and>
      (op \<in> {9, 15} \<longrightarrow> xdd r \<and> xdd e \<longrightarrow>
        (op = 9 \<longrightarrow> is_xnode B (\<lambda>a. xev r a \<noteq> xev e a) p) \<and>
        (op = 15 \<longrightarrow> is_xnode B (\<lambda>a. xev r a \<and> xev e a) p)))"

definition cache_ok :: "itetable \<Rightarrow> bool" where
  "cache_ok T \<longleftrightarrow> memo_sound itetable_lookup ite_entry_ok T"

lemma cache_ok_init: "cache_ok (itetable_init addr bits n)"
  by (simp add: cache_ok_def memo_sound_def itetable_init_lookup)

lemma cache_ok_removeall: "run_state itetable_removeall T = (u, T') \<Longrightarrow> cache_ok T'"
  by (simp add: cache_ok_def memo_sound_def itetable_removeall_lookup)

text \<open>\<open>computes m B \<phi>\<close>: over a sound table, \<open>m\<close> returns the node of \<open>\<phi>\<close> and keeps the table sound.\<close>

definition computes :: "(itetable, bdd) state \<Rightarrow> int \<Rightarrow> (assignment \<Rightarrow> bool) \<Rightarrow> bool" where
  "computes m B \<phi> \<longleftrightarrow> triple cache_ok m (\<lambda>p T. is_node B \<phi> p \<and> cache_ok T)"

lemma computes_run:
  "computes m B \<phi> \<Longrightarrow> cache_ok T \<Longrightarrow> run_state m T = (p, T') \<Longrightarrow> is_node B \<phi> p \<and> cache_ok T'"
  unfolding computes_def by (rule tripleD)

lemma computes_return: "is_node B \<phi> p \<Longrightarrow> computes (State_Monad.return p) B \<phi>"
  by (auto simp: computes_def intro: triple_return)

lemma computes_weaken:
  "computes m B \<phi> \<Longrightarrow> B \<le> B' \<Longrightarrow> (\<And>a. \<phi> a = \<psi> a) \<Longrightarrow> computes m B' \<psi>"
  unfolding computes_def by (erule triple_post) (auto intro: is_node_weaken)

lemma computes_bind:
  assumes "computes m B1 \<phi>1" "\<And>r. is_node B1 \<phi>1 r \<Longrightarrow> computes (k r) B \<phi>"
  shows "computes (State_Monad.bind m k) B \<phi>"
  using assms unfolding computes_def by (intro triple_bind) (auto intro: triple_pure_pre)

lemma computes_bind2:
  assumes "computes m1 B1 \<phi>1" "computes m2 B2 \<phi>2"
    and "\<And>r e. is_node B1 \<phi>1 r \<Longrightarrow> is_node B2 \<phi>2 e \<Longrightarrow> computes (k r e) B \<phi>"
  shows "computes (do { r \<leftarrow> m1; e \<leftarrow> m2; k r e }) B \<phi>"
  by (intro computes_bind [OF assms(1)] computes_bind [OF assms(2)] assms(3))

section \<open>Shared tails of the recursions\<close>

text \<open>
  \<open>memo op x y m\<close> is the code's \<open>cached = itetable_find_or_add_node(op, x, y, NULL); if (cached)
  return cached;\<close> before \<open>m\<close>. \<open>add_or_node\<close> is the common last step: equal sons are stored as
  they are, different sons through a new node; \<open>same_or_node\<close> is the last step of \<open>ite\<close>, which
  stores nothing.
\<close>

definition memo :: "int \<Rightarrow> bdd \<Rightarrow> bdd \<Rightarrow> (itetable, bdd) state \<Rightarrow> (itetable, bdd) state" where
  "memo op x y m = do {
     cached \<leftarrow> itetable_find op x y;
     case cached of Some p \<Rightarrow> State_Monad.return p | None \<Rightarrow> m }"

definition add_or_node :: "int \<Rightarrow> bdd \<Rightarrow> bdd \<Rightarrow> int \<Rightarrow> bdd \<Rightarrow> bdd \<Rightarrow> (itetable, bdd) state" where
  "add_or_node op x y v r e =
     (if r = e then itetable_add_node op x y r
      else itetable_add_node op x y (find_or_add_node v r e))"

definition same_or_node :: "int \<Rightarrow> bdd \<Rightarrow> bdd \<Rightarrow> bdd" where
  "same_or_node v r e = (if r = e then r else find_or_add_node v r e)"

lemma computes_memo:
  assumes "computes m B \<phi>" "\<And>p. ite_entry_ok op x y p \<Longrightarrow> is_node B \<phi> p"
  shows "computes (memo op x y m) B \<phi>"
  unfolding computes_def memo_def
proof (rule triple_bind)
  show "triple cache_ok (itetable_find op x y)
      (\<lambda>c T. (\<forall>p. c = Some p \<longrightarrow> is_node B \<phi> p) \<and> cache_ok T)"
    unfolding cache_ok_def by (rule triple_post [OF itc.find_sound]) (use assms(2) in auto)
  show "triple (\<lambda>T. (\<forall>p. c = Some p \<longrightarrow> is_node B \<phi> p) \<and> cache_ok T)
      (case c of Some p \<Rightarrow> State_Monad.return p | None \<Rightarrow> m) (\<lambda>p T. is_node B \<phi> p \<and> cache_ok T)" for c
    using assms(1) by (cases c) (auto simp: computes_def intro!: triple_return)
qed

lemma computes_add:
  assumes "is_node B \<phi> p" "ite_entry_ok op x y p"
  shows "computes (itetable_add_node op x y p) B \<phi>"
  unfolding computes_def cache_ok_def
  by (rule triple_post [OF itc.add_sound [where S = ite_entry_ok, OF assms(2)]])
    (use assms(1) in auto)

lemma computes_add_or_node:
  assumes "is_node B1 \<phi>1 r" "is_node B2 \<phi>2 e" "B1 < v" "B2 < v" "0 < v" "v \<le> B"
    and "\<And>a. \<phi> a = (if a (nat v) then \<phi>1 a else \<phi>2 a)"
    and "\<And>p. is_node B \<phi> p \<Longrightarrow> ite_entry_ok op x y p"
  shows "computes (add_or_node op x y v r e) B \<phi>"
  using is_node_Node [OF assms(1-7)] assms(8)
  by (auto simp: add_or_node_def intro!: computes_add)

lemma is_node_same_or_node:
  assumes "is_node B1 \<phi>1 r" "is_node B2 \<phi>2 e" "B1 < v" "B2 < v" "0 < v" "v \<le> B"
    and "\<And>a. \<phi> a = (if a (nat v) then \<phi>1 a else \<phi>2 a)"
  shows "is_node B \<phi> (same_or_node v r e)"
  using is_node_Node [OF assms] by (auto simp: same_or_node_def)

lemma computes_if:
  "(c \<Longrightarrow> computes m B \<phi>) \<Longrightarrow> (\<not> c \<Longrightarrow> computes n B \<phi>) \<Longrightarrow> computes (if c then m else n) B \<phi>"
  by simp

text \<open>The recursion step shared by the two-operand routines: both cofactors, then the tail.\<close>

lemma computes_step:
  assumes "computes m1 B1 \<phi>1" "computes m2 B2 \<phi>2" "B1 < v" "B2 < v" "0 < v" "v \<le> B"
    and "\<And>a. \<phi> a = (if a (nat v) then \<phi>1 a else \<phi>2 a)"
    and "\<And>p. is_node B \<phi> p \<Longrightarrow> ite_entry_ok op x y p"
  shows "computes (do { r \<leftarrow> m1; e \<leftarrow> m2; add_or_node op x y v r e }) B \<phi>"
  by (rule computes_bind2 [OF assms(1,2)])
    (rule computes_add_or_node, assumption, assumption, (rule assms; assumption?)+)

text \<open>The same with the test whether the sons are those of a node already at hand.\<close>

lemma computes_step_reuse:
  assumes "computes m1 B1 \<phi>1" "computes m2 B2 \<phi>2" "B1 < v" "B2 < v" "0 < v" "v \<le> B"
    and "\<And>a. \<phi> a = (if a (nat v) then \<phi>1 a else \<phi>2 a)"
    and "\<And>p. is_node B \<phi> p \<Longrightarrow> ite_entry_ok op x y p"
    and "robdd z" "variable z = v"
  shows "computes (do { r \<leftarrow> m1; e \<leftarrow> m2;
      if r = thenCase z \<and> e = elseCase z then State_Monad.return z
      else add_or_node op x y v r e }) B \<phi>"
proof (rule computes_bind2 [OF assms(1,2)], rule computes_if)
  fix r e
  assume re: "is_node B1 \<phi>1 r" "is_node B2 \<phi>2 e"
  show "computes (add_or_node op x y v r e) B \<phi>"
    by (rule computes_add_or_node [OF re assms(3-8)])
  assume "r = thenCase z \<and> e = elseCase z"
  then have "is_node B1 \<phi>1 (thenCase z)" "is_node B2 \<phi>2 (elseCase z)"
    using re by simp_all
  then show "computes (State_Monad.return z) B \<phi>"
    using is_node_sons [of B1 \<phi>1 z B2 \<phi>2 v B \<phi>] assms(5-7,9,10)
    by (simp add: computes_return)
qed

lemma computes_step_reuse2:
  assumes "computes m1 B1 \<phi>1" "computes m2 B2 \<phi>2" "B1 < v" "B2 < v" "0 < v" "v \<le> B"
    and "\<And>a. \<phi> a = (if a (nat v) then \<phi>1 a else \<phi>2 a)"
    and "\<And>p. is_node B \<phi> p \<Longrightarrow> ite_entry_ok op x y p"
    and "robdd z" "variable z = v" "robdd w" "variable w = v"
  shows "computes (do { r \<leftarrow> m1; e \<leftarrow> m2;
      if r = thenCase z \<and> e = elseCase z then State_Monad.return z
      else if r = thenCase w \<and> e = elseCase w then State_Monad.return w
      else add_or_node op x y v r e }) B \<phi>"
proof (rule computes_bind2 [OF assms(1,2)], intro computes_if)
  fix r e
  assume re: "is_node B1 \<phi>1 r" "is_node B2 \<phi>2 e"
  show "computes (add_or_node op x y v r e) B \<phi>"
    by (rule computes_add_or_node [OF re assms(3-8)])
  show "computes (State_Monad.return z) B \<phi>" if "r = thenCase z \<and> e = elseCase z"
    using is_node_sons [of B1 \<phi>1 z B2 \<phi>2 v B \<phi>] assms(5-7,9,10) re that
    by (simp add: computes_return)
  show "computes (State_Monad.return w) B \<phi>" if "r = thenCase w \<and> e = elseCase w"
    using is_node_sons [of B1 \<phi>1 w B2 \<phi>2 v B \<phi>] assms(5-7,11,12) re that
    by (simp add: computes_return)
qed

text \<open>What the recursions use of a node that is no constant.\<close>

lemma node_facts:
  assumes "robdd x" "\<not> IS_TRUE_FALSE x"
  shows "0 < variable x" "robdd (thenCase x)" "robdd (elseCase x)"
    "variable (thenCase x) < variable x" "variable (elseCase x) < variable x"
    "size (thenCase x) < size x" "size (elseCase x) < size x"
    "\<And>a. ev x a = (if a (nat (variable x)) then ev (thenCase x) a else ev (elseCase x) a)"
  using assms by (cases x; simp)+

lemma higher_node: "variable y < variable x \<Longrightarrow> \<not> IS_TRUE_FALSE x"
  using variable_ge [of y] by (cases x) auto

lemma same_node: "variable x = variable y \<Longrightarrow> \<not> IS_TRUE_FALSE x \<Longrightarrow> \<not> IS_TRUE_FALSE y"
  by (cases x; cases y) auto

section \<open>Conjunction\<close>

text \<open>\<open>_ite_x_y_F\<close>; the source swaps its operands when the second has the larger variable.\<close>

function u_ite_x_y_F :: "bdd \<Rightarrow> bdd \<Rightarrow> (itetable, bdd) state" where
  "u_ite_x_y_F x y =
     (if x = TrueP then State_Monad.return y
      else if x = FalseP then State_Monad.return FalseP
      else if variable x > variable y then
        memo 1 x y (do {
          r \<leftarrow> u_ite_x_y_F (thenCase x) y;
          e \<leftarrow> u_ite_x_y_F (elseCase x) y;
          if r = thenCase x \<and> e = elseCase x then State_Monad.return x
          else add_or_node 1 x y (variable x) r e })
      else if variable x = variable y then
        (if x = y then State_Monad.return x
         else if notCase x = y then State_Monad.return FalseP
         else memo 1 x y (do {
          r \<leftarrow> (if thenCase y = TrueP then State_Monad.return (thenCase x)
                else if thenCase y = FalseP then State_Monad.return FalseP
                else u_ite_x_y_F (thenCase x) (thenCase y));
          e \<leftarrow> (if elseCase y = TrueP then State_Monad.return (elseCase x)
                else if elseCase y = FalseP then State_Monad.return FalseP
                else u_ite_x_y_F (elseCase x) (elseCase y));
          if r = thenCase x \<and> e = elseCase x then State_Monad.return x
          else if r = thenCase y \<and> e = elseCase y then State_Monad.return y
          else add_or_node 1 x y (variable x) r e }))
      else
        memo 1 y x (do {
          r \<leftarrow> u_ite_x_y_F (thenCase y) x;
          e \<leftarrow> u_ite_x_y_F (elseCase y) x;
          if r = thenCase y \<and> e = elseCase y then State_Monad.return y
          else add_or_node 1 y x (variable y) r e }))"
  by pat_completeness auto
termination
  by (relation "measure (\<lambda>(x, y). size x + size y)")
    (auto simp: IS_TRUE_FALSE_def size_sons_not_above intro!: add_less_le_mono add_less_mono size_sons)

declare u_ite_x_y_F.simps [simp del]

definition ite_x_y_F :: "bdd \<Rightarrow> bdd \<Rightarrow> (itetable, bdd) state" where
  "ite_x_y_F x y =
     (if y = TrueP then State_Monad.return x
      else if y = FalseP then State_Monad.return FalseP
      else u_ite_x_y_F x y)"

lemma u_ite_x_y_F_leaf [simp]:
  "u_ite_x_y_F TrueP y = State_Monad.return y" "u_ite_x_y_F FalseP y = State_Monad.return FalseP"
  by (subst u_ite_x_y_F.simps, simp)+

lemma entry1_iff:
  "robdd x \<Longrightarrow> robdd y \<Longrightarrow>
    ite_entry_ok 1 x y p \<longleftrightarrow> is_node (max (variable x) (variable y)) (\<lambda>a. ev x a \<and> ev y a) p"
  by (simp add: ite_entry_ok_def Let_def)

lemma u_ite_x_y_F_computes:
  "robdd x \<Longrightarrow> robdd y \<Longrightarrow>
    computes (u_ite_x_y_F x y) (max (variable x) (variable y)) (\<lambda>a. ev x a \<and> ev y a)"
proof (induction "size x + size y" arbitrary: x y rule: less_induct)
  case less
  note IH = less.hyps and x = less.prems(1) and y = less.prems(2)
  let ?goal = "\<lambda>m. computes m (max (variable x) (variable y)) (\<lambda>a. ev x a \<and> ev y a)"
  consider (leaf) "IS_TRUE_FALSE x" | (gt) "\<not> IS_TRUE_FALSE x" "variable y < variable x"
    | (eq) "\<not> IS_TRUE_FALSE x" "variable x = variable y" | (lt) "variable x < variable y"
    by linarith
  then show ?case
  proof cases
    case leaf
    then show ?thesis
      using y by (auto simp: IS_TRUE_FALSE_def is_node_def intro!: computes_return)
  next
    case gt
    note n = node_facts [OF x gt(1)]
    have "computes (u_ite_x_y_F (thenCase x) y) (max (variable (thenCase x)) (variable y))
        (\<lambda>a. ev (thenCase x) a \<and> ev y a)"
      "computes (u_ite_x_y_F (elseCase x) y) (max (variable (elseCase x)) (variable y))
        (\<lambda>a. ev (elseCase x) a \<and> ev y a)"
      by (rule IH; use n(1-7) y in simp)+
    note step = computes_step_reuse [OF this]
    have "?goal (memo 1 x y (do {
          r \<leftarrow> u_ite_x_y_F (thenCase x) y;
          e \<leftarrow> u_ite_x_y_F (elseCase x) y;
          if r = thenCase x \<and> e = elseCase x then State_Monad.return x
          else add_or_node 1 x y (variable x) r e }))"
      by (rule computes_memo [OF step]) (use n x y gt in \<open>simp_all add: entry1_iff\<close>)
    then show ?thesis
      using gt by (subst u_ite_x_y_F.simps) (auto simp: IS_TRUE_FALSE_def)
  next
    case eq
    note nx = node_facts [OF x eq(1)] and ny = node_facts [OF y same_node [OF eq(2,1)]]
    have "computes (if g = TrueP then State_Monad.return f
          else if g = FalseP then State_Monad.return FalseP else u_ite_x_y_F f g)
        (max (variable f) (variable g)) (\<lambda>a. ev f a \<and> ev g a)"
      if "size f < size x" "size g < size y" "robdd f" "robdd g" for f g
      using IH [of f g] that by (auto simp: is_node_def computes_return)
    note sons = this [OF nx(6) ny(6) nx(2) ny(2)] this [OF nx(7) ny(7) nx(3) ny(3)]
    have "?goal (memo 1 x y (do {
          r \<leftarrow> (if thenCase y = TrueP then State_Monad.return (thenCase x)
                else if thenCase y = FalseP then State_Monad.return FalseP
                else u_ite_x_y_F (thenCase x) (thenCase y));
          e \<leftarrow> (if elseCase y = TrueP then State_Monad.return (elseCase x)
                else if elseCase y = FalseP then State_Monad.return FalseP
                else u_ite_x_y_F (elseCase x) (elseCase y));
          if r = thenCase x \<and> e = elseCase x then State_Monad.return x
          else if r = thenCase y \<and> e = elseCase y then State_Monad.return y
          else add_or_node 1 x y (variable x) r e }))"
      by (rule computes_memo [OF computes_step_reuse2 [OF sons]])
        (use nx ny x y eq in \<open>simp_all add: entry1_iff\<close>)
    moreover have "x = y \<Longrightarrow> ?goal (State_Monad.return x)"
      "notCase x = y \<Longrightarrow> ?goal (State_Monad.return FalseP)"
      using x y by (auto simp: is_node_def intro!: computes_return)
    ultimately show ?thesis
      using eq by (subst u_ite_x_y_F.simps) (auto simp: IS_TRUE_FALSE_def)
  next
    case lt
    note n = node_facts [OF y higher_node [OF lt]]
    have "computes (u_ite_x_y_F (thenCase y) x) (max (variable (thenCase y)) (variable x))
        (\<lambda>a. ev (thenCase y) a \<and> ev x a)"
      "computes (u_ite_x_y_F (elseCase y) x) (max (variable (elseCase y)) (variable x))
        (\<lambda>a. ev (elseCase y) a \<and> ev x a)"
      by (rule IH; use n(1-7) x in simp)+
    note step = computes_step_reuse [OF this]
    have "?goal (memo 1 y x (do {
          r \<leftarrow> u_ite_x_y_F (thenCase y) x;
          e \<leftarrow> u_ite_x_y_F (elseCase y) x;
          if r = thenCase y \<and> e = elseCase y then State_Monad.return y
          else add_or_node 1 y x (variable y) r e }))"
      by (rule computes_memo [OF step])
        (use n x y lt in \<open>auto simp: entry1_iff max.commute conj_commute\<close>)
    moreover have "x = TrueP \<Longrightarrow> ?goal (State_Monad.return y)"
      "x = FalseP \<Longrightarrow> ?goal (State_Monad.return FalseP)"
      using y by (auto simp: is_node_def intro!: computes_return)
    ultimately show ?thesis
      using lt by (subst u_ite_x_y_F.simps) (auto simp: IS_TRUE_FALSE_def)
  qed
qed

lemma ite_x_y_F_computes:
  "robdd x \<Longrightarrow> robdd y \<Longrightarrow>
    computes (ite_x_y_F x y) (max (variable x) (variable y)) (\<lambda>a. ev x a \<and> ev y a)"
  using u_ite_x_y_F_computes [of x y]
  by (auto simp: ite_x_y_F_def is_node_def intro!: computes_return)

section \<open>The recursion of the other two-operand routines\<close>

text \<open>
  With \<open>v\<close> the larger of the two variables, the three cases of the source compute the routine
  on the cofactors of both operands for \<open>v\<close>.
\<close>

lemma binop_step:
  assumes IH: "\<And>x' y'. size x' + size y' < size x + size y \<Longrightarrow> robdd x' \<Longrightarrow> robdd y' \<Longrightarrow>
      computes (f x' y') (max (variable x') (variable y')) (\<lambda>a. S (ev x' a) (ev y' a))"
    and x: "robdd x" and y: "robdd y"
    and v: "v = max (variable x) (variable y)" "0 < v"
    and entry: "\<And>p. is_node v (\<lambda>a. S (ev x a) (ev y a)) p \<Longrightarrow> ite_entry_ok op x y p"
  shows "computes (do {
      r \<leftarrow> f (reduce_t v x) (reduce_t v y);
      e \<leftarrow> f (reduce_f v x) (reduce_f v y);
      add_or_node op x y v r e }) v (\<lambda>a. S (ev x a) (ev y a))"
proof -
  have le: "variable x \<le> v" "variable y \<le> v" using v by simp_all
  note rx = reduce_facts [OF x le(1) v(2)] and ry = reduce_facts [OF y le(2) v(2)]
  have "variable x = v \<or> variable y = v" using v by linarith
  then have "size (reduce_t v x) + size (reduce_t v y) < size x + size y"
    "size (reduce_f v x) + size (reduce_f v y) < size x + size y"
    using rx(5-8) ry(5-8) by (auto intro: add_less_le_mono add_le_less_mono)
  note sons = IH [OF this(1) rx(1) ry(1)] IH [OF this(2) rx(2) ry(2)]
  show ?thesis
  proof (rule computes_step [OF sons])
    show "S (ev x a) (ev y a) = (if a (nat v) then S (ev (reduce_t v x) a) (ev (reduce_t v y) a)
        else S (ev (reduce_f v x) a) (ev (reduce_f v y) a))" for a
      using rx(9) [of a] ry(9) [of a] by simp
  qed (use rx(3,4) ry(3,4) v(2) entry in auto)
qed

lemma reduce_same: "variable x = v \<Longrightarrow> reduce_t v x = thenCase x"
    "variable x = v \<Longrightarrow> reduce_f v x = elseCase x"
  and reduce_below: "variable x < v \<Longrightarrow> reduce_t v x = x" "variable x < v \<Longrightarrow> reduce_f v x = x"
  by (auto simp: reduce_t_def reduce_f_def)

section \<open>Implication\<close>

function u_ite_x_y_T :: "bdd \<Rightarrow> bdd \<Rightarrow> (itetable, bdd) state" where
  "u_ite_x_y_T x y =
     (if x = TrueP then State_Monad.return y
      else if x = FalseP then State_Monad.return TrueP
      else if y = TrueP then State_Monad.return TrueP
      else if y = FalseP then State_Monad.return (notCase x)
      else memo 2 x y
       (if variable x > variable y then do {
          r \<leftarrow> u_ite_x_y_T (thenCase x) y;
          e \<leftarrow> u_ite_x_y_T (elseCase x) y;
          add_or_node 2 x y (variable x) r e }
        else if variable x = variable y then
          (if x = y then State_Monad.return TrueP
           else if notCase x = y then State_Monad.return y
           else do {
             r \<leftarrow> u_ite_x_y_T (thenCase x) (thenCase y);
             e \<leftarrow> u_ite_x_y_T (elseCase x) (elseCase y);
             add_or_node 2 x y (variable x) r e })
        else do {
          r \<leftarrow> u_ite_x_y_T x (thenCase y);
          e \<leftarrow> u_ite_x_y_T x (elseCase y);
          add_or_node 2 x y (variable y) r e }))"
  by pat_completeness auto
termination
  by (relation "measure (\<lambda>(x, y). size x + size y)")
    (auto simp: IS_TRUE_FALSE_def size_sons_not_above intro!: add_less_le_mono add_less_mono size_sons)

declare u_ite_x_y_T.simps [simp del]

lemma u_ite_x_y_T_leaf:
  "IS_TRUE_FALSE x \<or> IS_TRUE_FALSE y \<Longrightarrow> u_ite_x_y_T x y = (if x = TrueP then State_Monad.return y
      else if x = FalseP then State_Monad.return TrueP
      else if y = TrueP then State_Monad.return TrueP
      else if y = FalseP then State_Monad.return (notCase x)
      else undefined)"
  by (subst u_ite_x_y_T.simps) (auto simp: IS_TRUE_FALSE_def)

lemma u_ite_x_y_T_node:
  "\<not> IS_TRUE_FALSE x \<Longrightarrow> \<not> IS_TRUE_FALSE y \<Longrightarrow> u_ite_x_y_T x y = memo 2 x y
     (if variable x = variable y \<and> x = y then State_Monad.return TrueP
      else if variable x = variable y \<and> notCase x = y then State_Monad.return y
      else do {
        r \<leftarrow> u_ite_x_y_T (reduce_t (max (variable x) (variable y)) x)
          (reduce_t (max (variable x) (variable y)) y);
        e \<leftarrow> u_ite_x_y_T (reduce_f (max (variable x) (variable y)) x)
          (reduce_f (max (variable x) (variable y)) y);
        add_or_node 2 x y (max (variable x) (variable y)) r e })"
  by (subst u_ite_x_y_T.simps) (auto simp: IS_TRUE_FALSE_def reduce_same reduce_below max_def)

lemma u_ite_x_y_T_computes:
  "robdd x \<Longrightarrow> robdd y \<Longrightarrow>
    computes (u_ite_x_y_T x y) (max (variable x) (variable y)) (\<lambda>a. ev x a \<longrightarrow> ev y a)"
proof (induction "size x + size y" arbitrary: x y rule: less_induct)
  case less
  note IH = less.hyps and x = less.prems(1) and y = less.prems(2)
  show ?case
  proof (cases "IS_TRUE_FALSE x \<or> IS_TRUE_FALSE y")
    case True
    show ?thesis
      unfolding u_ite_x_y_T_leaf [OF True]
      using True x y by (auto simp: IS_TRUE_FALSE_def is_node_def intro!: computes_return)
  next
    case False
    then have n: "\<not> IS_TRUE_FALSE x" "\<not> IS_TRUE_FALSE y" by auto
    note v = node_facts(1) [OF x n(1)]
    have entry: "ite_entry_ok 2 x y p \<longleftrightarrow>
        is_node (max (variable x) (variable y)) (\<lambda>a. ev x a \<longrightarrow> ev y a) p" for p
      using x y by (simp add: ite_entry_ok_def Let_def)
    have step: "computes (do {
        r \<leftarrow> u_ite_x_y_T (reduce_t (max (variable x) (variable y)) x)
          (reduce_t (max (variable x) (variable y)) y);
        e \<leftarrow> u_ite_x_y_T (reduce_f (max (variable x) (variable y)) x)
          (reduce_f (max (variable x) (variable y)) y);
        add_or_node 2 x y (max (variable x) (variable y)) r e })
        (max (variable x) (variable y)) (\<lambda>a. ev x a \<longrightarrow> ev y a)"
      by (rule binop_step [where S = "\<lambda>b c. b \<longrightarrow> c", OF IH x y refl]) (use v entry in auto)
    show ?thesis
      unfolding u_ite_x_y_T_node [OF n]
      by (rule computes_memo; (intro computes_if computes_return step)?)
        (use x y in \<open>auto simp: entry is_node_def\<close>)
  qed
qed

section \<open>Disjunction\<close>

function u_ite_x_T_z :: "bdd \<Rightarrow> bdd \<Rightarrow> (itetable, bdd) state" where
  "u_ite_x_T_z x z =
     (if x = TrueP then State_Monad.return TrueP
      else if x = FalseP then State_Monad.return z
      else if z = TrueP then State_Monad.return TrueP
      else if z = FalseP then State_Monad.return x
      else memo 3 x z
       (if variable x > variable z then do {
          r \<leftarrow> u_ite_x_T_z (thenCase x) z;
          e \<leftarrow> u_ite_x_T_z (elseCase x) z;
          add_or_node 3 x z (variable x) r e }
        else if variable x = variable z then
          (if x = z then State_Monad.return x
           else if notCase x = z then State_Monad.return TrueP
           else do {
             r \<leftarrow> u_ite_x_T_z (thenCase x) (thenCase z);
             e \<leftarrow> u_ite_x_T_z (elseCase x) (elseCase z);
             add_or_node 3 x z (variable x) r e })
        else do {
          r \<leftarrow> u_ite_x_T_z x (thenCase z);
          e \<leftarrow> u_ite_x_T_z x (elseCase z);
          add_or_node 3 x z (variable z) r e }))"
  by pat_completeness auto
termination
  by (relation "measure (\<lambda>(x, y). size x + size y)")
    (auto simp: IS_TRUE_FALSE_def size_sons_not_above intro!: add_less_le_mono add_less_mono size_sons)

declare u_ite_x_T_z.simps [simp del]

lemma u_ite_x_T_z_leaf:
  "IS_TRUE_FALSE x \<or> IS_TRUE_FALSE z \<Longrightarrow> u_ite_x_T_z x z = (if x = TrueP then State_Monad.return TrueP
      else if x = FalseP then State_Monad.return z
      else if z = TrueP then State_Monad.return TrueP
      else if z = FalseP then State_Monad.return x
      else undefined)"
  by (subst u_ite_x_T_z.simps) (auto simp: IS_TRUE_FALSE_def)

lemma u_ite_x_T_z_node:
  "\<not> IS_TRUE_FALSE x \<Longrightarrow> \<not> IS_TRUE_FALSE z \<Longrightarrow> u_ite_x_T_z x z = memo 3 x z
     (if variable x = variable z \<and> x = z then State_Monad.return x
      else if variable x = variable z \<and> notCase x = z then State_Monad.return TrueP
      else do {
        r \<leftarrow> u_ite_x_T_z (reduce_t (max (variable x) (variable z)) x)
          (reduce_t (max (variable x) (variable z)) z);
        e \<leftarrow> u_ite_x_T_z (reduce_f (max (variable x) (variable z)) x)
          (reduce_f (max (variable x) (variable z)) z);
        add_or_node 3 x z (max (variable x) (variable z)) r e })"
  by (subst u_ite_x_T_z.simps) (auto simp: IS_TRUE_FALSE_def reduce_same reduce_below max_def)

lemma u_ite_x_T_z_computes:
  "robdd x \<Longrightarrow> robdd z \<Longrightarrow>
    computes (u_ite_x_T_z x z) (max (variable x) (variable z)) (\<lambda>a. ev x a \<or> ev z a)"
proof (induction "size x + size z" arbitrary: x z rule: less_induct)
  case less
  note IH = less.hyps and x = less.prems(1) and y = less.prems(2)
  show ?case
  proof (cases "IS_TRUE_FALSE x \<or> IS_TRUE_FALSE z")
    case True
    show ?thesis
      unfolding u_ite_x_T_z_leaf [OF True]
      using True x y by (auto simp: IS_TRUE_FALSE_def is_node_def intro!: computes_return)
  next
    case False
    then have n: "\<not> IS_TRUE_FALSE x" "\<not> IS_TRUE_FALSE z" by auto
    note v = node_facts(1) [OF x n(1)]
    have entry: "ite_entry_ok 3 x z p \<longleftrightarrow>
        is_node (max (variable x) (variable z)) (\<lambda>a. ev x a \<or> ev z a) p" for p
      using x y by (simp add: ite_entry_ok_def Let_def)
    have step: "computes (do {
        r \<leftarrow> u_ite_x_T_z (reduce_t (max (variable x) (variable z)) x)
          (reduce_t (max (variable x) (variable z)) z);
        e \<leftarrow> u_ite_x_T_z (reduce_f (max (variable x) (variable z)) x)
          (reduce_f (max (variable x) (variable z)) z);
        add_or_node 3 x z (max (variable x) (variable z)) r e })
        (max (variable x) (variable z)) (\<lambda>a. ev x a \<or> ev z a)"
      by (rule binop_step [where S = "\<lambda>b c. b \<or> c", OF IH x y refl]) (use v entry in auto)
    show ?thesis
      unfolding u_ite_x_T_z_node [OF n]
      by (rule computes_memo; (intro computes_if computes_return step)?)
        (use x y in \<open>auto simp: entry is_node_def\<close>)
  qed
qed

section \<open>Conjunction with the negated first operand\<close>

function u_ite_x_F_z :: "bdd \<Rightarrow> bdd \<Rightarrow> (itetable, bdd) state" where
  "u_ite_x_F_z x z =
     (if x = TrueP then State_Monad.return FalseP
      else if x = FalseP then State_Monad.return z
      else if z = TrueP then State_Monad.return (notCase x)
      else if z = FalseP then State_Monad.return FalseP
      else memo 4 x z
       (if variable x > variable z then do {
          r \<leftarrow> u_ite_x_F_z (thenCase x) z;
          e \<leftarrow> u_ite_x_F_z (elseCase x) z;
          add_or_node 4 x z (variable x) r e }
        else if variable x = variable z then
          (if x = z then State_Monad.return FalseP
           else if notCase x = z then State_Monad.return (notCase x)
           else do {
             r \<leftarrow> u_ite_x_F_z (thenCase x) (thenCase z);
             e \<leftarrow> u_ite_x_F_z (elseCase x) (elseCase z);
             add_or_node 4 x z (variable x) r e })
        else do {
          r \<leftarrow> u_ite_x_F_z x (thenCase z);
          e \<leftarrow> u_ite_x_F_z x (elseCase z);
          add_or_node 4 x z (variable z) r e }))"
  by pat_completeness auto
termination
  by (relation "measure (\<lambda>(x, y). size x + size y)")
    (auto simp: IS_TRUE_FALSE_def size_sons_not_above intro!: add_less_le_mono add_less_mono size_sons)

declare u_ite_x_F_z.simps [simp del]

lemma u_ite_x_F_z_leaf:
  "IS_TRUE_FALSE x \<or> IS_TRUE_FALSE z \<Longrightarrow> u_ite_x_F_z x z = (if x = TrueP then State_Monad.return FalseP
      else if x = FalseP then State_Monad.return z
      else if z = TrueP then State_Monad.return (notCase x)
      else if z = FalseP then State_Monad.return FalseP
      else undefined)"
  by (subst u_ite_x_F_z.simps) (auto simp: IS_TRUE_FALSE_def)

lemma u_ite_x_F_z_node:
  "\<not> IS_TRUE_FALSE x \<Longrightarrow> \<not> IS_TRUE_FALSE z \<Longrightarrow> u_ite_x_F_z x z = memo 4 x z
     (if variable x = variable z \<and> x = z then State_Monad.return FalseP
      else if variable x = variable z \<and> notCase x = z then State_Monad.return (notCase x)
      else do {
        r \<leftarrow> u_ite_x_F_z (reduce_t (max (variable x) (variable z)) x)
          (reduce_t (max (variable x) (variable z)) z);
        e \<leftarrow> u_ite_x_F_z (reduce_f (max (variable x) (variable z)) x)
          (reduce_f (max (variable x) (variable z)) z);
        add_or_node 4 x z (max (variable x) (variable z)) r e })"
  by (subst u_ite_x_F_z.simps) (auto simp: IS_TRUE_FALSE_def reduce_same reduce_below max_def)

lemma u_ite_x_F_z_computes:
  "robdd x \<Longrightarrow> robdd z \<Longrightarrow>
    computes (u_ite_x_F_z x z) (max (variable x) (variable z)) (\<lambda>a. \<not> ev x a \<and> ev z a)"
proof (induction "size x + size z" arbitrary: x z rule: less_induct)
  case less
  note IH = less.hyps and x = less.prems(1) and y = less.prems(2)
  show ?case
  proof (cases "IS_TRUE_FALSE x \<or> IS_TRUE_FALSE z")
    case True
    show ?thesis
      unfolding u_ite_x_F_z_leaf [OF True]
      using True x y by (auto simp: IS_TRUE_FALSE_def is_node_def intro!: computes_return)
  next
    case False
    then have n: "\<not> IS_TRUE_FALSE x" "\<not> IS_TRUE_FALSE z" by auto
    note v = node_facts(1) [OF x n(1)]
    have entry: "ite_entry_ok 4 x z p \<longleftrightarrow>
        is_node (max (variable x) (variable z)) (\<lambda>a. \<not> ev x a \<and> ev z a) p" for p
      using x y by (simp add: ite_entry_ok_def Let_def)
    have step: "computes (do {
        r \<leftarrow> u_ite_x_F_z (reduce_t (max (variable x) (variable z)) x)
          (reduce_t (max (variable x) (variable z)) z);
        e \<leftarrow> u_ite_x_F_z (reduce_f (max (variable x) (variable z)) x)
          (reduce_f (max (variable x) (variable z)) z);
        add_or_node 4 x z (max (variable x) (variable z)) r e })
        (max (variable x) (variable z)) (\<lambda>a. \<not> ev x a \<and> ev z a)"
      by (rule binop_step [where S = "\<lambda>b c. \<not> b \<and> c", OF IH x y refl]) (use v entry in auto)
    show ?thesis
      unfolding u_ite_x_F_z_node [OF n]
      by (rule computes_memo; (intro computes_if computes_return step)?)
        (use x y in \<open>auto simp: entry is_node_def\<close>)
  qed
qed

section \<open>Equivalence\<close>

function ite_x_y_ny :: "bdd \<Rightarrow> bdd \<Rightarrow> (itetable, bdd) state" where
  "ite_x_y_ny x y =
     (if x = TrueP then State_Monad.return y
      else if x = FalseP then State_Monad.return (notCase y)
      else if y = TrueP then State_Monad.return x
      else if y = FalseP then State_Monad.return (notCase x)
      else memo 5 x y
       (if variable x > variable y then do {
          r \<leftarrow> ite_x_y_ny (thenCase x) y;
          e \<leftarrow> ite_x_y_ny (elseCase x) y;
          add_or_node 5 x y (variable x) r e }
        else if variable x = variable y then
          (if x = y then State_Monad.return TrueP
           else if notCase x = y then State_Monad.return FalseP
           else do {
             r \<leftarrow> ite_x_y_ny (thenCase x) (thenCase y);
             e \<leftarrow> ite_x_y_ny (elseCase x) (elseCase y);
             add_or_node 5 x y (variable x) r e })
        else do {
          r \<leftarrow> ite_x_y_ny x (thenCase y);
          e \<leftarrow> ite_x_y_ny x (elseCase y);
          add_or_node 5 x y (variable y) r e }))"
  by pat_completeness auto
termination
  by (relation "measure (\<lambda>(x, y). size x + size y)")
    (auto simp: IS_TRUE_FALSE_def size_sons_not_above intro!: add_less_le_mono add_less_mono size_sons)

declare ite_x_y_ny.simps [simp del]

lemma ite_x_y_ny_leaf:
  "IS_TRUE_FALSE x \<or> IS_TRUE_FALSE y \<Longrightarrow> ite_x_y_ny x y = (if x = TrueP then State_Monad.return y
      else if x = FalseP then State_Monad.return (notCase y)
      else if y = TrueP then State_Monad.return x
      else if y = FalseP then State_Monad.return (notCase x)
      else undefined)"
  by (subst ite_x_y_ny.simps) (auto simp: IS_TRUE_FALSE_def)

lemma ite_x_y_ny_node:
  "\<not> IS_TRUE_FALSE x \<Longrightarrow> \<not> IS_TRUE_FALSE y \<Longrightarrow> ite_x_y_ny x y = memo 5 x y
     (if variable x = variable y \<and> x = y then State_Monad.return TrueP
      else if variable x = variable y \<and> notCase x = y then State_Monad.return FalseP
      else do {
        r \<leftarrow> ite_x_y_ny (reduce_t (max (variable x) (variable y)) x)
          (reduce_t (max (variable x) (variable y)) y);
        e \<leftarrow> ite_x_y_ny (reduce_f (max (variable x) (variable y)) x)
          (reduce_f (max (variable x) (variable y)) y);
        add_or_node 5 x y (max (variable x) (variable y)) r e })"
  by (subst ite_x_y_ny.simps) (auto simp: IS_TRUE_FALSE_def reduce_same reduce_below max_def)

lemma ite_x_y_ny_computes:
  "robdd x \<Longrightarrow> robdd y \<Longrightarrow>
    computes (ite_x_y_ny x y) (max (variable x) (variable y)) (\<lambda>a. ev x a = ev y a)"
proof (induction "size x + size y" arbitrary: x y rule: less_induct)
  case less
  note IH = less.hyps and x = less.prems(1) and y = less.prems(2)
  show ?case
  proof (cases "IS_TRUE_FALSE x \<or> IS_TRUE_FALSE y")
    case True
    show ?thesis
      unfolding ite_x_y_ny_leaf [OF True]
      using True x y by (auto simp: IS_TRUE_FALSE_def is_node_def intro!: computes_return)
  next
    case False
    then have n: "\<not> IS_TRUE_FALSE x" "\<not> IS_TRUE_FALSE y" by auto
    note v = node_facts(1) [OF x n(1)]
    have entry: "ite_entry_ok 5 x y p \<longleftrightarrow>
        is_node (max (variable x) (variable y)) (\<lambda>a. ev x a = ev y a) p" for p
      using x y by (simp add: ite_entry_ok_def Let_def)
    have step: "computes (do {
        r \<leftarrow> ite_x_y_ny (reduce_t (max (variable x) (variable y)) x)
          (reduce_t (max (variable x) (variable y)) y);
        e \<leftarrow> ite_x_y_ny (reduce_f (max (variable x) (variable y)) x)
          (reduce_f (max (variable x) (variable y)) y);
        add_or_node 5 x y (max (variable x) (variable y)) r e })
        (max (variable x) (variable y)) (\<lambda>a. ev x a = ev y a)"
      by (rule binop_step [where S = "\<lambda>b c. b = c", OF IH x y refl]) (use v entry in auto)
    show ?thesis
      unfolding ite_x_y_ny_node [OF n]
      by (rule computes_memo; (intro computes_if computes_return step)?)
        (use x y in \<open>auto simp: entry is_node_def\<close>)
  qed
qed

section \<open>if-then-else\<close>

text \<open>Both cofactors, then the common last lines of \<open>ite\<close> and of \<open>ite_xvar_y_z\<close>.\<close>

definition ite_branch ::
  "int \<Rightarrow> (itetable, bdd) state \<Rightarrow> (itetable, bdd) state \<Rightarrow> (itetable, bdd) state" where
  "ite_branch v m1 m2 = do { r \<leftarrow> m1; e \<leftarrow> m2; State_Monad.return (same_or_node v r e) }"

definition ite_branch_add ::
  "int \<Rightarrow> bdd \<Rightarrow> bdd \<Rightarrow> int \<Rightarrow> (itetable, bdd) state \<Rightarrow> (itetable, bdd) state \<Rightarrow> (itetable, bdd) state" where
  "ite_branch_add op y z v m1 m2 = do { r \<leftarrow> m1; e \<leftarrow> m2; add_or_node op y z v r e }"

function ite :: "bdd \<Rightarrow> bdd \<Rightarrow> bdd \<Rightarrow> (itetable, bdd) state" where
  "ite x y z =
     (if x = TrueP then State_Monad.return y
      else if x = FalseP then State_Monad.return z
      else if y = TrueP then
        (if z = FalseP then State_Monad.return x
         else if z = TrueP then State_Monad.return TrueP
         else u_ite_x_T_z x z)
      else if y = FalseP then
        (if z = TrueP then State_Monad.return (notCase x)
         else if z = FalseP then State_Monad.return FalseP
         else u_ite_x_F_z x z)
      else if z = TrueP then u_ite_x_y_T x y
      else if z = FalseP then ite_x_y_F x y
      else
        (if variable x > variable y then
           (if variable x > variable z then
              (if y = z then State_Monad.return y
               else (if notCase y = z then
                 ite_branch (variable x) (ite_x_y_ny (thenCase x) y) (ite_x_y_ny (elseCase x) y)
               else ite_branch (variable x) (ite (thenCase x) y z) (ite (elseCase x) y z)))
            else (if variable x = variable z then
              (if x = z then
                 ite_branch (variable x) (ite_x_y_F (thenCase x) y) (ite_x_y_F (elseCase x) y)
               else (if notCase x = z then
                 ite_branch (variable x) (u_ite_x_y_T (thenCase x) y) (u_ite_x_y_T (elseCase x) y)
               else ite_branch (variable x) (ite (thenCase x) y (thenCase z)) (ite (elseCase x) y (elseCase z))))
            else (if x = y then
              ite_branch (variable z) (u_ite_x_T_z (thenCase z) x) (u_ite_x_T_z (elseCase z) x)
            else (if notCase x = y then
              ite_branch (variable z) (u_ite_x_F_z x (thenCase z)) (u_ite_x_F_z x (elseCase z))
            else ite_branch (variable z) (ite x y (thenCase z)) (ite x y (elseCase z))))))
         else (if variable y < variable z then
           (if x = y then
              ite_branch (variable z) (u_ite_x_T_z (thenCase z) x) (u_ite_x_T_z (elseCase z) x)
            else (if notCase x = y then
              ite_branch (variable z) (u_ite_x_F_z x (thenCase z)) (u_ite_x_F_z x (elseCase z))
            else ite_branch (variable z) (ite x y (thenCase z)) (ite x y (elseCase z))))
         else (if variable x = variable z then
           (if variable y = variable x then
              (if y = z then State_Monad.return y
               else (if notCase y = z then
                 ite_branch (variable x) (ite_x_y_ny (thenCase x) (thenCase y)) (ite_x_y_ny (elseCase x) (elseCase y))
               else (if x = y then
                 ite_branch (variable x) (u_ite_x_T_z (thenCase x) (thenCase z)) (u_ite_x_T_z (elseCase x) (elseCase z))
               else (if notCase x = y then
                 ite_branch (variable x) (u_ite_x_F_z (thenCase x) (thenCase z)) (u_ite_x_F_z (elseCase x) (elseCase z))
               else (if x = z then
                 ite_branch (variable x) (ite_x_y_F (thenCase x) (thenCase y)) (ite_x_y_F (elseCase x) (elseCase y))
               else (if notCase x = z then
                 ite_branch (variable x) (u_ite_x_y_T (thenCase x) (thenCase y)) (u_ite_x_y_T (elseCase x) (elseCase y))
               else ite_branch (variable x) (ite (thenCase x) (thenCase y) (thenCase z)) (ite (elseCase x) (elseCase y) (elseCase z))))))))
            else (if x = z then
              ite_branch (variable y) (ite_x_y_F (thenCase y) x) (ite_x_y_F (elseCase y) x)
            else (if notCase x = z then
              ite_branch (variable y) (u_ite_x_y_T x (thenCase y)) (u_ite_x_y_T x (elseCase y))
            else ite_branch (variable y) (ite x (thenCase y) z) (ite x (elseCase y) z))))
         else (if variable y = variable x then
           (if x = y then
              ite_branch (variable x) (u_ite_x_T_z (thenCase x) z) (u_ite_x_T_z (elseCase x) z)
            else (if notCase x = y then
              ite_branch (variable x) (u_ite_x_F_z (thenCase x) z) (u_ite_x_F_z (elseCase x) z)
            else ite_branch (variable x) (ite (thenCase x) (thenCase y) z) (ite (elseCase x) (elseCase y) z)))
         else (if variable y = variable z then
           (if y = z then State_Monad.return y
            else (if notCase y = z then
              ite_branch (variable y) (ite_x_y_ny x (thenCase y)) (ite_x_y_ny x (elseCase y))
            else ite_branch (variable y) (ite x (thenCase y) (thenCase z)) (ite x (elseCase y) (elseCase z))))
         else (if x = z then
           ite_branch (variable y) (ite_x_y_F (thenCase y) x) (ite_x_y_F (elseCase y) x)
         else (if notCase x = z then
           ite_branch (variable y) (u_ite_x_y_T x (thenCase y)) (u_ite_x_y_T x (elseCase y))
         else ite_branch (variable y) (ite x (thenCase y) z) (ite x (elseCase y) z)))))))))"
  by pat_completeness auto
termination
  by (relation "measure (\<lambda>(x, y, z). size x + size y + size z)")
    (auto simp: IS_TRUE_FALSE_def size_sons_not_above
      intro!: add_less_le_mono add_less_mono add_le_less_mono add_le_mono size_sons)

declare ite.simps [simp del]

text \<open>\<open>ite_xvar_y_z\<close> is meant for a positive variable \<open>x\<close>: its table key holds only the variable.\<close>

function ite_xvar_y_z :: "bdd \<Rightarrow> bdd \<Rightarrow> bdd \<Rightarrow> (itetable, bdd) state" where
  "ite_xvar_y_z x y z =
     (if x = TrueP then State_Monad.return y
      else if x = FalseP then State_Monad.return z
      else if y = TrueP then
        (if z = FalseP then State_Monad.return x
         else if z = TrueP then State_Monad.return TrueP
         else u_ite_x_T_z x z)
      else if y = FalseP then
        (if z = TrueP then State_Monad.return (notCase x)
         else if z = FalseP then State_Monad.return FalseP
         else u_ite_x_F_z x z)
      else if z = TrueP then u_ite_x_y_T x y
      else if z = FalseP then ite_x_y_F x y
      else
        memo (variable x + 30) y z
        (if variable x > variable y then
           (if variable x > variable z then
              (if y = z then State_Monad.return y
               else (if notCase y = z then
                 ite_branch_add (variable x + 30) y z (variable x) (ite_x_y_ny (thenCase x) y) (ite_x_y_ny (elseCase x) y)
               else ite_branch_add (variable x + 30) y z (variable x) (ite_xvar_y_z (thenCase x) y z) (ite_xvar_y_z (elseCase x) y z)))
            else (if variable x = variable z then
              (if x = z then
                 ite_branch_add (variable x + 30) y z (variable x) (ite_x_y_F (thenCase x) y) (ite_x_y_F (elseCase x) y)
               else (if notCase x = z then
                 ite_branch_add (variable x + 30) y z (variable x) (u_ite_x_y_T (thenCase x) y) (u_ite_x_y_T (elseCase x) y)
               else ite_branch_add (variable x + 30) y z (variable x) (ite_xvar_y_z (thenCase x) y (thenCase z)) (ite_xvar_y_z (elseCase x) y (elseCase z))))
            else (if x = y then
              ite_branch_add (variable x + 30) y z (variable z) (u_ite_x_T_z (thenCase z) x) (u_ite_x_T_z (elseCase z) x)
            else (if notCase x = y then
              ite_branch_add (variable x + 30) y z (variable z) (u_ite_x_F_z x (thenCase z)) (u_ite_x_F_z x (elseCase z))
            else ite_branch_add (variable x + 30) y z (variable z) (ite_xvar_y_z x y (thenCase z)) (ite_xvar_y_z x y (elseCase z))))))
         else (if variable y < variable z then
           (if x = y then
              ite_branch_add (variable x + 30) y z (variable z) (u_ite_x_T_z (thenCase z) x) (u_ite_x_T_z (elseCase z) x)
            else (if notCase x = y then
              ite_branch_add (variable x + 30) y z (variable z) (u_ite_x_F_z x (thenCase z)) (u_ite_x_F_z x (elseCase z))
            else ite_branch_add (variable x + 30) y z (variable z) (ite_xvar_y_z x y (thenCase z)) (ite_xvar_y_z x y (elseCase z))))
         else (if variable x = variable z then
           (if variable y = variable x then
              (if y = z then State_Monad.return y
               else (if notCase y = z then
                 ite_branch_add (variable x + 30) y z (variable x) (ite_x_y_ny (thenCase x) (thenCase y)) (ite_x_y_ny (elseCase x) (elseCase y))
               else (if x = y then
                 ite_branch_add (variable x + 30) y z (variable x) (u_ite_x_T_z (thenCase x) (thenCase z)) (u_ite_x_T_z (elseCase x) (elseCase z))
               else (if notCase x = y then
                 ite_branch_add (variable x + 30) y z (variable x) (u_ite_x_F_z (thenCase x) (thenCase z)) (u_ite_x_F_z (elseCase x) (elseCase z))
               else (if x = z then
                 ite_branch_add (variable x + 30) y z (variable x) (ite_x_y_F (thenCase x) (thenCase y)) (ite_x_y_F (elseCase x) (elseCase y))
               else (if notCase x = z then
                 ite_branch_add (variable x + 30) y z (variable x) (u_ite_x_y_T (thenCase x) (thenCase y)) (u_ite_x_y_T (elseCase x) (elseCase y))
               else ite_branch_add (variable x + 30) y z (variable x) (ite_xvar_y_z (thenCase x) (thenCase y) (thenCase z)) (ite_xvar_y_z (elseCase x) (elseCase y) (elseCase z))))))))
            else (if x = z then
              ite_branch_add (variable x + 30) y z (variable y) (ite_x_y_F (thenCase y) x) (ite_x_y_F (elseCase y) x)
            else (if notCase x = z then
              ite_branch_add (variable x + 30) y z (variable y) (u_ite_x_y_T x (thenCase y)) (u_ite_x_y_T x (elseCase y))
            else ite_branch_add (variable x + 30) y z (variable y) (ite_xvar_y_z x (thenCase y) z) (ite_xvar_y_z x (elseCase y) z))))
         else (if variable y = variable x then
           (if x = y then
              ite_branch_add (variable x + 30) y z (variable x) (u_ite_x_T_z (thenCase x) z) (u_ite_x_T_z (elseCase x) z)
            else (if notCase x = y then
              ite_branch_add (variable x + 30) y z (variable x) (u_ite_x_F_z (thenCase x) z) (u_ite_x_F_z (elseCase x) z)
            else ite_branch_add (variable x + 30) y z (variable x) (ite_xvar_y_z (thenCase x) (thenCase y) z) (ite_xvar_y_z (elseCase x) (elseCase y) z)))
         else (if variable y = variable z then
           (if y = z then State_Monad.return y
            else (if notCase y = z then
              ite_branch_add (variable x + 30) y z (variable y) (ite_x_y_ny x (thenCase y)) (ite_x_y_ny x (elseCase y))
            else ite_branch_add (variable x + 30) y z (variable y) (ite_xvar_y_z x (thenCase y) (thenCase z)) (ite_xvar_y_z x (elseCase y) (elseCase z))))
         else (if x = z then
           ite_branch_add (variable x + 30) y z (variable y) (ite_x_y_F (thenCase y) x) (ite_x_y_F (elseCase y) x)
         else (if notCase x = z then
           ite_branch_add (variable x + 30) y z (variable y) (u_ite_x_y_T x (thenCase y)) (u_ite_x_y_T x (elseCase y))
         else ite_branch_add (variable x + 30) y z (variable y) (ite_xvar_y_z x (thenCase y) z) (ite_xvar_y_z x (elseCase y) z)))))))))"
  by pat_completeness auto
termination
  by (relation "measure (\<lambda>(x, y, z). size x + size y + size z)")
    (auto simp: IS_TRUE_FALSE_def size_sons_not_above
      intro!: add_less_le_mono add_less_mono add_le_less_mono add_le_mono size_sons)

declare ite_xvar_y_z.simps [simp del]

text \<open>The routines above, for any larger bound and any equal function.\<close>

lemma op_weak:
  assumes "robdd x" "robdd y" "variable x \<le> B" "variable y \<le> B"
  shows "(\<And>a. \<phi> a = (ev x a \<and> ev y a)) \<Longrightarrow> computes (ite_x_y_F x y) B \<phi>"
    and "(\<And>a. \<phi> a = (ev x a \<longrightarrow> ev y a)) \<Longrightarrow> computes (u_ite_x_y_T x y) B \<phi>"
    and "(\<And>a. \<phi> a = (ev x a \<or> ev y a)) \<Longrightarrow> computes (u_ite_x_T_z x y) B \<phi>"
    and "(\<And>a. \<phi> a = (\<not> ev x a \<and> ev y a)) \<Longrightarrow> computes (u_ite_x_F_z x y) B \<phi>"
    and "(\<And>a. \<phi> a = (ev x a = ev y a)) \<Longrightarrow> computes (ite_x_y_ny x y) B \<phi>"

proof -
  show "computes (ite_x_y_F x y) B \<phi>" if "\<And>a. \<phi> a = (ev x a \<and> ev y a)"
    by (rule computes_weaken [OF ite_x_y_F_computes [OF assms(1,2)]]) (use assms(3,4) that in simp_all)
  show "computes (u_ite_x_y_T x y) B \<phi>" if "\<And>a. \<phi> a = (ev x a \<longrightarrow> ev y a)"
    by (rule computes_weaken [OF u_ite_x_y_T_computes [OF assms(1,2)]]) (use assms(3,4) that in simp_all)
  show "computes (u_ite_x_T_z x y) B \<phi>" if "\<And>a. \<phi> a = (ev x a \<or> ev y a)"
    by (rule computes_weaken [OF u_ite_x_T_z_computes [OF assms(1,2)]]) (use assms(3,4) that in simp_all)
  show "computes (u_ite_x_F_z x y) B \<phi>" if "\<And>a. \<phi> a = (\<not> ev x a \<and> ev y a)"
    by (rule computes_weaken [OF u_ite_x_F_z_computes [OF assms(1,2)]]) (use assms(3,4) that in simp_all)
  show "computes (ite_x_y_ny x y) B \<phi>" if "\<And>a. \<phi> a = (ev x a = ev y a)"
    by (rule computes_weaken [OF ite_x_y_ny_computes [OF assms(1,2)]]) (use assms(3,4) that in simp_all)
qed

lemma return_weak:
  "robdd p \<Longrightarrow> variable p \<le> B \<Longrightarrow> (\<And>a. \<phi> a = ev p a) \<Longrightarrow> computes (State_Monad.return p) B \<phi>"
  by (simp add: computes_return is_node_def)

text \<open>
  The two calls of a branch compute the cofactors of the if-then-else for the top variable
  \<open>v\<close>; this is all the last lines need.
\<close>

definition ite_cof :: "(bdd \<Rightarrow> bdd) \<Rightarrow> bdd \<Rightarrow> bdd \<Rightarrow> bdd \<Rightarrow> assignment \<Rightarrow> bool" where
  "ite_cof c x y z a = (if ev (c x) a then ev (c y) a else ev (c z) a)"

lemma ite_cof_split:
  assumes "robdd x" "robdd y" "robdd z" "variable x \<le> v" "variable y \<le> v" "variable z \<le> v" "0 < v"
  shows "(if ev x a then ev y a else ev z a) =
    (if a (nat v) then ite_cof (reduce_t v) x y z a else ite_cof (reduce_f v) x y z a)"
  using reduce_facts(9) [OF assms(1,4,7), of a] reduce_facts(9) [OF assms(2,5,7), of a]
    reduce_facts(9) [OF assms(3,6,7), of a]
  by (simp add: ite_cof_def)

lemma computes_ite_branch:
  assumes "robdd x" "robdd y" "robdd z" "variable x \<le> v" "variable y \<le> v" "variable z \<le> v" "0 < v"
    and "computes m1 (v - 1) (ite_cof (reduce_t v) x y z)"
    and "computes m2 (v - 1) (ite_cof (reduce_f v) x y z)"
    and "v \<le> B"
  shows "computes (ite_branch v m1 m2) B (\<lambda>a. if ev x a then ev y a else ev z a)"
  unfolding ite_branch_def
proof (intro computes_bind2 [OF assms(8,9)] computes_return)
  fix r e
  assume "is_node (v - 1) (ite_cof (reduce_t v) x y z) r" "is_node (v - 1) (ite_cof (reduce_f v) x y z) e"
  then show "is_node B (\<lambda>a. if ev x a then ev y a else ev z a) (same_or_node v r e)"
    by (rule is_node_same_or_node) (use assms(7,10) in \<open>simp_all add: ite_cof_split [OF assms(1-7)]\<close>)
qed

lemma computes_ite_branch_add:
  assumes "robdd x" "robdd y" "robdd z" "variable x \<le> v" "variable y \<le> v" "variable z \<le> v" "0 < v"
    and "computes m1 (v - 1) (ite_cof (reduce_t v) x y z)"
    and "computes m2 (v - 1) (ite_cof (reduce_f v) x y z)"
    and "v \<le> B"
    and "\<And>p. is_node B (\<lambda>a. if ev x a then ev y a else ev z a) p \<Longrightarrow> ite_entry_ok op y z p"
  shows "computes (ite_branch_add op y z v m1 m2) B (\<lambda>a. if ev x a then ev y a else ev z a)"
  unfolding ite_branch_add_def
  by (rule computes_step [OF assms(8,9)])
    (use assms(7,10) in \<open>simp_all add: ite_cof_split [OF assms(1-7)] assms(11)\<close>)

text \<open>The test \<open>x->notCase == z\<close>, kept folded while the orderings of the variables are split.\<close>

definition oppose :: "bdd \<Rightarrow> bdd \<Rightarrow> bool" where
  "oppose x z \<longleftrightarrow> notCase x = z"

lemma oppose_ev:
  "oppose x z \<Longrightarrow> ev z a = (\<not> ev x a)"
  "oppose x z \<Longrightarrow> \<not> IS_TRUE_FALSE x \<Longrightarrow> ev (thenCase z) a = (\<not> ev (thenCase x) a)"
  "oppose x z \<Longrightarrow> \<not> IS_TRUE_FALSE x \<Longrightarrow> ev (elseCase z) a = (\<not> ev (elseCase x) a)"
  by (auto simp: oppose_def)

lemma ite_leaf_computes:
  assumes "robdd x" "robdd y" "robdd z" "variable x \<le> B" "variable y \<le> B" "variable z \<le> B"
    and "IS_TRUE_FALSE x \<or> IS_TRUE_FALSE y \<or> IS_TRUE_FALSE z"
  shows "computes
     (if x = TrueP then State_Monad.return y
      else if x = FalseP then State_Monad.return z
      else if y = TrueP then
        (if z = FalseP then State_Monad.return x
         else if z = TrueP then State_Monad.return TrueP
         else u_ite_x_T_z x z)
      else if y = FalseP then
        (if z = TrueP then State_Monad.return (notCase x)
         else if z = FalseP then State_Monad.return FalseP
         else u_ite_x_F_z x z)
      else if z = TrueP then u_ite_x_y_T x y
      else if z = FalseP then ite_x_y_F x y
      else m) B (\<lambda>a. if ev x a then ev y a else ev z a)"
  by (intro computes_if op_weak return_weak; (use assms in \<open>simp add: IS_TRUE_FALSE_def\<close>)?)

lemma ite_computes:
  "robdd x \<Longrightarrow> robdd y \<Longrightarrow> robdd z \<Longrightarrow> variable x \<le> B \<Longrightarrow> variable y \<le> B \<Longrightarrow> variable z \<le> B \<Longrightarrow>
    computes (ite x y z) B (\<lambda>a. if ev x a then ev y a else ev z a)"
proof (induction "size x + size y + size z" arbitrary: x y z B rule: less_induct)
  case less
  note IH = less.hyps and x = less.prems(1) and y = less.prems(2) and z = less.prems(3)
    and B = less.prems(4-6)
  show ?case
  proof (cases "IS_TRUE_FALSE x \<or> IS_TRUE_FALSE y \<or> IS_TRUE_FALSE z")
    case True
    then show ?thesis by (subst ite.simps) (rule ite_leaf_computes [OF x y z B])
  next
    case False
    then have n: "\<not> IS_TRUE_FALSE x" "\<not> IS_TRUE_FALSE y" "\<not> IS_TRUE_FALSE z" by auto
    note nx = node_facts [OF x n(1)] and ny = node_facts [OF y n(2)] and nz = node_facts [OF z n(3)]
    have ne: "x \<noteq> TrueP" "x \<noteq> FalseP" "y \<noteq> TrueP" "y \<noteq> FalseP" "z \<noteq> TrueP" "z \<noteq> FalseP"
      using n by (auto simp: IS_TRUE_FALSE_def)
    have IH': "computes (ite x' y' z') C \<phi>"
      if "size x' + size y' + size z' < size x + size y + size z" "robdd x'" "robdd y'" "robdd z'"
        "variable x' \<le> C" "variable y' \<le> C" "variable z' \<le> C"
        "\<And>a. \<phi> a = (if ev x' a then ev y' a else ev z' a)" for x' y' z' C \<phi>
      by (rule computes_weaken [OF IH [OF that(1-7)]]) (simp_all add: that(8))
    show ?thesis
      by (subst ite.simps,
          simp only: ne if_False oppose_def [symmetric] eq_commute [of "variable y" "variable x"],
          (intro computes_if computes_ite_branch [OF x y z] IH' op_weak return_weak
            x y z nx(1-3) ny(1-3) nz(1-3);
           (use nx(4-7) ny(4-7) nz(4-7) B in linarith)?; clarify?))
        (auto simp: ite_cof_def reduce_t_def reduce_f_def n
          oppose_ev [of x y] oppose_ev [of x z] oppose_ev [of y z])
  qed
qed

text \<open>A constant or the node of a positive variable, what \<open>ite_xvar_y_z\<close> is called with.\<close>

fun posvar :: "bdd \<Rightarrow> bool" where
  "posvar (Node v t e) \<longleftrightarrow> 0 < v \<and> t = TrueP \<and> e = FalseP"
| "posvar _ \<longleftrightarrow> True"

lemma posvar_ite_var [simp]: "0 < v \<Longrightarrow> posvar (ite_var v)"
  by (simp add: ite_var_pos)

lemma posvar_facts:
  assumes "posvar x"
  shows "posvar (thenCase x)" "posvar (elseCase x)" "robdd x"
    "\<not> IS_TRUE_FALSE x \<Longrightarrow> ev x a = a (nat (variable x))"
  using assms by (cases x; auto)+

lemma entry_xvar_iff:
  assumes "robdd y" "robdd z" "0 < v"
  shows "ite_entry_ok (v + 30) y z p \<longleftrightarrow>
    is_node (max v (max (variable y) (variable z))) (\<lambda>a. if a (nat v) then ev y a else ev z a) p"
  using assms by (simp add: ite_entry_ok_def Let_def)

lemma ite_xvar_computes:
  "posvar x \<Longrightarrow> robdd y \<Longrightarrow> robdd z \<Longrightarrow> variable x \<le> B \<Longrightarrow> variable y \<le> B \<Longrightarrow> variable z \<le> B \<Longrightarrow>
    computes (ite_xvar_y_z x y z) B (\<lambda>a. if ev x a then ev y a else ev z a)"
proof (induction "size x + size y + size z" arbitrary: x y z B rule: less_induct)
  case less
  note IH = less.hyps and px = less.prems(1) and y = less.prems(2) and z = less.prems(3)
    and B = less.prems(4-6) and x = posvar_facts(3) [OF less.prems(1)]
  show ?case
  proof (cases "IS_TRUE_FALSE x \<or> IS_TRUE_FALSE y \<or> IS_TRUE_FALSE z")
    case True
    then show ?thesis by (subst ite_xvar_y_z.simps) (rule ite_leaf_computes [OF x y z B])
  next
    case False
    then have n: "\<not> IS_TRUE_FALSE x" "\<not> IS_TRUE_FALSE y" "\<not> IS_TRUE_FALSE z" by auto
    note nx = node_facts [OF x n(1)] and ny = node_facts [OF y n(2)] and nz = node_facts [OF z n(3)]
    have ne: "x \<noteq> TrueP" "x \<noteq> FalseP" "y \<noteq> TrueP" "y \<noteq> FalseP" "z \<noteq> TrueP" "z \<noteq> FalseP"
      using n by (auto simp: IS_TRUE_FALSE_def)
    have IH': "computes (ite_xvar_y_z x' y' z') C \<phi>"
      if "size x' + size y' + size z' < size x + size y + size z" "posvar x'" "robdd y'" "robdd z'"
        "variable x' \<le> C" "variable y' \<le> C" "variable z' \<le> C"
        "\<And>a. \<phi> a = (if ev x' a then ev y' a else ev z' a)" for x' y' z' C \<phi>
      by (rule computes_weaken [OF IH [OF that(1-7)]]) (simp_all add: that(8))
    define M where "M = max (variable x) (max (variable y) (variable z))"
    have M: "variable x \<le> M" "variable y \<le> M" "variable z \<le> M" by (auto simp: M_def)
    have entry: "ite_entry_ok (variable x + 30) y z p \<longleftrightarrow>
        is_node M (\<lambda>a. if ev x a then ev y a else ev z a) p" for p
      using entry_xvar_iff [OF y z nx(1), of p] posvar_facts(4) [OF px n(1)]
      by (simp add: M_def)
    have "computes (ite_xvar_y_z x y z) M (\<lambda>a. if ev x a then ev y a else ev z a)"
      by (subst ite_xvar_y_z.simps,
          simp only: ne if_False oppose_def [symmetric] eq_commute [of "variable y" "variable x"],
          rule computes_memo [OF _ entry [THEN iffD1]],
          (intro computes_if computes_ite_branch_add [OF x y z] IH' op_weak return_weak
            x y z px posvar_facts(1,2) nx(1-3) ny(1-3) nz(1-3);
           (erule entry [THEN iffD1] | erule entry [THEN iffD2] |
            use nx(4-7) ny(4-7) nz(4-7) M in linarith)?; clarify?))
        (auto simp: ite_cof_def reduce_t_def reduce_f_def n
          oppose_ev [of x y] oppose_ev [of x z] oppose_ev [of y z])
    then show ?thesis by (rule computes_weaken) (use B in \<open>simp_all add: M_def\<close>)
  qed
qed

section \<open>The connectives\<close>

definition ite_or :: "bdd \<Rightarrow> bdd \<Rightarrow> (itetable, bdd) state" where
  "ite_or a b = (if variable a < variable b then u_ite_x_T_z b a else u_ite_x_T_z a b)"

definition ite_or_te :: "bdd \<Rightarrow> (itetable, bdd) state" where
  "ite_or_te a = ite_or (thenCase a) (elseCase a)"

definition ite_nor :: "bdd \<Rightarrow> bdd \<Rightarrow> (itetable, bdd) state" where
  "ite_nor a b = do { p \<leftarrow> ite_or a b; State_Monad.return (notCase p) }"

definition ite_imp :: "bdd \<Rightarrow> bdd \<Rightarrow> (itetable, bdd) state" where
  "ite_imp a b = u_ite_x_y_T a b"

definition ite_nimp :: "bdd \<Rightarrow> bdd \<Rightarrow> (itetable, bdd) state" where
  "ite_nimp a b = do { p \<leftarrow> ite_imp a b; State_Monad.return (notCase p) }"

definition ite_xor :: "bdd \<Rightarrow> bdd \<Rightarrow> (itetable, bdd) state" where
  "ite_xor a b =
     (if variable a < variable b then ite_x_y_ny b (notCase a) else ite_x_y_ny a (notCase b))"

definition ite_equ :: "bdd \<Rightarrow> bdd \<Rightarrow> (itetable, bdd) state" where
  "ite_equ a b = do { p \<leftarrow> ite_xor a b; State_Monad.return (notCase p) }"

definition ite_and :: "bdd \<Rightarrow> bdd \<Rightarrow> (itetable, bdd) state" where
  "ite_and a b = (if variable a < variable b then ite_x_y_F b a else ite_x_y_F a b)"

definition ite_nand :: "bdd \<Rightarrow> bdd \<Rightarrow> (itetable, bdd) state" where
  "ite_nand a b =
     (if variable a < variable b then do { p \<leftarrow> ite_and b a; State_Monad.return (notCase p) }
      else do { p \<leftarrow> ite_and a b; State_Monad.return (notCase p) })"

definition ite_itequ :: "bdd \<Rightarrow> bdd \<Rightarrow> bdd \<Rightarrow> bdd \<Rightarrow> (itetable, bdd) state" where
  "ite_itequ a b c d = do { p \<leftarrow> ite a b c; ite_equ d p }"

lemma computes_not:
  assumes "computes m B (\<lambda>a. \<not> \<phi> a)"
  shows "computes (do { p \<leftarrow> m; State_Monad.return (notCase p) }) B \<phi>"
  by (rule computes_bind [OF assms], rule computes_return) (auto simp: is_node_def)

lemma connective_computes:
  assumes "robdd x" "robdd y" "variable x \<le> B" "variable y \<le> B"
  shows ite_and_computes: "computes (ite_and x y) B (\<lambda>a. ev x a \<and> ev y a)"
    and ite_or_computes: "computes (ite_or x y) B (\<lambda>a. ev x a \<or> ev y a)"
    and ite_imp_computes: "computes (ite_imp x y) B (\<lambda>a. ev x a \<longrightarrow> ev y a)"
    and ite_xor_computes: "computes (ite_xor x y) B (\<lambda>a. ev x a \<noteq> ev y a)"
  unfolding ite_and_def ite_or_def ite_imp_def ite_xor_def
  by (intro computes_if op_weak; use assms in auto)+

lemma derived_computes:
  assumes "robdd x" "robdd y" "variable x \<le> B" "variable y \<le> B"
  shows ite_nand_computes: "computes (ite_nand x y) B (\<lambda>a. \<not> (ev x a \<and> ev y a))"
    and ite_nor_computes: "computes (ite_nor x y) B (\<lambda>a. \<not> (ev x a \<or> ev y a))"
    and ite_nimp_computes: "computes (ite_nimp x y) B (\<lambda>a. \<not> (ev x a \<longrightarrow> ev y a))"
    and ite_equ_computes: "computes (ite_equ x y) B (\<lambda>a. ev x a = ev y a)"
proof -
  note c = connective_computes [OF assms] and c' = connective_computes [OF assms(2,1,4,3)]
  show "computes (ite_nand x y) B (\<lambda>a. \<not> (ev x a \<and> ev y a))"
    unfolding ite_nand_def
    by (intro computes_if computes_not computes_weaken [OF c(1)] computes_weaken [OF c'(1)]) auto
  show "computes (ite_nor x y) B (\<lambda>a. \<not> (ev x a \<or> ev y a))"
    unfolding ite_nor_def by (intro computes_not computes_weaken [OF c(2)]) auto
  show "computes (ite_nimp x y) B (\<lambda>a. \<not> (ev x a \<longrightarrow> ev y a))"
    unfolding ite_nimp_def by (intro computes_not computes_weaken [OF c(3)]) auto
  show "computes (ite_equ x y) B (\<lambda>a. ev x a = ev y a)"
    unfolding ite_equ_def by (intro computes_not computes_weaken [OF c(4)]) auto
qed

lemma ite_or_te_computes:
  assumes "robdd f" "variable (thenCase f) \<le> B" "variable (elseCase f) \<le> B"
  shows "computes (ite_or_te f) B (\<lambda>a. ev (thenCase f) a \<or> ev (elseCase f) a)"
  unfolding ite_or_te_def
  by (rule ite_or_computes) (use assms robdd_sons in auto)

end
