(* ===== verification/Xdd.thy ===== *)
theory Xdd
  imports BddIte
begin

text \<open>
  Exclusive-or decision diagrams in utils/bdd.cc: complement, exclusive or and conjunction over
  the computed table, the test for complements, and assigning a variable. An XDD stands for the
  polynomial over GF(2) that \<open>xev\<close> evaluates; the routines are proved to compute it, and XDDs are
  canonical.
\<close>

section \<open>The routines\<close>

definition xdd_reduce_t :: "int \<Rightarrow> bdd \<Rightarrow> bdd" where
  "xdd_reduce_t v x = (if variable x = v then thenCase x else FalseP)"

definition xdd_reduce_f :: "int \<Rightarrow> bdd \<Rightarrow> bdd" where
  "xdd_reduce_f v x = (if variable x = v then elseCase x else x)"

text \<open>\<open>are_xdd_comp\<close>: the loop walks both else chains until one of them ends.\<close>

function are_xdd_comp :: "bdd \<Rightarrow> bdd \<Rightarrow> bool" where
  "are_xdd_comp x y =
     (if \<not> IS_TRUE_FALSE x \<and> \<not> IS_TRUE_FALSE y then
        (if variable x \<noteq> variable y then False
         else if thenCase x \<noteq> thenCase y then False
         else are_xdd_comp (elseCase x) (elseCase y))
      else if x = TrueP then y = FalseP
      else if x = FalseP then y = TrueP
      else False)"
  by pat_completeness auto
termination
  by (relation "measure (\<lambda>(x, y). size x)") (auto intro: size_sons)

declare are_xdd_comp.simps [simp del]

fun xddnot :: "bdd \<Rightarrow> bdd" where
  "xddnot TrueP = FalseP"
| "xddnot FalseP = TrueP"
| "xddnot (Node v t e) = find_or_add_node (int v) t (xddnot e)"

text \<open>The last step of the binary routines: a false then son is dropped.\<close>

definition xdd_add :: "int \<Rightarrow> bdd \<Rightarrow> bdd \<Rightarrow> int \<Rightarrow> bdd \<Rightarrow> bdd \<Rightarrow> (itetable, bdd) state" where
  "xdd_add op x y v r e =
     (if r = FalseP then itetable_add_node op x y e
      else itetable_add_node op x y (find_or_add_node v r e))"

lemma xdd_reduce_size:
  "size (xdd_reduce_t v x) \<le> size x" "size (xdd_reduce_f v x) \<le> size x"
  "variable x = v \<Longrightarrow> \<not> IS_TRUE_FALSE x \<Longrightarrow> size (xdd_reduce_t v x) < size x"
  "variable x = v \<Longrightarrow> \<not> IS_TRUE_FALSE x \<Longrightarrow> size (xdd_reduce_f v x) < size x"
  by (cases x; simp add: xdd_reduce_t_def xdd_reduce_f_def)+

lemma xdd_reduce_measure:
  assumes "\<not> IS_TRUE_FALSE x" "\<not> IS_TRUE_FALSE y"
    and "v = (if variable y < variable x then variable x else variable y)"
  shows "size (xdd_reduce_t v x) + size (xdd_reduce_t v y) < size x + size y"
    "size (xdd_reduce_f v x) + size (xdd_reduce_f v y) < size x + size y"
proof -
  note le = xdd_reduce_size(1,2) [where v = v] and less = xdd_reduce_size(3,4) [where v = v]
  have "variable x = v \<or> variable y = v" using assms(3) by auto
  then show "size (xdd_reduce_t v x) + size (xdd_reduce_t v y) < size x + size y"
    "size (xdd_reduce_f v x) + size (xdd_reduce_f v y) < size x + size y"
    using less [of x] less [of y] le [of x] le [of y] assms(1,2) by linarith+
qed

text \<open>
  \<open>xddxor\<close> looks the result up before the constant cases; the lookup of a constant operand
  can only miss, because only pairs of inner nodes are stored.
\<close>

function xddxor :: "bdd \<Rightarrow> bdd \<Rightarrow> (itetable, bdd) state" where
  "xddxor x y = memo 9 x y
     (if x = FalseP then State_Monad.return y
      else if y = FalseP then State_Monad.return x
      else if x = TrueP then State_Monad.return (xddnot y)
      else if y = TrueP then State_Monad.return (xddnot x)
      else
        (let v = (if variable x > variable y then variable x else variable y) in do {
          r \<leftarrow> xddxor (xdd_reduce_t v x) (xdd_reduce_t v y);
          e \<leftarrow> xddxor (xdd_reduce_f v x) (xdd_reduce_f v y);
          xdd_add 9 x y v r e }))"
  by pat_completeness auto
termination
proof (relation "measure (\<lambda>(x, y). size x + size y)"; (rule wf_measure)?)
  fix x y :: bdd and v :: int and r :: bdd
  assume "x \<noteq> FalseP" "y \<noteq> FalseP" "x \<noteq> TrueP" "y \<noteq> TrueP"
    and "v = (if variable y < variable x then variable x else variable y)"
  note d = xdd_reduce_measure [of x y v] and a = this
  show "((xdd_reduce_t v x, xdd_reduce_t v y), x, y) \<in> measure (\<lambda>(x, y). size x + size y)"
    "((xdd_reduce_f v x, xdd_reduce_f v y), x, y) \<in> measure (\<lambda>(x, y). size x + size y)"
    using d a by (simp_all add: IS_TRUE_FALSE_def)
qed

declare xddxor.simps [simp del]

text \<open>\<open>xddand\<close>; the two mixed cases of equal top variables avoid one multiplication.\<close>

partial_function (option) xddand :: "bdd \<Rightarrow> bdd \<Rightarrow> itetable \<Rightarrow> (bdd \<times> itetable) option" where
  "xddand x y T = do {
     (cached, T) \<leftarrow> call (itetable_find 15 x y) T;
     if cached \<noteq> None then Some (the cached, T)
     else if x = FalseP then Some (FalseP, T)
     else if y = FalseP then Some (FalseP, T)
     else if x = TrueP then Some (y, T)
     else if y = TrueP then Some (x, T)
     else if x = y then Some (x, T)
     else if are_xdd_comp x y then Some (FalseP, T)
     else if variable x > variable y then do {
       (r, T) \<leftarrow> xddand (thenCase x) y T;
       (e, T) \<leftarrow> xddand (elseCase x) y T;
       call (xdd_add 15 x y (variable x) r e) T }
     else if variable x < variable y then do {
       (r, T) \<leftarrow> xddand (thenCase y) x T;
       (e, T) \<leftarrow> xddand (elseCase y) x T;
       call (xdd_add 15 x y (variable y) r e) T }
     else do {
       (e, T) \<leftarrow> xddand (elseCase x) (elseCase y) T;
       (r, T) \<leftarrow>
         (if thenCase x = TrueP then do {
            (p, T) \<leftarrow> call (xddxor (thenCase y) (elseCase y)) T;
            (q, T) \<leftarrow> xddand (thenCase y) (elseCase x) T;
            call (xddxor p q) T }
          else if thenCase y = TrueP then do {
            (p, T) \<leftarrow> call (xddxor (thenCase x) (elseCase x)) T;
            (q, T) \<leftarrow> xddand (thenCase x) (elseCase y) T;
            call (xddxor p q) T }
          else do {
            (p, T) \<leftarrow> call (xddxor (thenCase x) (elseCase x)) T;
            (q, T) \<leftarrow> call (xddxor (thenCase y) (elseCase y)) T;
            (p, T) \<leftarrow> xddand p q T;
            call (xddxor p e) T });
       call (xdd_add 15 x y (variable x) r e) T } }"

declare xddand.simps [code]

section \<open>They compute on polynomials\<close>

text \<open>What the proofs use of an XDD that is no constant.\<close>

lemma xnode_facts:
  assumes "xdd x" "\<not> IS_TRUE_FALSE x"
  shows "0 < variable x" "xdd (thenCase x)" "xdd (elseCase x)"
    "variable (thenCase x) < variable x" "variable (elseCase x) < variable x"
    "\<And>a. xev x a = ((a (nat (variable x)) \<and> xev (thenCase x) a) \<noteq> xev (elseCase x) a)"
  using assms by (cases x; simp)+

lemma is_xnode_self: "xdd p \<Longrightarrow> is_xnode (variable p) (xev p) p"
  by (simp add: is_xnode_def)

lemma is_xnode_weaken:
  "is_xnode B \<phi> p \<Longrightarrow> B \<le> B' \<Longrightarrow> (\<And>a. \<phi> a = \<psi> a) \<Longrightarrow> is_xnode B' \<psi> p"
  by (auto simp: is_xnode_def)

lemma is_xnode_Node:
  assumes "is_xnode B1 \<phi>1 r" "is_xnode B2 \<phi>2 e" "B1 < v" "B2 < v" "0 < v" "v \<le> B"
    and "\<And>a. \<phi> a = ((a (nat v) \<and> \<phi>1 a) \<noteq> \<phi>2 a)"
  shows "r \<noteq> FalseP \<Longrightarrow> is_xnode B \<phi> (find_or_add_node v r e)" and "r = FalseP \<Longrightarrow> is_xnode B \<phi> e"
  using assms by (auto simp: is_xnode_def find_or_add_node_def)

lemma xddnot_xnode: "xdd x \<Longrightarrow> is_xnode (variable x) (\<lambda>a. \<not> xev x a) (xddnot x)"
  by (induction x) (auto simp: is_xnode_def find_or_add_node_def)

lemma gives_memo:
  assumes "gives cache_ok m P" "\<And>p. ite_entry_ok op x y p \<Longrightarrow> P p"
  shows "gives cache_ok (memo op x y m) P"
  unfolding gives_def memo_def
proof (rule triple_bind)
  show "triple cache_ok (itetable_find op x y) (\<lambda>c T. (\<forall>p. c = Some p \<longrightarrow> P p) \<and> cache_ok T)"
    unfolding cache_ok_def by (rule triple_post [OF itc.find_sound]) (use assms(2) in auto)
  show "triple (\<lambda>T. (\<forall>p. c = Some p \<longrightarrow> P p) \<and> cache_ok T)
      (case c of Some p \<Rightarrow> State_Monad.return p | None \<Rightarrow> m) (\<lambda>p T. P p \<and> cache_ok T)" for c
    using assms(1) by (cases c) (auto simp: gives_def intro!: triple_return)
qed

lemma gives_find:
  "gives cache_ok (itetable_find op x y) (\<lambda>c. \<forall>p. c = Some p \<longrightarrow> ite_entry_ok op x y p)"
  unfolding gives_def cache_ok_def by (rule triple_post [OF itc.find_sound]) auto

lemma gives_add:
  "P p \<Longrightarrow> ite_entry_ok op x y p \<Longrightarrow> gives cache_ok (itetable_add_node op x y p) P"
  unfolding gives_def cache_ok_def
  by (rule triple_post [OF itc.add_sound [where S = ite_entry_ok]]) auto

lemma xdd_add_gives:
  assumes "is_xnode B1 \<phi>1 r" "is_xnode B2 \<phi>2 e" "B1 < v" "B2 < v" "0 < v" "v \<le> B"
    and "\<And>a. \<phi> a = ((a (nat v) \<and> \<phi>1 a) \<noteq> \<phi>2 a)"
    and "\<And>p. is_xnode B \<phi> p \<Longrightarrow> ite_entry_ok op x y p"
  shows "gives cache_ok (xdd_add op x y v r e) (is_xnode B \<phi>)"
  unfolding xdd_add_def using is_xnode_Node [OF assms(1-7)] assms(8)
  by (auto intro: gives_if gives_add)

lemma entry9_iff: "xdd x \<Longrightarrow> xdd y \<Longrightarrow>
    ite_entry_ok 9 x y p \<longleftrightarrow> is_xnode (max (variable x) (variable y)) (\<lambda>a. xev x a \<noteq> xev y a) p"
  by (simp add: ite_entry_ok_def Let_def)

lemma entry15_iff: "xdd x \<Longrightarrow> xdd y \<Longrightarrow>
    ite_entry_ok 15 x y p \<longleftrightarrow> is_xnode (max (variable x) (variable y)) (\<lambda>a. xev x a \<and> xev y a) p"
  by (simp add: ite_entry_ok_def Let_def)

lemma xdd_reduce_facts:
  assumes "xdd x" "variable x \<le> v" "0 < v"
  shows "xdd (xdd_reduce_t v x)" "xdd (xdd_reduce_f v x)"
    "variable (xdd_reduce_t v x) < v" "variable (xdd_reduce_f v x) < v"
    "\<And>a. xev x a = ((a (nat v) \<and> xev (xdd_reduce_t v x) a) \<noteq> xev (xdd_reduce_f v x) a)"
  using assms by (cases x; auto simp: xdd_reduce_t_def xdd_reduce_f_def)+

lemma xddxor_gives:
  "xdd x \<Longrightarrow> xdd y \<Longrightarrow>
    gives cache_ok (xddxor x y) (is_xnode (max (variable x) (variable y)) (\<lambda>a. xev x a \<noteq> xev y a))"
proof (induction x y rule: xddxor.induct)
  case (1 x y)
  let ?B = "max (variable x) (variable y)" and ?\<phi> = "\<lambda>a. xev x a \<noteq> xev y a"
  define v where "v = (if variable x > variable y then variable x else variable y)"
  show ?case
    unfolding xddxor.simps [of x y] v_def [symmetric] Let_def
  proof (intro gives_memo gives_if)
    show "is_xnode ?B ?\<phi> p" if "ite_entry_ok 9 x y p" for p
      using that "1.prems" by (simp add: entry9_iff)
    show "gives cache_ok (State_Monad.return y) (is_xnode ?B ?\<phi>)" if "x = FalseP"
      using that "1.prems" by (auto simp: is_xnode_def intro!: gives_return)
    show "gives cache_ok (State_Monad.return x) (is_xnode ?B ?\<phi>)" if "y = FalseP"
      using that "1.prems" by (auto simp: is_xnode_def intro!: gives_return)
    show "gives cache_ok (State_Monad.return (xddnot y)) (is_xnode ?B ?\<phi>)" if "x = TrueP"
      using that "1.prems" by (auto intro!: gives_return is_xnode_weaken [OF xddnot_xnode])
    show "gives cache_ok (State_Monad.return (xddnot x)) (is_xnode ?B ?\<phi>)" if "y = TrueP"
      using that "1.prems" by (auto intro!: gives_return is_xnode_weaken [OF xddnot_xnode])
    assume c: "x \<noteq> FalseP" "y \<noteq> FalseP" "x \<noteq> TrueP" "y \<noteq> TrueP"
    have v: "0 < v" "variable x \<le> v" "variable y \<le> v" "v \<le> ?B"
      using c "1.prems" xnode_facts(1) [of y] by (auto simp: v_def IS_TRUE_FALSE_def)
    note fx = xdd_reduce_facts [OF "1.prems"(1) v(2,1)] and fy = xdd_reduce_facts [OF "1.prems"(2) v(3,1)]
    show "gives cache_ok (do {
          r \<leftarrow> xddxor (xdd_reduce_t v x) (xdd_reduce_t v y);
          e \<leftarrow> xddxor (xdd_reduce_f v x) (xdd_reduce_f v y);
          xdd_add 9 x y v r e }) (is_xnode ?B ?\<phi>)"
    proof (rule gives_bind [OF "1.IH"(1) [OF c v_def fx(1) fy(1)]],
        rule gives_bind [OF "1.IH"(2) [OF c v_def fx(2) fy(2)]])
      fix r e
      assume re: "is_xnode (max (variable (xdd_reduce_t v x)) (variable (xdd_reduce_t v y)))
          (\<lambda>a. xev (xdd_reduce_t v x) a \<noteq> xev (xdd_reduce_t v y) a) r"
        "is_xnode (max (variable (xdd_reduce_f v x)) (variable (xdd_reduce_f v y)))
          (\<lambda>a. xev (xdd_reduce_f v x) a \<noteq> xev (xdd_reduce_f v y) a) e"
      have "(xev x a \<noteq> xev y a) = ((a (nat v) \<and> (xev (xdd_reduce_t v x) a \<noteq> xev (xdd_reduce_t v y) a)) \<noteq>
          (xev (xdd_reduce_f v x) a \<noteq> xev (xdd_reduce_f v y) a))" for a
        unfolding fx(5) fy(5) by blast
      moreover have "ite_entry_ok 9 x y p" if "is_xnode ?B ?\<phi> p" for p
        using that "1.prems" by (simp add: entry9_iff)
      ultimately show "gives cache_ok (xdd_add 9 x y v r e) (is_xnode ?B ?\<phi>)"
        using xdd_add_gives [OF re _ _ v(1,4)] fx(3,4) fy(3,4) by simp
    qed
  qed
qed

lemma are_xdd_comp_sound: "are_xdd_comp x y \<Longrightarrow> xev x a = (\<not> xev y a)"
proof (induction x y rule: are_xdd_comp.induct)
  case (1 x y)
  then show ?case
    by (subst (asm) are_xdd_comp.simps, cases x; cases y) (auto split: if_splits)
qed

text \<open>
  The three last steps of \<open>xddand\<close>: both products with the higher operand's sons, and, for equal
  variables, the coefficient of the variable in the product of two polynomials.
\<close>

abbreviation xand :: "bdd \<Rightarrow> bdd \<Rightarrow> bdd \<Rightarrow> bool" where
  "xand x y \<equiv> is_xnode (max (variable x) (variable y)) (\<lambda>a. xev x a \<and> xev y a)"

abbreviation xxor :: "bdd \<Rightarrow> bdd \<Rightarrow> bdd \<Rightarrow> bool" where
  "xxor x y \<equiv> is_xnode (max (variable x) (variable y)) (\<lambda>a. xev x a \<noteq> xev y a)"

lemma xand_comm: "xand x y = xand y x"
  by (simp add: max.commute conj_commute)

lemma xand_higher:
  assumes x: "xdd x" "\<not> IS_TRUE_FALSE x" and y: "xdd y" "variable y < variable x"
    and IH: "ogives cache_ok (xddand (thenCase x) y) (xand (thenCase x) y)"
      "ogives cache_ok (xddand (elseCase x) y) (xand (elseCase x) y)"
    and entry: "\<And>p. xand x y p \<Longrightarrow> ite_entry_ok 15 u w p"
  shows "ogives cache_ok (\<lambda>T. do {
       (r, T) \<leftarrow> xddand (thenCase x) y T;
       (e, T) \<leftarrow> xddand (elseCase x) y T;
       call (xdd_add 15 u w (variable x) r e) T }) (xand x y)"
proof (rule ogives_bind [OF IH(1)], rule ogives_bind [OF IH(2)], rule ogives_call)
  fix r e
  assume re: "xand (thenCase x) y r" "xand (elseCase x) y e"
  note f = xnode_facts [OF x]
  have "(xev x a \<and> xev y a) = ((a (nat (variable x)) \<and> (xev (thenCase x) a \<and> xev y a)) \<noteq>
      (xev (elseCase x) a \<and> xev y a))" for a unfolding f(6) by blast
  then show "gives cache_ok (xdd_add 15 u w (variable x) r e) (xand x y)"
    using xdd_add_gives [OF re _ _ f(1)] f(4,5) y(2) entry by simp
qed

definition xdd_coeff :: "bdd \<Rightarrow> bdd \<Rightarrow> assignment \<Rightarrow> bool" where
  "xdd_coeff x y a \<longleftrightarrow>
     ((xev (thenCase x) a \<noteq> xev (elseCase x) a) \<and> (xev (thenCase y) a \<noteq> xev (elseCase y) a))
       \<noteq> (xev (elseCase x) a \<and> xev (elseCase y) a)"

lemma xdd_coeff_commute: "xdd_coeff x y = xdd_coeff y x"
  by (auto simp: xdd_coeff_def fun_eq_iff)

lemma xand_coeff_true:
  assumes x: "xdd x" "\<not> IS_TRUE_FALSE x" and y: "xdd y" "\<not> IS_TRUE_FALSE y" and v: "variable x = variable y"
    and t: "thenCase x = TrueP"
    and IH: "ogives cache_ok (xddand (thenCase y) (elseCase x)) (xand (thenCase y) (elseCase x))"
  shows "ogives cache_ok (\<lambda>T. do {
      (p, T) \<leftarrow> call (xddxor (thenCase y) (elseCase y)) T;
      (q, T) \<leftarrow> xddand (thenCase y) (elseCase x) T;
      call (xddxor p q) T }) (is_xnode (variable x - 1) (xdd_coeff x y))"
proof (rule ogives_bind [OF ogives_call [OF xddxor_gives]], rule xnode_facts(2) [OF y],
    rule xnode_facts(3) [OF y], rule ogives_bind [OF IH], rule ogives_call)
  fix p q
  assume pq: "xxor (thenCase y) (elseCase y) p" "xand (thenCase y) (elseCase x) q"
  note fx = xnode_facts [OF x] and fy = xnode_facts [OF y]
  have "xdd p" "xdd q" "max (variable p) (variable q) \<le> variable x - 1"
    using pq fx(4,5) fy(4,5) v by (auto simp: is_xnode_def)
  moreover have "(xev p a \<noteq> xev q a) = xdd_coeff x y a" for a
    using pq t by (auto simp: is_xnode_def xdd_coeff_def)
  ultimately show "gives cache_ok (xddxor p q) (is_xnode (variable x - 1) (xdd_coeff x y))"
    by (intro gives_post [OF xddxor_gives]) (auto elim: is_xnode_weaken)
qed

lemma xand_coeff_gen:
  assumes x: "xdd x" "\<not> IS_TRUE_FALSE x" and y: "xdd y" "\<not> IS_TRUE_FALSE y" and v: "variable x = variable y"
    and e: "xand (elseCase x) (elseCase y) e"
    and IH: "\<And>p q. xdd p \<Longrightarrow> xdd q \<Longrightarrow> max (variable p) (variable q) < variable x \<Longrightarrow>
      ogives cache_ok (xddand p q) (xand p q)"
  shows "ogives cache_ok (\<lambda>T. do {
      (p, T) \<leftarrow> call (xddxor (thenCase x) (elseCase x)) T;
      (q, T) \<leftarrow> call (xddxor (thenCase y) (elseCase y)) T;
      (p, T) \<leftarrow> xddand p q T;
      call (xddxor p e) T }) (is_xnode (variable x - 1) (xdd_coeff x y))"
proof (rule ogives_bind [OF ogives_call [OF xddxor_gives]], rule xnode_facts(2) [OF x],
    rule xnode_facts(3) [OF x], rule ogives_bind [OF ogives_call [OF xddxor_gives]],
    rule xnode_facts(2) [OF y], rule xnode_facts(3) [OF y])
  fix p q
  assume pq: "xxor (thenCase x) (elseCase x) p" "xxor (thenCase y) (elseCase y) q"
  note fx = xnode_facts [OF x] and fy = xnode_facts [OF y]
  have b: "xdd p" "xdd q" "max (variable p) (variable q) < variable x"
    using pq fx(4,5) fy(4,5) v by (auto simp: is_xnode_def)
  show "ogives cache_ok (\<lambda>T. do { (p, T) \<leftarrow> xddand p q T; call (xddxor p e) T })
      (is_xnode (variable x - 1) (xdd_coeff x y))"
  proof (rule ogives_bind [OF IH [OF b]], rule ogives_call)
    fix r
    assume r: "xand p q r"
    have "xdd r" "xdd e" "max (variable r) (variable e) \<le> variable x - 1"
      using r e b fx(5) fy(5) v by (auto simp: is_xnode_def)
    moreover have "(xev r a \<noteq> xev e a) = xdd_coeff x y a" for a
      using r pq e by (auto simp: is_xnode_def xdd_coeff_def)
    ultimately show "gives cache_ok (xddxor r e) (is_xnode (variable x - 1) (xdd_coeff x y))"
      by (intro gives_post [OF xddxor_gives]) (auto elim: is_xnode_weaken)
  qed
qed

lemma xand_same:
  assumes x: "xdd x" "\<not> IS_TRUE_FALSE x" and y: "xdd y" "\<not> IS_TRUE_FALSE y" and v: "variable x = variable y"
    and IH: "\<And>p q. xdd p \<Longrightarrow> xdd q \<Longrightarrow> max (variable p) (variable q) < variable x \<Longrightarrow>
      ogives cache_ok (xddand p q) (xand p q)"
  shows "ogives cache_ok (\<lambda>T. do {
       (e, T) \<leftarrow> xddand (elseCase x) (elseCase y) T;
       (r, T) \<leftarrow>
         (if thenCase x = TrueP then do {
            (p, T) \<leftarrow> call (xddxor (thenCase y) (elseCase y)) T;
            (q, T) \<leftarrow> xddand (thenCase y) (elseCase x) T;
            call (xddxor p q) T }
          else if thenCase y = TrueP then do {
            (p, T) \<leftarrow> call (xddxor (thenCase x) (elseCase x)) T;
            (q, T) \<leftarrow> xddand (thenCase x) (elseCase y) T;
            call (xddxor p q) T }
          else do {
            (p, T) \<leftarrow> call (xddxor (thenCase x) (elseCase x)) T;
            (q, T) \<leftarrow> call (xddxor (thenCase y) (elseCase y)) T;
            (p, T) \<leftarrow> xddand p q T;
            call (xddxor p e) T });
       call (xdd_add 15 x y (variable x) r e) T }) (xand x y)"
proof (rule ogives_bind, rule IH)
  note fx = xnode_facts [OF x] and fy = xnode_facts [OF y]
  show "xdd (elseCase x)" "xdd (elseCase y)" by fact+
  show "max (variable (elseCase x)) (variable (elseCase y)) < variable x" using fx fy v by simp
  fix e
  assume e: "xand (elseCase x) (elseCase y) e"
  show "ogives cache_ok (\<lambda>T. do {
       (r, T) \<leftarrow>
         (if thenCase x = TrueP then do {
            (p, T) \<leftarrow> call (xddxor (thenCase y) (elseCase y)) T;
            (q, T) \<leftarrow> xddand (thenCase y) (elseCase x) T;
            call (xddxor p q) T }
          else if thenCase y = TrueP then do {
            (p, T) \<leftarrow> call (xddxor (thenCase x) (elseCase x)) T;
            (q, T) \<leftarrow> xddand (thenCase x) (elseCase y) T;
            call (xddxor p q) T }
          else do {
            (p, T) \<leftarrow> call (xddxor (thenCase x) (elseCase x)) T;
            (q, T) \<leftarrow> call (xddxor (thenCase y) (elseCase y)) T;
            (p, T) \<leftarrow> xddand p q T;
            call (xddxor p e) T });
       call (xdd_add 15 x y (variable x) r e) T }) (xand x y)"
  proof (rule ogives_bind [where P = "is_xnode (variable x - 1) (xdd_coeff x y)"], intro ogives_if)
    show "ogives cache_ok (\<lambda>T. do {
            (p, T) \<leftarrow> call (xddxor (thenCase y) (elseCase y)) T;
            (q, T) \<leftarrow> xddand (thenCase y) (elseCase x) T;
            call (xddxor p q) T }) (is_xnode (variable x - 1) (xdd_coeff x y))" if "thenCase x = TrueP"
      by (rule xand_coeff_true [OF x y v that IH]) (use fx fy v in auto)
    show "ogives cache_ok (\<lambda>T. do {
            (p, T) \<leftarrow> call (xddxor (thenCase x) (elseCase x)) T;
            (q, T) \<leftarrow> xddand (thenCase x) (elseCase y) T;
            call (xddxor p q) T }) (is_xnode (variable x - 1) (xdd_coeff x y))" if "thenCase y = TrueP"
      unfolding xdd_coeff_commute [of x] v
      by (rule xand_coeff_true [OF y x v [symmetric] that IH]) (use fx fy v in auto)
    show "ogives cache_ok (\<lambda>T. do {
            (p, T) \<leftarrow> call (xddxor (thenCase x) (elseCase x)) T;
            (q, T) \<leftarrow> call (xddxor (thenCase y) (elseCase y)) T;
            (p, T) \<leftarrow> xddand p q T;
            call (xddxor p e) T }) (is_xnode (variable x - 1) (xdd_coeff x y))"
      by (rule xand_coeff_gen [OF x y v e IH])
    fix r
    assume r: "is_xnode (variable x - 1) (xdd_coeff x y) r"
    have "(xev x a \<and> xev y a) = ((a (nat (variable x)) \<and> xdd_coeff x y a) \<noteq>
        (xev (elseCase x) a \<and> xev (elseCase y) a))" for a
      unfolding fx(6) fy(6) xdd_coeff_def v by blast
    moreover have "ite_entry_ok 15 x y p" if "xand x y p" for p using that x(1) y(1) by (simp add: entry15_iff)
    ultimately show "ogives cache_ok (\<lambda>T. call (xdd_add 15 x y (variable x) r e) T) (xand x y)"
      using xdd_add_gives [OF r e _ _ fx(1)] fx(5) fy(5) v by (intro ogives_call) simp
  qed
qed

lemma xddand_gives: "xdd x \<Longrightarrow> xdd y \<Longrightarrow> ogives cache_ok (xddand x y) (xand x y)"
proof (induction "nat (max (variable x) (variable y) + 1)" arbitrary: x y rule: less_induct)
  case less
  note xy = less.prems
  have IH: "ogives cache_ok (xddand p q) (xand p q)"
    if "xdd p" "xdd q" "max (variable p) (variable q) < max (variable x) (variable y)" for p q
    by (rule less.hyps [OF _ that(1,2)]) (use that(3) variable_ge [of p] in linarith)
  have ret: "ogives cache_ok (\<lambda>T. Some (p, T)) (xand x y)" if "xand x y p" for p
    by (rule ogives_return [of "xand x y", OF that])
  have inner: "\<not> IS_TRUE_FALSE x" "\<not> IS_TRUE_FALSE y"
    if "x \<noteq> FalseP" "y \<noteq> FalseP" "x \<noteq> TrueP" "y \<noteq> TrueP"
    using that by (auto simp: IS_TRUE_FALSE_def)
  have entry: "ite_entry_ok 15 x y p \<longleftrightarrow> xand x y p" for p by (rule entry15_iff [OF xy])
  show ?case
    unfolding xddand.simps [of x y]
  proof (rule ogives_bind [OF ogives_call [OF gives_find]], intro ogives_if)
    fix cached
    assume c: "\<forall>p. cached = Some p \<longrightarrow> ite_entry_ok 15 x y p"
    show "ogives cache_ok (\<lambda>T. Some (the cached, T)) (xand x y)" if "cached \<noteq> None"
      using c that entry by (intro ret) auto
    show "ogives cache_ok (\<lambda>T. Some (FalseP, T)) (xand x y)" if "x = FalseP"
      by (rule ret) (use that in \<open>simp add: is_xnode_def\<close>)
    show "ogives cache_ok (\<lambda>T. Some (FalseP, T)) (xand x y)" if "y = FalseP"
      by (rule ret) (use that in \<open>simp add: is_xnode_def\<close>)
    show "ogives cache_ok (\<lambda>T. Some (y, T)) (xand x y)" if "x = TrueP"
      by (rule ret) (use that xy in \<open>simp add: is_xnode_def\<close>)
    show "ogives cache_ok (\<lambda>T. Some (x, T)) (xand x y)" if "y = TrueP"
      by (rule ret) (use that xy in \<open>simp add: is_xnode_def\<close>)
    show "ogives cache_ok (\<lambda>T. Some (x, T)) (xand x y)" if "x = y"
      by (rule ret) (use that xy in \<open>simp add: is_xnode_def\<close>)
    show "ogives cache_ok (\<lambda>T. Some (FalseP, T)) (xand x y)" if "are_xdd_comp x y"
      by (rule ret) (use are_xdd_comp_sound [OF that] in \<open>simp add: is_xnode_def le_max_iff_disj\<close>)
    assume nt: "x \<noteq> FalseP" "y \<noteq> FalseP" "x \<noteq> TrueP" "y \<noteq> TrueP"
    note fx = xnode_facts [OF xy(1) inner(1) [OF nt]] and fy = xnode_facts [OF xy(2) inner(2) [OF nt]]
    show "ogives cache_ok (\<lambda>T. do {
       (r, T) \<leftarrow> xddand (thenCase x) y T;
       (e, T) \<leftarrow> xddand (elseCase x) y T;
       call (xdd_add 15 x y (variable x) r e) T }) (xand x y)" if "variable y < variable x"
      by (rule xand_higher [OF xy(1) inner(1) [OF nt] xy(2) that]; (rule IH)?)
        (use fx fy xy that entry in auto)
    show "ogives cache_ok (\<lambda>T. do {
       (r, T) \<leftarrow> xddand (thenCase y) x T;
       (e, T) \<leftarrow> xddand (elseCase y) x T;
       call (xdd_add 15 x y (variable y) r e) T }) (xand x y)" if "variable x < variable y"
      unfolding xand_comm [of x y]
      by (rule xand_higher [OF xy(2) inner(2) [OF nt] xy(1) that]; (rule IH)?)
        (use fx fy xy that entry xand_comm [of x y] in auto)
    assume "\<not> variable y < variable x" "\<not> variable x < variable y"
    then have v: "variable x = variable y" by simp
    show "ogives cache_ok (\<lambda>T. do {
       (e, T) \<leftarrow> xddand (elseCase x) (elseCase y) T;
       (r, T) \<leftarrow>
         (if thenCase x = TrueP then do {
            (p, T) \<leftarrow> call (xddxor (thenCase y) (elseCase y)) T;
            (q, T) \<leftarrow> xddand (thenCase y) (elseCase x) T;
            call (xddxor p q) T }
          else if thenCase y = TrueP then do {
            (p, T) \<leftarrow> call (xddxor (thenCase x) (elseCase x)) T;
            (q, T) \<leftarrow> xddand (thenCase x) (elseCase y) T;
            call (xddxor p q) T }
          else do {
            (p, T) \<leftarrow> call (xddxor (thenCase x) (elseCase x)) T;
            (q, T) \<leftarrow> call (xddxor (thenCase y) (elseCase y)) T;
            (p, T) \<leftarrow> xddand p q T;
            call (xddxor p e) T });
       call (xdd_add 15 x y (variable x) r e) T }) (xand x y)"
      by (rule xand_same [OF xy(1) inner(1) [OF nt] xy(2) inner(2) [OF nt] v IH]) (use v in auto)
  qed
qed

section \<open>Canonicity\<close>

lemma xev_upd_above: "xdd f \<Longrightarrow> variable f < int v \<Longrightarrow> xev f (a(v := b)) = xev f a"
  by (induction f) auto

lemma xev_cofactors:
  assumes "xdd f" "variable f = int v"
  shows "xev f (a(v := False)) = xev (elseCase f) a"
    "xev f (a(v := True)) = (xev (thenCase f) a \<noteq> xev (elseCase f) a)"
  using assms by (cases f; simp add: xev_upd_above)+

lemma xdd_canonical:
  assumes "xdd f" "xdd g" "\<And>a. xev f a = xev g a"
  shows "f = g"
  using assms
proof (induction "size f + size g" arbitrary: f g rule: less_induct)
  case less
  have higher: False if f: "xdd f" and g: "xdd g" and v: "variable g < variable f"
    and sz: "size f + size g = size f' + size g'" "f' = f \<and> g' = g \<or> f' = g \<and> g' = f"
    and eq: "\<And>a. xev f a = xev g a"
    and IH: "\<And>p q. size p + size q < size f' + size g' \<Longrightarrow> xdd p \<Longrightarrow> xdd q \<Longrightarrow>
      (\<And>a. xev p a = xev q a) \<Longrightarrow> p = q" for f g f' g'
  proof -
    obtain v t e where n: "f = Node v t e" using v by (cases f) (auto simp: order.strict_iff_not)
    have "\<not> xev t a" for a
      using eq [of "a(v := True)"] eq [of "a(v := False)"] xev_cofactors [of f v a] f n v
        xev_upd_above [OF g, of v a] by auto
    then have "t = FalseP" using IH [of t FalseP] f n sz by auto
    then show False using f n by simp
  qed
  consider (lt) "variable f < variable g" | (gt) "variable g < variable f"
    | (eq) "variable f = variable g" by linarith
  then show ?case
  proof cases
    case lt
    then show ?thesis using higher [of g f f g] less by (auto simp: add.commute)
  next
    case gt
    then show ?thesis using higher [of f g f g] less by auto
  next
    case eq
    show ?thesis
    proof (cases f)
      case (Node v t e)
      then obtain t' e' where g: "g = Node v t' e'" using eq by (cases g) auto
      have "xev e a = xev e' a" "(xev t a \<noteq> xev e a) = (xev t' a \<noteq> xev e' a)" for a
        using less.prems(3) [of "a(v := False)"] less.prems(3) [of "a(v := True)"]
          xev_cofactors [OF less.prems(1), of v a] xev_cofactors [OF less.prems(2), of v a] Node g
        by simp_all
      then have "xev e a = xev e' a" "xev t a = xev t' a" for a by blast+
      then have "e = e'" "t = t'"
        using less.hyps [of e e'] less.hyps [of t t'] less.prems Node g by simp_all
      then show ?thesis using Node g by simp
    qed (use eq less.prems(3) in \<open>cases g; auto\<close>)+
  qed
qed

lemma is_xnode_unique: "is_xnode B \<phi> p \<Longrightarrow> is_xnode B' \<phi> q \<Longrightarrow> p = q"
  by (auto simp: is_xnode_def intro: xdd_canonical)

lemma are_xdd_comp_xddnot: "are_xdd_comp x (xddnot x)"
proof (induction x)
  case (Node v t e)
  then show ?case
    using are_xdd_comp.simps [of "Node v t e" "Node v t (xddnot e)"] by (simp add: find_or_add_node_def)
qed (subst are_xdd_comp.simps, simp)+

lemma are_xdd_comp_iff:
  assumes "xdd x" "xdd y"
  shows "are_xdd_comp x y \<longleftrightarrow> (\<forall>a. xev x a = (\<not> xev y a))"
proof
  assume "\<forall>a. xev x a = (\<not> xev y a)"
  then have "xev y a = xev (xddnot x) a" for a
    using xddnot_xnode [OF assms(1)] unfolding is_xnode_def by blast
  then have "y = xddnot x"
    using xddnot_xnode [OF assms(1)] unfolding is_xnode_def by (intro xdd_canonical [OF assms(2)]) auto
  then show "are_xdd_comp x y" by (simp add: are_xdd_comp_xddnot)
qed (auto simp: are_xdd_comp_sound)

section \<open>Assigning a variable\<close>

primrec set_variable_xdd_noflag :: "bdd \<Rightarrow> int \<Rightarrow> bool \<Rightarrow> (itetable, bdd) state" where
  "set_variable_xdd_noflag FalseP num torf = State_Monad.return FalseP"
| "set_variable_xdd_noflag TrueP num torf = State_Monad.return TrueP"
| "set_variable_xdd_noflag (Node v t e) num torf =
     (if int v < num then State_Monad.return (Node v t e)
      else if int v = num then (if torf then xddxor t e else State_Monad.return e)
      else do {
        r \<leftarrow> set_variable_xdd_noflag t num torf;
        e \<leftarrow> set_variable_xdd_noflag e num torf;
        State_Monad.return (if r = FalseP then e else find_or_add_node (int v) r e) })"

lemma set_variable_xdd_noflag_gives:
  "xdd f \<Longrightarrow> gives cache_ok (set_variable_xdd_noflag f (int n) torf)
    (is_xnode (variable f) (\<lambda>a. xev f (a(n := torf))))"
proof (induction f)
  case (Node v t e)
  let ?P = "is_xnode (int v) (\<lambda>a. xev (Node v t e) (a(n := torf)))"
  have f: "0 < v" "xdd t" "xdd e" "variable t < int v" "variable e < int v" using Node.prems by simp_all
  have up: "xev t (a(v := b)) = xev t a" "xev e (a(v := b)) = xev e a" for a b
    using xev_upd_above f by simp_all
  show ?case
    unfolding set_variable_xdd_noflag.simps variable.simps
  proof (intro gives_if)
    show "gives cache_ok (State_Monad.return (Node v t e)) ?P" if "int v < int n"
      using that xev_upd_above [OF Node.prems, of n] Node.prems by (intro gives_return) (simp add: is_xnode_def)
    show "gives cache_ok (xddxor t e) ?P" if "int v = int n" torf
      using that f up by (intro gives_post [OF xddxor_gives [OF f(2,3)]]) (auto simp: is_xnode_def)
    show "gives cache_ok (State_Monad.return e) ?P" if "int v = int n" "\<not> torf"
      using that f up by (intro gives_return) (auto simp: is_xnode_def)
    assume vn: "int v \<noteq> int n"
    have "is_xnode (int v) (\<lambda>a. xev (Node v t e) (a(n := torf)))
        (if r = FalseP then e' else find_or_add_node (int v) r e')"
      if re: "is_xnode (variable t) (\<lambda>a. xev t (a(n := torf))) r"
        "is_xnode (variable e) (\<lambda>a. xev e (a(n := torf))) e'" for r e'
    proof -
      have "xev (Node v t e) (a(n := torf)) =
          ((a (nat (int v)) \<and> xev t (a(n := torf))) \<noteq> xev e (a(n := torf)))" for a
        using vn by simp
      then show ?thesis using is_xnode_Node [OF re f(4,5) _ order_refl] f(1) by simp
    qed
    then show "gives cache_ok (do {
        r \<leftarrow> set_variable_xdd_noflag t (int n) torf;
        e \<leftarrow> set_variable_xdd_noflag e (int n) torf;
        State_Monad.return (if r = FalseP then e else find_or_add_node (int v) r e) }) ?P"
      using f by (intro gives_bind [OF Node.IH(1)] gives_bind [OF Node.IH(2)] gives_return)
  qed
qed (auto simp: is_xnode_def intro: gives_return)

end
