(* ===== verification/Bddmark.thy ===== *)
theory Bddmark
  imports Xdd
begin

text \<open>
  The visit marks of utils/bdd.cc. A traversal starts with \<open>start_bdd_flag_number\<close>, which makes
  \<open>bdd_flag_number\<close> a number no node carries; it marks each visited node with it and leaves the
  node's result in \<open>tmp_bdd\<close>. This theory models the marks and proves the rules with which the
  traversals of the later theories are verified.
\<close>

section \<open>The state\<close>

text \<open>
  \<open>tmp_bdd\<close> and \<open>tmp_int\<close> share a union of the node. \<open>gc_runs\<close> says whether the guards of
  \<open>bdd_gc\<close> (garbage collection enabled, enough new nodes) let it run. \<open>sym_flag\<close> are the marks of
  the symbol table (\<open>sym_is_flag\<close>, \<open>sym_set_flag\<close>, \<open>sym_reset_flag\<close>), which only the collection
  of variables uses.
\<close>

datatype node_tmp = Tmp_bdd (tmp_bdd: bdd) | Tmp_int (tmp_int: int)

record bddst =
  itet :: itetable
  flag :: "bdd \<Rightarrow> int"
  tmp :: "bdd \<Rightarrow> node_tmp"
  bdd_flag_number :: int
  last_bdd_flag_number :: "nat \<Rightarrow> int"
  gc_runs :: bool
  sym_flag :: "nat \<Rightarrow> bool"

abbreviation "BDD2XDD_FLAG_NUMBER \<equiv> 0 :: nat"
abbreviation "FORCE_REUSE_FLAG_NUMBER \<equiv> 1 :: nat"
abbreviation "XQUANTIFY_FLAG_NUMBER \<equiv> 2 :: nat"
abbreviation "UNRAVELBDD_FLAG_NUMBER \<equiv> 3 :: nat"
abbreviation "COUNTX_FLAG_NUMBER \<equiv> 4 :: nat"
abbreviation "SETVARIABLE_FLAG_NUMBER \<equiv> 5 :: nat"
abbreviation "SETVARIABLEXDD_FLAG_NUMBER \<equiv> 6 :: nat"
abbreviation "SETVARIABLEALL_FLAG_NUMBER \<equiv> 7 :: nat"
abbreviation "NUMREPLACE_FLAG_NUMBER \<equiv> 8 :: nat"
abbreviation "NUMREPLACEALL_FLAG_NUMBER \<equiv> 9 :: nat"
abbreviation "SAFEBDD_FLAG_NUMBER \<equiv> 13 :: nat"
abbreviation "MAX_FLAG_NUMBER \<equiv> 19 :: nat"

definition bddst_init :: "(bdd \<Rightarrow> int) \<Rightarrow> nat \<Rightarrow> nat \<Rightarrow> bool \<Rightarrow> bddst" where
  "bddst_init addr bits poolsize gc =
     \<lparr>itet = itetable_init addr bits poolsize, flag = (\<lambda>_. 0), tmp = (\<lambda>_. Tmp_int 0),
      bdd_flag_number = 2, last_bdd_flag_number = (\<lambda>_. 0), gc_runs = gc,
      sym_flag = (\<lambda>_. False)\<rparr>"

text \<open>
  What \<open>bdd_gc\<close> does to the marks and the computed table: every node that survives is unmarked,
  a node that is made later is unmarked, and the computed table is emptied. The collector itself is
  \<open>bddtable_gc\<close> of theory Bddgc, which is proved to have this effect on the diagrams that
  \<open>functions[]\<close> reaches; the operands of a traversal are taken to be among them.
\<close>

definition bdd_gc :: "(bddst, unit) state" where
  "bdd_gc = State (\<lambda>s.
     if gc_runs s
     then ((), s\<lparr>flag := (\<lambda>_. 0), itet := snd (run_state itetable_removeall (itet s))\<rparr>)
     else ((), s))"

definition start_bdd_flag_number :: "nat \<Rightarrow> (bddst, unit) state" where
  "start_bdd_flag_number last_bdd_flag = State (\<lambda>s.
     if last_bdd_flag > FORCE_REUSE_FLAG_NUMBER
        \<or> last_bdd_flag_number s last_bdd_flag \<noteq> bdd_flag_number s then
       (let s = s\<lparr>bdd_flag_number := bdd_flag_number s + 1\<rparr>;
            s = (if bdd_flag_number s > 1000000000
                 then (snd (run_state bdd_gc s))\<lparr>last_bdd_flag_number := (\<lambda>_. 0), bdd_flag_number := 3\<rparr>
                 else s)
        in ((), s\<lparr>last_bdd_flag_number :=
                    (last_bdd_flag_number s)(last_bdd_flag := bdd_flag_number s)\<rparr>))
     else ((), s))"

text \<open>A routine over the computed table, run on the whole state.\<close>

definition ite_lift :: "(itetable, 'a) state \<Rightarrow> (bddst, 'a) state" where
  "ite_lift m = State (\<lambda>s. let (a, T) = run_state m (itet s) in (a, s\<lparr>itet := T\<rparr>))"

text \<open>
  The steps of a traversal: the test of a node's mark, the test of its complement's mark, setting
  the mark, and keeping the result in the node.
\<close>

definition if_marked :: "bdd \<Rightarrow> (bddst, bdd) state \<Rightarrow> (bddst, bdd) state" where
  "if_marked f m = State (\<lambda>s.
     if flag s f = bdd_flag_number s then (tmp_bdd (tmp s f), s) else run_state m s)"

definition if_marked_not :: "bdd \<Rightarrow> (bddst, bdd) state \<Rightarrow> (bddst, bdd) state" where
  "if_marked_not f m = State (\<lambda>s.
     if flag s (notCase f) = bdd_flag_number s then (notCase (tmp_bdd (tmp s (notCase f))), s)
     else run_state m s)"

definition set_mark :: "bdd \<Rightarrow> (bddst, unit) state" where
  "set_mark f = State (\<lambda>s. ((), s\<lparr>flag := (flag s)(f := bdd_flag_number s)\<rparr>))"

definition keep :: "bdd \<Rightarrow> bdd \<Rightarrow> (bddst, bdd) state" where
  "keep f r = State (\<lambda>s. (r, s\<lparr>tmp := (tmp s)(f := Tmp_bdd r)\<rparr>))"

text \<open>
  A visit of a node: its result when it is marked, else mark it, run \<open>m\<close> and keep the result.
  \<open>visit_not\<close> also looks at the complement's mark.
\<close>

definition visit :: "bdd \<Rightarrow> (bddst, bdd) state \<Rightarrow> (bddst, bdd) state" where
  "visit f m = if_marked f (do { _ \<leftarrow> set_mark f; r \<leftarrow> m; keep f r })"

definition visit_not :: "bdd \<Rightarrow> (bddst, bdd) state \<Rightarrow> (bddst, bdd) state" where
  "visit_not f m = if_marked f (if_marked_not f (do { _ \<leftarrow> set_mark f; r \<leftarrow> m; keep f r }))"

section \<open>Invariants of the state\<close>

text \<open>
  The guards of the collector let it run (see \<open>start_stale_without_gc\<close> below for what happens
  otherwise). Between traversals, no mark and no last number is above \<open>bdd_flag_number\<close>, and if the last
  traversal was a conversion to XDDs, whose marks may be used again, the marked nodes still hold
  their XDDs. \<open>marks_ok\<close> is the invariant inside a traversal: \<open>D\<close> are the nodes that are marked
  but not yet finished, every other marked node holds a result that satisfies \<open>ok\<close>.
\<close>

definition keeps :: "(bdd \<Rightarrow> bdd \<Rightarrow> bool) \<Rightarrow> bdd \<Rightarrow> node_tmp \<Rightarrow> bool" where
  "keeps R f t \<longleftrightarrow> (\<exists>r. t = Tmp_bdd r \<and> R f r)"

definition xdd_of :: "bdd \<Rightarrow> bdd \<Rightarrow> bool" where
  "xdd_of f r \<longleftrightarrow> robdd f \<and> is_xnode (variable f) (ev f) r"

definition marks_ok :: "(bdd \<Rightarrow> node_tmp \<Rightarrow> bool) \<Rightarrow> bdd set \<Rightarrow> bddst \<Rightarrow> bool" where
  "marks_ok ok D s \<longleftrightarrow> cache_ok (itet s) \<and> gc_runs s \<and> (\<forall>v. \<not> sym_flag s v) \<and> 2 \<le> bdd_flag_number s \<and>
     (\<forall>g. flag s g \<le> bdd_flag_number s) \<and> (\<forall>k. last_bdd_flag_number s k \<le> bdd_flag_number s) \<and>
     (\<forall>g. flag s g = bdd_flag_number s \<longrightarrow> g \<notin> D \<longrightarrow> ok g (tmp s g)) \<and>
     (last_bdd_flag_number s BDD2XDD_FLAG_NUMBER = bdd_flag_number s \<longrightarrow>
        (\<forall>g t. ok g t \<longrightarrow> keeps xdd_of g t))"

definition st_ok :: "bddst \<Rightarrow> bool" where
  "st_ok s \<longleftrightarrow> cache_ok (itet s) \<and> gc_runs s \<and> (\<forall>v. \<not> sym_flag s v) \<and> 2 \<le> bdd_flag_number s \<and>
     (\<forall>g. flag s g \<le> bdd_flag_number s) \<and> (\<forall>k. last_bdd_flag_number s k \<le> bdd_flag_number s) \<and>
     (last_bdd_flag_number s BDD2XDD_FLAG_NUMBER = bdd_flag_number s \<longrightarrow>
        (\<forall>g. flag s g = bdd_flag_number s \<longrightarrow> keeps xdd_of g (tmp s g)))"

lemma st_ok_init: "st_ok (bddst_init addr bits poolsize True)"
  by (simp add: st_ok_def bddst_init_def cache_ok_init)

lemma marks_ok_st_ok: "marks_ok ok {} s \<Longrightarrow> st_ok s"
  by (auto simp: marks_ok_def st_ok_def)

text \<open>After the start of a traversal that reuses nothing, no node carries the new number.\<close>

lemma removeall_cache_ok: "cache_ok (snd (run_state itetable_removeall T))"
  using cache_ok_removeall [of T] by (metis surj_pair snd_conv)

lemma start_fresh:
  assumes ok: "st_ok s" and k: "FORCE_REUSE_FLAG_NUMBER < k"
    and run: "run_state (start_bdd_flag_number k) s = (u, s')"
  shows "\<forall>g. flag s' g \<noteq> bdd_flag_number s'" and "marks_ok ok' {} s'"
proof -
  have last: "last_bdd_flag_number s j \<noteq> bdd_flag_number s + 1"
      "last_bdd_flag_number s j \<le> bdd_flag_number s + 1" for j
  proof -
    have "last_bdd_flag_number s j \<le> bdd_flag_number s" using ok by (simp add: st_ok_def)
    then show "last_bdd_flag_number s j \<noteq> bdd_flag_number s + 1"
      "last_bdd_flag_number s j \<le> bdd_flag_number s + 1" by linarith+
  qed
  have "\<forall>g. flag s' g < bdd_flag_number s'"
    using ok k run
    by (auto simp: start_bdd_flag_number_def bdd_gc_def Let_def st_ok_def less_le_trans split: if_splits)
  moreover have "cache_ok (itet s')" "gc_runs s'" "\<forall>v. \<not> sym_flag s' v" "2 \<le> bdd_flag_number s'"
      "last_bdd_flag_number s' BDD2XDD_FLAG_NUMBER \<noteq> bdd_flag_number s'"
      "\<forall>k. last_bdd_flag_number s' k \<le> bdd_flag_number s'"
    using ok k run removeall_cache_ok last
    by (auto simp: start_bdd_flag_number_def bdd_gc_def Let_def st_ok_def split: if_splits)
  ultimately show "\<forall>g. flag s' g \<noteq> bdd_flag_number s'" "marks_ok ok' {} s'"
    by (auto simp: marks_ok_def less_le)
qed

text \<open>
  When the number wraps around and the collector declines to run, the start of a traversal leaves
  old marks that carry the new number.
\<close>

lemma start_stale_without_gc:
  assumes "\<not> gc_runs s" "bdd_flag_number s = 1000000000" "flag s g = 3" "FORCE_REUSE_FLAG_NUMBER < k"
    and "run_state (start_bdd_flag_number k) s = (u, s')"
  shows "flag s' g = bdd_flag_number s' \<and> tmp s' g = tmp s g"
  using assms by (auto simp: start_bdd_flag_number_def bdd_gc_def Let_def)

text \<open>A conversion to XDDs that follows another one reuses its marks.\<close>

lemma start_bdd2xdd:
  assumes ok: "st_ok s" and run: "run_state (start_bdd_flag_number BDD2XDD_FLAG_NUMBER) s = (u, s')"
  shows "marks_ok (keeps xdd_of) {} s'"
proof (cases "last_bdd_flag_number s BDD2XDD_FLAG_NUMBER = bdd_flag_number s")
  case True
  then have "s' = s" using run by (simp add: start_bdd_flag_number_def)
  then show ?thesis using ok True by (auto simp: st_ok_def marks_ok_def)
next
  case False
  have last: "last_bdd_flag_number s j \<le> bdd_flag_number s + 1" for j
  proof -
    have "last_bdd_flag_number s j \<le> bdd_flag_number s" using ok by (simp add: st_ok_def)
    then show ?thesis by linarith
  qed
  have "\<forall>g. flag s' g < bdd_flag_number s'"
    using ok run False
    by (auto simp: start_bdd_flag_number_def bdd_gc_def Let_def st_ok_def less_le_trans split: if_splits)
  moreover have "cache_ok (itet s')" "gc_runs s'" "\<forall>v. \<not> sym_flag s' v" "2 \<le> bdd_flag_number s'"
      "\<forall>k. last_bdd_flag_number s' k \<le> bdd_flag_number s'"
    using ok run False removeall_cache_ok last
    by (auto simp: start_bdd_flag_number_def bdd_gc_def Let_def st_ok_def split: if_splits)
  ultimately show ?thesis by (auto simp: marks_ok_def less_le)
qed

section \<open>Rules for traversals\<close>

abbreviation trip :: "(bdd \<Rightarrow> node_tmp \<Rightarrow> bool) \<Rightarrow> bdd set \<Rightarrow> (bddst, 'a) state \<Rightarrow> ('a \<Rightarrow> bool) \<Rightarrow> bool" where
  "trip ok D m P \<equiv> gives (marks_ok ok D) m P"

definition above :: "bdd \<Rightarrow> bdd set \<Rightarrow> bool" where
  "above f D \<longleftrightarrow> (\<forall>g \<in> D. size f < size g)"

text \<open>\<open>trav R m f\<close>: below any unfinished nodes, \<open>m\<close> visits \<open>f\<close> and returns a value related by \<open>R\<close>.\<close>

definition trav :: "(bdd \<Rightarrow> bdd \<Rightarrow> bool) \<Rightarrow> (bddst, bdd) state \<Rightarrow> bdd \<Rightarrow> bool" where
  "trav R m f \<longleftrightarrow> (\<forall>D. above f D \<longrightarrow> trip (keeps R) D m (R f))"

lemma above_son: "above f D \<Longrightarrow> size g < size f \<Longrightarrow> above g (insert f D)"
  by (auto simp: above_def)

lemma above_notin: "above f D \<Longrightarrow> f \<notin> D" "above f D \<Longrightarrow> notCase f \<notin> D"
proof -
  have "size (notCase f) = size f" by (induction f) auto
  then show "above f D \<Longrightarrow> f \<notin> D" "above f D \<Longrightarrow> notCase f \<notin> D" by (auto simp: above_def)
qed

lemma trav_son: "trav R m g \<Longrightarrow> above f D \<Longrightarrow> size g < size f \<Longrightarrow> trip (keeps R) (insert f D) m (R g)"
  using above_son by (simp add: trav_def)

lemma trip_if_marked:
  assumes "trip (keeps R) D m (R f)" "f \<notin> D"
  shows "trip (keeps R) D (if_marked f m) (R f)"
proof (rule givesI)
  fix s r s'
  assume ok: "marks_ok (keeps R) D s" and run: "run_state (if_marked f m) s = (r, s')"
  show "R f r \<and> marks_ok (keeps R) D s'"
  proof (cases "flag s f = bdd_flag_number s")
    case True
    then have "keeps R f (tmp s f)" using ok assms(2) by (auto simp: marks_ok_def)
    then show ?thesis using run ok True by (auto simp: if_marked_def keeps_def)
  next
    case False
    then show ?thesis using run gives_run [OF assms(1) ok] by (simp add: if_marked_def)
  qed
qed

lemma trip_if_marked_not:
  assumes "trip (keeps R) D m (R f)" "notCase f \<notin> D" "\<And>r. R (notCase f) r \<Longrightarrow> R f (notCase r)"
  shows "trip (keeps R) D (if_marked_not f m) (R f)"
proof (rule givesI)
  fix s r s'
  assume ok: "marks_ok (keeps R) D s" and run: "run_state (if_marked_not f m) s = (r, s')"
  show "R f r \<and> marks_ok (keeps R) D s'"
  proof (cases "flag s (notCase f) = bdd_flag_number s")
    case True
    then have "keeps R (notCase f) (tmp s (notCase f))" using ok assms(2) by (auto simp: marks_ok_def)
    then show ?thesis using run ok True assms(3) by (auto simp: if_marked_not_def keeps_def)
  next
    case False
    then show ?thesis using run gives_run [OF assms(1) ok] by (simp add: if_marked_not_def)
  qed
qed

lemma trip_mark_keep:
  assumes "trip (keeps R) (insert f D) m (R f)" "f \<notin> D"
  shows "trip (keeps R) D (do { _ \<leftarrow> set_mark f; r \<leftarrow> m; keep f r }) (R f)"
proof (rule givesI)
  fix s r s'
  assume ok: "marks_ok (keeps R) D s"
    and run: "run_state (do { _ \<leftarrow> set_mark f; r \<leftarrow> m; keep f r }) s = (r, s')"
  define s1 where "s1 = s\<lparr>flag := (flag s)(f := bdd_flag_number s)\<rparr>"
  obtain p s2 where m: "run_state m s1 = (p, s2)" by fastforce
  have "marks_ok (keeps R) (insert f D) s1" using ok by (auto simp: marks_ok_def s1_def)
  then have p: "R f p" "marks_ok (keeps R) (insert f D) s2" using gives_run [OF assms(1) _ m] by simp_all
  have "r = p" "s' = s2\<lparr>tmp := (tmp s2)(f := Tmp_bdd p)\<rparr>"
    using run m by (auto simp: set_mark_def keep_def s1_def)
  moreover have "marks_ok (keeps R) D (s2\<lparr>tmp := (tmp s2)(f := Tmp_bdd p)\<rparr>)"
    using p assms(2) by (auto simp: marks_ok_def keeps_def)
  ultimately show "R f r \<and> marks_ok (keeps R) D s'" using p by simp
qed

text \<open>The two forms of a memoised visit: with and without the test of the complement.\<close>

lemma trav_visit:
  assumes "\<And>D. above f D \<Longrightarrow> trip (keeps R) (insert f D) m (R f)"
  shows "trav R (visit f m) f"
  unfolding trav_def visit_def
  by (intro allI impI trip_if_marked trip_mark_keep assms) (auto dest: above_notin)

lemma trav_visit_not:
  assumes "\<And>D. above f D \<Longrightarrow> trip (keeps R) (insert f D) m (R f)"
    and "\<And>r. R (notCase f) r \<Longrightarrow> R f (notCase r)"
  shows "trav R (visit_not f m) f"
  unfolding trav_def visit_not_def
  by (intro allI impI trip_if_marked trip_if_marked_not trip_mark_keep assms) (auto dest: above_notin)

lemma trav_return: "R f r \<Longrightarrow> trav R (State_Monad.return r) f"
  by (simp add: trav_def gives_return)

lemma trav_if: "(c \<Longrightarrow> trav R m f) \<Longrightarrow> (\<not> c \<Longrightarrow> trav R n f) \<Longrightarrow> trav R (if c then m else n) f"
  by simp

lemma gives_ite_lift:
  assumes "gives cache_ok m P" "\<And>s T. I s \<Longrightarrow> cache_ok T \<Longrightarrow> I (s\<lparr>itet := T\<rparr>)" "\<And>s. I s \<Longrightarrow> cache_ok (itet s)"
  shows "gives I (ite_lift m) P"
proof (rule givesI)
  fix s a s'
  assume "I s" and run: "run_state (ite_lift m) s = (a, s')"
  obtain b T where m: "run_state m (itet s) = (b, T)" by fastforce
  then show "P a \<and> I s'"
    using run gives_run [OF assms(1) assms(3) [OF \<open>I s\<close>] m] assms(2) [OF \<open>I s\<close>]
    by (auto simp: ite_lift_def)
qed

lemma trip_ite_lift: "gives cache_ok m P \<Longrightarrow> trip ok D (ite_lift m) P"
  by (erule gives_ite_lift) (auto simp: marks_ok_def)

lemma st_ite_lift: "gives cache_ok m P \<Longrightarrow> gives st_ok (ite_lift m) P"
  by (erule gives_ite_lift) (auto simp: st_ok_def)

lemma computes_gives: "computes m B \<phi> \<longleftrightarrow> gives cache_ok m (is_node B \<phi>)"
  by (simp add: computes_def gives_def)

text \<open>A traversal from its start to its end.\<close>

lemma gives_traversal:
  assumes "trav R m f" "FORCE_REUSE_FLAG_NUMBER < k"
  shows "gives st_ok (do { _ \<leftarrow> start_bdd_flag_number k; m }) (R f)"
proof (rule givesI)
  fix s r s'
  assume ok: "st_ok s" and run: "run_state (do { _ \<leftarrow> start_bdd_flag_number k; m }) s = (r, s')"
  obtain u s1 where start: "run_state (start_bdd_flag_number k) s = (u, s1)" by (metis surj_pair)
  have "trip (keeps R) {} m (R f)" using assms(1) by (auto simp: trav_def above_def)
  moreover have "marks_ok (keeps R) {} s1" by (rule start_fresh(2) [OF ok assms(2) start])
  moreover have "run_state m s1 = (r, s')" using run start by simp
  ultimately have "R f r \<and> marks_ok (keeps R) {} s'" by (rule gives_run)
  then show "R f r \<and> st_ok s'" using marks_ok_st_ok by blast
qed

lemma gives_traversal_xdd:
  assumes "trav xdd_of m f"
  shows "gives st_ok (do { _ \<leftarrow> start_bdd_flag_number BDD2XDD_FLAG_NUMBER; m }) (xdd_of f)"
proof (rule givesI)
  fix s r s'
  assume ok: "st_ok s"
    and run: "run_state (do { _ \<leftarrow> start_bdd_flag_number BDD2XDD_FLAG_NUMBER; m }) s = (r, s')"
  obtain u s1 where start: "run_state (start_bdd_flag_number BDD2XDD_FLAG_NUMBER) s = (u, s1)"
    by (metis surj_pair)
  have "trip (keeps xdd_of) {} m (xdd_of f)" using assms by (auto simp: trav_def above_def)
  moreover have "marks_ok (keeps xdd_of) {} s1" by (rule start_bdd2xdd [OF ok start])
  moreover have "run_state m s1 = (r, s')" using run start by simp
  ultimately have "xdd_of f r \<and> marks_ok (keeps xdd_of) {} s'" by (rule gives_run)
  then show "xdd_of f r \<and> st_ok s'" using marks_ok_st_ok by blast
qed

text \<open>
  A loop over function numbers that replaces each function by the result of a visit, in one
  traversal.
\<close>

primrec update_all :: "(bdd \<Rightarrow> (bddst, bdd) state) \<Rightarrow> nat list \<Rightarrow> bdd list \<Rightarrow> (bddst, bdd list) state" where
  "update_all op [] fs = State_Monad.return fs"
| "update_all op (k # ks) fs = do { r \<leftarrow> op (fs ! k); update_all op ks (fs[k := r]) }"

definition updated_all :: "(bdd \<Rightarrow> bdd \<Rightarrow> bool) \<Rightarrow> nat list \<Rightarrow> bdd list \<Rightarrow> bdd list \<Rightarrow> bool" where
  "updated_all R ks fs gs \<longleftrightarrow> length gs = length fs \<and>
     (\<forall>i < length fs. if i \<in> set ks then R (fs ! i) (gs ! i) else gs ! i = fs ! i)"

lemma update_all_trip:
  assumes "\<And>k. k \<in> set ks \<Longrightarrow> trav R (op (fs ! k)) (fs ! k)" "distinct ks" "\<forall>k \<in> set ks. k < length fs"
  shows "trip (keeps R) {} (update_all op ks fs) (updated_all R ks fs)"
  using assms
proof (induction ks arbitrary: fs)
  case (Cons k ks)
  have "trip (keeps R) {} (op (fs ! k)) (R (fs ! k))"
    using Cons.prems(1) [of k] by (simp add: trav_def above_def)
  then show ?case
    unfolding update_all.simps
  proof (rule gives_bind)
    fix r
    assume r: "R (fs ! k) r"
    have same: "fs[k := r] ! j = fs ! j" if "j \<in> set ks" for j
      using that Cons.prems(2) by (metis distinct.simps(2) nth_list_update_neq)
    have "trip (keeps R) {} (update_all op ks (fs[k := r])) (updated_all R ks (fs[k := r]))"
      by (rule Cons.IH) (use Cons.prems same in simp_all)
    then show "trip (keeps R) {} (update_all op ks (fs[k := r])) (updated_all R (k # ks) fs)"
      by (rule gives_post) (use r Cons.prems(2,3) same in \<open>auto simp: updated_all_def nth_list_update\<close>)
  qed
qed (simp add: updated_all_def gives_return)

lemma gives_update_all:
  assumes "\<And>k. k \<in> set ks \<Longrightarrow> trav R (op (fs ! k)) (fs ! k)" "distinct ks" "\<forall>k \<in> set ks. k < length fs"
    and "FORCE_REUSE_FLAG_NUMBER < n"
  shows "gives st_ok (do { _ \<leftarrow> start_bdd_flag_number n; update_all op ks fs }) (updated_all R ks fs)"
proof (rule givesI)
  fix s r s'
  assume ok: "st_ok s"
    and run: "run_state (do { _ \<leftarrow> start_bdd_flag_number n; update_all op ks fs }) s = (r, s')"
  obtain u s1 where start: "run_state (start_bdd_flag_number n) s = (u, s1)" by (metis surj_pair)
  have "marks_ok (keeps R) {} s1" by (rule start_fresh(2) [OF ok assms(4) start])
  moreover have "run_state (update_all op ks fs) s1 = (r, s')" using run start by simp
  moreover have "trip (keeps R) {} (update_all op ks fs) (updated_all R ks fs)"
    by (rule update_all_trip) (use assms in auto)
  ultimately have "updated_all R ks fs r \<and> marks_ok (keeps R) {} s'" using gives_run by metis
  then show "updated_all R ks fs r \<and> st_ok s'" using marks_ok_st_ok by blast
qed

end
