(* ===== verification/Bddquant.thy ===== *)
theory Bddquant
  imports Bddmark Infer
begin

text \<open>
  The memoised traversals of utils/bdd.cc that assign, quantify or replace a variable, the
  conversion to XDDs and the XDD assignment. Each is proved to return the node of the function it
  stands for from every state that satisfies \<open>st_ok\<close>, and to keep that invariant.
\<close>

section \<open>Assigning a variable\<close>

text \<open>
  \<open>torf\<close> is the code's int read as a truth value. Variable numbers are positive, so a constant
  always takes the first return of \<open>_set_variable\<close>.
\<close>

function u_set_variable :: "bdd \<Rightarrow> nat \<Rightarrow> bool \<Rightarrow> (bddst, bdd) state" where
  "u_set_variable f num torf =
     (if variable f < int num then State_Monad.return f
      else visit_not f
        (if variable f = int num then State_Monad.return (if torf then thenCase f else elseCase f)
         else do {
           r \<leftarrow> u_set_variable (thenCase f) num torf;
           e \<leftarrow> u_set_variable (elseCase f) num torf;
           if r = e then State_Monad.return r
           else State_Monad.return (find_or_add_node (variable f) r e) }))"
  by pat_completeness auto
termination
  by (relation "measure (\<lambda>(f, _, _). size f)")
    (auto intro!: size_sons simp: IS_TRUE_FALSE_def not_less)

declare u_set_variable.simps [simp del]

definition set_variable :: "bdd \<Rightarrow> nat \<Rightarrow> bool \<Rightarrow> (bddst, bdd) state" where
  "set_variable f num torf = do {
     _ \<leftarrow> start_bdd_flag_number SETVARIABLE_FLAG_NUMBER; u_set_variable f num torf }"

primrec set_variable_noflag :: "bdd \<Rightarrow> nat \<Rightarrow> bool \<Rightarrow> bdd" where
  "set_variable_noflag FalseP num torf = FalseP"
| "set_variable_noflag TrueP num torf = TrueP"
| "set_variable_noflag (Node v t e) num torf =
     (if v < num then Node v t e
      else if v = num then (if torf then t else e)
      else (let r = set_variable_noflag t num torf; e = set_variable_noflag e num torf
            in if r = e then r else find_or_add_node (int v) r e))"

text \<open>The cofactor relation, and the step that every traversal below shares.\<close>

definition assigned :: "nat \<Rightarrow> bool \<Rightarrow> bdd \<Rightarrow> bdd \<Rightarrow> bool" where
  "assigned n b f r \<longleftrightarrow> robdd f \<and> is_node (variable f) (\<lambda>a. ev f (a(n := b))) r"

lemma is_node_same_or_node_son:
  assumes "is_node (variable t) \<phi> r" "is_node (variable e) \<psi> e'"
    and "robdd (Node v t e)" "\<And>a. \<chi> a = (if a v then \<phi> a else \<psi> a)"
  shows "is_node (int v) \<chi> (same_or_node (int v) r e')"
  using is_node_same_or_node [OF assms(1,2), of "int v" "int v" \<chi>] assms(3,4) by simp

lemma assigned_leaf: "robdd f \<Longrightarrow> variable f < int n \<Longrightarrow> assigned n b f f"
  by (auto simp: assigned_def is_node_def ev_upd_above)

lemma assigned_top:
  "robdd f \<Longrightarrow> variable f = int n \<Longrightarrow> assigned n b f (if b then thenCase f else elseCase f)"
  by (cases f) (auto simp: assigned_def is_node_def ev_upd_above)

lemma assigned_sons:
  assumes "robdd f" "assigned n b (thenCase f) r" "assigned n b (elseCase f) e" "int n < variable f"
  shows "assigned n b f (same_or_node (variable f) r e)"
proof (cases f)
  case (Node v t u)
  have "ev f (a(n := b)) = (if a v then ev t (a(n := b)) else ev u (a(n := b)))" for a
    using Node assms(4) by simp
  then show ?thesis
    using assms Node is_node_same_or_node_son [of t "\<lambda>a. ev t (a(n := b))" r u "\<lambda>a. ev u (a(n := b))" e v]
    by (simp add: assigned_def)
qed (use assms(4) in simp_all)

lemma assigned_not: "assigned n b (notCase f) r \<Longrightarrow> assigned n b f (notCase r)"
  by (auto simp: assigned_def is_node_def)

lemma gives_same_or_node:
  "P (same_or_node v r e) \<Longrightarrow>
    gives I (if r = e then State_Monad.return r else State_Monad.return (find_or_add_node v r e)) P"
  by (auto simp: same_or_node_def intro: gives_return)

lemma u_set_variable_trav: "robdd f \<Longrightarrow> trav (assigned n b) (u_set_variable f n b) f"
proof (induction "size f" arbitrary: f rule: less_induct)
  case less
  note f = less.prems
  show ?case
    unfolding u_set_variable.simps [of f n b]
  proof (intro trav_if trav_return trav_visit_not gives_if gives_return assigned_leaf assigned_top f)
    show "assigned n b (notCase f) r \<Longrightarrow> assigned n b f (notCase r)" for r by (rule assigned_not)
    fix D
    assume D: "above f D" and v: "\<not> variable f < int n" "variable f \<noteq> int n"
    then have n: "\<not> IS_TRUE_FALSE f" by (auto simp: IS_TRUE_FALSE_def)
    note sons = size_sons [OF n]
    show "trip (keeps (assigned n b)) (insert f D) (do {
           r \<leftarrow> u_set_variable (thenCase f) n b;
           e \<leftarrow> u_set_variable (elseCase f) n b;
           if r = e then State_Monad.return r
           else State_Monad.return (find_or_add_node (variable f) r e) }) (assigned n b f)"
      using v f
      by (intro gives_bind [OF trav_son [OF less.hyps [OF sons(1)] D sons(1)]]
          gives_bind [OF trav_son [OF less.hyps [OF sons(2)] D sons(2)]]
          gives_same_or_node assigned_sons) (auto intro: robdd_sons)
  qed
qed

lemma set_variable_gives:
  "robdd f \<Longrightarrow> gives st_ok (set_variable f n b) (is_node (variable f) (\<lambda>a. ev f (a(n := b))))"
  unfolding set_variable_def
  by (rule gives_post [OF gives_traversal [OF u_set_variable_trav]]) (simp_all add: assigned_def)

lemma set_variable_noflag_assigned: "robdd f \<Longrightarrow> assigned n b f (set_variable_noflag f n b)"
proof (induction f)
  case (Node v t e)
  consider "v < n" | "v = n" | "n < v" by linarith
  then show ?case
  proof cases
    case 2
    then show ?thesis using assigned_top [of "Node v t e" n b] Node.prems by (cases b) auto
  next
    case 3
    then have "set_variable_noflag (Node v t e) n b =
        same_or_node (int v) (set_variable_noflag t n b) (set_variable_noflag e n b)"
      by (simp add: Let_def same_or_node_def)
    then show ?thesis using assigned_sons [of "Node v t e" n b] Node 3 by simp
  qed (use assigned_leaf [of "Node v t e" n b] Node.prems in simp_all)
qed (simp_all add: assigned_def is_node_def)

section \<open>Quantifying a variable\<close>

function u_xquantify :: "bdd \<Rightarrow> nat \<Rightarrow> (bddst, bdd) state" where
  "u_xquantify f v = visit f (do {
     cached \<leftarrow> ite_lift (itetable_find 10 f (ite_var (int v)));
     case cached of
       Some p \<Rightarrow> State_Monad.return p
     | None \<Rightarrow>
        (if variable f = int v then ite_lift (ite_or_te f)
         else if int v > variable f then State_Monad.return f
         else do {
           r \<leftarrow> u_xquantify (thenCase f) v;
           e \<leftarrow> u_xquantify (elseCase f) v;
           if r = e then State_Monad.return r
           else ite_lift (itetable_add_node 10 f (ite_var (int v)) (find_or_add_node (variable f) r e)) }) })"
  by pat_completeness auto
termination
  by (relation "measure (\<lambda>(f, _). size f)")
    (auto intro!: size_sons simp: IS_TRUE_FALSE_def not_less)

declare u_xquantify.simps [simp del]

definition xquantify :: "bdd \<Rightarrow> nat \<Rightarrow> (bddst, bdd) state" where
  "xquantify f v = do { _ \<leftarrow> start_bdd_flag_number XQUANTIFY_FLAG_NUMBER; u_xquantify f v }"

function OLD_xquantify :: "bdd \<Rightarrow> nat \<Rightarrow> (bddst, bdd) state" where
  "OLD_xquantify f v =
     (if variable f = int v then ite_lift (ite_or (thenCase f) (elseCase f))
      else if int v > variable f then State_Monad.return f
      else do {
        r \<leftarrow> xquantify (thenCase f) v;
        e \<leftarrow> xquantify (elseCase f) v;
        if r = e then State_Monad.return r
        else State_Monad.return (find_or_add_node (variable f) r e) })"
  by pat_completeness auto
termination
  by (relation "{}") auto

function uquantify :: "bdd \<Rightarrow> nat \<Rightarrow> (itetable, bdd) state" where
  "uquantify f v =
     (if variable f = int v then ite_and (thenCase f) (elseCase f)
      else if int v > variable f then State_Monad.return f
      else do {
        r \<leftarrow> uquantify (thenCase f) v;
        e \<leftarrow> uquantify (elseCase f) v;
        if r = e then State_Monad.return r
        else State_Monad.return (find_or_add_node (variable f) r e) })"
  by pat_completeness auto
termination
  by (relation "measure (\<lambda>(f, _). size f)")
    (auto intro!: size_sons simp: IS_TRUE_FALSE_def not_less)

declare uquantify.simps [simp del]

definition exists_var :: "nat \<Rightarrow> bdd \<Rightarrow> bdd \<Rightarrow> bool" where
  "exists_var n f r \<longleftrightarrow> robdd f \<and> is_node (variable f) (\<lambda>a. \<exists>b. ev f (a(n := b))) r"

definition forall_var :: "nat \<Rightarrow> bdd \<Rightarrow> bdd \<Rightarrow> bool" where
  "forall_var n f r \<longleftrightarrow> robdd f \<and> is_node (variable f) (\<lambda>a. \<forall>b. ev f (a(n := b))) r"

lemma ex_bool: "(\<exists>b. P b) \<longleftrightarrow> P True \<or> P False"
  by (metis (full_types))

lemma all_bool: "(\<forall>b. P b) \<longleftrightarrow> P True \<and> P False"
  by (metis (full_types))

lemma exists_leaf:
  "robdd f \<Longrightarrow> variable f < int n \<Longrightarrow> exists_var n f f"
  "robdd f \<Longrightarrow> variable f < int n \<Longrightarrow> forall_var n f f"
  by (auto simp: exists_var_def forall_var_def is_node_def ev_upd_above)

lemma quant_sons:
  assumes "robdd f" "int n < variable f"
  shows "exists_var n (thenCase f) r \<Longrightarrow> exists_var n (elseCase f) e \<Longrightarrow>
      exists_var n f (same_or_node (variable f) r e)"
    and "forall_var n (thenCase f) r \<Longrightarrow> forall_var n (elseCase f) e \<Longrightarrow>
      forall_var n f (same_or_node (variable f) r e)"
proof -
  obtain v t u where f: "f = Node v t u" using assms by (cases f) auto
  have ev: "ev f (a(n := b)) = (if a v then ev t (a(n := b)) else ev u (a(n := b)))" for a b
    using f assms(2) by simp
  show "exists_var n (thenCase f) r \<Longrightarrow> exists_var n (elseCase f) e \<Longrightarrow>
      exists_var n f (same_or_node (variable f) r e)"
    using f ev assms(1)
      is_node_same_or_node_son [of t "\<lambda>a. \<exists>b. ev t (a(n := b))" r u "\<lambda>a. \<exists>b. ev u (a(n := b))" e v]
    by (simp add: exists_var_def)
  show "forall_var n (thenCase f) r \<Longrightarrow> forall_var n (elseCase f) e \<Longrightarrow>
      forall_var n f (same_or_node (variable f) r e)"
    using f ev assms(1)
      is_node_same_or_node_son [of t "\<lambda>a. \<forall>b. ev t (a(n := b))" r u "\<lambda>a. \<forall>b. ev u (a(n := b))" e v]
    by (simp add: forall_var_def)
qed

lemma quant_top:
  assumes f: "robdd f" and v: "variable f = int n"
  shows "gives cache_ok (ite_or_te f) (exists_var n f)"
    and "gives cache_ok (ite_and (thenCase f) (elseCase f)) (forall_var n f)"
proof -
  have n: "\<not> IS_TRUE_FALSE f" using v by (auto simp: IS_TRUE_FALSE_def)
  note nf = node_facts [OF f n]
  have "computes (ite_or_te f) (variable f) (\<lambda>a. ev (thenCase f) a \<or> ev (elseCase f) a)"
    "computes (ite_and (thenCase f) (elseCase f)) (variable f) (\<lambda>a. ev (thenCase f) a \<and> ev (elseCase f) a)"
    using ite_or_te_computes [OF f] ite_and_computes nf by simp_all
  moreover have "exists_var n f r \<longleftrightarrow> is_node (variable f) (\<lambda>a. ev (thenCase f) a \<or> ev (elseCase f) a) r"
    "forall_var n f r \<longleftrightarrow> is_node (variable f) (\<lambda>a. ev (thenCase f) a \<and> ev (elseCase f) a) r" for r
    unfolding exists_var_def forall_var_def ex_bool all_bool
    by (simp_all add: ev_cofactors [OF f v] f)
  ultimately show "gives cache_ok (ite_or_te f) (exists_var n f)"
    "gives cache_ok (ite_and (thenCase f) (elseCase f)) (forall_var n f)"
    by (simp_all add: computes_gives gives_def)
qed

lemma entry10_iff: "robdd f \<Longrightarrow> 0 < n \<Longrightarrow>
    ite_entry_ok 10 f (ite_var (int n)) p \<longleftrightarrow> exists_var n f p"
  by (simp add: ite_entry_ok_def exists_var_def Let_def)

lemma u_xquantify_trav: "robdd f \<Longrightarrow> 0 < n \<Longrightarrow> trav (exists_var n) (u_xquantify f n) f"
proof (induction "size f" arbitrary: f rule: less_induct)
  case less
  note f = less.prems(1)
  show ?case
    unfolding u_xquantify.simps [of f n]
  proof (intro trav_visit gives_bind [OF trip_ite_lift [OF gives_find]])
    fix D cached
    assume D: "above f D" and c: "\<forall>p. cached = Some p \<longrightarrow> ite_entry_ok 10 f (ite_var (int n)) p"
    show "trip (keeps (exists_var n)) (insert f D) (case cached of
       Some p \<Rightarrow> State_Monad.return p
     | None \<Rightarrow>
        (if variable f = int n then ite_lift (ite_or_te f)
         else if int n > variable f then State_Monad.return f
         else do {
           r \<leftarrow> u_xquantify (thenCase f) n;
           e \<leftarrow> u_xquantify (elseCase f) n;
           if r = e then State_Monad.return r
           else ite_lift (itetable_add_node 10 f (ite_var (int n)) (find_or_add_node (variable f) r e)) }))
       (exists_var n f)"
    proof (cases cached)
      case (Some p)
      then show ?thesis using c entry10_iff [OF f less.prems(2)] by (simp add: gives_return)
    next
      case None
      show ?thesis
        unfolding None option.case
      proof (intro gives_if trip_ite_lift [OF quant_top(1)] gives_return exists_leaf f)
        assume v: "variable f \<noteq> int n" "\<not> int n > variable f"
        then have n: "\<not> IS_TRUE_FALSE f" by (auto simp: IS_TRUE_FALSE_def)
        note sons = size_sons [OF n]
        show "trip (keeps (exists_var n)) (insert f D) (do {
           r \<leftarrow> u_xquantify (thenCase f) n;
           e \<leftarrow> u_xquantify (elseCase f) n;
           if r = e then State_Monad.return r
           else ite_lift (itetable_add_node 10 f (ite_var (int n)) (find_or_add_node (variable f) r e)) })
           (exists_var n f)"
        proof (rule gives_bind [OF trav_son [OF less.hyps [OF sons(1)] D sons(1)]],
            (use f less.prems(2) robdd_sons in auto)[2],
            rule gives_bind [OF trav_son [OF less.hyps [OF sons(2)] D sons(2)]],
            (use f less.prems(2) robdd_sons in auto)[2])
          fix r e
          assume "exists_var n (thenCase f) r" "exists_var n (elseCase f) e"
          then have q: "exists_var n f (same_or_node (variable f) r e)"
            using quant_sons(1) [OF f] v by simp
          show "trip (keeps (exists_var n)) (insert f D) (if r = e then State_Monad.return r
              else ite_lift (itetable_add_node 10 f (ite_var (int n)) (find_or_add_node (variable f) r e)))
              (exists_var n f)"
          proof (rule gives_if)
            show "trip (keeps (exists_var n)) (insert f D) (State_Monad.return r) (exists_var n f)" if "r = e"
              using q that by (intro gives_return) (simp add: same_or_node_def)
            show "trip (keeps (exists_var n)) (insert f D) (ite_lift (itetable_add_node 10 f (ite_var (int n))
                (find_or_add_node (variable f) r e))) (exists_var n f)" if "r \<noteq> e"
              by (rule trip_ite_lift, rule gives_add)
                (use q that entry10_iff [OF f less.prems(2)] in \<open>simp_all add: same_or_node_def\<close>)
          qed
        qed
      qed
    qed
  qed
qed

lemma xquantify_gives: "robdd f \<Longrightarrow> 0 < n \<Longrightarrow> gives st_ok (xquantify f n) (exists_var n f)"
  unfolding xquantify_def by (rule gives_traversal [OF u_xquantify_trav]) simp_all

lemma OLD_xquantify_gives:
  assumes f: "robdd f" and n: "0 < n"
  shows "gives st_ok (OLD_xquantify f n) (exists_var n f)"
  unfolding OLD_xquantify.simps [of f n] ite_or_te_def [symmetric]
proof (intro gives_if st_ite_lift [OF quant_top(1)] gives_return exists_leaf f)
  assume v: "variable f \<noteq> int n" "\<not> variable f < int n"
  show "gives st_ok (do {
        r \<leftarrow> xquantify (thenCase f) n;
        e \<leftarrow> xquantify (elseCase f) n;
        if r = e then State_Monad.return r
        else State_Monad.return (find_or_add_node (variable f) r e) }) (exists_var n f)"
    using v f n
    by (intro gives_bind [OF xquantify_gives] gives_same_or_node quant_sons(1)) (auto intro: robdd_sons)
qed

lemma uquantify_gives: "robdd f \<Longrightarrow> gives cache_ok (uquantify f n) (forall_var n f)"
proof (induction "size f" arbitrary: f rule: less_induct)
  case less
  note f = less.prems
  show ?case
    unfolding uquantify.simps [of f n]
  proof (intro gives_if quant_top(2) gives_return exists_leaf f)
    assume v: "variable f \<noteq> int n" "\<not> variable f < int n"
    then have i: "\<not> IS_TRUE_FALSE f" by (auto simp: IS_TRUE_FALSE_def)
    show "gives cache_ok (do {
        r \<leftarrow> uquantify (thenCase f) n;
        e \<leftarrow> uquantify (elseCase f) n;
        if r = e then State_Monad.return r
        else State_Monad.return (find_or_add_node (variable f) r e) }) (forall_var n f)"
      using v f
      by (intro gives_bind [OF less.hyps [OF size_sons(1) [OF i]]]
          gives_bind [OF less.hyps [OF size_sons(2) [OF i]]] gives_same_or_node quant_sons(2))
        (auto intro: robdd_sons)
  qed
qed

section \<open>Assigning in many functions\<close>

text \<open>
  \<open>set_variable_all\<close> (on the global \<open>functions\<close>) and \<open>set_variable_all_bdds\<close> (on a given array):
  one traversal over all functions of the list \<open>k\<close>.
\<close>

definition set_variable_all :: "nat list \<Rightarrow> nat \<Rightarrow> bool \<Rightarrow> bdd list \<Rightarrow> (bddst, bdd list) state" where
  "set_variable_all k num torf functions = do {
     _ \<leftarrow> start_bdd_flag_number SETVARIABLEALL_FLAG_NUMBER;
     update_all (\<lambda>f. u_set_variable f num torf) k functions }"

lemma set_variable_all_gives:
  assumes "\<forall>f \<in> set fs. robdd f" "distinct ks" "\<forall>k \<in> set ks. k < length fs"
  shows "gives st_ok (set_variable_all ks n b fs) (updated_all (assigned n b) ks fs)"
  unfolding set_variable_all_def
  by (rule gives_update_all) (use assms in \<open>auto intro: u_set_variable_trav\<close>)

text \<open>
  \<open>set_variable_all_infs\<close> assigns the literals of a node's inference list one after the other.
  What is left is the part of the function that its literals do not say.
\<close>

primrec set_variable_infs :: "infer list \<Rightarrow> bdd \<Rightarrow> (bddst, bdd) state" where
  "set_variable_infs [] f = State_Monad.return f"
| "set_variable_infs (head # tail) f = do {
     _ \<leftarrow> start_bdd_flag_number SETVARIABLEALL_FLAG_NUMBER;
     f \<leftarrow> (if snd head = 0 then
             (if fst head < 0 then u_set_variable f (nat (- fst head)) False
              else u_set_variable f (nat (fst head)) True)
           else State_Monad.return f);
     set_variable_infs tail f }"

definition set_variable_all_infs :: "bool \<Rightarrow> bdd \<Rightarrow> (bddst, bdd) state" where
  "set_variable_all_infs d f = set_variable_infs (inferences d f) f"

fun assume_literals :: "infer list \<Rightarrow> assignment \<Rightarrow> assignment" where
  "assume_literals [] a = a"
| "assume_literals ((l, m) # ps) a =
     (if m = 0 then (assume_literals ps a)(nat \<bar>l\<bar> := 0 < l) else assume_literals ps a)"

lemma assume_literals_holds:
  "\<forall>p \<in> set ps. snd p = 0 \<longrightarrow> fst p \<noteq> 0 \<and> lit (fst p) a \<Longrightarrow> assume_literals ps a = a"
proof (induction ps)
  case (Cons p ps)
  have "a(nat \<bar>l\<bar> := 0 < l) = a" if "lit l a" "l \<noteq> 0" for l
    using that by (cases "l < 0") (auto simp: lit_def intro!: fun_upd_idem)
  then show ?case using Cons by (cases p) simp
qed simp

lemma gives_start: "gives st_ok (do { _ \<leftarrow> start_bdd_flag_number k; State_Monad.return (f :: bdd) }) (\<lambda>r. r = f)"
  if "FORCE_REUSE_FLAG_NUMBER < k"
proof -
  have "trav (\<lambda>_ r. r = f) (State_Monad.return f) f" by (simp add: trav_return)
  from gives_traversal [OF this that] show ?thesis .
qed

lemma set_variable_infs_gives:
  "robdd f \<Longrightarrow> \<forall>p \<in> set ps. fst p \<noteq> 0 \<Longrightarrow>
    gives st_ok (set_variable_infs ps f) (is_node (variable f) (\<lambda>a. ev f (assume_literals ps a)))"
proof (induction ps arbitrary: f)
  case Nil
  then show ?case by (simp add: gives_return is_node_def)
next
  case (Cons p ps)
  obtain l m where p: "p = (l, m)" by (cases p)
  have l: "l \<noteq> 0" using Cons.prems(2) p by simp
  let ?k = "SETVARIABLEALL_FLAG_NUMBER"
  define step where "step = (if snd p = 0 then
      (if fst p < 0 then u_set_variable f (nat (- fst p)) False else u_set_variable f (nat (fst p)) True)
      else State_Monad.return f)"
  define upd where "upd = (\<lambda>a. if m = 0 then a(nat \<bar>l\<bar> := 0 < l) else a)"
  have step: "gives st_ok (do { _ \<leftarrow> start_bdd_flag_number ?k; step })
      (is_node (variable f) (\<lambda>a. ev f (upd a)))"
  proof (cases "m = 0")
    case True
    have "trav (assigned (nat \<bar>l\<bar>) (0 < l)) step f"
      using u_set_variable_trav [OF Cons.prems(1)] True l by (auto simp: step_def p)
    from gives_traversal [OF this] show ?thesis
      by (rule gives_post) (use True in \<open>auto simp: assigned_def upd_def\<close>)
  next
    case False
    then show ?thesis
      using gives_post [OF gives_start [of ?k f], of "is_node (variable f) (ev f)"] Cons.prems(1)
      by (simp add: step_def p upd_def is_node_self)
  qed
  have eq: "set_variable_infs (p # ps) f =
      do { r \<leftarrow> do { _ \<leftarrow> start_bdd_flag_number ?k; step }; set_variable_infs ps r }"
    by (simp add: step_def)
  show ?case
    unfolding eq
  proof (rule gives_bind [OF step])
    fix r
    assume r: "is_node (variable f) (\<lambda>a. ev f (upd a)) r"
    then have "robdd r" by (simp add: is_node_def)
    then have "gives st_ok (set_variable_infs ps r) (is_node (variable r) (\<lambda>a. ev r (assume_literals ps a)))"
      using Cons.IH Cons.prems(2) by simp
    then show "gives st_ok (set_variable_infs ps r)
        (is_node (variable f) (\<lambda>a. ev f (assume_literals (p # ps) a)))"
      by (rule gives_post) (use r in \<open>auto simp: is_node_def p upd_def\<close>)
  qed
qed

lemma set_variable_all_infs_gives:
  assumes f: "robdd f"
  shows "gives st_ok (set_variable_all_infs d f)
    (\<lambda>r. robdd r \<and> (\<forall>a. ev f a \<longleftrightarrow>
       (\<forall>p \<in> set (inferences d f). snd p = 0 \<longrightarrow> lit (fst p) a) \<and> ev r a))"
proof -
  have nz: "\<forall>p \<in> set (inferences d f). fst p \<noteq> 0"
    using inferences_wf [OF f] by (auto simp: infer_wf_def)
  have "ev f a \<longleftrightarrow> (\<forall>p \<in> set (inferences d f). snd p = 0 \<longrightarrow> lit (fst p) a) \<and> ev r a"
    if "is_node (variable f) (\<lambda>a. ev f (assume_literals (inferences d f) a)) r" for r a
  proof (cases "\<forall>p \<in> set (inferences d f). snd p = 0 \<longrightarrow> lit (fst p) a")
    case True
    then show ?thesis
      using that assume_literals_holds [of "inferences d f" a] nz by (simp add: is_node_def)
  next
    case False
    then obtain p where p: "p \<in> set (inferences d f)" "snd p = 0" "\<not> lit (fst p) a" by blast
    then have "\<not> ev f a" using inferences_sound [OF f, of a p d] by (auto simp: infer_holds_def)
    then show ?thesis using p by blast
  qed
  moreover have "robdd r" if "is_node (variable f) \<phi> r" for \<phi> r using that by (simp add: is_node_def)
  ultimately show ?thesis
    unfolding set_variable_all_infs_def
    by (intro gives_post [OF set_variable_infs_gives [OF f nz]]) blast
qed

end
