(* ===== verification/Bddprune.thy ===== *)
theory Bddprune
  imports Bddquant
begin

text \<open>
  Simplifying a BDD with respect to another one (utils/bdd.cc): generalised cofactor, restrict,
  the removal of false paths, the pruning variants, and the stealing of inferences. They differ in
  their shortcuts and share a contract: where the second BDD holds, the result agrees with the
  first, so the conjunction of the pair does not change.
\<close>

section \<open>The contract\<close>

text \<open>\<open>agree S c f r\<close>: \<open>r\<close> may replace \<open>f\<close> next to \<open>c\<close>, and it only has variables of \<open>S\<close>.\<close>

definition agree :: "nat set \<Rightarrow> bdd \<Rightarrow> bdd \<Rightarrow> bdd \<Rightarrow> bool" where
  "agree S c f r \<longleftrightarrow> robdd r \<and> bvars r \<subseteq> S \<and> (\<forall>a. ev c a \<longrightarrow> ev r a = ev f a)"

lemma variable_in_bvars: "\<not> IS_TRUE_FALSE r \<Longrightarrow> nat (variable r) \<in> bvars r"
  by (cases r) auto

lemma variable_less_if_bvars:
  assumes "robdd r" "bvars r \<subseteq> S" "\<forall>w \<in> S. int w < v" "0 < v"
  shows "variable r < v"
proof (cases "IS_TRUE_FALSE r")
  case False
  then show ?thesis
    using variable_in_bvars [OF False] node_facts(1) [OF assms(1) False] assms by fastforce
qed (use assms(4) in \<open>auto simp: IS_TRUE_FALSE_def\<close>)

lemma is_node_bvars:
  assumes p: "is_node B \<phi> p" and indep: "\<And>v a b. v \<notin> S \<Longrightarrow> \<phi> (a(v := b)) = \<phi> a"
  shows "bvars p \<subseteq> S"
proof
  fix v
  assume "v \<in> bvars p"
  then obtain a b where "ev p (a(v := b)) \<noteq> ev p a" using p bvars_iff [of p v] by (auto simp: is_node_def)
  then show "v \<in> S" using p indep [of v a b] by (auto simp: is_node_def)
qed

lemma reduce_bvars: "bvars (reduce_t v f) \<subseteq> bvars f" "bvars (reduce_f v f) \<subseteq> bvars f"
  by (cases f; auto simp: reduce_t_def reduce_f_def)+

lemma agree_self: "robdd f \<Longrightarrow> bvars f \<subseteq> S \<Longrightarrow> agree S c f f"
  by (simp add: agree_def)

lemma agree_true: "agree S f f TrueP"
  by (simp add: agree_def)

lemma agree_mono: "agree S c f r \<Longrightarrow> S \<subseteq> S' \<Longrightarrow> agree S' c f r"
  by (auto simp: agree_def)

lemma agree_weaker: "agree S c' f r \<Longrightarrow> (\<And>a. ev c a \<Longrightarrow> ev c' a) \<Longrightarrow> agree S c f r"
  by (auto simp: agree_def)

text \<open>
  The cofactor step. When \<open>c\<close> is false for one value of the variable, only the other cofactor
  matters; otherwise the cofactors are treated apart.
\<close>

lemma agree_then:
  assumes f: "robdd f" "variable f \<le> v" and c: "robdd c" "variable c \<le> v" and v: "0 < v"
    and "reduce_f v c = FalseP" "agree S (reduce_t v c) (reduce_t v f) r"
  shows "agree S c f r"
  using assms(6,7) reduce_facts(9) [OF f v] reduce_facts(9) [OF c v]
  by (auto simp: agree_def split: if_splits)

lemma agree_else:
  assumes f: "robdd f" "variable f \<le> v" and c: "robdd c" "variable c \<le> v" and v: "0 < v"
    and "reduce_t v c = FalseP" "agree S (reduce_f v c) (reduce_f v f) r"
  shows "agree S c f r"
  using assms(6,7) reduce_facts(9) [OF f v] reduce_facts(9) [OF c v]
  by (auto simp: agree_def split: if_splits)

lemma agree_node:
  assumes f: "robdd f" "variable f \<le> v" and c: "robdd c" "variable c \<le> v" and v: "0 < v"
    and r: "agree S1 (reduce_t v c) (reduce_t v f) r" and e: "agree S2 (reduce_f v c) (reduce_f v f) e"
    and S: "\<forall>w \<in> S1 \<union> S2. int w < v" "S1 \<union> S2 \<subseteq> S" "nat v \<in> S"
  shows "agree S c f (same_or_node v r e)"
proof -
  have re: "robdd r" "robdd e" "bvars r \<subseteq> S1" "bvars e \<subseteq> S2" using r e by (auto simp: agree_def)
  have "variable r < v" "variable e < v"
    using variable_less_if_bvars [OF re(1,3) _ v] variable_less_if_bvars [OF re(2,4) _ v] S(1) by auto
  then have "robdd (same_or_node v r e)" "bvars (same_or_node v r e) \<subseteq> S"
    using re S v by (auto simp: same_or_node_def find_or_add_node_def)
  moreover have "ev (same_or_node v r e) a = (if a (nat v) then ev r a else ev e a)" for a
    by (simp add: same_or_node_def find_or_add_node_def)
  ultimately show ?thesis
    using r e reduce_facts(9) [OF f v] reduce_facts(9) [OF c v] by (auto simp: agree_def)
qed

lemma bvars_reduce_less:
  assumes "robdd f" "variable f \<le> v" "0 < v"
  shows "\<forall>w \<in> bvars (reduce_t v f) \<union> bvars (reduce_f v f). int w < v"
  using reduce_facts(1-4) [OF assms] bvars_le_variable by fastforce

section \<open>Generalised cofactor and the pure pruning\<close>

function gcf :: "bdd \<Rightarrow> bdd \<Rightarrow> bdd" where
  "gcf f c =
     (if f = c then TrueP
      else if c = TrueP \<or> f = TrueP \<or> f = FalseP then f
      else
        (let v = (if variable f > variable c then variable f else variable c) in
         if reduce_f v c = FalseP then gcf (reduce_t v f) (reduce_t v c)
         else if reduce_t v c = FalseP then gcf (reduce_f v f) (reduce_f v c)
         else
           (let r = gcf (reduce_t v f) (reduce_t v c); e = gcf (reduce_f v f) (reduce_f v c)
            in if r = e then r else find_or_add_node v r e)))"
  by pat_completeness auto

lemma reduce_size:
  "size (reduce_t v x) \<le> size x" "size (reduce_f v x) \<le> size x"
  "variable x = v \<Longrightarrow> \<not> IS_TRUE_FALSE x \<Longrightarrow> size (reduce_t v x) < size x"
  "variable x = v \<Longrightarrow> \<not> IS_TRUE_FALSE x \<Longrightarrow> size (reduce_f v x) < size x"
  by (cases x; simp add: reduce_t_def reduce_f_def)+

lemma gcf_measure:
  assumes "\<not> IS_TRUE_FALSE f" "v = (if variable c < variable f then variable f else variable c)"
  shows "size (reduce_t v f) + size (reduce_t v c) < size f + size c"
    "size (reduce_f v f) + size (reduce_f v c) < size f + size c"
proof -
  note le = reduce_size(1,2) [where v = v] and less = reduce_size(3,4) [where v = v]
  have "variable f = v \<or> variable c = v \<and> \<not> IS_TRUE_FALSE c"
    using assms higher_node [of f c] by (auto simp: not_less le_less dest: same_node)
  then show "size (reduce_t v f) + size (reduce_t v c) < size f + size c"
    "size (reduce_f v f) + size (reduce_f v c) < size f + size c"
    using less [of f] less [of c] le [of f] le [of c] assms(1) by linarith+
qed

termination gcf
proof (relation "measure (\<lambda>(f, c). size f + size c)"; (rule wf_measure)?)
  fix f c :: bdd and v :: int
  assume a: "f \<noteq> c" "\<not> (c = TrueP \<or> f = TrueP \<or> f = FalseP)"
    "v = (if variable c < variable f then variable f else variable c)"
  then have "\<not> IS_TRUE_FALSE f" by (simp add: IS_TRUE_FALSE_def)
  then show "((reduce_t v f, reduce_t v c), f, c) \<in> measure (\<lambda>(f, c). size f + size c)"
    "((reduce_f v f, reduce_f v c), f, c) \<in> measure (\<lambda>(f, c). size f + size c)"
    "((reduce_t v f, reduce_t v c), f, c) \<in> measure (\<lambda>(f, c). size f + size c)"
    "((reduce_f v f, reduce_f v c), f, c) \<in> measure (\<lambda>(f, c). size f + size c)"
    using gcf_measure [of f v c] a(3) by simp_all
qed

declare gcf.simps [simp del]

lemma gcf_agree: "robdd f \<Longrightarrow> robdd c \<Longrightarrow> agree (bvars f \<union> bvars c) c f (gcf f c)"
proof (induction "size f + size c" arbitrary: f c rule: less_induct)
  case less
  note f = less.prems(1) and c = less.prems(2)
  show ?case
  proof (cases "f = c \<or> c = TrueP \<or> f = TrueP \<or> f = FalseP")
    case True
    then show ?thesis
      using agree_true [of _ c] agree_self [OF f, of "bvars f \<union> bvars c"] by (subst gcf.simps) auto
  next
    case False
    define v where "v = (if variable f > variable c then variable f else variable c)"
    have n: "\<not> IS_TRUE_FALSE f" using False by (simp add: IS_TRUE_FALSE_def)
    have v: "variable f \<le> v" "variable c \<le> v" "0 < v"
      using node_facts(1) [OF f n] by (auto simp: v_def)
    note m = gcf_measure [OF n v_def] and rf = reduce_facts [OF f v(1,3)] and rc = reduce_facts [OF c v(2,3)]
    let ?t = "gcf (reduce_t v f) (reduce_t v c)" and ?e = "gcf (reduce_f v f) (reduce_f v c)"
    let ?S = "bvars f \<union> bvars c" and ?St = "bvars (reduce_t v f) \<union> bvars (reduce_t v c)"
      and ?Se = "bvars (reduce_f v f) \<union> bvars (reduce_f v c)"
    have IH: "agree ?St (reduce_t v c) (reduce_t v f) ?t" "agree ?Se (reduce_f v c) (reduce_f v f) ?e"
      using less.hyps m rf(1,2) rc(1,2) by blast+
    have sub: "?St \<subseteq> ?S" "?Se \<subseteq> ?S" using reduce_bvars by blast+
    have small: "\<forall>w \<in> ?St \<union> ?Se. int w < v"
      using bvars_reduce_less [OF f v(1,3)] bvars_reduce_less [OF c v(2,3)] by blast
    have vS: "nat v \<in> ?S"
      using variable_in_bvars [OF n] variable_in_bvars [of c] higher_node [of f c] n
      by (auto simp: v_def not_less le_less dest: same_node)
    have "agree ?S c f (same_or_node v ?t ?e)"
      by (rule agree_node [OF f v(1) c v(2,3) IH small _ vS]) (use sub in blast)
    moreover have "agree ?S c f ?t" if "reduce_f v c = FalseP"
      by (rule agree_then [OF f v(1) c v(2,3) that agree_mono [OF IH(1) sub(1)]])
    moreover have "agree ?S c f ?e" if "reduce_t v c = FalseP"
      by (rule agree_else [OF f v(1) c v(2,3) that agree_mono [OF IH(2) sub(2)]])
    ultimately show ?thesis
      using False by (subst gcf.simps) (simp add: Let_def same_or_node_def flip: v_def)
  qed
qed

function pruning_p1 :: "bdd \<Rightarrow> bdd \<Rightarrow> bdd" where
  "pruning_p1 f c =
     (if f = c then TrueP
      else if variable f < variable c \<or> c = TrueP then f
      else if variable f = variable c then
        (if thenCase c = FalseP then elseCase f
         else if elseCase c = FalseP then thenCase f
         else
           (let r = pruning_p1 (thenCase f) (thenCase c); e = pruning_p1 (elseCase f) (elseCase c)
            in if r = e then r else find_or_add_node (variable c) r e))
      else
        (let r = pruning_p1 (thenCase f) c; e = pruning_p1 (elseCase f) c
         in if r = e then r else find_or_add_node (variable f) r e))"
  by pat_completeness auto

termination pruning_p1
proof (relation "measure (\<lambda>(f, c). size f)"; (rule wf_measure)?)
  fix f c :: bdd
  assume a: "\<not> (variable f < variable c \<or> c = TrueP)"
  have "\<not> IS_TRUE_FALSE f" if "variable f \<noteq> variable c" using a that higher_node [of c f] by simp
  note s = size_sons [OF this]
  show "((thenCase f, c), f, c) \<in> measure (\<lambda>(f, c). size f)"
    "((elseCase f, c), f, c) \<in> measure (\<lambda>(f, c). size f)" if "variable f \<noteq> variable c"
    using s that by simp_all
  assume v: "variable f = variable c" and t: "thenCase c \<noteq> FalseP"
  have "\<not> IS_TRUE_FALSE f" using a v t by (cases f; cases c; simp)
  note s = size_sons [OF this]
  show "((thenCase f, thenCase c), f, c) \<in> measure (\<lambda>(f, c). size f)"
    "((elseCase f, elseCase c), f, c) \<in> measure (\<lambda>(f, c). size f)"
    using s by simp_all
qed

declare pruning_p1.simps [simp del]

lemma reduce_higher: "variable x < v \<Longrightarrow> reduce_t v x = x \<and> reduce_f v x = x"
  by (simp add: reduce_t_def reduce_f_def)

lemma reduce_both_same: "variable x = v \<Longrightarrow> reduce_t v x = thenCase x \<and> reduce_f v x = elseCase x"
  by (simp add: reduce_t_def reduce_f_def)

lemma pruning_p1_agree: "robdd f \<Longrightarrow> robdd c \<Longrightarrow> agree (bvars f) c f (pruning_p1 f c)"
proof (induction f c rule: pruning_p1.induct)
  case (1 f c)
  note f = "1.prems"(1) and c = "1.prems"(2)
  show ?case
  proof (cases "f = c \<or> variable f < variable c \<or> c = TrueP \<or>
      variable f = variable c \<and> c = FalseP")
    case True
    then consider "f = c" | "f \<noteq> c" "variable f < variable c \<or> c = TrueP"
      | "f \<noteq> c" "\<not> (variable f < variable c \<or> c = TrueP)" "variable f = variable c" "c = FalseP" by blast
    then show ?thesis
    proof cases
      case 3
      then have "pruning_p1 f c = elseCase f" by (subst pruning_p1.simps) simp
      moreover have "robdd (elseCase f)" "bvars (elseCase f) \<subseteq> bvars f" using f by (cases f; auto)+
      ultimately show ?thesis using 3 by (simp add: agree_def)
    qed (subst pruning_p1.simps, simp add: agree_true agree_self [OF f])+
  next
    case False
    then have n: "\<not> IS_TRUE_FALSE f" by (cases f; cases c) auto
    note nf = node_facts [OF f n]
    have v: "variable f \<le> variable f" "variable c \<le> variable f" "0 < variable f" using False nf(1) by auto
    note sub = reduce_bvars [where v = "variable f"] and small = bvars_reduce_less [OF f v(1,3)]
    have rf: "reduce_t (variable f) f = thenCase f" "reduce_f (variable f) f = elseCase f"
      using reduce_both_same by blast+
    have node: "agree (bvars f) c f (same_or_node (variable f) r e)"
      if "agree (bvars (thenCase f)) (reduce_t (variable f) c) (thenCase f) r"
        "agree (bvars (elseCase f)) (reduce_f (variable f) c) (elseCase f) e" for r e
      using agree_node [OF f v(1) c v(2,3), of "bvars (thenCase f)" r "bvars (elseCase f)" e "bvars f"]
        that small sub [of f] variable_in_bvars [OF n] by (simp add: rf)
    show ?thesis
    proof (cases "variable f = variable c")
      case True
      then have rc: "reduce_t (variable f) c = thenCase c" "reduce_f (variable f) c = elseCase c"
        using reduce_both_same [of c "variable f"] by simp_all
      have "agree (bvars f) c f (elseCase f)" if "thenCase c = FalseP"
        by (rule agree_else [OF f v(1) c v(2,3)]) (use that rc rf nf sub(2) [of f] in \<open>auto intro: agree_self\<close>)
      moreover have "agree (bvars f) c f (thenCase f)" if "elseCase c = FalseP"
        by (rule agree_then [OF f v(1) c v(2,3)]) (use that rc rf nf sub(1) [of f] in \<open>auto intro: agree_self\<close>)
      moreover have "agree (bvars f) c f (same_or_node (variable f) (pruning_p1 (thenCase f) (thenCase c))
          (pruning_p1 (elseCase f) (elseCase c)))" if "thenCase c \<noteq> FalseP" "elseCase c \<noteq> FalseP"
        using "1.IH"(1,2) False True that nf(2,3) robdd_sons [OF c]
        by (intro node) (simp_all add: rc [unfolded True])
      ultimately show ?thesis
        using False True by (subst pruning_p1.simps) (auto simp: Let_def same_or_node_def)
    next
      case neq: False
      then have rc: "reduce_t (variable f) c = c" "reduce_f (variable f) c = c"
        using reduce_higher [of c "variable f"] False by auto
      have "agree (bvars f) c f (same_or_node (variable f) (pruning_p1 (thenCase f) c) (pruning_p1 (elseCase f) c))"
        using "1.IH"(3,4) False neq nf(2,3) c by (intro node) (simp_all add: rc)
      then show ?thesis
        using False neq by (subst pruning_p1.simps) (auto simp: Let_def same_or_node_def)
    qed
  qed
qed

section \<open>The pruning variants that quantify\<close>

text \<open>
  When the top variable of \<open>c\<close> is above \<open>f\<close>, these variants go on with \<open>c\<close> without that
  variable. The recursion then is on the result of a routine, so they are partial functions over
  the computed table; they are proved to return for ordered BDDs.
\<close>

partial_function (option) bddrestrict :: "bdd \<Rightarrow> bdd \<Rightarrow> itetable \<Rightarrow> (bdd \<times> itetable) option" where
  "bddrestrict f c T =
     (if c = TrueP \<or> f = FalseP then Some (f, T)
      else if c = notCase f \<and> f = TrueP then Some (c, T)
      else if variable f < variable c then do {
        (q, T) \<leftarrow> call (ite_or (thenCase c) (elseCase c)) T;
        bddrestrict f q T }
      else if reduce_f (variable f) c = FalseP then
        (if reduce_t (variable f) f = TrueP then Some (c, T)
         else bddrestrict (reduce_t (variable f) f) (reduce_t (variable f) c) T)
      else if reduce_t (variable f) c = FalseP then
        (if reduce_f (variable f) f = TrueP then Some (c, T)
         else bddrestrict (reduce_f (variable f) f) (reduce_f (variable f) c) T)
      else do {
        (r, T) \<leftarrow> bddrestrict (reduce_t (variable f) f) (reduce_t (variable f) c) T;
        (e, T) \<leftarrow> bddrestrict (reduce_f (variable f) f) (reduce_f (variable f) c) T;
        if r = e then Some (r, T) else Some (find_or_add_node (variable f) r e, T) })"

partial_function (option) remove_fps :: "bdd \<Rightarrow> bdd \<Rightarrow> itetable \<Rightarrow> (bdd \<times> itetable) option" where
  "remove_fps f c T =
     (if f = c \<or> f = TrueP \<or> c = FalseP then Some (TrueP, T)
      else if c = TrueP \<or> f = FalseP then Some (f, T)
      else if variable f < variable c then do {
        (q, T) \<leftarrow> call (ite_or (thenCase c) (elseCase c)) T;
        remove_fps f q T }
      else if reduce_f (variable f) c = FalseP then
        remove_fps (reduce_t (variable f) f) (reduce_t (variable f) c) T
      else if reduce_t (variable f) c = FalseP then
        remove_fps (reduce_f (variable f) f) (reduce_f (variable f) c) T
      else do {
        (r, T) \<leftarrow> remove_fps (reduce_t (variable f) f) (reduce_t (variable f) c) T;
        (e, T) \<leftarrow> remove_fps (reduce_f (variable f) f) (reduce_f (variable f) c) T;
        if r = e then Some (r, T) else Some (find_or_add_node (variable f) r e, T) })"

partial_function (option) pruning :: "bdd \<Rightarrow> bdd \<Rightarrow> itetable \<Rightarrow> (bdd \<times> itetable) option" where
  "pruning f c T =
     (if f = c then Some (TrueP, T)
      else if c = TrueP \<or> f = TrueP \<or> f = FalseP then Some (f, T)
      else if c = notCase f then Some (FalseP, T)
      else if variable f < variable c then do {
        (q, T) \<leftarrow> call (ite_or_te c) T;
        pruning f q T }
      else if reduce_f (variable f) c = FalseP then
        pruning (reduce_t (variable f) f) (reduce_t (variable f) c) T
      else if reduce_t (variable f) c = FalseP then
        pruning (reduce_f (variable f) f) (reduce_f (variable f) c) T
      else do {
        (r, T) \<leftarrow> pruning (reduce_t (variable f) f) (reduce_t (variable f) c) T;
        (e, T) \<leftarrow> pruning (reduce_f (variable f) f) (reduce_f (variable f) c) T;
        if r = e then Some (r, T) else Some (find_or_add_node (variable f) r e, T) })"

partial_function (option) pruning_p2 :: "bdd \<Rightarrow> bdd \<Rightarrow> itetable \<Rightarrow> (bdd \<times> itetable) option" where
  "pruning_p2 f c T =
     (if f = c then Some (TrueP, T)
      else if c = notCase f then Some (FalseP, T)
      else if c = TrueP \<or> f = TrueP \<or> f = FalseP then Some (f, T)
      else if variable f < variable c then do {
        (q, T) \<leftarrow> call (ite_or_te c) T;
        pruning_p2 f q T }
      else if reduce_f (variable f) c = FalseP then
        pruning_p2 (reduce_t (variable f) f) (reduce_t (variable f) c) T
      else if reduce_t (variable f) c = FalseP then
        pruning_p2 (reduce_f (variable f) f) (reduce_f (variable f) c) T
      else do {
        (r, T) \<leftarrow> pruning_p2 (reduce_t (variable f) f) (reduce_t (variable f) c) T;
        (e, T) \<leftarrow> pruning_p2 (reduce_f (variable f) f) (reduce_f (variable f) c) T;
        if r = e then Some (r, T) else Some (find_or_add_node (variable f) r e, T) })"

text \<open>
  The proofs share their induction: the variable of \<open>f\<close> falls, or that of \<open>c\<close> does. \<open>rec\<close>
  below stands for one of the four functions.
\<close>

lemma prune_induct [consumes 2, case_names step]:
  assumes "robdd f" "robdd c"
    and step: "\<And>f c. robdd f \<Longrightarrow> robdd c \<Longrightarrow>
      (\<And>f' c'. robdd f' \<Longrightarrow> robdd c' \<Longrightarrow> variable f' < variable f \<Longrightarrow> P f' c') \<Longrightarrow>
      (\<And>c'. robdd c' \<Longrightarrow> variable c' < variable c \<Longrightarrow> P f c') \<Longrightarrow> P f c"
  shows "P f c"
proof -
  have m: "nat (variable x + 1) < nat (variable y + 1)" if "variable x < variable y" for x y
    using that variable_ge [of x] by linarith
  have "robdd f \<longrightarrow> robdd c \<longrightarrow> P f c"
  proof (induction "nat (variable f + 1)" arbitrary: f c rule: less_induct)
    case less
    note outer = less
    show ?case
    proof (induction "nat (variable c + 1)" arbitrary: c rule: less_induct)
      case less
      show ?case using step [of f c] outer less m by blast
    qed
  qed
  then show ?thesis using assms(1,2) by blast
qed

lemma bvars_sons: "bvars (thenCase f) \<subseteq> bvars f" "bvars (elseCase f) \<subseteq> bvars f"
  by (cases f; auto)+

text \<open>The step that drops the top variable of \<open>c\<close>.\<close>

lemma prune_quantify:
  assumes c: "robdd c" and v: "variable f < variable c"
    and IH: "\<And>c'. robdd c' \<Longrightarrow> variable c' < variable c \<Longrightarrow> ogives cache_ok (rec f c') (agree (S c') c' f)"
    and S: "\<And>c'. bvars c' \<subseteq> bvars c \<Longrightarrow> S c' \<subseteq> S c"
  shows "ogives cache_ok (\<lambda>T. do { (q, T) \<leftarrow> call (ite_or (thenCase c) (elseCase c)) T; rec f q T })
    (agree (S c) c f)"
proof -
  note nc = node_facts [OF c higher_node [OF v]]
  have B: "variable (thenCase c) \<le> variable c - 1" "variable (elseCase c) \<le> variable c - 1"
    using nc by simp_all
  have "gives cache_ok (ite_or (thenCase c) (elseCase c))
      (is_node (variable c - 1) (\<lambda>a. ev (thenCase c) a \<or> ev (elseCase c) a))"
    using ite_or_computes [OF nc(2,3) B] by (simp add: computes_gives)
  then show ?thesis
  proof (rule ogives_bind [OF ogives_call])
    fix q
    assume q: "is_node (variable c - 1) (\<lambda>a. ev (thenCase c) a \<or> ev (elseCase c) a) q"
    have "bvars q \<subseteq> bvars c"
    proof (rule order_trans [OF is_node_bvars [OF q, of "bvars (thenCase c) \<union> bvars (elseCase c)"]])
      show "bvars (thenCase c) \<union> bvars (elseCase c) \<subseteq> bvars c" using bvars_sons by blast
    qed simp
    moreover have "robdd q" "variable q < variable c" "\<And>a. ev c a \<Longrightarrow> ev q a"
      using q nc(8) by (auto simp: is_node_def split: if_splits)
    ultimately show "ogives cache_ok (\<lambda>T. rec f q T) (agree (S c) c f)"
      using IH [of q] S [of q] by (intro ogives_post [OF IH]) (auto intro: agree_mono agree_weaker)
  qed
qed

text \<open>The step on the cofactors of \<open>f\<close> and \<open>c\<close>, with a given way to end the two one-sided cases.\<close>

lemma prune_cofactors:
  assumes f: "robdd f" "\<not> IS_TRUE_FALSE f" and c: "robdd c" and v: "\<not> variable f < variable c"
    and IH: "\<And>f' c'. robdd f' \<Longrightarrow> robdd c' \<Longrightarrow> variable f' < variable f \<Longrightarrow>
      ogives cache_ok (rec f' c') (agree (S f' c') c' f')"
    and S: "\<And>f' c'. bvars f' \<subseteq> bvars f \<Longrightarrow> bvars c' \<subseteq> bvars c \<Longrightarrow> S f' c' \<subseteq> S f c"
      "\<And>f' c'. S f' c' \<subseteq> bvars f' \<union> bvars c'" "bvars f \<subseteq> S f c"
  defines "ft \<equiv> reduce_t (variable f) f" and "fe \<equiv> reduce_f (variable f) f"
    and "ct \<equiv> reduce_t (variable f) c" and "ce \<equiv> reduce_f (variable f) c"
  shows "ce = FalseP \<Longrightarrow> ogives cache_ok (\<lambda>T. rec ft ct T) (agree (S f c) c f)"
    and "ct = FalseP \<Longrightarrow> ogives cache_ok (\<lambda>T. rec fe ce T) (agree (S f c) c f)"
    and "ogives cache_ok (\<lambda>T. do { (r, T) \<leftarrow> rec ft ct T; (e, T) \<leftarrow> rec fe ce T;
        if r = e then Some (r, T) else Some (find_or_add_node (variable f) r e, T) }) (agree (S f c) c f)"
proof -
  have vs: "variable f \<le> variable f" "variable c \<le> variable f" "0 < variable f"
    using v node_facts(1) [OF f] by simp_all
  note rf = reduce_facts [OF f(1) vs(1,3), folded ft_def fe_def]
    and rc = reduce_facts [OF c vs(2,3), folded ct_def ce_def]
  note gt = IH [OF rf(1) rc(1) rf(3)] and ge = IH [OF rf(2) rc(2) rf(4)]
  have bf: "bvars ft \<subseteq> bvars f" "bvars fe \<subseteq> bvars f" "bvars ct \<subseteq> bvars c" "bvars ce \<subseteq> bvars c"
    by (simp_all add: ft_def fe_def ct_def ce_def reduce_bvars)
  have sub: "S ft ct \<subseteq> S f c" "S fe ce \<subseteq> S f c" using S(1) bf by blast+
  have small: "\<forall>w \<in> S ft ct \<union> S fe ce. int w < variable f"
    using S(2) [of ft ct] S(2) [of fe ce] bvars_reduce_less [OF f(1) vs(1,3)] bvars_reduce_less [OF c vs(2,3)]
    by (auto simp: ft_def fe_def ct_def ce_def)
  have vS: "nat (variable f) \<in> S f c" using variable_in_bvars [OF f(2)] S(3) by blast
  show "ogives cache_ok (\<lambda>T. rec ft ct T) (agree (S f c) c f)" if "ce = FalseP"
  proof (rule ogives_post [OF gt])
    fix r
    assume "agree (S ft ct) ct ft r"
    from agree_then [OF f(1) vs(1) c vs(2,3) that [unfolded ce_def] agree_mono [OF this sub(1), unfolded ft_def ct_def]]
    show "agree (S f c) c f r" .
  qed
  show "ogives cache_ok (\<lambda>T. rec fe ce T) (agree (S f c) c f)" if "ct = FalseP"
  proof (rule ogives_post [OF ge])
    fix r
    assume "agree (S fe ce) ce fe r"
    from agree_else [OF f(1) vs(1) c vs(2,3) that [unfolded ct_def] agree_mono [OF this sub(2), unfolded fe_def ce_def]]
    show "agree (S f c) c f r" .
  qed
  show "ogives cache_ok (\<lambda>T. do { (r, T) \<leftarrow> rec ft ct T; (e, T) \<leftarrow> rec fe ce T;
      if r = e then Some (r, T) else Some (find_or_add_node (variable f) r e, T) }) (agree (S f c) c f)"
  proof (rule ogives_bind [OF gt], rule ogives_bind [OF ge])
    fix r e
    assume re: "agree (S ft ct) ct ft r" "agree (S fe ce) ce fe e"
    have "agree (S f c) c f (same_or_node (variable f) r e)"
      by (rule agree_node [OF f(1) vs(1) c vs(2,3) re [unfolded ft_def fe_def ct_def ce_def]])
        (use small sub vS in \<open>auto simp: ft_def fe_def ct_def ce_def\<close>)
    then show "ogives cache_ok (\<lambda>T. if r = e then Some (r, T) else Some (find_or_add_node (variable f) r e, T))
        (agree (S f c) c f)"
      by (intro ogives_if ogives_return) (auto simp: same_or_node_def)
  qed
qed

lemma ret_agree: "agree S c f r \<Longrightarrow> ogives cache_ok (\<lambda>T. Some (r, T)) (agree S c f)"
  by (rule ogives_return)

lemma agree_compl: "agree S (notCase f) f FalseP" "c = notCase f \<Longrightarrow> agree S c f FalseP"
  by (simp_all add: agree_def)

lemma pruning_agree: "robdd f \<Longrightarrow> robdd c \<Longrightarrow> ogives cache_ok (pruning f c) (agree (bvars f) c f)"
proof (induction f c rule: prune_induct)
  case (step f c)
  note f = step(1) and c = step(2)
  show ?case
    unfolding pruning.simps [of f c]
  proof (intro ogives_if)
    show "ogives cache_ok (\<lambda>T. Some (TrueP, T)) (agree (bvars f) c f)" if "f = c"
      using that by (simp add: ret_agree agree_true)
    show "ogives cache_ok (\<lambda>T. Some (f, T)) (agree (bvars f) c f)"
      by (intro ret_agree agree_self f) simp
    show "ogives cache_ok (\<lambda>T. Some (FalseP, T)) (agree (bvars f) c f)" if "c = notCase f"
      using that by (simp add: ret_agree agree_compl)
    assume nt: "f \<noteq> c" "\<not> (c = TrueP \<or> f = TrueP \<or> f = FalseP)" "c \<noteq> notCase f"
    then have n: "\<not> IS_TRUE_FALSE f" by (simp add: IS_TRUE_FALSE_def)
    show "ogives cache_ok (\<lambda>T. do { (q, T) \<leftarrow> call (ite_or_te c) T; pruning f q T }) (agree (bvars f) c f)"
      if "variable f < variable c"
      unfolding ite_or_te_def by (rule prune_quantify [where rec = pruning and S = "\<lambda>_. bvars f", OF c that step(4)]) auto
    assume "\<not> variable f < variable c"
    note tail = prune_cofactors [where rec = pruning and S = "\<lambda>f c. bvars f", OF f n c this step(3)]
    show "ogives cache_ok (\<lambda>T. pruning (reduce_t (variable f) f) (reduce_t (variable f) c) T)
        (agree (bvars f) c f)" if "reduce_f (variable f) c = FalseP"
      by (rule tail(1)) (use that in auto)
    show "ogives cache_ok (\<lambda>T. pruning (reduce_f (variable f) f) (reduce_f (variable f) c) T)
        (agree (bvars f) c f)" if "reduce_t (variable f) c = FalseP"
      by (rule tail(2)) (use that in auto)
    show "ogives cache_ok (\<lambda>T. do {
        (r, T) \<leftarrow> pruning (reduce_t (variable f) f) (reduce_t (variable f) c) T;
        (e, T) \<leftarrow> pruning (reduce_f (variable f) f) (reduce_f (variable f) c) T;
        if r = e then Some (r, T) else Some (find_or_add_node (variable f) r e, T) }) (agree (bvars f) c f)"
      by (rule tail(3)) auto
  qed
qed

lemma pruning_p2_agree: "robdd f \<Longrightarrow> robdd c \<Longrightarrow> ogives cache_ok (pruning_p2 f c) (agree (bvars f) c f)"
proof (induction f c rule: prune_induct)
  case (step f c)
  note f = step(1) and c = step(2)
  show ?case
    unfolding pruning_p2.simps [of f c]
  proof (intro ogives_if)
    show "ogives cache_ok (\<lambda>T. Some (TrueP, T)) (agree (bvars f) c f)" if "f = c"
      using that by (simp add: ret_agree agree_true)
    show "ogives cache_ok (\<lambda>T. Some (f, T)) (agree (bvars f) c f)"
      by (intro ret_agree agree_self f) simp
    show "ogives cache_ok (\<lambda>T. Some (FalseP, T)) (agree (bvars f) c f)" if "c = notCase f"
      using that by (simp add: ret_agree agree_compl)
    assume nt: "f \<noteq> c" "\<not> (c = TrueP \<or> f = TrueP \<or> f = FalseP)" "c \<noteq> notCase f"
    then have n: "\<not> IS_TRUE_FALSE f" by (simp add: IS_TRUE_FALSE_def)
    show "ogives cache_ok (\<lambda>T. do { (q, T) \<leftarrow> call (ite_or_te c) T; pruning_p2 f q T }) (agree (bvars f) c f)"
      if "variable f < variable c"
      unfolding ite_or_te_def by (rule prune_quantify [where rec = pruning_p2 and S = "\<lambda>_. bvars f", OF c that step(4)]) auto
    assume "\<not> variable f < variable c"
    note tail = prune_cofactors [where rec = pruning_p2 and S = "\<lambda>f c. bvars f", OF f n c this step(3)]
    show "ogives cache_ok (\<lambda>T. pruning_p2 (reduce_t (variable f) f) (reduce_t (variable f) c) T)
        (agree (bvars f) c f)" if "reduce_f (variable f) c = FalseP"
      by (rule tail(1)) (use that in auto)
    show "ogives cache_ok (\<lambda>T. pruning_p2 (reduce_f (variable f) f) (reduce_f (variable f) c) T)
        (agree (bvars f) c f)" if "reduce_t (variable f) c = FalseP"
      by (rule tail(2)) (use that in auto)
    show "ogives cache_ok (\<lambda>T. do {
        (r, T) \<leftarrow> pruning_p2 (reduce_t (variable f) f) (reduce_t (variable f) c) T;
        (e, T) \<leftarrow> pruning_p2 (reduce_f (variable f) f) (reduce_f (variable f) c) T;
        if r = e then Some (r, T) else Some (find_or_add_node (variable f) r e, T) }) (agree (bvars f) c f)"
      by (rule tail(3)) auto
  qed
qed

lemma remove_fps_agree: "robdd f \<Longrightarrow> robdd c \<Longrightarrow> ogives cache_ok (remove_fps f c) (agree (bvars f) c f)"
proof (induction f c rule: prune_induct)
  case (step f c)
  note f = step(1) and c = step(2)
  have ret: "agree (bvars f) c f TrueP" if "f = c \<or> f = TrueP \<or> c = FalseP"
    using that by (auto simp: agree_def)
  show ?case
    unfolding remove_fps.simps [of f c]
  proof (intro ogives_if)
    assume nt: "\<not> (f = c \<or> f = TrueP \<or> c = FalseP)" "\<not> (c = TrueP \<or> f = FalseP)"
    then have n: "\<not> IS_TRUE_FALSE f" by (simp add: IS_TRUE_FALSE_def)
    show "ogives cache_ok (\<lambda>T. do {
        (q, T) \<leftarrow> call (ite_or (thenCase c) (elseCase c)) T; remove_fps f q T }) (agree (bvars f) c f)"
      if "variable f < variable c"
      by (rule prune_quantify [where rec = remove_fps and S = "\<lambda>_. bvars f", OF c that step(4)]) auto
    assume "\<not> variable f < variable c"
    note tail = prune_cofactors [where rec = remove_fps and S = "\<lambda>f c. bvars f", OF f n c this step(3)]
    show "ogives cache_ok (\<lambda>T. remove_fps (reduce_t (variable f) f) (reduce_t (variable f) c) T)
        (agree (bvars f) c f)" if "reduce_f (variable f) c = FalseP"
      by (rule tail(1)) (use that in auto)
    show "ogives cache_ok (\<lambda>T. remove_fps (reduce_f (variable f) f) (reduce_f (variable f) c) T)
        (agree (bvars f) c f)" if "reduce_t (variable f) c = FalseP"
      by (rule tail(2)) (use that in auto)
    show "ogives cache_ok (\<lambda>T. do {
        (r, T) \<leftarrow> remove_fps (reduce_t (variable f) f) (reduce_t (variable f) c) T;
        (e, T) \<leftarrow> remove_fps (reduce_f (variable f) f) (reduce_f (variable f) c) T;
        if r = e then Some (r, T) else Some (find_or_add_node (variable f) r e, T) }) (agree (bvars f) c f)"
      by (rule tail(3)) auto
  qed (auto intro!: ret_agree ret agree_self f)
qed

lemma bddrestrict_agree:
  "robdd f \<Longrightarrow> robdd c \<Longrightarrow> ogives cache_ok (bddrestrict f c) (agree (bvars f \<union> bvars c) c f)"
proof (induction f c rule: prune_induct)
  case (step f c)
  note f = step(1) and c = step(2)
  let ?S = "bvars f \<union> bvars c"
  show ?case
    unfolding bddrestrict.simps [of f c]
  proof (intro ogives_if)
    show "ogives cache_ok (\<lambda>T. Some (f, T)) (agree ?S c f)"
      by (intro ret_agree agree_self f) simp
    show "ogives cache_ok (\<lambda>T. Some (c, T)) (agree ?S c f)" if "c = notCase f \<and> f = TrueP"
      using that by (intro ret_agree) (simp add: agree_def)
    show "ogives cache_ok (\<lambda>T. do {
        (q, T) \<leftarrow> call (ite_or (thenCase c) (elseCase c)) T; bddrestrict f q T }) (agree ?S c f)"
      if "variable f < variable c"
      by (rule prune_quantify [where rec = bddrestrict and S = "\<lambda>c. bvars f \<union> bvars c", OF c that step(4)]) auto
    assume nt: "\<not> (c = TrueP \<or> f = FalseP)" "\<not> (c = notCase f \<and> f = TrueP)" and v: "\<not> variable f < variable c"
    then have n: "\<not> IS_TRUE_FALSE f" by (cases f; cases c) auto
    have vs: "variable f \<le> variable f" "variable c \<le> variable f" "0 < variable f"
      using v node_facts(1) [OF f n] by simp_all
    note rf = reduce_facts(9) [OF f vs(1,3)] and rc = reduce_facts(9) [OF c vs(2,3)]
    note tail = prune_cofactors [where rec = bddrestrict and S = "\<lambda>f c. bvars f \<union> bvars c", OF f n c v step(3)]
    show "ogives cache_ok (\<lambda>T. Some (c, T)) (agree ?S c f)"
      if "reduce_f (variable f) c = FalseP" "reduce_t (variable f) f = TrueP"
      using rf rc that c by (intro ret_agree) (auto simp: agree_def split: if_splits)
    show "ogives cache_ok (\<lambda>T. Some (c, T)) (agree ?S c f)"
      if "reduce_t (variable f) c = FalseP" "reduce_f (variable f) f = TrueP"
      using rf rc that c by (intro ret_agree) (auto simp: agree_def split: if_splits)
    show "ogives cache_ok (\<lambda>T. bddrestrict (reduce_t (variable f) f) (reduce_t (variable f) c) T)
        (agree ?S c f)" if "reduce_f (variable f) c = FalseP"
      by (rule tail(1)) (use that in auto)
    show "ogives cache_ok (\<lambda>T. bddrestrict (reduce_f (variable f) f) (reduce_f (variable f) c) T)
        (agree ?S c f)" if "reduce_t (variable f) c = FalseP"
      by (rule tail(2)) (use that in auto)
    show "ogives cache_ok (\<lambda>T. do {
        (r, T) \<leftarrow> bddrestrict (reduce_t (variable f) f) (reduce_t (variable f) c) T;
        (e, T) \<leftarrow> bddrestrict (reduce_f (variable f) f) (reduce_f (variable f) c) T;
        if r = e then Some (r, T) else Some (find_or_add_node (variable f) r e, T) }) (agree ?S c f)"
      by (rule tail(3)) auto
  qed
qed

section \<open>Stealing inferences\<close>

text \<open>\<open>Build_BDD_From_Inferences\<close>: the conjunction of a node's inferences.\<close>

primrec build_inferences :: "infer list \<Rightarrow> bdd \<Rightarrow> (itetable, bdd) state" where
  "build_inferences [] tempBDD = State_Monad.return tempBDD"
| "build_inferences (p # ps) tempBDD = do {
     tempBDD \<leftarrow> (if snd p = 0 then ite_and tempBDD (ite_var (fst p))
                 else do { q \<leftarrow> ite_equ (ite_var (fst p)) (ite_var (snd p)); ite_and tempBDD q });
     build_inferences ps tempBDD }"

definition Build_BDD_From_Inferences :: "bool \<Rightarrow> bdd \<Rightarrow> (itetable, bdd) state" where
  "Build_BDD_From_Inferences d c = build_inferences (inferences d c) TrueP"

definition infer_vars :: "infer list \<Rightarrow> nat set" where
  "infer_vars ps = (\<Union>p \<in> set ps. {nat \<bar>fst p\<bar>} \<union> (if snd p = 0 then {} else {nat \<bar>snd p\<bar>}))"

lemma infer_holds_upd:
  "nat \<bar>fst p\<bar> \<noteq> v \<Longrightarrow> snd p = 0 \<or> nat \<bar>snd p\<bar> \<noteq> v \<Longrightarrow> infer_holds p (a(v := b)) = infer_holds p a"
  by (auto simp: infer_holds_def lit_upd)

lemma build_inferences_gives:
  "robdd t \<Longrightarrow> \<forall>p \<in> set ps. infer_wf p \<Longrightarrow>
    gives cache_ok (build_inferences ps t)
      (\<lambda>r. robdd r \<and> (\<forall>a. ev r a \<longleftrightarrow> ev t a \<and> (\<forall>p \<in> set ps. infer_holds p a)))"
proof (induction ps arbitrary: t)
  case (Cons p ps)
  have nz: "fst p \<noteq> 0" using Cons.prems(2) by (simp add: infer_wf_def)
  define B where "B = max (variable t) (max \<bar>fst p\<bar> \<bar>snd p\<bar>)"
  have B: "variable t \<le> B" "\<bar>fst p\<bar> \<le> B" "\<bar>snd p\<bar> \<le> B" by (auto simp: B_def)
  have "gives cache_ok (if snd p = 0 then ite_and t (ite_var (fst p))
      else do { q \<leftarrow> ite_equ (ite_var (fst p)) (ite_var (snd p)); ite_and t q })
      (is_node B (\<lambda>a. ev t a \<and> infer_holds p a))"
  proof (rule gives_if)
    show "gives cache_ok (ite_and t (ite_var (fst p))) (is_node B (\<lambda>a. ev t a \<and> infer_holds p a))" if "snd p = 0"
      using ite_and_computes [of t "ite_var (fst p)" B] Cons.prems(1) nz B that
      by (simp add: computes_gives ev_ite_var infer_holds_def)
    assume s: "snd p \<noteq> 0"
    have "computes (ite_equ (ite_var (fst p)) (ite_var (snd p))) B (infer_holds p)"
      using ite_equ_computes [of "ite_var (fst p)" "ite_var (snd p)" B] nz s B
      by (simp add: ev_ite_var infer_holds_def [abs_def])
    then show "gives cache_ok (do { q \<leftarrow> ite_equ (ite_var (fst p)) (ite_var (snd p)); ite_and t q })
        (is_node B (\<lambda>a. ev t a \<and> infer_holds p a))"
      unfolding computes_gives
    proof (rule gives_bind)
      fix q
      assume "is_node B (infer_holds p) q"
      then show "gives cache_ok (ite_and t q) (is_node B (\<lambda>a. ev t a \<and> infer_holds p a))"
        using ite_and_computes [of t q B] Cons.prems(1) B(1) by (simp add: computes_gives is_node_def)
    qed
  qed
  then show ?case
    unfolding build_inferences.simps
  proof (rule gives_bind)
    fix q
    assume q: "is_node B (\<lambda>a. ev t a \<and> infer_holds p a) q"
    then have "robdd q" by (simp add: is_node_def)
    have "gives cache_ok (build_inferences ps q)
        (\<lambda>r. robdd r \<and> (\<forall>a. ev r a \<longleftrightarrow> ev q a \<and> (\<forall>p \<in> set ps. infer_holds p a)))"
      by (rule Cons.IH [OF \<open>robdd q\<close>]) (use Cons.prems(2) in simp)
    then show "gives cache_ok (build_inferences ps q)
        (\<lambda>r. robdd r \<and> (\<forall>a. ev r a \<longleftrightarrow> ev t a \<and> (\<forall>p \<in> set (p # ps). infer_holds p a)))"
      by (rule gives_post) (use q in \<open>auto simp: is_node_def\<close>)
  qed
qed (simp add: gives_return)

lemma Build_BDD_From_Inferences_gives:
  assumes c: "robdd c"
  shows "gives cache_ok (Build_BDD_From_Inferences d c)
    (\<lambda>r. robdd r \<and> bvars r \<subseteq> bvars c \<and> (\<forall>a. ev r a \<longleftrightarrow> (\<forall>p \<in> set (inferences d c). infer_holds p a)))"
proof -
  have wf: "\<forall>p \<in> set (inferences d c). infer_wf p" using inferences_wf [OF c] by blast
  have "bvars r \<subseteq> bvars c"
    if r: "robdd r" "\<forall>a. ev r a \<longleftrightarrow> (\<forall>p \<in> set (inferences d c). infer_holds p a)" for r
  proof (rule is_node_bvars)
    show "is_node (variable r) (\<lambda>a. \<forall>p \<in> set (inferences d c). infer_holds p a) r"
      using r by (simp add: is_node_def)
    fix v a b
    assume "v \<notin> bvars c"
    then have "infer_holds p (a(v := b)) = infer_holds p a" if "p \<in> set (inferences d c)" for p
      using inferences_vars [OF that] by (intro infer_holds_upd) auto
    then show "(\<forall>p \<in> set (inferences d c). infer_holds p (a(v := b))) =
        (\<forall>p \<in> set (inferences d c). infer_holds p a)" by blast
  qed
  then show ?thesis
    unfolding Build_BDD_From_Inferences_def
    by (intro gives_post [OF build_inferences_gives [OF _ wf]]) auto
qed

text \<open>The first test of a one-sided pair of cofactors has an empty body in the source.\<close>

partial_function (option) steal :: "bool \<Rightarrow> bdd \<Rightarrow> bdd \<Rightarrow> itetable \<Rightarrow> (bdd \<times> itetable) option" where
  "steal d f c T =
     (if c = notCase f then Some (FalseP, T)
      else if c = TrueP \<or> f = FalseP then Some (f, T)
      else if f = c then Some (TrueP, T)
      else if f = TrueP then call (Build_BDD_From_Inferences d c) T
      else if variable f < variable c then do {
        (q, T) \<leftarrow> call (ite_or (thenCase c) (elseCase c)) T;
        steal d f q T }
      else do {
        (r, T) \<leftarrow> steal d (reduce_t (variable f) f) (reduce_t (variable f) c) T;
        (e, T) \<leftarrow> steal d (reduce_f (variable f) f) (reduce_f (variable f) c) T;
        if r = e then Some (r, T) else Some (find_or_add_node (variable f) r e, T) })"

lemma steal_agree:
  "robdd f \<Longrightarrow> robdd c \<Longrightarrow> ogives cache_ok (steal d f c) (agree (bvars f \<union> bvars c) c f)"
proof (induction f c rule: prune_induct)
  case (step f c)
  note f = step(1) and c = step(2)
  let ?S = "bvars f \<union> bvars c"
  show ?case
    unfolding steal.simps [of d f c]
  proof (intro ogives_if)
    show "ogives cache_ok (\<lambda>T. Some (FalseP, T)) (agree ?S c f)" if "c = notCase f"
      using that by (simp add: ret_agree agree_compl)
    show "ogives cache_ok (\<lambda>T. Some (f, T)) (agree ?S c f)"
      by (intro ret_agree agree_self f) simp
    show "ogives cache_ok (\<lambda>T. Some (TrueP, T)) (agree ?S c f)" if "f = c"
      using that by (simp add: ret_agree agree_true)
    show "ogives cache_ok (\<lambda>T. call (Build_BDD_From_Inferences d c) T) (agree ?S c f)" if "f = TrueP"
      using inferences_sound [OF c]
      by (intro ogives_call gives_post [OF Build_BDD_From_Inferences_gives [OF c]])
        (auto simp: agree_def that)
    show "ogives cache_ok (\<lambda>T. do {
        (q, T) \<leftarrow> call (ite_or (thenCase c) (elseCase c)) T; steal d f q T }) (agree ?S c f)"
      if "variable f < variable c"
      by (rule prune_quantify [where rec = "steal d" and S = "\<lambda>c. bvars f \<union> bvars c", OF c that step(4)]) auto
    assume nt: "c \<noteq> notCase f" "\<not> (c = TrueP \<or> f = FalseP)" "f \<noteq> TrueP" and v: "\<not> variable f < variable c"
    then have n: "\<not> IS_TRUE_FALSE f" by (simp add: IS_TRUE_FALSE_def)
    show "ogives cache_ok (\<lambda>T. do {
        (r, T) \<leftarrow> steal d (reduce_t (variable f) f) (reduce_t (variable f) c) T;
        (e, T) \<leftarrow> steal d (reduce_f (variable f) f) (reduce_f (variable f) c) T;
        if r = e then Some (r, T) else Some (find_or_add_node (variable f) r e, T) }) (agree ?S c f)"
      by (rule prune_cofactors(3) [where rec = "steal d" and S = "\<lambda>f c. bvars f \<union> bvars c", OF f n c v step(3)])
        auto
  qed
qed

end
