(* ===== verification/Bddreplace.thy ===== *)
theory Bddreplace
  imports Bddquant
begin

text \<open>
  The other memoised traversals of utils/bdd.cc: replacing a variable by a literal, converting a
  BDD to an XDD, assigning a variable of an XDD, and counting the paths to a node.
\<close>

section \<open>Replacing a variable\<close>

text \<open>\<open>_num_replace\<close>: every occurrence of \<open>var\<close> becomes the literal \<open>replace\<close>.\<close>

function u_num_replace :: "bdd \<Rightarrow> nat \<Rightarrow> int \<Rightarrow> (bddst, bdd) state" where
  "u_num_replace f var replace =
     (if int var > variable f then State_Monad.return f
      else visit_not f
        (if int var = variable f \<and> replace > 0 then
           ite_lift (ite_xvar_y_z (ite_var replace) (thenCase f) (elseCase f))
         else if int var = variable f \<and> replace < 0 then
           ite_lift (ite_xvar_y_z (ite_var (- replace)) (elseCase f) (thenCase f))
         else do {
           r \<leftarrow> u_num_replace (thenCase f) var replace;
           e \<leftarrow> u_num_replace (elseCase f) var replace;
           if r = e then State_Monad.return r
           else do {
             p \<leftarrow> ite_lift (ite_xvar_y_z (ite_var (variable f)) r e);
             ite_lift (itetable_add_node 11 (ite_var (variable f)) f p) } }))"
  by pat_completeness auto
termination
  by (relation "measure (\<lambda>(f, _, _). size f)")
    (auto intro!: size_sons simp: IS_TRUE_FALSE_def not_less)

declare u_num_replace.simps [simp del]

definition num_replace :: "bdd \<Rightarrow> nat \<Rightarrow> int \<Rightarrow> (bddst, bdd) state" where
  "num_replace f var replace = do {
     _ \<leftarrow> start_bdd_flag_number NUMREPLACE_FLAG_NUMBER; u_num_replace f var replace }"

definition num_replace_all :: "nat list \<Rightarrow> nat \<Rightarrow> int \<Rightarrow> bdd list \<Rightarrow> (bddst, bdd list) state" where
  "num_replace_all k var replace functions = do {
     _ \<leftarrow> start_bdd_flag_number NUMREPLACEALL_FLAG_NUMBER;
     update_all (\<lambda>f. u_num_replace f var replace) k functions }"

definition subst_lit :: "nat \<Rightarrow> int \<Rightarrow> assignment \<Rightarrow> assignment" where
  "subst_lit n l a = (if l = 0 then a else a(n := lit l a))"

definition replaced :: "nat \<Rightarrow> int \<Rightarrow> bdd \<Rightarrow> bdd \<Rightarrow> bool" where
  "replaced n l f r \<longleftrightarrow>
     robdd f \<and> is_node (max (variable f) \<bar>l\<bar>) (\<lambda>a. ev f (subst_lit n l a)) r"

lemma replaced_below: "robdd f \<Longrightarrow> variable f < int n \<Longrightarrow> replaced n l f f"
  by (auto simp: replaced_def subst_lit_def is_node_def ev_upd_above)

lemma replaced_not: "replaced n l (notCase f) r \<Longrightarrow> replaced n l f (notCase r)"
  by (auto simp: replaced_def is_node_def)

lemma replaced_top:
  assumes f: "robdd f" and n: "variable f = int n" and l: "l \<noteq> 0"
  shows "gives cache_ok (ite_xvar_y_z (ite_var \<bar>l\<bar>) (if 0 < l then thenCase f else elseCase f)
      (if 0 < l then elseCase f else thenCase f)) (replaced n l f)"
proof -
  obtain t e where fn: "f = Node n t e" using n by (cases f) auto
  let ?x = "ite_var \<bar>l\<bar>" and ?B = "max (variable f) \<bar>l\<bar>"
  let ?y = "if 0 < l then t else e" and ?z = "if 0 < l then e else t"
  have b: "robdd ?y" "robdd ?z" "variable ?x \<le> ?B" "variable ?y \<le> ?B" "variable ?z \<le> ?B"
    using f fn l by auto
  have up: "ev t (a(n := c)) = ev t a" "ev e (a(n := c)) = ev e a" for a c
    using ev_upd_above f fn by simp_all
  have "(if ev ?x a then ev ?y a else ev ?z a) = ev f (subst_lit n l a)" for a
  proof -
    have "ev ?x a = lit \<bar>l\<bar> a" using l by (simp add: ev_ite_var)
    also have "\<dots> = (if 0 < l then lit l a else \<not> lit l a)" using l by (auto simp: lit_def)
    finally show ?thesis using l up by (auto simp: fn subst_lit_def)
  qed
  then have "gives cache_ok (ite_xvar_y_z ?x ?y ?z) (is_node ?B (\<lambda>a. ev f (subst_lit n l a)))"
    using computes_weaken [OF ite_xvar_computes [OF _ b]] l by (simp add: computes_gives)
  moreover have "thenCase f = t" "elseCase f = e" using fn by simp_all
  ultimately show ?thesis using f by (simp only: ) (rule gives_post, assumption, simp only: replaced_def)
qed

lemma replaced_sons:
  assumes f: "robdd f" and n: "int n \<le> variable f" "l = 0 \<or> int n \<noteq> variable f" and i: "\<not> IS_TRUE_FALSE f"
    and r: "replaced n l (thenCase f) r" and e: "replaced n l (elseCase f) e"
  shows "r = e \<Longrightarrow> replaced n l f r"
    and "gives cache_ok (ite_xvar_y_z (ite_var (variable f)) r e) (replaced n l f)"
proof -
  note nf = node_facts [OF f i]
  have ev: "ev f (subst_lit n l a) = (if a (nat (variable f)) then ev r a else ev e a)" for a
  proof -
    have "subst_lit n l a (nat (variable f)) = a (nat (variable f))"
      using n nf(1) by (auto simp: subst_lit_def)
    then show ?thesis using nf(8) r e by (simp add: replaced_def is_node_def)
  qed
  have b: "robdd r" "robdd e" "variable r \<le> max (variable f) \<bar>l\<bar>" "variable e \<le> max (variable f) \<bar>l\<bar>"
    using r e nf(4,5) by (auto simp: replaced_def is_node_def)
  show "replaced n l f r" if "r = e"
    using b f that ev by (simp add: replaced_def is_node_def)
  have "computes (ite_xvar_y_z (ite_var (variable f)) r e) (max (variable f) \<bar>l\<bar>)
      (\<lambda>a. if ev (ite_var (variable f)) a then ev r a else ev e a)"
    by (rule ite_xvar_computes) (use b nf(1) in auto)
  then show "gives cache_ok (ite_xvar_y_z (ite_var (variable f)) r e) (replaced n l f)"
    using f ev nf(1) by (simp add: computes_gives replaced_def ev_ite_var lit_def gives_def)
qed

lemma u_num_replace_trav: "robdd f \<Longrightarrow> trav (replaced n l) (u_num_replace f n l) f"
proof (induction "size f" arbitrary: f rule: less_induct)
  case less
  note f = less.prems
  show ?case
    unfolding u_num_replace.simps [of f n l]
  proof (intro trav_if trav_return trav_visit_not gives_if replaced_below f)
    show "replaced n l (notCase f) r \<Longrightarrow> replaced n l f (notCase r)" for r by (rule replaced_not)
    fix D
    assume D: "above f D" and v: "\<not> int n > variable f"
    then have i: "\<not> IS_TRUE_FALSE f" by (auto simp: IS_TRUE_FALSE_def)
    note sons = size_sons [OF i]
    show "trip (keeps (replaced n l)) (insert f D)
        (ite_lift (ite_xvar_y_z (ite_var l) (thenCase f) (elseCase f))) (replaced n l f)"
      if "int n = variable f \<and> 0 < l"
      using replaced_top [OF f, of n l] that by (intro trip_ite_lift) simp
    show "trip (keeps (replaced n l)) (insert f D)
        (ite_lift (ite_xvar_y_z (ite_var (- l)) (elseCase f) (thenCase f))) (replaced n l f)"
      if "int n = variable f \<and> l < 0"
      using replaced_top [OF f, of n l] that by (intro trip_ite_lift) simp
    assume l: "\<not> (int n = variable f \<and> 0 < l)" "\<not> (int n = variable f \<and> l < 0)"
    show "trip (keeps (replaced n l)) (insert f D) (do {
           r \<leftarrow> u_num_replace (thenCase f) n l;
           e \<leftarrow> u_num_replace (elseCase f) n l;
           if r = e then State_Monad.return r
           else do {
             p \<leftarrow> ite_lift (ite_xvar_y_z (ite_var (variable f)) r e);
             ite_lift (itetable_add_node 11 (ite_var (variable f)) f p) } }) (replaced n l f)"
    proof (rule gives_bind [OF trav_son [OF less.hyps [OF sons(1)] D sons(1)]], rule robdd_sons [OF f],
        rule gives_bind [OF trav_son [OF less.hyps [OF sons(2)] D sons(2)]], rule robdd_sons [OF f])
      fix r e
      assume re: "replaced n l (thenCase f) r" "replaced n l (elseCase f) e"
      have n: "int n \<le> variable f" "l = 0 \<or> int n \<noteq> variable f" using v l by auto
      note step = replaced_sons [OF f n i re]
      show "trip (keeps (replaced n l)) (insert f D) (if r = e then State_Monad.return r
          else do {
            p \<leftarrow> ite_lift (ite_xvar_y_z (ite_var (variable f)) r e);
            ite_lift (itetable_add_node 11 (ite_var (variable f)) f p) }) (replaced n l f)"
        by (intro gives_if gives_return step(1) gives_bind [OF trip_ite_lift [OF step(2)]]
            trip_ite_lift gives_add) (auto simp: ite_entry_ok_def)
    qed
  qed
qed

lemma num_replace_gives: "robdd f \<Longrightarrow> gives st_ok (num_replace f n l) (replaced n l f)"
  unfolding num_replace_def by (rule gives_traversal [OF u_num_replace_trav]) simp_all

lemma num_replace_all_gives:
  assumes "\<forall>f \<in> set fs. robdd f" "distinct ks" "\<forall>k \<in> set ks. k < length fs"
  shows "gives st_ok (num_replace_all ks n l fs) (updated_all (replaced n l) ks fs)"
  unfolding num_replace_all_def
  by (rule gives_update_all) (use assms in \<open>auto intro: u_num_replace_trav\<close>)

section \<open>From BDDs to XDDs\<close>

function u_bdd2xdd :: "bdd \<Rightarrow> (bddst, bdd) state" where
  "u_bdd2xdd x =
     (if x = FalseP then State_Monad.return FalseP
      else if x = TrueP then State_Monad.return TrueP
      else visit x (do {
        r \<leftarrow> u_bdd2xdd (thenCase x);
        e \<leftarrow> u_bdd2xdd (elseCase x);
        r \<leftarrow> ite_lift (xddxor r e);
        if r = FalseP then State_Monad.return e
        else State_Monad.return (find_or_add_node (variable x) r e) }))"
  by pat_completeness auto
termination
  by (relation "measure size") (auto intro!: size_sons simp: IS_TRUE_FALSE_def)

declare u_bdd2xdd.simps [simp del]

definition bdd2xdd :: "bdd \<Rightarrow> (bddst, bdd) state" where
  "bdd2xdd x = do { _ \<leftarrow> start_bdd_flag_number BDD2XDD_FLAG_NUMBER; u_bdd2xdd x }"

lemma u_bdd2xdd_trav: "robdd x \<Longrightarrow> trav xdd_of (u_bdd2xdd x) x"
proof (induction "size x" arbitrary: x rule: less_induct)
  case less
  note x = less.prems
  show ?case
    unfolding u_bdd2xdd.simps [of x]
  proof (intro trav_if trav_return trav_visit)
    show "xdd_of x FalseP" if "x = FalseP" using that by (simp add: xdd_of_def is_xnode_def)
    show "xdd_of x TrueP" if "x = TrueP" using that by (simp add: xdd_of_def is_xnode_def)
    fix D
    assume D: "above x D" and "x \<noteq> FalseP" "x \<noteq> TrueP"
    then have i: "\<not> IS_TRUE_FALSE x" by (auto simp: IS_TRUE_FALSE_def)
    note sons = size_sons [OF i] and nf = node_facts [OF x i]
    show "trip (keeps xdd_of) (insert x D) (do {
        r \<leftarrow> u_bdd2xdd (thenCase x);
        e \<leftarrow> u_bdd2xdd (elseCase x);
        r \<leftarrow> ite_lift (xddxor r e);
        if r = FalseP then State_Monad.return e
        else State_Monad.return (find_or_add_node (variable x) r e) }) (xdd_of x)"
    proof (rule gives_bind [OF trav_son [OF less.hyps [OF sons(1)] D sons(1)]], rule nf(2),
        rule gives_bind [OF trav_son [OF less.hyps [OF sons(2)] D sons(2)]], rule nf(3))
      fix r e
      assume "xdd_of (thenCase x) r" "xdd_of (elseCase x) e"
      then have re: "is_xnode (variable (thenCase x)) (ev (thenCase x)) r"
          "is_xnode (variable (elseCase x)) (ev (elseCase x)) e" "xdd r" "xdd e"
        by (auto simp: xdd_of_def is_xnode_def)
      show "trip (keeps xdd_of) (insert x D) (do {
          r \<leftarrow> ite_lift (xddxor r e);
          if r = FalseP then State_Monad.return e
          else State_Monad.return (find_or_add_node (variable x) r e) }) (xdd_of x)"
      proof (rule gives_bind [OF trip_ite_lift [OF xddxor_gives [OF re(3,4)]]])
        fix p
        assume p: "xxor r e p"
        have "is_xnode (variable x - 1) (\<lambda>a. ev (thenCase x) a \<noteq> ev (elseCase x) a) p"
          using p re nf(4,5) by (auto simp: is_xnode_def)
        moreover have "ev x a = ((a (nat (variable x)) \<and> (ev (thenCase x) a \<noteq> ev (elseCase x) a)) \<noteq>
            ev (elseCase x) a)" for a
          unfolding nf(8) by auto
        ultimately have "p \<noteq> FalseP \<Longrightarrow> is_xnode (variable x) (ev x) (find_or_add_node (variable x) p e)"
          "p = FalseP \<Longrightarrow> is_xnode (variable x) (ev x) e"
          using is_xnode_Node [OF _ re(2) _ nf(5,1) order_refl] by simp_all
        then show "trip (keeps xdd_of) (insert x D) (if p = FalseP then State_Monad.return e
            else State_Monad.return (find_or_add_node (variable x) p e)) (xdd_of x)"
          using x by (intro gives_if gives_return) (auto simp: xdd_of_def)
      qed
    qed
  qed
qed

lemma bdd2xdd_gives: "robdd x \<Longrightarrow> gives st_ok (bdd2xdd x) (xdd_of x)"
  unfolding bdd2xdd_def by (rule gives_traversal_xdd [OF u_bdd2xdd_trav])

section \<open>Assigning a variable of an XDD\<close>

function u_set_variable_xdd :: "bdd \<Rightarrow> nat \<Rightarrow> bool \<Rightarrow> (bddst, bdd) state" where
  "u_set_variable_xdd f num torf =
     (if variable f < int num then State_Monad.return f
      else visit f
        (if variable f = int num then
           (if torf then ite_lift (xddxor (thenCase f) (elseCase f)) else State_Monad.return (elseCase f))
         else do {
           r \<leftarrow> u_set_variable_xdd (thenCase f) num torf;
           e \<leftarrow> u_set_variable_xdd (elseCase f) num torf;
           if r = FalseP then State_Monad.return e
           else State_Monad.return (find_or_add_node (variable f) r e) }))"
  by pat_completeness auto
termination
  by (relation "measure (\<lambda>(f, _, _). size f)")
    (auto intro!: size_sons simp: IS_TRUE_FALSE_def not_less)

declare u_set_variable_xdd.simps [simp del]

definition set_variable_xdd :: "bdd \<Rightarrow> nat \<Rightarrow> bool \<Rightarrow> (bddst, bdd) state" where
  "set_variable_xdd f num torf = do {
     _ \<leftarrow> start_bdd_flag_number SETVARIABLEXDD_FLAG_NUMBER; u_set_variable_xdd f num torf }"

definition xassigned :: "nat \<Rightarrow> bool \<Rightarrow> bdd \<Rightarrow> bdd \<Rightarrow> bool" where
  "xassigned n b f r \<longleftrightarrow> xdd f \<and> is_xnode (variable f) (\<lambda>a. xev f (a(n := b))) r"

lemma u_set_variable_xdd_trav: "xdd f \<Longrightarrow> trav (xassigned n b) (u_set_variable_xdd f n b) f"
proof (induction "size f" arbitrary: f rule: less_induct)
  case less
  note f = less.prems
  show ?case
    unfolding u_set_variable_xdd.simps [of f n b]
  proof (intro trav_if trav_return trav_visit gives_if)
    show "xassigned n b f f" if "variable f < int n"
      using f that by (simp add: xassigned_def is_xnode_def xev_upd_above)
    fix D
    assume D: "above f D" and v: "\<not> variable f < int n"
    then have i: "\<not> IS_TRUE_FALSE f" by (auto simp: IS_TRUE_FALSE_def)
    note sons = size_sons [OF i] and nf = xnode_facts [OF f i]
    show "trip (keeps (xassigned n b)) (insert f D) (ite_lift (xddxor (thenCase f) (elseCase f)))
        (xassigned n b f)" if "variable f = int n" b
    proof (rule trip_ite_lift, rule gives_post [OF xddxor_gives [OF nf(2,3)]])
      fix p
      assume "xxor (thenCase f) (elseCase f) p"
      then have "is_xnode (variable f) (\<lambda>a. xev f (a(n := b))) p"
        by (rule is_xnode_weaken) (use nf(4,5) xev_cofactors(2) [OF f that(1)] that(2) in simp_all)
      then show "xassigned n b f p" using f by (simp add: xassigned_def)
    qed
    show "trip (keeps (xassigned n b)) (insert f D) (State_Monad.return (elseCase f)) (xassigned n b f)"
      if "variable f = int n" "\<not> b"
    proof (rule gives_return)
      have "is_xnode (variable f) (\<lambda>a. xev f (a(n := b))) (elseCase f)"
        by (rule is_xnode_weaken [OF is_xnode_self [OF nf(3)]])
          (use nf(5) xev_cofactors(1) [OF f that(1)] that(2) in simp_all)
      then show "xassigned n b f (elseCase f)" using f by (simp add: xassigned_def)
    qed
    assume n: "variable f \<noteq> int n"
    show "trip (keeps (xassigned n b)) (insert f D) (do {
           r \<leftarrow> u_set_variable_xdd (thenCase f) n b;
           e \<leftarrow> u_set_variable_xdd (elseCase f) n b;
           if r = FalseP then State_Monad.return e
           else State_Monad.return (find_or_add_node (variable f) r e) }) (xassigned n b f)"
    proof (rule gives_bind [OF trav_son [OF less.hyps [OF sons(1)] D sons(1)]], rule nf(2),
        rule gives_bind [OF trav_son [OF less.hyps [OF sons(2)] D sons(2)]], rule nf(3))
      fix r e
      assume "xassigned n b (thenCase f) r" "xassigned n b (elseCase f) e"
      then have re: "is_xnode (variable (thenCase f)) (\<lambda>a. xev (thenCase f) (a(n := b))) r"
          "is_xnode (variable (elseCase f)) (\<lambda>a. xev (elseCase f) (a(n := b))) e"
        by (simp_all add: xassigned_def)
      have "xev f (a(n := b)) = ((a (nat (variable f)) \<and> xev (thenCase f) (a(n := b))) \<noteq>
          xev (elseCase f) (a(n := b)))" for a
      proof -
        have "(a(n := b)) (nat (variable f)) = a (nat (variable f))" using nf(1) n by auto
        then show ?thesis using nf(6) [of "a(n := b)"] by simp
      qed
      from is_xnode_Node [OF re nf(4,5,1) order_refl this]
      show "trip (keeps (xassigned n b)) (insert f D) (if r = FalseP then State_Monad.return e
           else State_Monad.return (find_or_add_node (variable f) r e)) (xassigned n b f)"
        using f by (intro gives_if gives_return) (auto simp: xassigned_def)
    qed
  qed
qed

lemma set_variable_xdd_gives: "xdd f \<Longrightarrow> gives st_ok (set_variable_xdd f n b) (xassigned n b f)"
  unfolding set_variable_xdd_def by (rule gives_traversal [OF u_set_variable_xdd_trav]) simp_all

end
