(* ===== verification/Bddvars.thy ===== *)
theory Bddvars
  imports Bddprune Bddreplace
begin

text \<open>
  Routines of utils/bdd.cc that work on the variable lists of functions: collecting the variables
  of a BDD, comparing the lists of two functions, and quantifying away the variables that one
  function does not share with another before the two are combined.
\<close>

section \<open>Collecting the variables\<close>

text \<open>
  \<open>_unravelBDD\<close> appends the variables it meets to \<open>tempint\<close>; the symbol table's mark of a variable
  says that it is there already. The list is the first \<open>y\<close> cells of the array.
\<close>

definition note_variable :: "nat \<Rightarrow> nat list \<Rightarrow> (bddst, nat list) state" where
  "note_variable v tempint = State (\<lambda>s.
     if sym_flag s v then (tempint, s)
     else (tempint @ [v], s\<lparr>sym_flag := (sym_flag s)(v := True)\<rparr>))"

definition if_visited :: "bdd \<Rightarrow> 'a \<Rightarrow> (bddst, 'a) state \<Rightarrow> (bddst, 'a) state" where
  "if_visited f r m = State (\<lambda>s.
     if flag s f = bdd_flag_number s then (r, s)
     else if flag s (notCase f) = bdd_flag_number s then (r, s)
     else run_state m s)"

primrec u_unravelBDD :: "bdd \<Rightarrow> nat list \<Rightarrow> (bddst, nat list) state" where
  "u_unravelBDD FalseP tempint =
     if_visited FalseP tempint (do { _ \<leftarrow> set_mark FalseP; State_Monad.return tempint })"
| "u_unravelBDD TrueP tempint =
     if_visited TrueP tempint (do { _ \<leftarrow> set_mark TrueP; State_Monad.return tempint })"
| "u_unravelBDD (Node v t e) tempint = if_visited (Node v t e) tempint (do {
     _ \<leftarrow> set_mark (Node v t e);
     tempint \<leftarrow> note_variable v tempint;
     tempint \<leftarrow> u_unravelBDD t tempint;
     u_unravelBDD e tempint })"

definition sym_reset_flags :: "nat list \<Rightarrow> (bddst, unit) state" where
  "sym_reset_flags tempint = State (\<lambda>s.
     ((), s\<lparr>sym_flag := foldl (\<lambda>m v. m(v := False)) (sym_flag s) tempint\<rparr>))"

definition unravelBDD :: "bdd \<Rightarrow> (bddst, nat list) state" where
  "unravelBDD f = do {
     _ \<leftarrow> start_bdd_flag_number UNRAVELBDD_FLAG_NUMBER;
     tempint \<leftarrow> u_unravelBDD f [];
     _ \<leftarrow> sym_reset_flags tempint;
     State_Monad.return tempint }"

definition unravel_ok :: "bdd set \<Rightarrow> nat list \<Rightarrow> bddst \<Rightarrow> bool" where
  "unravel_ok D ys s \<longleftrightarrow> cache_ok (itet s) \<and> gc_runs s \<and> 2 \<le> bdd_flag_number s \<and>
     (\<forall>g. flag s g \<le> bdd_flag_number s) \<and> (\<forall>k. last_bdd_flag_number s k \<le> bdd_flag_number s) \<and>
     last_bdd_flag_number s BDD2XDD_FLAG_NUMBER \<noteq> bdd_flag_number s \<and>
     (\<forall>g. flag s g = bdd_flag_number s \<longrightarrow> g \<notin> D \<longrightarrow> bvars g \<subseteq> set ys) \<and>
     (\<forall>v. sym_flag s v \<longleftrightarrow> v \<in> set ys) \<and> distinct ys"

lemma unravel_mark:
  "unravel_ok D ys s \<Longrightarrow> run_state (set_mark f) s = (u, s') \<Longrightarrow> unravel_ok (insert f D) ys s'"
  by (auto simp: unravel_ok_def set_mark_def)

lemma unravel_unmark: "unravel_ok (insert f D) ys s \<Longrightarrow> bvars f \<subseteq> set ys \<Longrightarrow> unravel_ok D ys s"
  by (auto simp: unravel_ok_def)

lemma unravel_note: "unravel_ok D ys s \<Longrightarrow> run_state (note_variable v ys) s = (zs, s') \<Longrightarrow>
    unravel_ok D zs s' \<and> set zs = insert v (set ys)"
  by (auto simp: unravel_ok_def note_variable_def split: if_splits) blast+

lemma unravel_visited:
  assumes ok: "unravel_ok D ys s" and f: "above f D" and run: "run_state (if_visited f ys m) s = (zs, s')"
    and m: "run_state m s = (zs, s') \<Longrightarrow> unravel_ok D zs s' \<and> set zs = set ys \<union> bvars f"
  shows "unravel_ok D zs s' \<and> set zs = set ys \<union> bvars f"
proof (cases "flag s f = bdd_flag_number s \<or> flag s (notCase f) = bdd_flag_number s")
  case True
  then have "bvars f \<subseteq> set ys \<or> bvars (notCase f) \<subseteq> set ys"
    using ok above_notin [OF f] unfolding unravel_ok_def by blast
  then have "bvars f \<subseteq> set ys" by simp
  moreover have "zs = ys" "s' = s" using run True by (auto simp: if_visited_def split: if_splits)
  ultimately show ?thesis using ok by auto
next
  case False
  then show ?thesis using run m by (simp add: if_visited_def)
qed

lemma unravel_leaf:
  assumes ok: "unravel_ok D ys s" and f: "bvars f = {}"
    and run: "run_state (do { _ \<leftarrow> set_mark f; State_Monad.return ys }) s = (zs, s')"
  shows "unravel_ok D zs s' \<and> set zs = set ys \<union> bvars f"
proof -
  obtain u s1 where s1: "run_state (set_mark f) s = (u, s1)" by (metis surj_pair)
  then have "zs = ys" "s' = s1" using run by simp_all
  then show ?thesis using unravel_unmark [OF unravel_mark [OF ok s1]] f by simp
qed

lemma u_unravelBDD_ok:
  "unravel_ok D ys s \<Longrightarrow> above f D \<Longrightarrow> run_state (u_unravelBDD f ys) s = (zs, s') \<Longrightarrow>
    unravel_ok D zs s' \<and> set zs = set ys \<union> bvars f"
proof (induction f arbitrary: D ys s zs s')
  case (Node v t e)
  show ?case
  proof (rule unravel_visited [OF Node.prems(1,2) Node.prems(3) [unfolded u_unravelBDD.simps]])
    let ?f = "Node v t e" and ?D = "insert (Node v t e) D"
    assume run: "run_state (do {
       _ \<leftarrow> set_mark ?f; tempint \<leftarrow> note_variable v ys; tempint \<leftarrow> u_unravelBDD t tempint;
       u_unravelBDD e tempint }) s = (zs, s')"
    obtain u s1 where s1: "run_state (set_mark ?f) s = (u, s1)" by (metis surj_pair)
    obtain y2 s2 where s2: "run_state (note_variable v ys) s1 = (y2, s2)" by (metis surj_pair)
    obtain y3 s3 where s3: "run_state (u_unravelBDD t y2) s2 = (y3, s3)" by (metis surj_pair)
    have last: "run_state (u_unravelBDD e y3) s3 = (zs, s')" using run s1 s2 s3 by simp
    have above: "above t ?D" "above e ?D" using above_son [OF Node.prems(2)] by simp_all
    note n = unravel_note [OF unravel_mark [OF Node.prems(1) s1] s2]
    note t = Node.IH(1) [OF conjunct1 [OF n] above(1) s3]
    note e = Node.IH(2) [OF conjunct1 [OF t] above(2) last]
    then show "unravel_ok D zs s' \<and> set zs = set ys \<union> bvars ?f"
      using n t by (auto intro: unravel_unmark)
  qed
next
  case FalseP
  show ?case
    by (rule unravel_visited [OF FalseP(1,2) FalseP(3) [unfolded u_unravelBDD.simps]])
      (rule unravel_leaf [OF FalseP(1)], simp_all)
next
  case TrueP
  show ?case
    by (rule unravel_visited [OF TrueP(1,2) TrueP(3) [unfolded u_unravelBDD.simps]])
      (rule unravel_leaf [OF TrueP(1)], simp_all)
qed

lemma foldl_reset: "foldl (\<lambda>m v. m(v := False)) m ys v = (v \<notin> set ys \<and> m v)"
  by (induction ys arbitrary: m) auto

lemma unravelBDD_gives: "gives st_ok (unravelBDD f) (\<lambda>ys. distinct ys \<and> set ys = bvars f)"
proof (rule givesI)
  fix s ys s'
  assume ok: "st_ok s" and run: "run_state (unravelBDD f) s = (ys, s')"
  obtain u s1 where s1: "run_state (start_bdd_flag_number UNRAVELBDD_FLAG_NUMBER) s = (u, s1)"
    by (metis surj_pair)
  obtain zs s2 where s2: "run_state (u_unravelBDD f []) s1 = (zs, s2)" by (metis surj_pair)
  have "marks_ok (\<lambda>_ _. True) {} s1" "\<forall>g. flag s1 g \<noteq> bdd_flag_number s1"
    by (rule start_fresh [OF ok _ s1]; simp)+
  moreover have "\<not> (\<forall>g t. True \<longrightarrow> keeps xdd_of g t)"
    by (auto simp: keeps_def xdd_of_def intro!: exI [of _ "Tmp_int 0"])
  ultimately have "unravel_ok {} [] s1" by (auto simp: marks_ok_def unravel_ok_def)
  then have z: "unravel_ok {} zs s2" "set zs = bvars f"
    using u_unravelBDD_ok [OF _ _ s2] by (auto simp: above_def)
  have "ys = zs" "s' = s2\<lparr>sym_flag := foldl (\<lambda>m v. m(v := False)) (sym_flag s2) zs\<rparr>"
    using run s1 s2 by (auto simp: unravelBDD_def sym_reset_flags_def)
  then show "(distinct ys \<and> set ys = bvars f) \<and> st_ok s'"
    using z by (auto simp: unravel_ok_def st_ok_def foldl_reset)
qed

section \<open>Quantifying the variables that are not shared\<close>

text \<open>The merge of two ascending variable lists that \<open>strengthen_fun\<close>, \<open>restrictx\<close> and
  \<open>remove_fpsx\<close> share: the second function loses every variable that the first list lacks.\<close>

fun quantify_unshared :: "nat list \<Rightarrow> nat list \<Rightarrow> bdd \<Rightarrow> (bddst, bdd) state" where
  "quantify_unshared (v1 # vs1) (v2 # vs2) quantifiedBDD2 =
     (if v1 < v2 then quantify_unshared vs1 (v2 # vs2) quantifiedBDD2
      else if v1 = v2 then quantify_unshared vs1 vs2 quantifiedBDD2
      else do {
        quantifiedBDD2 \<leftarrow> xquantify quantifiedBDD2 v2;
        quantify_unshared (v1 # vs1) vs2 quantifiedBDD2 })"
| "quantify_unshared [] (v2 # vs2) quantifiedBDD2 = do {
     quantifiedBDD2 \<leftarrow> xquantify quantifiedBDD2 v2;
     quantify_unshared [] vs2 quantifiedBDD2 }"
| "quantify_unshared vs1 [] quantifiedBDD2 = State_Monad.return quantifiedBDD2"

definition strengthen_fun :: "bdd \<Rightarrow> bdd \<Rightarrow> (bddst, bdd) state" where
  "strengthen_fun bddNmbr1 bddNmbr2 = do {
     tempint \<leftarrow> unravelBDD bddNmbr1;
     let vars1 = sort tempint;
     tempint \<leftarrow> unravelBDD bddNmbr2;
     let vars2 = sort tempint;
     quantifiedBDD2 \<leftarrow> quantify_unshared vars1 vars2 bddNmbr2;
     ite_lift (ite_and bddNmbr1 quantifiedBDD2) }"

text \<open>\<open>ex_vars W \<phi>\<close>: some values of the variables in \<open>W\<close> satisfy \<open>\<phi>\<close>.\<close>

definition ex_vars :: "nat set \<Rightarrow> (assignment \<Rightarrow> bool) \<Rightarrow> assignment \<Rightarrow> bool" where
  "ex_vars W \<phi> a \<longleftrightarrow> (\<exists>b. (\<forall>v. v \<notin> W \<longrightarrow> b v = a v) \<and> \<phi> b)"

lemma ex_vars_empty [simp]: "ex_vars {} \<phi> a = \<phi> a"
proof -
  have "b = a" if "\<forall>v. b v = a v" for b :: assignment using that by auto
  then show ?thesis by (auto simp: ex_vars_def)
qed

lemma ex_vars_insert: "ex_vars (insert v W) \<phi> a = (\<exists>c. ex_vars W \<phi> (a(v := c)))"
proof
  assume "ex_vars (insert v W) \<phi> a"
  then obtain b where "\<forall>w. w \<notin> insert v W \<longrightarrow> b w = a w" "\<phi> b" by (auto simp: ex_vars_def)
  then have "ex_vars W \<phi> (a(v := b v))" unfolding ex_vars_def by (intro exI [of _ b]) auto
  then show "\<exists>c. ex_vars W \<phi> (a(v := c))" by blast
next
  assume "\<exists>c. ex_vars W \<phi> (a(v := c))"
  then obtain b c where b: "\<forall>w. w \<notin> W \<longrightarrow> b w = (a(v := c)) w" "\<phi> b" by (auto simp: ex_vars_def)
  have "b w = a w" if "w \<notin> insert v W" for w using b(1) that by auto
  then show "ex_vars (insert v W) \<phi> a" using b(2) unfolding ex_vars_def by blast
qed

lemma ex_vars_insert2: "ex_vars (insert v W) \<phi> a = ex_vars W (\<lambda>a. \<exists>c. \<phi> (a(v := c))) a"
proof
  assume "ex_vars (insert v W) \<phi> a"
  then obtain b where b: "\<forall>w. w \<notin> insert v W \<longrightarrow> b w = a w" "\<phi> b" by (auto simp: ex_vars_def)
  define b' where "b' = b(v := if v \<in> W then b v else a v)"
  have "b'(v := b v) = b" by (simp add: b'_def)
  moreover have "\<forall>w. w \<notin> W \<longrightarrow> b' w = a w" using b(1) by (auto simp: b'_def)
  ultimately show "ex_vars W (\<lambda>a. \<exists>c. \<phi> (a(v := c))) a"
    unfolding ex_vars_def using b(2) by (intro exI [of _ b']) (auto intro!: exI [of _ "b v"])
next
  assume "ex_vars W (\<lambda>a. \<exists>c. \<phi> (a(v := c))) a"
  then obtain b c where b: "\<forall>w. w \<notin> W \<longrightarrow> b w = a w" "\<phi> (b(v := c))" by (auto simp: ex_vars_def)
  have "(b(v := c)) w = a w" if "w \<notin> insert v W" for w using b(1) that by auto
  then show "ex_vars (insert v W) \<phi> a" using b(2) unfolding ex_vars_def by blast
qed

lemma ex_vars_self: "\<phi> a \<Longrightarrow> ex_vars W \<phi> a"
  by (auto simp: ex_vars_def)

lemma ex_vars_upd:
  assumes h: "v \<in> W \<or> (\<forall>a c. \<phi> (a(v := c)) = \<phi> a)" and ex: "ex_vars W \<phi> (a(v := c))"
  shows "ex_vars W \<phi> a"
proof -
  obtain b where b: "\<forall>w. w \<notin> W \<longrightarrow> b w = (a(v := c)) w" "\<phi> b" using ex by (auto simp: ex_vars_def)
  show ?thesis
  proof (cases "v \<in> W")
    case True
    then have "\<forall>w. w \<notin> W \<longrightarrow> b w = a w" using b(1) by (metis fun_upd_apply)
    then show ?thesis using b(2) by (auto simp: ex_vars_def)
  next
    case False
    then have "\<phi> (b(v := a v))" using h b(2) by blast
    moreover have "\<forall>w. w \<notin> W \<longrightarrow> (b(v := a v)) w = a w" using b(1) by auto
    ultimately show ?thesis unfolding ex_vars_def by blast
  qed
qed

lemma ex_vars_indep:
  assumes "v \<in> W \<or> (\<forall>a c. \<phi> (a(v := c)) = \<phi> a)"
  shows "ex_vars W \<phi> (a(v := c)) = ex_vars W \<phi> a"
  using ex_vars_upd [OF assms, of a c] ex_vars_upd [OF assms, of "a(v := c)" "a v"] by auto

lemma quantify_step:
  assumes f: "robdd f" and v: "0 < v"
    and IH: "\<And>q. robdd q \<Longrightarrow> gives st_ok (k q) (is_node (variable q) (ex_vars W (ev q)))"
  shows "gives st_ok (do { q \<leftarrow> xquantify f v; k q }) (is_node (variable f) (ex_vars (insert v W) (ev f)))"
proof (rule gives_bind [OF xquantify_gives [OF f v]])
  fix q
  assume "exists_var v f q"
  then have q: "robdd q" "variable q \<le> variable f" "ev q = (\<lambda>a. \<exists>b. ev f (a(v := b)))"
    by (auto simp: exists_var_def is_node_def fun_eq_iff)
  show "gives st_ok (k q) (is_node (variable f) (ex_vars (insert v W) (ev f)))"
    by (rule gives_post [OF IH [OF q(1)]])
      (use q(2) in \<open>auto simp: is_node_def ex_vars_insert2 q(3)\<close>)
qed

lemma quantify_unshared_gives:
  "robdd f \<Longrightarrow> sorted_wrt (<) vs1 \<Longrightarrow> sorted_wrt (<) vs2 \<Longrightarrow> 0 \<notin> set vs2 \<Longrightarrow>
    gives st_ok (quantify_unshared vs1 vs2 f) (is_node (variable f) (ex_vars (set vs2 - set vs1) (ev f)))"
proof (induction vs1 vs2 f rule: quantify_unshared.induct)
  case (1 v1 vs1 v2 vs2 f)
  consider (lt) "v1 < v2" | (eq) "v1 = v2" | (gt) "v2 < v1" by linarith
  then show ?case
  proof cases
    case lt
    then have "set (v2 # vs2) - set (v1 # vs1) = set (v2 # vs2) - set vs1"
      using "1.prems"(3) by auto
    then show ?thesis using "1.IH"(1) "1.prems" lt by simp
  next
    case eq
    then have "set (v2 # vs2) - set (v1 # vs1) = set vs2 - set vs1"
      using "1.prems"(3) by auto
    then show ?thesis using "1.IH"(2) "1.prems" eq by simp
  next
    case gt
    then have set: "set (v2 # vs2) - set (v1 # vs1) = insert v2 (set vs2 - set (v1 # vs1))"
      using "1.prems"(2) by auto
    have "gives st_ok (quantify_unshared (v1 # vs1) vs2 q)
        (is_node (variable q) (ex_vars (set vs2 - set (v1 # vs1)) (ev q)))" if "robdd q" for q
      using "1.IH"(3) "1.prems" gt that by simp
    from quantify_step [OF "1.prems"(1) _ this] show ?thesis
      unfolding set using gt "1.prems"(4) by simp
  qed
next
  case (2 v2 vs2 f)
  have "gives st_ok (quantify_unshared [] vs2 q) (is_node (variable q) (ex_vars (set vs2 - {}) (ev q)))"
    if "robdd q" for q
    using "2.IH" "2.prems" that by simp
  from quantify_step [OF "2.prems"(1) _ this] show ?case using "2.prems"(4) by simp
qed (simp add: gives_return is_node_def ext)

text \<open>What the routines built on the merge return: the conjunction with the second function does
  not change, and no variable is added to the first.\<close>

lemma strengthen_fun_gives:
  assumes f: "robdd f1" "robdd f2"
  shows "gives st_ok (strengthen_fun f1 f2)
    (\<lambda>r. robdd r \<and> bvars r \<subseteq> bvars f1 \<and>
      (\<forall>a. ev r a \<longleftrightarrow> ev f1 a \<and> ex_vars (bvars f2 - bvars f1) (ev f2) a))"
proof -
  let ?W = "bvars f2 - bvars f1"
  have "gives st_ok (do { q \<leftarrow> quantify_unshared (sort xs) (sort ys) f2; ite_lift (ite_and f1 q) })
      (\<lambda>r. robdd r \<and> bvars r \<subseteq> bvars f1 \<and> (\<forall>a. ev r a \<longleftrightarrow> ev f1 a \<and> ex_vars ?W (ev f2) a))"
    if xs: "distinct xs" "set xs = bvars f1" and ys: "distinct ys" "set ys = bvars f2" for xs ys
  proof -
    have "sorted_wrt (<) (sort xs)" "sorted_wrt (<) (sort ys)" "0 \<notin> set (sort ys)"
      using xs ys bvars_le_variable [OF f(2)] by (auto simp: strict_sorted_iff)
    from quantify_unshared_gives [OF f(2) this]
    have "gives st_ok (quantify_unshared (sort xs) (sort ys) f2) (is_node (variable f2) (ex_vars ?W (ev f2)))"
      using xs ys by simp
    then show ?thesis
    proof (rule gives_bind)
      fix q
      assume q: "is_node (variable f2) (ex_vars ?W (ev f2)) q"
      define B where "B = max (variable f1) (variable q)"
      have "gives cache_ok (ite_and f1 q) (is_node B (\<lambda>a. ev f1 a \<and> ev q a))"
        using ite_and_computes [of f1 q B] f q by (simp add: computes_gives is_node_def B_def)
      then show "gives st_ok (ite_lift (ite_and f1 q))
          (\<lambda>r. robdd r \<and> bvars r \<subseteq> bvars f1 \<and> (\<forall>a. ev r a \<longleftrightarrow> ev f1 a \<and> ex_vars ?W (ev f2) a))"
      proof (rule gives_post [OF st_ite_lift])
        fix r
        assume r: "is_node B (\<lambda>a. ev f1 a \<and> ev q a) r"
        then have r': "is_node B (\<lambda>a. ev f1 a \<and> ex_vars ?W (ev f2) a) r"
          using q by (simp add: is_node_def)
        have "bvars r \<subseteq> bvars f1"
        proof (rule is_node_bvars [OF r'])
          fix v a b
          assume v: "v \<notin> bvars f1"
          then have "ex_vars ?W (ev f2) (a(v := b)) = ex_vars ?W (ev f2) a"
            by (intro ex_vars_indep) auto
          then show "(ev f1 (a(v := b)) \<and> ex_vars ?W (ev f2) (a(v := b))) =
              (ev f1 a \<and> ex_vars ?W (ev f2) a)" using v by simp
        qed
        then show "robdd r \<and> bvars r \<subseteq> bvars f1 \<and> (\<forall>a. ev r a \<longleftrightarrow> ev f1 a \<and> ex_vars ?W (ev f2) a)"
          using r' by (simp add: is_node_def)
      qed
    qed
  qed
  then show ?thesis
    unfolding strengthen_fun_def Let_def
    by (intro gives_bind [OF unravelBDD_gives]) auto
qed

section \<open>Restricting one function by another\<close>

text \<open>
  The global arrays \<open>functions\<close> (\<open>fns\<close> here), \<open>length\<close> and \<open>variables\<close>: the functions whose conjunction is the
  problem, and for each its ascending variable list (\<open>length\<close> is the length of the list).
\<close>

record circuit =
  fns :: "bdd list"
  variables :: "nat list list"

definition restrictx ::
  "nat \<Rightarrow> nat \<Rightarrow> circuit \<Rightarrow> bddst \<Rightarrow> ((bdd \<times> circuit) \<times> bddst) option" where
  "restrictx bddNmbr1 bddNmbr2 C s = do {
     (quantifiedBDD2, s) \<leftarrow>
       call (quantify_unshared (variables C ! bddNmbr1) (variables C ! bddNmbr2) (fns C ! bddNmbr2)) s;
     if quantifiedBDD2 = fns C ! bddNmbr2 then
       (let C = C\<lparr>fns := (fns C)[bddNmbr2 := TrueP],
                  variables := (variables C)[bddNmbr2 := []]\<rparr> in do {
          (r, s) \<leftarrow> call (ite_lift (ite_and (fns C ! bddNmbr1) quantifiedBDD2)) s;
          Some ((r, C), s) })
     else do {
       (r, T) \<leftarrow> bddrestrict (fns C ! bddNmbr1) quantifiedBDD2 (itet s);
       Some ((r, C), s\<lparr>itet := T\<rparr>) } }"

definition remove_fpsx ::
  "nat \<Rightarrow> nat \<Rightarrow> circuit \<Rightarrow> bddst \<Rightarrow> ((bdd \<times> circuit) \<times> bddst) option" where
  "remove_fpsx bddNmbr1 bddNmbr2 C s = do {
     (quantifiedBDD2, s) \<leftarrow>
       call (quantify_unshared (variables C ! bddNmbr1) (variables C ! bddNmbr2) (fns C ! bddNmbr2)) s;
     if quantifiedBDD2 = fns C ! bddNmbr2 then
       (let C = C\<lparr>fns := (fns C)[bddNmbr2 := TrueP],
                  variables := (variables C)[bddNmbr2 := []]\<rparr> in do {
          (r, s) \<leftarrow> call (ite_lift (ite_and (fns C ! bddNmbr1) quantifiedBDD2)) s;
          Some ((r, C), s) })
     else do {
       (r, T) \<leftarrow> remove_fps (fns C ! bddNmbr1) quantifiedBDD2 (itet s);
       Some ((r, C), s\<lparr>itet := T\<rparr>) } }"

definition holds_all :: "bdd list \<Rightarrow> assignment \<Rightarrow> bool" where
  "holds_all fs a \<longleftrightarrow> (\<forall>f \<in> set fs. ev f a)"

definition circuit_ok :: "circuit \<Rightarrow> bool" where
  "circuit_ok C \<longleftrightarrow> length (variables C) = length (fns C) \<and>
     (\<forall>f \<in> set (fns C). robdd f) \<and>
     (\<forall>vs \<in> set (variables C). sorted_wrt (<) vs \<and> 0 \<notin> set vs)"

text \<open>Storing the result in the first place leaves the conjunction of all functions as it was.\<close>

definition replaces :: "nat \<Rightarrow> circuit \<Rightarrow> bdd \<times> circuit \<Rightarrow> bool" where
  "replaces i C rC \<longleftrightarrow> robdd (fst rC) \<and> circuit_ok (snd rC) \<and>
     length (fns (snd rC)) = length (fns C) \<and>
     (\<forall>a. holds_all ((fns (snd rC))[i := fst rC]) a = holds_all (fns C) a)"

lemma holds_all_update:
  assumes "i < length fs"
  shows "holds_all (fs[i := f]) a \<longleftrightarrow> ev f a \<and> (\<forall>j < length fs. j \<noteq> i \<longrightarrow> ev (fs ! j) a)"
  unfolding holds_all_def all_set_conv_all_nth using assms by (auto simp: nth_list_update)

lemma holds_all_split: "i < length fs \<Longrightarrow>
    holds_all fs a \<longleftrightarrow> ev (fs ! i) a \<and> (\<forall>j < length fs. j \<noteq> i \<longrightarrow> ev (fs ! j) a)"
  using holds_all_update [of i fs "fs ! i" a] by simp

lemma replaces_agree:
  assumes C: "circuit_ok C" and i: "i < length (fns C)" "j < length (fns C)" "i \<noteq> j"
    and r: "agree S q (fns C ! i) r" and q: "\<And>a. ev (fns C ! j) a \<Longrightarrow> ev q a"
  shows "replaces i C (r, C)"
proof -
  have "holds_all ((fns C)[i := r]) a = holds_all (fns C) a" for a
    unfolding holds_all_update [OF i(1)] holds_all_split [OF i(1)]
    using r q i(2,3) by (auto simp: agree_def)
  then show ?thesis using C r by (simp add: replaces_def agree_def)
qed

lemma replaces_conj:
  assumes C: "circuit_ok C" and i: "i < length (fns C)" "j < length (fns C)"
    and C': "C' = C\<lparr>fns := (fns C)[j := TrueP], variables := (variables C)[j := []]\<rparr>"
    and r: "robdd r" "\<And>a. ev r a \<longleftrightarrow> ev (fns C' ! i) a \<and> ev (fns C ! j) a"
  shows "replaces i C (r, C')"
proof -
  let ?fs = "fns C" and ?gs = "(fns C)[j := TrueP]"
  have ok: "circuit_ok C'"
    using C by (auto simp: circuit_ok_def C' dest!: set_update_subset_insert [THEN subsetD])
  have "holds_all (?gs[i := r]) a = holds_all ?fs a" for a
  proof -
    have "holds_all (?gs[i := r]) a \<longleftrightarrow> holds_all ?gs a \<and> ev (?fs ! j) a"
      using i(1) r(2) [of a] holds_all_update [of i ?gs r a] holds_all_split [of i ?gs a] by (auto simp: C')
    also have "\<dots> \<longleftrightarrow> holds_all ?fs a"
      using holds_all_update [OF i(2), of TrueP a] holds_all_split [OF i(2), of a] by auto
    finally show ?thesis .
  qed
  then show ?thesis using ok r(1) by (simp add: replaces_def C')
qed

lemma quantify_unshared_circuit:
  assumes C: "circuit_ok C" and i: "i < length (fns C)" "j < length (fns C)"
  shows "gives st_ok (quantify_unshared (variables C ! i) (variables C ! j) (fns C ! j))
    (\<lambda>q. robdd q \<and> (\<forall>a. ev (fns C ! j) a \<longrightarrow> ev q a))"
proof -
  have "robdd (fns C ! j)" "sorted_wrt (<) (variables C ! i)" "sorted_wrt (<) (variables C ! j)"
    "0 \<notin> set (variables C ! j)"
    using C i by (auto simp: circuit_ok_def)
  from quantify_unshared_gives [OF this] show ?thesis
    by (rule gives_post) (auto simp: is_node_def ex_vars_self)
qed

text \<open>The proof of both routines; \<open>rec\<close> is \<open>bddrestrict\<close> or \<open>remove_fps\<close>.\<close>

lemma quantified_replaces:
  assumes C: "circuit_ok C" and i: "i < length (fns C)" "j < length (fns C)" "i \<noteq> j"
    and rec: "\<And>q. robdd q \<Longrightarrow> ogives cache_ok (rec (fns C ! i) q) (agree (S q) q (fns C ! i))"
  shows "ogives st_ok (\<lambda>s. do {
     (q, s) \<leftarrow> call (quantify_unshared (variables C ! i) (variables C ! j) (fns C ! j)) s;
     if q = fns C ! j then
       (let C = C\<lparr>fns := (fns C)[j := TrueP], variables := (variables C)[j := []]\<rparr> in do {
          (r, s) \<leftarrow> call (ite_lift (ite_and (fns C ! i) q)) s;
          Some ((r, C), s) })
     else do {
       (r, T) \<leftarrow> rec (fns C ! i) q (itet s);
       Some ((r, C), s\<lparr>itet := T\<rparr>) } }) (replaces i C)"
proof (rule ogives_bind [OF ogives_call [OF quantify_unshared_circuit [OF C i(1,2)]]],
    unfold Let_def, rule ogives_if)
  fix q
  assume q: "robdd q \<and> (\<forall>a. ev (fns C ! j) a \<longrightarrow> ev q a)"
  let ?C = "C\<lparr>fns := (fns C)[j := TrueP], variables := (variables C)[j := []]\<rparr>"
  have f: "robdd (fns ?C ! i)" using C i by (simp add: circuit_ok_def)
  define B where "B = max (variable (fns ?C ! i)) (variable q)"
  have "gives cache_ok (ite_and (fns ?C ! i) q) (is_node B (\<lambda>a. ev (fns ?C ! i) a \<and> ev q a))"
    using ite_and_computes [OF f, of q B] q by (simp add: computes_gives B_def)
  then show "ogives st_ok (\<lambda>s. do {
      (r, s) \<leftarrow> call (ite_lift (ite_and (fns ?C ! i) q)) s; Some ((r, ?C), s) }) (replaces i C)"
    if "q = fns C ! j"
  proof (intro ogives_bind [OF ogives_call [OF st_ite_lift]] ogives_return)
    show "replaces i C (r, ?C)" if "is_node B (\<lambda>a. ev (fns ?C ! i) a \<and> ev q a) r" for r
      by (rule replaces_conj [OF C i(1,2) refl]) (use that \<open>q = fns C ! j\<close> in \<open>auto simp: is_node_def\<close>)
  qed
  show "ogives st_ok (\<lambda>s. do { (r, T) \<leftarrow> rec (fns C ! i) q (itet s); Some ((r, C), s\<lparr>itet := T\<rparr>) })
      (replaces i C)"
    unfolding ogives_def
  proof (intro allI impI)
    fix s
    assume s: "st_ok s"
    then have "cache_ok (itet s)" by (simp add: st_ok_def)
    then obtain r T where r: "rec (fns C ! i) q (itet s) = Some (r, T)"
        "agree (S q) q (fns C ! i) r" "cache_ok T"
      using ogives_run [OF rec] q by blast
    then show "\<exists>a s'. do { (r, T) \<leftarrow> rec (fns C ! i) q (itet s); Some ((r, C), s\<lparr>itet := T\<rparr>) }
        = Some (a, s') \<and> replaces i C a \<and> st_ok s'"
      using replaces_agree [OF C i r(2)] q s by (simp add: st_ok_def)
  qed
qed

lemma restrictx_replaces:
  assumes C: "circuit_ok C" and i: "i < length (fns C)" "j < length (fns C)" "i \<noteq> j"
  shows "ogives st_ok (restrictx i j C) (replaces i C)"
proof -
  have "robdd (fns C ! i)" using C i by (simp add: circuit_ok_def)
  from quantified_replaces [OF C i, where rec = bddrestrict, OF bddrestrict_agree [OF this]]
  show ?thesis unfolding restrictx_def .
qed

lemma remove_fpsx_replaces:
  assumes C: "circuit_ok C" and i: "i < length (fns C)" "j < length (fns C)" "i \<noteq> j"
  shows "ogives st_ok (remove_fpsx i j C) (replaces i C)"
proof -
  have "robdd (fns C ! i)" using C i by (simp add: circuit_ok_def)
  from quantified_replaces [OF C i, where rec = remove_fps, OF remove_fps_agree [OF this]]
  show ?thesis unfolding remove_fpsx_def .
qed

section \<open>Variables in common\<close>

text \<open>
  \<open>nmbrVarsInCommon\<close> says whether two functions share at least \<open>STOPAT\<close> variables. Its nested
  loops advance the position of the smaller number; the bounds \<open>bdd1max\<close> and \<open>bdd2max\<close> stop it as
  soon as too few numbers are left. None is a read outside an array.
\<close>

function common_loop :: "nat list \<Rightarrow> nat list \<Rightarrow> nat \<Rightarrow> nat \<Rightarrow> nat \<Rightarrow> nat \<Rightarrow> nat \<Rightarrow> nat \<Rightarrow> bool option" where
  "common_loop xs ys bdd1pos bdd2pos varsSoFar bdd1max bdd2max STOPAT =
     (if length xs \<le> bdd1pos \<or> length ys \<le> bdd2pos then None
      else if xs ! bdd1pos < ys ! bdd2pos then
        (if bdd1pos + 1 = bdd1max then Some False
         else common_loop xs ys (bdd1pos + 1) bdd2pos varsSoFar bdd1max bdd2max STOPAT)
      else if xs ! bdd1pos > ys ! bdd2pos then
        (if bdd2pos + 1 = bdd2max then Some False
         else common_loop xs ys bdd1pos (bdd2pos + 1) varsSoFar bdd1max bdd2max STOPAT)
      else if varsSoFar + 1 = STOPAT then Some True
      else common_loop xs ys (bdd1pos + 1) (bdd2pos + 1) (varsSoFar + 1)
        (bdd1max + 1) (bdd2max + 1) STOPAT)"
  by pat_completeness auto
termination
  by (relation "measure (\<lambda>(xs, ys, i, j, _). (length xs - i) + (length ys - j))") auto

declare common_loop.simps [simp del]

definition nmbrVarsInCommon :: "nat list \<Rightarrow> nat list \<Rightarrow> nat \<Rightarrow> bool option" where
  "nmbrVarsInCommon xs ys STOPAT =
     (if length xs < STOPAT then Some False
      else if length ys < STOPAT then Some False
      else common_loop xs ys 0 0 0 (length xs - STOPAT + 1) (length ys - STOPAT + 1) STOPAT)"

lemma drop_inter:
  fixes xs ys :: "nat list"
  assumes "sorted_wrt (<) xs" "sorted_wrt (<) ys" "i < length xs" "j < length ys"
  shows "xs ! i < ys ! j \<Longrightarrow> set (drop i xs) \<inter> set (drop j ys) = set (drop (Suc i) xs) \<inter> set (drop j ys)"
    and "ys ! j < xs ! i \<Longrightarrow> set (drop i xs) \<inter> set (drop j ys) = set (drop i xs) \<inter> set (drop (Suc j) ys)"
    and "xs ! i = ys ! j \<Longrightarrow> set (drop i xs) \<inter> set (drop j ys) =
      insert (xs ! i) (set (drop (Suc i) xs) \<inter> set (drop (Suc j) ys))"
    and "xs ! i \<notin> set (drop (Suc i) xs)"
proof -
  have "sorted_wrt (<) (drop i xs)" "sorted_wrt (<) (drop j ys)"
    using assms(1,2) by (simp_all add: sorted_wrt_drop)
  then have gx: "\<forall>z \<in> set (drop (Suc i) xs). xs ! i < z" and gy: "\<forall>z \<in> set (drop (Suc j) ys). ys ! j < z"
    unfolding Cons_nth_drop_Suc [OF assms(3), symmetric] Cons_nth_drop_Suc [OF assms(4), symmetric]
    by simp_all
  have x: "set (drop i xs) = insert (xs ! i) (set (drop (Suc i) xs))"
    using arg_cong [OF Cons_nth_drop_Suc [OF assms(3)], of set] by simp
  have y: "set (drop j ys) = insert (ys ! j) (set (drop (Suc j) ys))"
    using arg_cong [OF Cons_nth_drop_Suc [OF assms(4)], of set] by simp
  show "xs ! i < ys ! j \<Longrightarrow> set (drop i xs) \<inter> set (drop j ys) = set (drop (Suc i) xs) \<inter> set (drop j ys)"
  proof -
    assume "xs ! i < ys ! j"
    then have "xs ! i \<notin> set (drop j ys)" unfolding y using gy by fastforce
    then show ?thesis unfolding x by simp
  qed
  show "ys ! j < xs ! i \<Longrightarrow> set (drop i xs) \<inter> set (drop j ys) = set (drop i xs) \<inter> set (drop (Suc j) ys)"
  proof -
    assume "ys ! j < xs ! i"
    then have "ys ! j \<notin> set (drop i xs)" unfolding x using gx by fastforce
    then show ?thesis unfolding y by simp
  qed
  have gx': "xs ! i \<notin> set (drop (Suc i) xs)" using gx by blast
  show "xs ! i = ys ! j \<Longrightarrow> set (drop i xs) \<inter> set (drop j ys) =
      insert (xs ! i) (set (drop (Suc i) xs) \<inter> set (drop (Suc j) ys))"
    unfolding x y by simp
  show "xs ! i \<notin> set (drop (Suc i) xs)" by (rule gx')
qed

lemma card_inter_le: "card (set xs \<inter> set ys) \<le> length xs" "card (set xs \<inter> set ys) \<le> length ys"
  by (meson Int_lower1 Int_lower2 card_length card_mono finite_set le_trans)+

lemma common_loop_correct:
  assumes "sorted_wrt (<) xs" "sorted_wrt (<) ys" "k < n" "i < m1" "j < m2"
    and "m1 + n = length xs + k + 1" "m2 + n = length ys + k + 1"
  shows "common_loop xs ys i j k m1 m2 n =
    Some (n \<le> k + card (set (drop i xs) \<inter> set (drop j ys)))"
  using assms
proof (induction xs ys i j k m1 m2 n rule: common_loop.induct)
  case (1 xs ys i j k m1 m2 n)
  have ij: "i < length xs" "j < length ys" using "1.prems" by linarith+
  note d = drop_inter [OF "1.prems"(1,2) ij]
  consider (lt) "xs ! i < ys ! j" | (gt) "ys ! j < xs ! i" | (eq) "xs ! i = ys ! j" by linarith
  then show ?case
  proof cases
    case lt
    show ?thesis
    proof (cases "i + 1 = m1")
      case True
      have "card (set (drop (Suc i) xs) \<inter> set (drop j ys)) \<le> length xs - Suc i"
        using card_inter_le(1) [of "drop (Suc i) xs"] by simp
      then have "\<not> n \<le> k + card (set (drop i xs) \<inter> set (drop j ys))"
        using d(1) [OF lt] "1.prems"(3,6) True by simp
      then show ?thesis using lt True ij by (subst common_loop.simps) simp
    next
      case False
      then show ?thesis
        using lt ij "1.IH"(1) "1.prems" d(1) [OF lt] by (subst common_loop.simps) simp
    qed
  next
    case gt
    show ?thesis
    proof (cases "j + 1 = m2")
      case True
      have "card (set (drop i xs) \<inter> set (drop (Suc j) ys)) \<le> length ys - Suc j"
        using card_inter_le(2) [of _ "drop (Suc j) ys"] by simp
      then have "\<not> n \<le> k + card (set (drop i xs) \<inter> set (drop j ys))"
        using d(2) [OF gt] "1.prems"(3,7) True by simp
      then show ?thesis using gt True ij by (subst common_loop.simps) simp
    next
      case False
      then show ?thesis
        using gt ij "1.IH"(2) "1.prems" d(2) [OF gt] by (subst common_loop.simps) simp
    qed
  next
    case eq
    have c: "card (set (drop i xs) \<inter> set (drop j ys)) =
        Suc (card (set (drop (Suc i) xs) \<inter> set (drop (Suc j) ys)))"
      unfolding d(3) [OF eq] using d(4) by simp
    show ?thesis
    proof (cases "k + 1 = n")
      case True
      then show ?thesis using eq ij c by (subst common_loop.simps) simp
    next
      case False
      then show ?thesis using eq ij "1.IH"(3) "1.prems" c by (subst common_loop.simps) simp
    qed
  qed
qed

lemma nmbrVarsInCommon_correct:
  assumes "sorted_wrt (<) xs" "sorted_wrt (<) ys" "0 < n"
  shows "nmbrVarsInCommon xs ys n = Some (n \<le> card (set xs \<inter> set ys))"
proof (cases "length xs < n \<or> length ys < n")
  case True
  then show ?thesis using card_inter_le [of xs ys] by (auto simp: nmbrVarsInCommon_def)
next
  case False
  then show ?thesis
    using common_loop_correct [OF assms(1,2), of 0 n 0 "length xs - n + 1" 0 "length ys - n + 1"] assms(3)
    by (simp add: nmbrVarsInCommon_def)
qed

end
