(* ===== verification/Bddtype.thy ===== *)
theory Bddtype
  imports Bddquant Bddvars "HOL-Library.Multiset"
begin

text \<open>
  The recognition of special functions in utils/bdd.cc: plain clauses, conjunctions and exclusive
  ors, equalities of a variable with a clause or a conjunction, and cardinality constraints, which
  are compared with the diagram that \<open>MinMaxBDD\<close> builds.
\<close>

section \<open>Function types\<close>

datatype fn_type = UNSURE | AND | NAND | OR | NOR | XOR | EQU | RIMP | RNIMP | LIMP | LNIMP | ITE | NITE
  | AND_EQUAL | NEW_INT_LEAF | IMPAND | IMPOR | PLAINOR | PLAINAND | PLAINXOR | MINMAX | NEG_MINMAX | XDD
  | EQU_BASE | AND_EQU | NAND_EQU | OR_EQU | NOR_EQU | XOR_EQU | EQU_EQU | RIMP_EQU | RNIMP_EQU
  | LIMP_EQU | LNIMP_EQU | ITE_EQU | NITE_EQU | AND_EQUAL_EQU | NEW_INT_LEAF_EQU | IMPAND_EQU
  | IMPOR_EQU | PLAINOR_EQU | PLAINXOR_EQU | MINMAX_EQU | AUTARKY_FUNC | BDDXOR_BROKEN
  | BDD_PART_BDDXOR | XOR_PART_BDDXOR | MAX_FUNC

section \<open>Cardinality constraints\<close>

definition MinMaxBDD_within :: "int \<Rightarrow> int \<Rightarrow> int \<Rightarrow> bdd" where
  "MinMaxBDD_within set_vars mn mx = (if set_vars \<ge> mn \<and> set_vars \<le> mx then TrueP else FalseP)"

text \<open>
  The two arrays of \<open>MinMaxBDD\<close>: the inner loop \<open>for(j=total_vars-1;j>=i;j--)\<close> fills the row of
  \<open>i\<close> from the row of \<open>i + 1\<close>, the outer one goes over the rows from \<open>total_vars\<close> down to 0. The
  cells of the calloc'ed arrays that no row has filled, here \<open>FalseP\<close>, are never read.
\<close>

fun minmax_row :: "nat list \<Rightarrow> bdd list \<Rightarrow> nat \<Rightarrow> nat \<Rightarrow> bdd list \<Rightarrow> bdd list" where
  "minmax_row vars prev i 0 arr = arr"
| "minmax_row vars prev i (Suc j) arr =
     (if i \<le> j then minmax_row vars prev i j
        (arr[j := if prev ! (j + 1) = arr ! (j + 1) then arr ! (j + 1)
                  else find_or_add_node (int (vars ! j)) (prev ! (j + 1)) (arr ! (j + 1))])
      else arr)"

fun minmax_rows :: "nat list \<Rightarrow> int \<Rightarrow> int \<Rightarrow> nat \<Rightarrow> bdd list \<Rightarrow> bdd list \<Rightarrow> bdd list" where
  "minmax_rows vars mn mx 0 arr prev = arr"
| "minmax_rows vars mn mx (Suc i) arr prev =
     (let n = length vars;
          arr = minmax_row vars prev i n (arr[n := MinMaxBDD_within (int i) mn mx])
      in minmax_rows vars mn mx i arr (take i prev @ drop i arr))"

text \<open>
  The array of the caller is sorted in place, from the largest to the smallest variable: the second
  result. None is the assertion that the variables differ.
\<close>

definition MinMaxBDD :: "nat list \<Rightarrow> int \<Rightarrow> int \<Rightarrow> (bdd \<times> nat list) option" where
  "MinMaxBDD vars mn mx =
     (if mx < mn then Some (FalseP, vars)
      else let vars = rev (sort vars); n = length vars; new = replicate (n + 1) FalseP in
        if sorted_wrt (>) vars then Some (minmax_rows vars mn mx (n + 1) new new ! 0, vars) else None)"

text \<open>The recursive version.\<close>

fun u_MinMaxBDD :: "nat list \<Rightarrow> int \<Rightarrow> int \<Rightarrow> nat \<Rightarrow> int \<Rightarrow> bdd" where
  "u_MinMaxBDD vars mn mx num_left set_true =
     (if int num_left + set_true < mn then FalseP
      else if set_true > mx then FalseP
      else if set_true \<ge> mn \<and> int num_left + set_true \<le> mx then TrueP
      else case num_left of 0 \<Rightarrow> FalseP
        | Suc k \<Rightarrow>
            (let v = vars ! k;
                 r = u_MinMaxBDD vars mn mx k (set_true + 1);
                 e = u_MinMaxBDD vars mn mx k set_true
             in if r = e then r else find_or_add_node (int v) r e))"

declare u_MinMaxBDD.simps [simp del]

text \<open>The number of true variables of a set lies within bounds.\<close>

definition trues :: "nat set \<Rightarrow> assignment \<Rightarrow> int" where
  "trues V a = int (card {v \<in> V. a v})"

definition between :: "int \<Rightarrow> int \<Rightarrow> nat set \<Rightarrow> assignment \<Rightarrow> bool" where
  "between mn mx V a \<longleftrightarrow> mn \<le> trues V a \<and> trues V a \<le> mx"

lemma trues_bounds: "finite V \<Longrightarrow> 0 \<le> trues V a \<and> trues V a \<le> int (card V)"
  by (auto simp: trues_def intro: card_mono)

lemma trues_empty [simp]: "trues {} a = 0"
  by (simp add: trues_def)

lemma trues_insert:
  assumes "finite V" "v \<notin> V"
  shows "trues (insert v V) a = (if a v then 1 else 0) + trues V a"
proof -
  have "{w \<in> insert v V. a w} = (if a v then insert v {w \<in> V. a w} else {w \<in> V. a w})" by auto
  then show ?thesis using assms by (simp add: trues_def)
qed

text \<open>A diagram below \<open>v\<close> for a sum over further variables, with \<open>s\<close> true ones above.\<close>

definition card_node :: "int \<Rightarrow> int \<Rightarrow> nat set \<Rightarrow> int \<Rightarrow> bdd \<Rightarrow> bool" where
  "card_node mn mx V s p \<longleftrightarrow> robdd p \<and> bvars p \<subseteq> V \<and> (\<forall>a. ev p a = (mn \<le> s + trues V a \<and> s + trues V a \<le> mx))"

lemma variable_bvars: "robdd p \<Longrightarrow> bvars p \<subseteq> V \<Longrightarrow> (\<And>w. w \<in> V \<Longrightarrow> w < v) \<Longrightarrow> variable p < int v"
  by (cases p) auto

lemma card_node_step:
  assumes r: "card_node mn mx V (s + 1) r" and e: "card_node mn mx V s e"
    and v: "finite V" "\<And>w. w \<in> V \<Longrightarrow> w < v" "0 < v"
  shows "card_node mn mx (insert v V) s (if r = e then e else find_or_add_node (int v) r e)"
proof -
  have t: "trues (insert v V) a = (if a v then 1 else 0) + trues V a" for a
    using v by (intro trues_insert) auto
  have b: "variable r < int v" "variable e < int v"
    using r e v by (auto simp: card_node_def intro!: variable_bvars)
  show ?thesis
  proof (cases "r = e")
    case True
    have "ev e a = (mn \<le> s + trues (insert v V) a \<and> s + trues (insert v V) a \<le> mx)" for a
    proof (cases "a v")
      case a: True
      have "ev e a = ev r a" using True by simp
      then show ?thesis using r a by (simp add: card_node_def t add.assoc)
    qed (use e in \<open>simp add: card_node_def t\<close>)
    then show ?thesis using True e by (auto simp: card_node_def)
  next
    case False
    then show ?thesis
      using r e v b by (auto simp: card_node_def t find_or_add_node_def add.assoc)
  qed
qed

lemma u_MinMaxBDD_card:
  assumes "sorted_wrt (<) vars" "0 \<notin> set vars" "k \<le> length vars"
  shows "card_node mn mx (set (take k vars)) s (u_MinMaxBDD vars mn mx k s)"
  using assms(3)
proof (induction k arbitrary: s)
  case 0
  then show ?case by (simp add: u_MinMaxBDD.simps [of _ _ _ 0] card_node_def)
next
  case (Suc k)
  have k: "k < length vars" using Suc.prems by simp
  have vk: "0 < vars ! k" using k assms(2) nth_mem by (metis gr0I)
  have set: "set (take (Suc k) vars) = insert (vars ! k) (set (take k vars))"
    using k by (simp add: take_Suc_conv_app_nth)
  have below: "w < vars ! k" if "w \<in> set (take k vars)" for w
    using that assms(1) k by (auto simp: in_set_conv_nth sorted_wrt_iff_nth_less)
  have fin: "card (set (take k vars)) \<le> k" using card_length [of "take k vars"] by simp
  have n: "vars ! k \<notin> set (take k vars)" using below by blast
  have cb: "0 \<le> trues (set (take (Suc k) vars)) a \<and> trues (set (take (Suc k) vars)) a \<le> int (Suc k)" for a
    using trues_bounds [of "set (take (Suc k) vars)" a] fin n by (simp add: set)
  have step: "card_node mn mx (set (take (Suc k) vars)) s
      (let r = u_MinMaxBDD vars mn mx k (s + 1); e = u_MinMaxBDD vars mn mx k s
       in if r = e then e else find_or_add_node (int (vars ! k)) r e)"
    unfolding set Let_def
    by (rule card_node_step [OF Suc.IH Suc.IH]) (use k below vk in auto)
  show ?case
  proof (cases "int (Suc k) + s < mn \<or> s > mx")
    case True
    have "u_MinMaxBDD vars mn mx (Suc k) s = FalseP"
      using True by (subst u_MinMaxBDD.simps) auto
    moreover have "\<not> (mn \<le> s + trues (set (take (Suc k) vars)) a \<and> s + trues (set (take (Suc k) vars)) a \<le> mx)" for a
      using True cb [of a] by linarith
    ultimately show ?thesis by (simp add: card_node_def)
  next
    case no: False
    show ?thesis
    proof (cases "s \<ge> mn \<and> int (Suc k) + s \<le> mx")
      case True
      have "u_MinMaxBDD vars mn mx (Suc k) s = TrueP"
        using True no by (subst u_MinMaxBDD.simps) auto
      moreover have "mn \<le> s + trues (set (take (Suc k) vars)) a \<and> s + trues (set (take (Suc k) vars)) a \<le> mx" for a
        using True cb [of a] by linarith
      ultimately show ?thesis by (simp add: card_node_def)
    next
      case False
      then have "u_MinMaxBDD vars mn mx (Suc k) s =
        (let r = u_MinMaxBDD vars mn mx k (s + 1); e = u_MinMaxBDD vars mn mx k s
         in if r = e then e else find_or_add_node (int (vars ! k)) r e)"
        using no by (subst u_MinMaxBDD.simps) (auto simp: Let_def)
      then show ?thesis using step by simp
    qed
  qed
qed

definition row_ok :: "nat list \<Rightarrow> int \<Rightarrow> int \<Rightarrow> nat \<Rightarrow> nat \<Rightarrow> bdd list \<Rightarrow> bool" where
  "row_ok vars mn mx i k arr \<longleftrightarrow> length arr = length vars + 1 \<and>
     (\<forall>j. i \<le> j \<and> k \<le> j \<and> j \<le> length vars \<longrightarrow> card_node mn mx (set (drop j vars)) (int i) (arr ! j))"

lemma minmax_row_ok:
  assumes "sorted_wrt (>) vars" "0 \<notin> set vars" "row_ok vars mn mx (i + 1) 0 prev"
    and "j \<le> length vars" "row_ok vars mn mx i j arr"
  shows "row_ok vars mn mx i 0 (minmax_row vars prev i j arr)"
  using assms(4,5)
proof (induction j arbitrary: arr)
  case 0
  then show ?case by simp
next
  case (Suc j)
  show ?case
  proof (cases "i \<le> j")
    case False
    then show ?thesis using Suc.prems by (auto simp: row_ok_def)
  next
    case True
    have j: "j < length vars" using Suc.prems(1) by simp
    have set: "set (drop j vars) = insert (vars ! j) (set (drop (Suc j) vars))"
      using j by (simp flip: Cons_nth_drop_Suc)
    have vj: "0 < vars ! j" using j assms(2) nth_mem by (metis gr0I)
    have below: "w < vars ! j" if "w \<in> set (drop (Suc j) vars)" for w
      using that assms(1) j by (auto simp: in_set_conv_nth sorted_wrt_iff_nth_less)
    have r: "card_node mn mx (set (drop (Suc j) vars)) (int i + 1) (prev ! (j + 1))"
      using assms(3) True j by (simp add: row_ok_def add.commute)
    have e: "card_node mn mx (set (drop (Suc j) vars)) (int i) (arr ! (j + 1))"
      using Suc.prems(2) True j by (simp add: row_ok_def)
    define x where "x = (if prev ! (j + 1) = arr ! (j + 1) then arr ! (j + 1)
      else find_or_add_node (int (vars ! j)) (prev ! (j + 1)) (arr ! (j + 1)))"
    have x: "card_node mn mx (set (drop j vars)) (int i) x"
      unfolding set x_def by (rule card_node_step [OF r e _ below vj]) simp
    have "row_ok vars mn mx i j (arr[j := x])"
      unfolding row_ok_def
    proof (intro conjI allI impI)
      show "length (arr[j := x]) = length vars + 1" using Suc.prems(2) by (simp add: row_ok_def)
      fix k assume k: "i \<le> k \<and> j \<le> k \<and> k \<le> length vars"
      show "card_node mn mx (set (drop k vars)) (int i) (arr[j := x] ! k)"
      proof (cases "k = j")
        case True
        then show ?thesis using x j Suc.prems(2) by (simp add: row_ok_def)
      next
        case False
        then show ?thesis using k Suc.prems(2) by (auto simp: row_ok_def)
      qed
    qed
    then show ?thesis using Suc.IH [of "arr[j := x]"] j True by (simp add: x_def)
  qed
qed

lemma minmax_rows_ok:
  assumes "sorted_wrt (>) vars" "0 \<notin> set vars" "i \<le> length vars + 1"
    and "length arr = length vars + 1" "row_ok vars mn mx i 0 prev" "i = 0 \<longrightarrow> row_ok vars mn mx 0 0 arr"
  shows "row_ok vars mn mx 0 0 (minmax_rows vars mn mx i arr prev)"
  using assms(3-6)
proof (induction i arbitrary: arr prev)
  case (Suc i)
  let ?n = "length vars"
  let ?arr = "minmax_row vars prev i ?n (arr[?n := MinMaxBDD_within (int i) mn mx])"
  have "row_ok vars mn mx i ?n (arr[?n := MinMaxBDD_within (int i) mn mx])"
    using Suc.prems by (auto simp: row_ok_def card_node_def MinMaxBDD_within_def)
  then have ok: "row_ok vars mn mx i 0 ?arr"
    using Suc.prems by (intro minmax_row_ok [OF assms(1,2)]) simp_all
  have p: "row_ok vars mn mx i 0 (take i prev @ drop i ?arr)"
    using ok Suc.prems(1,3) by (auto simp: row_ok_def nth_append)
  have l: "length ?arr = length vars + 1" using ok by (simp add: row_ok_def)
  have "i = 0 \<longrightarrow> row_ok vars mn mx 0 0 ?arr" using ok by auto
  then have "row_ok vars mn mx 0 0 (minmax_rows vars mn mx i ?arr (take i prev @ drop i ?arr))"
    using Suc.prems(1) by (intro Suc.IH l p) simp
  then show ?case by (simp add: Let_def)
qed simp

lemma rev_sort: "distinct vars \<Longrightarrow> sorted_wrt (>) (rev (sort vars))"
  by (simp add: sorted_wrt_rev strict_sorted_iff)

lemma MinMaxBDD_card:
  assumes "distinct vars" "0 \<notin> set vars" "mn \<le> mx"
  shows "\<exists>p. MinMaxBDD vars mn mx = Some (p, rev (sort vars)) \<and> card_node mn mx (set vars) 0 p"
proof -
  let ?v = "rev (sort vars)"
  have s: "sorted_wrt (>) ?v" by (rule rev_sort [OF assms(1)])
  define new where "new = replicate (length ?v + 1) FalseP"
  have "row_ok ?v mn mx (length ?v + 1) 0 new" by (auto simp: row_ok_def new_def)
  then have "row_ok ?v mn mx 0 0 (minmax_rows ?v mn mx (length ?v + 1) new new)"
    using assms(2) by (intro minmax_rows_ok [OF s]) (simp_all add: new_def)
  then have "card_node mn mx (set ?v) 0 (minmax_rows ?v mn mx (length ?v + 1) new new ! 0)"
    unfolding row_ok_def by (metis drop0 le0 of_nat_0)
  moreover have "MinMaxBDD vars mn mx = Some (minmax_rows ?v mn mx (length ?v + 1) new new ! 0, ?v)"
    unfolding MinMaxBDD_def Let_def new_def using s assms(3) by simp
  ultimately show ?thesis by simp
qed

text \<open>Both routines build the same diagram.\<close>

lemma MinMaxBDD_u_MinMaxBDD:
  assumes "sorted_wrt (<) vars" "0 \<notin> set vars" "mn \<le> mx"
  shows "MinMaxBDD vars mn mx = Some (u_MinMaxBDD vars mn mx (length vars) 0, rev vars)"
proof -
  have d: "distinct vars" "sort vars = vars"
    using assms(1) sorted_sort_id [of vars] by (simp_all add: strict_sorted_iff)
  obtain p where p: "MinMaxBDD vars mn mx = Some (p, rev vars)" "card_node mn mx (set vars) 0 p"
    using MinMaxBDD_card [OF d(1) assms(2,3)] d(2) by auto
  have "card_node mn mx (set vars) 0 (u_MinMaxBDD vars mn mx (length vars) 0)"
    using u_MinMaxBDD_card [OF assms(1,2), of "length vars" mn mx 0] by simp
  then have "p = u_MinMaxBDD vars mn mx (length vars) 0"
    using p(2) robdd_canonical by (simp add: card_node_def)
  then show ?thesis using p(1) by simp
qed

section \<open>Clauses, conjunctions, exclusive ors\<close>

text \<open>
  The loops of \<open>isOR\<close> and \<open>isAND\<close> leave the diagram only at one constant: on the other constant,
  which is its own son, they do not end.
\<close>

partial_function (option) or_loop :: "bdd \<Rightarrow> nat \<Rightarrow> bool option" where
  "or_loop bdd sz =
     (if bdd \<noteq> FalseP then
        (if thenCase bdd = TrueP then or_loop (elseCase bdd) (sz + 1)
         else if elseCase bdd = TrueP then or_loop (thenCase bdd) (sz + 1)
         else Some False)
      else Some (sz > 1))"

definition isOR :: "bdd \<Rightarrow> bool option" where
  "isOR bdd = (if IS_TRUE_FALSE bdd then Some False else or_loop bdd 0)"

partial_function (option) and_loop :: "bdd \<Rightarrow> nat \<Rightarrow> bool option" where
  "and_loop bdd sz =
     (if bdd \<noteq> TrueP then
        (if thenCase bdd = FalseP then and_loop (elseCase bdd) (sz + 1)
         else if elseCase bdd = FalseP then and_loop (thenCase bdd) (sz + 1)
         else Some False)
      else Some (sz > 1))"

definition isAND :: "bdd \<Rightarrow> bool option" where
  "isAND bdd = (if IS_TRUE_FALSE bdd then Some False else and_loop bdd 0)"

function xor_loop :: "bdd \<Rightarrow> nat \<Rightarrow> bool" where
  "xor_loop bdd sz =
     (if \<not> IS_TRUE_FALSE bdd then
        (if notCase (elseCase bdd) \<noteq> thenCase bdd then False else xor_loop (thenCase bdd) (sz + 1))
      else sz > 1)"
  by pat_completeness auto
termination
  by (relation "measure (\<lambda>(f, _). size f)") (auto dest: size_sons(1))

declare xor_loop.simps [simp del]

definition isXOR :: "bdd \<Rightarrow> bool" where
  "isXOR bdd = (if IS_TRUE_FALSE bdd then False else xor_loop bdd 0)"

text \<open>What they look for, with the signs \<open>s\<close> of the literals.\<close>

definition is_clause :: "bdd \<Rightarrow> bool" where
  "is_clause f \<longleftrightarrow> (\<exists>s. \<forall>a. ev f a = (\<exists>v \<in> bvars f. a v = s v))"

definition is_cube :: "bdd \<Rightarrow> bool" where
  "is_cube f \<longleftrightarrow> (\<exists>s. \<forall>a. ev f a = (\<forall>v \<in> bvars f. a v = s v))"

definition is_parity :: "bdd \<Rightarrow> bool" where
  "is_parity f \<longleftrightarrow> (\<exists>b. \<forall>a. ev f a = (odd (trues (bvars f) a) = b))"

lemma is_cube_notCase: "is_cube f \<longleftrightarrow> is_clause (notCase f)"
proof
  assume "is_cube f"
  then obtain s where "\<forall>a. ev f a = (\<forall>v \<in> bvars f. a v = s v)" by (auto simp: is_cube_def)
  then have "\<forall>a. ev (notCase f) a = (\<exists>v \<in> bvars (notCase f). a v = (\<not> s v))" by auto
  then show "is_clause (notCase f)" unfolding is_clause_def by (intro exI [of _ "\<lambda>v. \<not> s v"])
next
  assume "is_clause (notCase f)"
  then obtain s where "\<forall>a. ev (notCase f) a = (\<exists>v \<in> bvars f. a v = s v)" by (auto simp: is_clause_def)
  then have "\<forall>a. ev f a = (\<forall>v \<in> bvars f. a v = (\<not> s v))" by auto
  then show "is_cube f" unfolding is_cube_def by (intro exI [of _ "\<lambda>v. \<not> s v"])
qed

lemma robdd_Node_facts:
  assumes "robdd (Node v t e)"
  shows "robdd t" "robdd e" "t \<noteq> e" "v \<notin> bvars t" "v \<notin> bvars e" "0 < v"
  using assms bvars_le_variable [of t v] bvars_le_variable [of e v] by auto

lemma is_clause_Node:
  assumes f: "robdd (Node v t e)"
  shows "is_clause (Node v t e) \<longleftrightarrow> (t = TrueP \<and> is_clause e) \<or> (e = TrueP \<and> is_clause t)"
proof
  note n = robdd_Node_facts [OF f]
  have up: "ev t (a(v := b)) = ev t a" "ev e (a(v := b)) = ev e a" for a b using n by simp_all
  {
    fix c d and p :: bool
    assume cd: "bvars (Node v t e) = insert v (bvars d)" "d = t \<or> d = e" "is_clause d"
      and ev: "\<And>a. ev (Node v t e) a = (a v = p \<or> ev d a)"
    obtain s where s: "\<forall>a. ev d a = (\<exists>w \<in> bvars d. a w = s w)" using cd(3) by (auto simp: is_clause_def)
    have v: "v \<notin> bvars d" using cd(2) n by auto
    have "ev (Node v t e) a = (\<exists>w \<in> bvars (Node v t e). a w = (s(v := p)) w)" for a
      unfolding cd(1) ev using s v by auto
    then have "is_clause (Node v t e)" unfolding is_clause_def by blast
  } note build = this
  show "is_clause (Node v t e)" if "(t = TrueP \<and> is_clause e) \<or> (e = TrueP \<and> is_clause t)"
    using that build [of e True] build [of t False] by auto
  assume "is_clause (Node v t e)"
  then obtain s where s: "\<And>a. ev (Node v t e) a = (\<exists>w \<in> bvars (Node v t e). a w = s w)"
    by (auto simp: is_clause_def)
  have s': "(if a v then ev t a else ev e a) = (a v = s v \<or> (\<exists>w \<in> bvars t \<union> bvars e. a w = s w))" for a
    using s [of a] by auto
  have dist: "ev t a = (s v \<or> (\<exists>w \<in> bvars t \<union> bvars e. a w = s w))"
      "ev e a = (\<not> s v \<or> (\<exists>w \<in> bvars t \<union> bvars e. a w = s w))" for a
  proof -
    have w: "(\<exists>w \<in> bvars t \<union> bvars e. (a(v := b)) w = s w) = (\<exists>w \<in> bvars t \<union> bvars e. a w = s w)" for b
      using n(4,5) by (intro bex_cong) auto
    show "ev t a = (s v \<or> (\<exists>w \<in> bvars t \<union> bvars e. a w = s w))"
      using s' [of "a(v := True)"] up w by simp
    show "ev e a = (\<not> s v \<or> (\<exists>w \<in> bvars t \<union> bvars e. a w = s w))"
      using s' [of "a(v := False)"] up w by simp
  qed
  show "(t = TrueP \<and> is_clause e) \<or> (e = TrueP \<and> is_clause t)"
  proof (cases "s v")
    case True
    then have "t = TrueP" using dist(1) n(1) robdd_TrueP_iff by simp
    moreover have "ev e a = (\<exists>w \<in> bvars e. a w = s w)" for a
      using dist(2) [of a] True \<open>t = TrueP\<close> by simp
    ultimately show ?thesis unfolding is_clause_def by blast
  next
    case False
    then have "e = TrueP" using dist(2) n(2) robdd_TrueP_iff by simp
    moreover have "ev t a = (\<exists>w \<in> bvars t. a w = s w)" for a
      using dist(1) [of a] False \<open>e = TrueP\<close> by simp
    ultimately show ?thesis unfolding is_clause_def by blast
  qed
qed

lemma is_clause_leaf: "is_clause FalseP" "\<not> is_clause TrueP"
  by (simp_all add: is_clause_def)

lemma card_bvars_Node:
  assumes "robdd (Node v t e)"
  shows "e = TrueP \<Longrightarrow> card (bvars (Node v t e)) = Suc (card (bvars t))"
    "t = TrueP \<Longrightarrow> card (bvars (Node v t e)) = Suc (card (bvars e))"
    "e = FalseP \<Longrightarrow> card (bvars (Node v t e)) = Suc (card (bvars t))"
    "t = FalseP \<Longrightarrow> card (bvars (Node v t e)) = Suc (card (bvars e))"
  using robdd_Node_facts [OF assms] by simp_all

lemma or_loop_clause:
  "robdd f \<Longrightarrow> f \<noteq> TrueP \<Longrightarrow> or_loop f k = Some (is_clause f \<and> k + card (bvars f) > 1)"
proof (induction f arbitrary: k)
  case FalseP
  show ?case by (subst or_loop.simps) (simp add: is_clause_leaf)
next
  case (Node v t e)
  note n = robdd_Node_facts [OF Node.prems(1)] and c = card_bvars_Node [OF Node.prems(1)]
  have t: "t = TrueP \<Longrightarrow> or_loop e (k + 1) = Some (is_clause e \<and> k + 1 + card (bvars e) > 1)"
    using Node.IH(2) [of "k + 1"] n by simp
  have e: "e = TrueP \<Longrightarrow> or_loop t (k + 1) = Some (is_clause t \<and> k + 1 + card (bvars t) > 1)"
    using Node.IH(1) [of "k + 1"] n by simp
  show ?case
    using t e c(1,2) n(3) is_clause_Node [OF Node.prems(1)]
    by (subst or_loop.simps) (auto simp: is_clause_leaf)
qed simp

lemma and_loop_or_loop:
  "robdd f \<Longrightarrow> f \<noteq> FalseP \<Longrightarrow> and_loop f k = or_loop (notCase f) k"
proof (induction f arbitrary: k)
  case (Node v t e)
  note n = robdd_Node_facts [OF Node.prems(1)]
  have "t = FalseP \<Longrightarrow> and_loop e (k + 1) = or_loop (notCase e) (k + 1)"
    "e = FalseP \<Longrightarrow> and_loop t (k + 1) = or_loop (notCase t) (k + 1)"
    using Node.IH [of "k + 1"] n by auto
  then show ?case by (subst and_loop.simps, subst or_loop.simps) simp
next
  case TrueP
  show ?case by (subst and_loop.simps, subst or_loop.simps) simp
qed simp

lemma isOR_clause: "robdd f \<Longrightarrow> isOR f = Some (is_clause f \<and> card (bvars f) > 1)"
  using or_loop_clause [of f 0] by (cases f) (simp_all add: isOR_def is_clause_leaf)

lemma isAND_cube: "robdd f \<Longrightarrow> isAND f = Some (is_cube f \<and> card (bvars f) > 1)"
  using or_loop_clause [of "notCase f" 0] and_loop_or_loop [of f 0] is_cube_notCase [of f]
  by (cases f) (simp_all add: isAND_def is_clause_leaf)

lemma odd_upd: "v \<notin> V \<Longrightarrow> trues V (a(v := b)) = trues V a"
  unfolding trues_def by (metis (mono_tags, lifting) fun_upd_other)

lemma is_parity_Node:
  assumes f: "robdd (Node v t e)"
  shows "is_parity (Node v t e) \<longleftrightarrow> t = notCase e \<and> is_parity t"
proof
  note n = robdd_Node_facts [OF f]
  have up: "ev t (a(v := b)) = ev t a" "ev e (a(v := b)) = ev e a" for a b using n by simp_all
  {
    assume "is_parity (Node v t e)"
    then obtain b where b: "\<And>a. ev (Node v t e) a = (odd (trues (bvars (Node v t e)) a) = b)"
      by (auto simp: is_parity_def)
    let ?V = "bvars t \<union> bvars e"
    have tr: "trues (insert v ?V) a = (if a v then 1 else 0) + trues ?V a" for a
      using n by (intro trues_insert) simp_all
    have vV: "v \<notin> ?V" using n by simp
    have te: "ev t a = (even (trues ?V a) = b)" "ev e a = (odd (trues ?V a) = b)" for a
      using b [of "a(v := True)"] b [of "a(v := False)"] up odd_upd [OF vV] by (simp_all add: tr)
    then have "ev t a = (\<not> ev e a)" for a by auto
    then have tn: "t = notCase e" using robdd_notCase_iff n(1,2) by blast
    then have V: "?V = bvars t" by simp
    have "ev t a = (odd (trues (bvars t) a) = (\<not> b))" for a using te(1) [of a] unfolding V by auto
    then show "t = notCase e \<and> is_parity t" using tn unfolding is_parity_def by blast
  }
  assume r: "t = notCase e \<and> is_parity t"
  obtain b where b: "\<And>a. ev t a = (odd (trues (bvars t) a) = b)"
    using conjunct2 [OF r] unfolding is_parity_def by blast
  have V: "bvars (Node v t e) = insert v (bvars t)" using r by simp
  have "trues (bvars (Node v t e)) a = (if a v then 1 else 0) + trues (bvars t) a" for a
    unfolding V using n(4) by (intro trues_insert) simp_all
  moreover have "ev e a = (\<not> ev t a)" for a using r by simp
  ultimately have "ev (Node v t e) a = (odd (trues (bvars (Node v t e)) a) = (\<not> b))" for a
    using b [of a] by auto
  then show "is_parity (Node v t e)" unfolding is_parity_def by blast
qed

lemma is_parity_leaf: "is_parity FalseP" "is_parity TrueP"
  by (auto simp: is_parity_def)

lemma xor_loop_parity: "robdd f \<Longrightarrow> xor_loop f k = (is_parity f \<and> k + card (bvars f) > 1)"
proof (induction f arbitrary: k)
  case (Node v t e)
  note n = robdd_Node_facts [OF Node.prems]
  show ?case
    using Node.IH(1) [OF n(1), of "k + 1"] n is_parity_Node [OF Node.prems]
    by (subst xor_loop.simps) auto
qed (subst xor_loop.simps, simp add: is_parity_leaf)+

lemma isXOR_parity: "robdd f \<Longrightarrow> isXOR f = (is_parity f \<and> card (bvars f) > 1)"
  using xor_loop_parity [of f 0] by (cases f) (simp_all add: isXOR_def)

section \<open>Equalities with a conjunction or a clause\<close>

text \<open>
  The loop of \<open>isAND_EQU\<close> over the variables: the equality variable, with a minus when the
  other side is a clause, or 0. The conditions are evaluated from the left and stop at the first
  that fails.
\<close>

definition and_or_equ :: "bool option \<Rightarrow> bool option \<Rightarrow> bdd \<Rightarrow> nat \<Rightarrow> bdd \<Rightarrow> bddst \<Rightarrow> (bool \<times> bddst) option" where
  "and_or_equ p q bdd v t s = do {
     a \<leftarrow> p;
     if \<not> a then Some (False, s)
     else do {
       b \<leftarrow> q;
       if \<not> b then Some (False, s)
       else do {
         (r, s) \<leftarrow> call (ite_lift (ite_equ (ite_var (int v)) t)) s;
         Some (bdd = r, s) } } }"

fun isAND_EQU :: "bdd \<Rightarrow> nat list \<Rightarrow> bddst \<Rightarrow> (int \<times> bddst) option" where
  "isAND_EQU bdd [] s = Some (0, s)"
| "isAND_EQU bdd (v # vs) s =
     (if IS_TRUE_FALSE bdd then Some (0, s)
      else do {
        (t, s) \<leftarrow> call (set_variable bdd v True) s;
        (f, s) \<leftarrow> call (set_variable bdd v False) s;
        (b, s) \<leftarrow> and_or_equ (isAND t) (isOR f) bdd v t s;
        if b then Some (int v, s)
        else do {
          (b, s) \<leftarrow> and_or_equ (isOR t) (isAND f) bdd v t s;
          if b then Some (- int v, s) else isAND_EQU bdd vs s } })"

definition and_equ :: "bdd \<Rightarrow> nat \<Rightarrow> bool" where
  "and_equ f v \<longleftrightarrow> (\<exists>t. robdd t \<and> v \<notin> bvars t \<and> is_cube t \<and> 1 < card (bvars t) \<and> (\<forall>a. ev f a = (a v = ev t a)))"

definition or_equ :: "bdd \<Rightarrow> nat \<Rightarrow> bool" where
  "or_equ f v \<longleftrightarrow> (\<exists>t. robdd t \<and> v \<notin> bvars t \<and> is_clause t \<and> 1 < card (bvars t) \<and> (\<forall>a. ev f a = (a v = ev t a)))"

fun equ_var :: "bdd \<Rightarrow> nat list \<Rightarrow> int" where
  "equ_var f [] = 0"
| "equ_var f (v # vs) = (if and_equ f v then int v else if or_equ f v then - int v else equ_var f vs)"

lemma equ_cofactors:
  assumes f: "robdd f" and v: "0 < v"
    and t: "robdd t" "\<And>a. ev t a = ev f (a(v := True))" and e: "robdd e" "\<And>a. ev e a = ev f (a(v := False))"
    and q: "robdd q" "\<And>a. ev q a = (a v = ev t a)"
    and PQ: "\<And>g. robdd g \<Longrightarrow> Q (notCase g) = P g"
  shows "P t \<and> 1 < card (bvars t) \<and> Q e \<and> 1 < card (bvars e) \<and> f = q \<longleftrightarrow>
    (\<exists>t. robdd t \<and> v \<notin> bvars t \<and> P t \<and> 1 < card (bvars t) \<and> (\<forall>a. ev f a = (a v = ev t a)))"
proof
  assume l: "P t \<and> 1 < card (bvars t) \<and> Q e \<and> 1 < card (bvars e) \<and> f = q"
  have "v \<notin> bvars t" using t by (simp add: bvars_iff)
  then show "\<exists>t. robdd t \<and> v \<notin> bvars t \<and> P t \<and> 1 < card (bvars t) \<and> (\<forall>a. ev f a = (a v = ev t a))"
    using l t(1) q(2) by blast
next
  assume "\<exists>t. robdd t \<and> v \<notin> bvars t \<and> P t \<and> 1 < card (bvars t) \<and> (\<forall>a. ev f a = (a v = ev t a))"
  then obtain u where u: "robdd u" "v \<notin> bvars u" "P u" "1 < card (bvars u)" "\<And>a. ev f a = (a v = ev u a)" by blast
  have "ev t a = ev u a" for a using t(2) u(2,5) by simp
  then have tu: "t = u" using robdd_canonical [OF t(1) u(1)] by blast
  have "ev e a = ev (notCase u) a" for a using e(2) u(2,5) by simp
  then have eu: "e = notCase u" using robdd_canonical [OF e(1)] u(1) by simp
  have "ev q a = ev f a" for a using q(2) [of a] u(5) [of a] tu by simp
  then have "f = q" using robdd_canonical [OF f q(1)] by metis
  then show "P t \<and> 1 < card (bvars t) \<and> Q e \<and> 1 < card (bvars e) \<and> f = q"
    using u(3,4) PQ [OF u(1)] unfolding tu eu by simp
qed

lemma equ_gives:
  assumes "0 < v" "robdd t"
  shows "gives st_ok (ite_lift (ite_equ (ite_var (int v)) t)) (\<lambda>q. robdd q \<and> (\<forall>a. ev q a = (a v = ev t a)))"
proof -
  let ?B = "max (int v) (variable t)"
  have "computes (ite_equ (ite_var (int v)) t) ?B (\<lambda>a. ev (ite_var (int v)) a = ev t a)"
    using assms by (intro ite_equ_computes) auto
  then show ?thesis
    using assms by (intro st_ite_lift) (auto simp: computes_gives is_node_def ev_ite_var lit_def elim!: gives_post)
qed

lemma and_or_equ_gives:
  assumes "p = Some a" "q = Some b" "0 < v" "robdd t"
    and P: "\<And>r. robdd r \<Longrightarrow> (\<And>a. ev r a = (a v = ev t a)) \<Longrightarrow> (a \<and> b \<and> bdd = r) = Q"
  shows "ogives st_ok (\<lambda>s. and_or_equ p q bdd v t s) (\<lambda>r. r = Q)"
proof -
  obtain r where r: "robdd r" "\<And>a. ev r a = (a v = ev t a)"
    using gives_run [OF equ_gives [OF assms(3,4)] st_ok_init] by (metis surj_pair)
  show ?thesis
  proof (cases "a \<and> b")
    case True
    have "ogives st_ok (\<lambda>s. Option.bind (call (ite_lift (ite_equ (ite_var (int v)) t)) s)
      (\<lambda>(r, s). Some (bdd = r, s))) (\<lambda>r. r = Q)"
      by (rule ogives_bind [OF ogives_call [OF equ_gives [OF assms(3,4)]]])
        (use P True in \<open>auto intro!: ogives_return\<close>)
    then show ?thesis using True assms(1,2) by (simp add: and_or_equ_def)
  next
    case False
    then have "Q = False" using P [OF r] by auto
    moreover have "and_or_equ p q bdd v t s = Some (False, s)" for s
      using False assms(1,2) by (cases a) (simp_all add: and_or_equ_def)
    ultimately show ?thesis by (simp add: ogives_return)
  qed
qed

lemma isAND_EQU_gives:
  assumes "robdd f" "0 \<notin> set vs" "\<not> IS_TRUE_FALSE f"
  shows "ogives st_ok (\<lambda>s. isAND_EQU f vs s) (\<lambda>r. r = equ_var f vs)"
  using assms(2)
proof (induction vs)
  case Nil
  then show ?case by (simp add: ogives_return)
next
  case (Cons v vs)
  have v: "0 < v" using Cons.prems by (cases v) auto
  note set_variable = set_variable_gives [OF assms(1), THEN ogives_call]
  show ?case
    unfolding isAND_EQU.simps if_not_P [OF assms(3)]
  proof (rule ogives_bind [OF set_variable], rule ogives_bind [OF set_variable])
    fix t e
    assume te: "is_node (variable f) (\<lambda>a. ev f (a(v := True))) t" "is_node (variable f) (\<lambda>a. ev f (a(v := False))) e"
    have t: "robdd t" "\<And>a. ev t a = ev f (a(v := True))" and e: "robdd e" "\<And>a. ev e a = ev f (a(v := False))"
      using te by (simp_all add: is_node_def)
    have and_step: "ogives st_ok (\<lambda>s. and_or_equ (isAND t) (isOR e) f v t s) (\<lambda>r. r = and_equ f v)"
    proof (rule and_or_equ_gives [OF isAND_cube [OF t(1)] isOR_clause [OF e(1)] v t(1)])
      fix q assume "robdd q" "\<And>a. ev q a = (a v = ev t a)"
      from equ_cofactors [OF assms(1) v t e this, of is_clause is_cube]
      show "((is_cube t \<and> 1 < card (bvars t)) \<and> (is_clause e \<and> 1 < card (bvars e)) \<and> f = q) = and_equ f v"
        unfolding and_equ_def by (simp add: is_cube_notCase)
    qed
    have or_step: "ogives st_ok (\<lambda>s. and_or_equ (isOR t) (isAND e) f v t s) (\<lambda>r. r = or_equ f v)"
    proof (rule and_or_equ_gives [OF isOR_clause [OF t(1)] isAND_cube [OF e(1)] v t(1)])
      fix q assume "robdd q" "\<And>a. ev q a = (a v = ev t a)"
      from equ_cofactors [OF assms(1) v t e this, of is_cube is_clause]
      show "((is_clause t \<and> 1 < card (bvars t)) \<and> (is_cube e \<and> 1 < card (bvars e)) \<and> f = q) = or_equ f v"
        unfolding or_equ_def by (simp add: is_cube_notCase)
    qed
    show "ogives st_ok (\<lambda>s. Option.bind (and_or_equ (isAND t) (isOR e) f v t s) (\<lambda>(b, s).
        if b then Some (int v, s) else Option.bind (and_or_equ (isOR t) (isAND e) f v t s) (\<lambda>(b, s).
          if b then Some (- int v, s) else isAND_EQU f vs s))) (\<lambda>r. r = equ_var f (v # vs))"
      by (rule ogives_bind [OF and_step], rule ogives_if, simp add: ogives_return,
          rule ogives_bind [OF or_step], rule ogives_if, simp add: ogives_return)
        (use Cons.IH Cons.prems in auto)
  qed
qed

lemma equ_var_cases:
  "0 \<notin> set vs \<Longrightarrow> (0 < equ_var f vs \<longrightarrow> nat (equ_var f vs) \<in> set vs \<and> and_equ f (nat (equ_var f vs))) \<and>
    (equ_var f vs < 0 \<longrightarrow> nat (- equ_var f vs) \<in> set vs \<and> or_equ f (nat (- equ_var f vs))) \<and>
    (equ_var f vs = 0 \<longrightarrow> (\<forall>v \<in> set vs. \<not> and_equ f v \<and> \<not> or_equ f v))"
  by (induction vs) auto

section \<open>Recognition of cardinality constraints\<close>

function then_path :: "bdd \<Rightarrow> int \<Rightarrow> int \<times> bdd" where
  "then_path p mx = (if \<not> IS_TRUE_FALSE p then then_path (thenCase p) (mx + 1) else (mx, p))"
  by pat_completeness auto
termination
  by (relation "measure (\<lambda>(f, _). size f)") (auto intro!: size_sons)

function else_path :: "bdd \<Rightarrow> int \<Rightarrow> int \<times> bdd" where
  "else_path p mn = (if \<not> IS_TRUE_FALSE p then else_path (elseCase p) (mn + 1) else (mn, p))"
  by pat_completeness auto
termination
  by (relation "measure (\<lambda>(f, _). size f)") (auto intro!: size_sons)

declare then_path.simps [simp del] else_path.simps [simp del]

text \<open>
  The result and the array of variables, which \<open>MinMaxBDD\<close> leaves sorted downwards. None is its
  assertion.
\<close>

definition isMIN_MAX :: "bdd \<Rightarrow> nat list \<Rightarrow> (bool \<times> nat list) option" where
  "isMIN_MAX bdd vars =
     (if IS_TRUE_FALSE bdd then Some (False, vars)
      else let (mx, p) = then_path bdd (-1) in
        if p \<noteq> FalseP then Some (False, vars)
        else let (mn, p) = else_path bdd (-1) in
          if p \<noteq> TrueP \<and> p \<noteq> FalseP then Some (False, vars)
          else let mn = (if p = TrueP then 0 else int (length vars) - mn) in
            if mn > mx then Some (False, vars)
            else do { (r, vars) \<leftarrow> MinMaxBDD vars mn mx; Some (bdd = r, vars) })"

definition isNEG_MIN_MAX :: "bdd \<Rightarrow> nat list \<Rightarrow> (bool \<times> nat list) option" where
  "isNEG_MIN_MAX bdd vars =
     (if IS_TRUE_FALSE bdd then Some (False, vars)
      else let (mx, p) = then_path bdd (-1) in
        if p \<noteq> TrueP then Some (False, vars)
        else let (mn, p) = else_path bdd (-1) in
          if p \<noteq> FalseP \<and> p \<noteq> TrueP then Some (False, vars)
          else let mn = (if p = FalseP then 0 else int (length vars) - mn) in
            if mn > mx then Some (False, vars)
            else do { (r, vars) \<leftarrow> MinMaxBDD vars mn mx; Some (bdd = notCase r, vars) })"

definition sorted_or_same :: "nat list \<Rightarrow> nat list \<Rightarrow> bool" where
  "sorted_or_same vars vs \<longleftrightarrow> vs = vars \<or> vs = rev (sort vars)"

lemma minmax_call:
  assumes "distinct vars" "0 \<notin> set vars" "mn \<le> mx"
  shows "\<exists>r vs. MinMaxBDD vars mn mx = Some (r, vs) \<and> sorted_or_same vars vs \<and>
    (\<forall>a. ev r a = between mn mx (set vars) a)"
  using MinMaxBDD_card [OF assms] by (auto simp: sorted_or_same_def card_node_def between_def)

lemma isMIN_MAX_ok:
  assumes "distinct vars" "0 \<notin> set vars"
  shows "\<exists>b vs. isMIN_MAX f vars = Some (b, vs) \<and> sorted_or_same vars vs \<and>
    (b \<longrightarrow> (\<exists>mn mx. \<forall>a. ev f a = between mn mx (set vars) a))"
proof -
  have same: "sorted_or_same vars vars" by (simp add: sorted_or_same_def)
  obtain mx t where t: "then_path f (-1) = (mx, t)" by (metis surj_pair)
  obtain m e where e: "else_path f (-1) = (m, e)" by (metis surj_pair)
  define mn where "mn = (if e = TrueP then 0 else int (length vars) - m)"
  show ?thesis
  proof (cases "IS_TRUE_FALSE f \<or> t \<noteq> FalseP \<or> (e \<noteq> TrueP \<and> e \<noteq> FalseP) \<or> mn > mx")
    case True
    then have "isMIN_MAX f vars = Some (False, vars)"
      by (auto simp: isMIN_MAX_def t e mn_def Let_def)
    then show ?thesis using same by blast
  next
    case False
    then obtain r vs where r: "MinMaxBDD vars mn mx = Some (r, vs)" "sorted_or_same vars vs"
        "\<And>a. ev r a = between mn mx (set vars) a"
      using minmax_call [OF assms, of mn mx] by auto
    have "isMIN_MAX f vars = Some (f = r, vs)"
      using False r(1) by (auto simp: isMIN_MAX_def t e mn_def Let_def)
    then show ?thesis using r(2,3) by auto
  qed
qed

lemma isNEG_MIN_MAX_ok:
  assumes "distinct vars" "0 \<notin> set vars"
  shows "\<exists>b vs. isNEG_MIN_MAX f vars = Some (b, vs) \<and> sorted_or_same vars vs \<and>
    (b \<longrightarrow> (\<exists>mn mx. \<forall>a. ev f a = (\<not> between mn mx (set vars) a)))"
proof -
  have same: "sorted_or_same vars vars" by (simp add: sorted_or_same_def)
  obtain mx t where t: "then_path f (-1) = (mx, t)" by (metis surj_pair)
  obtain m e where e: "else_path f (-1) = (m, e)" by (metis surj_pair)
  define mn where "mn = (if e = FalseP then 0 else int (length vars) - m)"
  show ?thesis
  proof (cases "IS_TRUE_FALSE f \<or> t \<noteq> TrueP \<or> (e \<noteq> FalseP \<and> e \<noteq> TrueP) \<or> mn > mx")
    case True
    then have "isNEG_MIN_MAX f vars = Some (False, vars)"
      by (auto simp: isNEG_MIN_MAX_def t e mn_def Let_def)
    then show ?thesis using same by blast
  next
    case False
    then obtain r vs where r: "MinMaxBDD vars mn mx = Some (r, vs)" "sorted_or_same vars vs"
        "\<And>a. ev r a = between mn mx (set vars) a"
      using minmax_call [OF assms, of mn mx] by auto
    have "isNEG_MIN_MAX f vars = Some (f = notCase r, vs)"
      using False r(1) by (auto simp: isNEG_MIN_MAX_def t e mn_def Let_def)
    then show ?thesis using r(2,3) by auto
  qed
qed

section \<open>Setting the type\<close>

text \<open>
  \<open>findandset_fnType\<close> on the entries of one function: its type, its equality variable and its
  array of variables.
\<close>

definition findandset_fnType ::
    "(fn_type \<Rightarrow> int) \<Rightarrow> bdd \<Rightarrow> fn_type \<times> int \<times> nat list \<Rightarrow> bddst \<Rightarrow>
      ((bool \<times> fn_type \<times> int \<times> nat list) \<times> bddst) option" where
  "findandset_fnType limits f = (\<lambda>(ty, equ, vars) s.
     if ty \<noteq> UNSURE then Some ((True, ty, equ, vars), s)
     else do {
       b \<leftarrow> (if int (length vars) \<ge> limits PLAINOR then isOR f else Some False);
       if b then Some ((True, PLAINOR, equ, vars), s)
       else if int (length vars) \<ge> limits PLAINXOR \<and> isXOR f then Some ((True, PLAINXOR, equ, vars), s)
       else do {
         (equ_var, s) \<leftarrow> (if int (length vars) \<ge> limits AND then isAND_EQU f vars s else Some (0, s));
         if equ_var \<noteq> 0 then
           (if equ_var > 0 then Some ((True, AND, equ_var, vars), s)
            else Some ((True, OR, - equ_var, vars), s))
         else do {
           (b, vars) \<leftarrow> (if int (length vars) \<ge> limits MINMAX then isMIN_MAX f vars else Some (False, vars));
           if b then Some ((True, MINMAX, equ, vars), s)
           else do {
             (b, vars) \<leftarrow> (if int (length vars) \<ge> limits NEG_MINMAX then isNEG_MIN_MAX f vars else Some (False, vars));
             if b then Some ((True, NEG_MINMAX, equ, vars), s)
             else Some ((False, ty, equ, vars), s) } } } })"

text \<open>\<open>findandret_fnType\<close> collects and sorts the variables itself.\<close>

definition findandret_fnType ::
    "(fn_type \<Rightarrow> int) \<Rightarrow> bdd \<Rightarrow> bddst \<Rightarrow> ((fn_type \<times> nat list) \<times> bddst) option" where
  "findandret_fnType limits f s =
     (if IS_TRUE_FALSE f then Some ((UNSURE, []), s)
      else do {
        (tempint, s) \<leftarrow> call (unravelBDD f) s;
        let vars = sort tempint; n = int (length vars) in do {
        b \<leftarrow> (if n \<ge> limits PLAINOR then isOR f else Some False);
        if b then Some ((PLAINOR, vars), s)
        else do {
          b \<leftarrow> (if n \<ge> limits PLAINAND then isAND f else Some False);
          if b then Some ((PLAINAND, vars), s)
          else if n \<ge> limits PLAINXOR \<and> isXOR f then Some ((PLAINXOR, vars), s)
          else do {
            (equ_var, s) \<leftarrow> (if n \<ge> limits AND then isAND_EQU f vars s else Some (0, s));
            if equ_var \<noteq> 0 then Some ((if equ_var > 0 then AND else OR, vars), s)
            else do {
              (b, vars) \<leftarrow> (if n \<ge> limits MINMAX then isMIN_MAX f vars else Some (False, vars));
              if b then Some ((MINMAX, vars), s)
              else do {
                (b, vars) \<leftarrow> (if n \<ge> limits MINMAX then isNEG_MIN_MAX f vars else Some (False, vars));
                Some ((if b then NEG_MINMAX else UNSURE, vars), s) } } } } } })"

text \<open>What a type says of its function, over the variables \<open>V\<close>.\<close>

fun type_ok :: "fn_type \<Rightarrow> int \<Rightarrow> bdd \<Rightarrow> nat set \<Rightarrow> bool" where
  "type_ok PLAINOR equ f V = is_clause f"
| "type_ok PLAINAND equ f V = is_cube f"
| "type_ok PLAINXOR equ f V = is_parity f"
| "type_ok AND equ f V = (0 < equ \<and> nat equ \<in> V \<and> and_equ f (nat equ))"
| "type_ok OR equ f V = (0 < equ \<and> nat equ \<in> V \<and> or_equ f (nat equ))"
| "type_ok MINMAX equ f V = (\<exists>mn mx. \<forall>a. ev f a = between mn mx V a)"
| "type_ok NEG_MINMAX equ f V = (\<exists>mn mx. \<forall>a. ev f a = (\<not> between mn mx V a))"
| "type_ok _ equ f V = True"

lemma sorted_or_same_set: "sorted_or_same vars vs \<Longrightarrow> set vs = set vars \<and> length vs = length vars \<and> distinct vs = distinct vars"
  by (auto simp: sorted_or_same_def)

lemma sorted_or_same_trans: "sorted_or_same vars vs \<Longrightarrow> sorted_or_same vs ws \<Longrightarrow> sorted_or_same vars ws"
proof -
  have "sort (rev (sort vars)) = sort vars" by (rule properties_for_sort) simp_all
  then show "sorted_or_same vars vs \<Longrightarrow> sorted_or_same vs ws \<Longrightarrow> sorted_or_same vars ws"
    by (auto simp: sorted_or_same_def)
qed

lemma equ_step:
  assumes "robdd f" "0 \<notin> set vars" "\<not> IS_TRUE_FALSE f" "st_ok s"
  shows "\<exists>r s1. (if c then isAND_EQU f vars s else Some (0, s)) = Some (r, s1) \<and> st_ok s1 \<and>
    (0 < r \<longrightarrow> type_ok AND r f (set vars)) \<and> (r < 0 \<longrightarrow> type_ok OR (- r) f (set vars))"
proof (cases c)
  case True
  then obtain s1 where "isAND_EQU f vars s = Some (equ_var f vars, s1)" "st_ok s1"
    using ogives_run [OF isAND_EQU_gives [OF assms(1-3)] assms(4)] by auto
  then show ?thesis using True equ_var_cases [OF assms(2), of f] by simp
qed (use assms(4) in simp)

lemma minmax_step:
  assumes "distinct vars" "0 \<notin> set vars"
  shows "\<exists>b vs. (if c then isMIN_MAX f vars else Some (False, vars)) = Some (b, vs) \<and> sorted_or_same vars vs \<and>
      (b \<longrightarrow> type_ok MINMAX equ f (set vars))"
    and "\<exists>b vs. (if c then isNEG_MIN_MAX f vars else Some (False, vars)) = Some (b, vs) \<and> sorted_or_same vars vs \<and>
      (b \<longrightarrow> type_ok NEG_MINMAX equ f (set vars))"
  using isMIN_MAX_ok [OF assms, of f] isNEG_MIN_MAX_ok [OF assms, of f] sorted_or_same_def
  by (cases c; auto)+

lemma leaf_step:
  assumes "robdd f"
  shows "\<exists>b. (if c then isOR f else Some False) = Some b \<and> (b \<longrightarrow> is_clause f)"
    and "\<exists>b. (if c then isAND f else Some False) = Some b \<and> (b \<longrightarrow> is_cube f)"
  using isOR_clause [OF assms] isAND_cube [OF assms] by auto

lemma findandset_fnType_ok:
  assumes "robdd f" "distinct vars" "0 \<notin> set vars" "\<not> IS_TRUE_FALSE f" "st_ok s"
  shows "\<exists>r ty' equ' vars' s'. findandset_fnType limits f (ty, equ, vars) s = Some ((r, ty', equ', vars'), s') \<and>
    st_ok s' \<and> sorted_or_same vars vars' \<and>
    (if ty = UNSURE then type_ok ty' equ' f (set vars) \<and> (\<not> r \<longrightarrow> ty' = UNSURE)
     else r \<and> ty' = ty \<and> equ' = equ \<and> vars' = vars)"
proof (cases "ty = UNSURE")
  case False
  then show ?thesis using assms(5) by (auto simp: findandset_fnType_def sorted_or_same_def)
next
  case True
  let ?n = "int (length vars)"
  obtain b where b: "(if ?n \<ge> limits PLAINOR then isOR f else Some False) = Some b" "b \<longrightarrow> is_clause f"
    using leaf_step(1) [OF assms(1)] by blast
  obtain r s1 where r: "(if ?n \<ge> limits AND then isAND_EQU f vars s else Some (0, s)) = Some (r, s1)" "st_ok s1"
      "0 < r \<longrightarrow> type_ok AND r f (set vars)" "r < 0 \<longrightarrow> type_ok OR (- r) f (set vars)"
    using equ_step [OF assms(1,3-5)] by blast
  obtain m vs where m: "(if ?n \<ge> limits MINMAX then isMIN_MAX f vars else Some (False, vars)) = Some (m, vs)"
      "sorted_or_same vars vs" "m \<longrightarrow> type_ok MINMAX equ f (set vars)"
    using minmax_step(1) [OF assms(2,3)] by blast
  note same = sorted_or_same_set [OF m(2)]
  obtain k ws where k: "(if ?n \<ge> limits NEG_MINMAX then isNEG_MIN_MAX f vs else Some (False, vs)) = Some (k, ws)"
      "sorted_or_same vs ws" "k \<longrightarrow> type_ok NEG_MINMAX equ f (set vars)"
    using minmax_step(2) [of vs "?n \<ge> limits NEG_MINMAX" f equ] assms(2,3) same by auto
  have res: "findandset_fnType limits f (ty, equ, vars) s =
    (if b then Some ((True, PLAINOR, equ, vars), s)
     else if ?n \<ge> limits PLAINXOR \<and> isXOR f then Some ((True, PLAINXOR, equ, vars), s)
     else if r \<noteq> 0 then
       (if r > 0 then Some ((True, AND, r, vars), s1) else Some ((True, OR, - r, vars), s1))
     else if m then Some ((True, MINMAX, equ, vs), s1)
     else if k then Some ((True, NEG_MINMAX, equ, ws), s1)
     else Some ((False, UNSURE, equ, ws), s1))"
    using True b(1) r(1) m(1) k(1) same by (simp add: findandset_fnType_def cong: if_cong)
  have so: "sorted_or_same vars vars" "sorted_or_same vars ws"
    using sorted_or_same_trans [OF m(2) k(2)] by (simp_all add: sorted_or_same_def)
  define P where "P res \<longleftrightarrow> (\<exists>r ty' equ' vars' s'. res = Some ((r, ty', equ', vars'), s') \<and> st_ok s' \<and>
    sorted_or_same vars vars' \<and> type_ok ty' equ' f (set vars) \<and> (\<not> r \<longrightarrow> ty' = UNSURE))" for res
  have I: "P (Some ((r, ty', equ', vars'), s'))"
    if "st_ok s'" "sorted_or_same vars vars'" "type_ok ty' equ' f (set vars)" "\<not> r \<longrightarrow> ty' = UNSURE"
    for r ty' equ' vars' s'
    using that by (simp add: P_def)
  have C: "P (if c then x else y)" if "c \<Longrightarrow> P x" "\<not> c \<Longrightarrow> P y" for c x y using that by simp
  have "P (findandset_fnType limits f (ty, equ, vars) s)"
    unfolding res by (intro C I) (use b(2) r(2-4) m(2,3) k(3) assms(5) isXOR_parity [OF assms(1)] so in simp_all)
  then show ?thesis using True by (simp add: P_def)
qed

lemma findandret_fnType_ok:
  assumes "robdd f" "st_ok s"
  shows "\<exists>ty vars s'. findandret_fnType limits f s = Some ((ty, vars), s') \<and> st_ok s' \<and>
    (\<not> IS_TRUE_FALSE f \<longrightarrow> set vars = bvars f \<and> distinct vars) \<and> (\<exists>equ. type_ok ty equ f (bvars f))"
proof (cases "IS_TRUE_FALSE f")
  case True
  then show ?thesis using assms(2) by (simp add: findandret_fnType_def)
next
  case False
  obtain ys s0 where u: "run_state (unravelBDD f) s = (ys, s0)" by (metis surj_pair)
  have ys: "distinct ys" "set ys = bvars f" "st_ok s0"
    using gives_run [OF unravelBDD_gives assms(2) u] by auto
  define vars where "vars = sort ys"
  have v: "distinct vars" "set vars = bvars f" "0 \<notin> set vars"
    using ys bvars_le_variable [OF assms(1), of 0] by (auto simp: vars_def)
  have len: "length ys = length vars" by (simp add: vars_def)
  let ?n = "int (length vars)"
  obtain b where b: "(if ?n \<ge> limits PLAINOR then isOR f else Some False) = Some b" "b \<longrightarrow> is_clause f"
    using leaf_step(1) [OF assms(1)] by blast
  obtain c where c: "(if ?n \<ge> limits PLAINAND then isAND f else Some False) = Some c" "c \<longrightarrow> is_cube f"
    using leaf_step(2) [OF assms(1)] by blast
  obtain r s1 where r: "(if ?n \<ge> limits AND then isAND_EQU f vars s0 else Some (0, s0)) = Some (r, s1)" "st_ok s1"
      "0 < r \<longrightarrow> type_ok AND r f (set vars)" "r < 0 \<longrightarrow> type_ok OR (- r) f (set vars)"
    using equ_step [OF assms(1) v(3) False ys(3)] by blast
  obtain m vs where m: "(if ?n \<ge> limits MINMAX then isMIN_MAX f vars else Some (False, vars)) = Some (m, vs)"
      "sorted_or_same vars vs" "m \<longrightarrow> type_ok MINMAX 0 f (set vars)"
    using minmax_step(1) [OF v(1,3)] by blast
  note same = sorted_or_same_set [OF m(2)]
  obtain k ws where k: "(if ?n \<ge> limits MINMAX then isNEG_MIN_MAX f vs else Some (False, vs)) = Some (k, ws)"
      "sorted_or_same vs ws" "k \<longrightarrow> type_ok NEG_MINMAX 0 f (set vars)"
    using minmax_step(2) [of vs "?n \<ge> limits MINMAX" f 0] v same by auto
  note same' = sorted_or_same_set [OF k(2)]
  have res: "findandret_fnType limits f s =
    (if b then Some ((PLAINOR, vars), s0)
     else if c then Some ((PLAINAND, vars), s0)
     else if ?n \<ge> limits PLAINXOR \<and> isXOR f then Some ((PLAINXOR, vars), s0)
     else if r \<noteq> 0 then Some ((if r > 0 then AND else OR, vars), s1)
     else if m then Some ((MINMAX, vs), s1)
     else Some ((if k then NEG_MINMAX else UNSURE, ws), s1))"
    using False u b(1) c(1) r(1) m(1) k(1) by (simp add: findandret_fnType_def Let_def vars_def [symmetric] len cong: if_cong)
  have "\<exists>equ. type_ok AND equ f (bvars f)" if "0 < r" using r(3) that v(2) by metis
  moreover have "\<exists>equ. type_ok OR equ f (bvars f)" if "r < 0" using r(4) that v(2) by metis
  moreover define P where "P res \<longleftrightarrow> (\<exists>ty vars s'. res = Some ((ty, vars), s') \<and> st_ok s' \<and>
    set vars = bvars f \<and> distinct vars \<and> (\<exists>equ. type_ok ty equ f (bvars f)))" for res
  have I: "P (Some ((ty, vars'), s'))"
    if "st_ok s'" "set vars' = bvars f" "distinct vars'" "\<exists>equ. type_ok ty equ f (bvars f)" for ty vars' s'
    using that by (simp add: P_def)
  have C: "P (if c then x else y)" if "c \<Longrightarrow> P x" "\<not> c \<Longrightarrow> P y" for c x y using that by simp
  have K: "\<exists>equ. type_ok (if k then NEG_MINMAX else UNSURE) equ f (bvars f)" using k(3) v(2) by (cases k) auto
  ultimately have "P (findandret_fnType limits f s)"
    unfolding res
    by (intro C I) (use ys(3) r(2) v(1,2) same same' b(2) c(2) m(3) isXOR_parity [OF assms(1)] K in \<open>simp_all\<close>)
  then show ?thesis using False by (auto simp: P_def)
qed

end
