(* ===== verification/Applyinfs.thy ===== *)
theory Applyinfs
  imports Reduceinfs Bddtype "HOL-Library.Multiset"
begin

text \<open>
  The propagation of inferences through the functions of the circuit, preproc/do_applyinfs.cc:
  \<open>Rebuild_BDDx\<close> enters the inferences of a changed function into the equivalence classes, collects
  its variables and brings the lists of the functions of each variable up to date;
  \<open>Do_Apply_Inferences\<close> takes the inferences one by one, assigns or replaces a variable in all
  functions that have it, and rebuilds these, which may give further inferences. The model is the
  code with \<open>ge_preproc\<close> not 1, at the level of the diagrams. The last section is about the state
  that a contradiction leaves, which the end of preprocessing still reads.
\<close>

section \<open>State\<close>

text \<open>
  \<open>var_lists\<close> are the arrays \<open>variables[x].num\<close> of the \<open>length[x]\<close> variables of each function, None
  for the NULL of a new one, \<open>var_min\<close> and \<open>var_max\<close> their fields \<open>min\<close> and \<open>max\<close>; \<open>true_false\<close> and
  \<open>equalvars\<close> the fields of \<open>variablelist\<close>; \<open>amount\<close> the list of the functions of each variable;
  \<open>classes\<close> the object \<open>l\<close>. \<open>inferlist\<close> is the list from its first inference, that is without the
  empty start node of an idle list; \<open>repeats\<close> are the ten repeat flags of each function, by the step
  that reads them. \<open>equivalences_on\<close> is \<open>DO_EQUIVALENCES\<close>.
\<close>

datatype repeat_kind =
  P1_repeat | P2_repeat | Restct_repeat | ReFPS_repeat | St_repeat | Sa_repeat | Dep_repeat
  | Steal_repeat | Ea_repeat | Es_repeat

record prep =
  bst :: bddst
  fn_bdds :: "bdd list"
  var_lists :: "nat list option list"
  var_min :: "nat \<Rightarrow> nat"
  var_max :: "nat \<Rightarrow> nat"
  functionType :: "nat \<Rightarrow> fn_type"
  equalityVble :: "nat \<Rightarrow> int"
  amount :: "nat \<Rightarrow> nat list"
  num_funcs_var_occurs :: "nat \<Rightarrow> int"
  true_false :: "nat \<Rightarrow> int"
  equalvars :: "nat \<Rightarrow> int"
  independantVars :: "nat \<Rightarrow> int"
  repeats :: "repeat_kind \<Rightarrow> nat \<Rightarrow> bool"
  classes :: equiv
  inferlist :: "infer list"
  DO_INFERENCES :: bool
  equivalences_on :: bool
  preproc_uses_limits :: bool
  functionTypeLimits :: "fn_type \<Rightarrow> int"

definition SetRepeats :: "nat \<Rightarrow> prep \<Rightarrow> prep" where
  "SetRepeats x st = st\<lparr>repeats := (\<lambda>k. (repeats st k)(x := True))\<rparr>"

definition UnSetRepeats :: "nat \<Rightarrow> prep \<Rightarrow> prep" where
  "UnSetRepeats x st = st\<lparr>repeats := (\<lambda>k. (repeats st k)(x := False))\<rparr>"

section \<open>Rebuilding one function\<close>

text \<open>Removing function \<open>x\<close> from the list of variable \<open>v\<close>, and appending it.\<close>

definition amount_delete :: "nat \<Rightarrow> nat \<Rightarrow> prep \<Rightarrow> prep" where
  "amount_delete x v st =
     (if x \<in> set (amount st v)
      then st\<lparr>num_funcs_var_occurs := (num_funcs_var_occurs st)(v := num_funcs_var_occurs st v - 1),
              amount := (amount st)(v := remove1 x (amount st v))\<rparr>
      else st)"

definition amount_add :: "nat \<Rightarrow> nat \<Rightarrow> prep \<Rightarrow> prep" where
  "amount_add x v st = st
     \<lparr>num_funcs_var_occurs := (num_funcs_var_occurs st)
        (v := if amount st v = [] then 1 else num_funcs_var_occurs st v + 1),
      amount := (amount st)(v := amount st v @ [x])\<rparr>"

text \<open>
  The walk along the new and the old variables of function \<open>x\<close>, both in ascending order: the loop
  with both lists, then what is left of either.
\<close>

fun merge_vars :: "nat \<Rightarrow> nat list \<Rightarrow> nat list \<Rightarrow> prep \<Rightarrow> prep" where
  "merge_vars x (a # as) (b # bs) st =
     (if a > b then merge_vars x (a # as) bs (amount_delete x b st)
      else if a < b then merge_vars x as (b # bs) (amount_add x a st)
      else merge_vars x as bs st)"
| "merge_vars x [] (b # bs) st = merge_vars x [] bs (amount_delete x b st)"
| "merge_vars x (a # as) [] st = merge_vars x as [] (amount_add x a st)"
| "merge_vars x [] [] st = st"

text \<open>
  \<open>Rebuild_BDDx\<close> up to its last step: the return code, PREP_NO_CHANGE when it reaches that step.
\<close>

definition rebuild_type :: "nat \<Rightarrow> nat list \<Rightarrow> prep \<Rightarrow> prep option" where
  "rebuild_type x tempint st =
     (if functionType st x = XDD then Some st
      else
        (let st = st\<lparr>functionType := (functionType st)(x := UNSURE), equalityVble := (equalityVble st)(x := 0)\<rparr> in
         if preproc_uses_limits st then do {
           ((_, ty, equ, vars), s) \<leftarrow>
             findandset_fnType (functionTypeLimits st) (fn_bdds st ! x) (UNSURE, 0, tempint) (bst st);
           Some (st\<lparr>bst := s, functionType := (functionType st)(x := ty),
                    equalityVble := (equalityVble st)(x := equ),
                    var_lists := (var_lists st)[x := Some vars]\<rparr>) }
         else Some st))"

definition Rebuild_body :: "nat \<Rightarrow> prep \<Rightarrow> (prep_result \<times> prep) option" where
  "Rebuild_body x st =
     (let st = SetRepeats x st; f = fn_bdds st ! x in
      if f = FalseP then Some (TRIV_UNSAT, st)
      else do {
        (r, new, l) \<leftarrow> ReduceInferences (inferences (equivalences_on st) f) (classes st);
        let st = st\<lparr>inferlist := inferlist st @ new, classes := l\<rparr> in
        if r \<noteq> PREP_NO_CHANGE then Some (r, st)
        else if \<not> x < length (fn_bdds st) + 1 then None
        else
          (let (y, s) = run_state (unravelBDD f) (bst st);
               tempint = sort y;
               st = merge_vars x tempint (case var_lists st ! x of None \<Rightarrow> [] | Some num \<Rightarrow> num) (st\<lparr>bst := s\<rparr>);
               st = st\<lparr>var_lists := (var_lists st)[x := Some tempint],
                       var_min := (var_min st)(x := if tempint = [] then 0 else hd tempint),
                       var_max := (var_max st)(x := if tempint = [] then 0 else last tempint)\<rparr>
           in do { st \<leftarrow> rebuild_type x tempint st; Some (PREP_NO_CHANGE, st) }) })"

section \<open>Applying one inference\<close>

text \<open>The check of a variable; None is the exit "Inferring a variable twice".\<close>

definition check_var :: "nat \<Rightarrow> prep \<Rightarrow> unit option" where
  "check_var v st =
     (if true_false st v = 2 then Some ()
      else if true_false st v \<noteq> -1 \<or> equalvars st v \<noteq> 0 then None
      else Some ())"

text \<open>
  The loop over the functions \<open>k\<close> of a variable. The list that the code walks loses, at each step,
  the entry it has just passed and gains none, since the functions no longer have the variable; so
  the walk is over the list as it was at the start. \<open>c\<close> is the test for a false function that only
  the replacement by an opposite has. \<open>DO_INFERENCES\<close> is 0 here, so that \<open>Rebuild_BDDx\<close> is its body.
\<close>

fun rebuild_all :: "bool \<Rightarrow> nat list \<Rightarrow> prep \<Rightarrow> (prep_result \<times> prep) option" where
  "rebuild_all c [] st = Some (PREP_NO_CHANGE, st)"
| "rebuild_all c (j # k) st =
     (if c \<and> fn_bdds st ! j = FalseP then Some (TRIV_UNSAT, st)
      else do {
        (r, st) \<leftarrow> Rebuild_body j st;
        if r = TRIV_UNSAT then Some (TRIV_UNSAT, st) else rebuild_all c k st })"

definition merge_independant :: "nat \<Rightarrow> nat \<Rightarrow> nat \<Rightarrow> nat \<Rightarrow> prep \<Rightarrow> prep" where
  "merge_independant n0 n1 count1 count0 st =
     (let ind = independantVars st in
      if ind n1 = 2 \<and> count1 \<ge> count0 then st\<lparr>independantVars := ind(n0 := 2)\<rparr>
      else if ind n0 = 2 \<and> count1 > count0 then st\<lparr>independantVars := ind(n0 := ind n1)\<rparr>
      else if ind n1 = 1 \<or> ind n0 = 1 then st\<lparr>independantVars := ind(n1 := 1, n0 := 1)\<rparr>
      else st)"

definition apply_replace :: "bool \<Rightarrow> nat \<Rightarrow> int \<Rightarrow> nat \<Rightarrow> prep \<Rightarrow> (prep_result \<times> prep) option" where
  "apply_replace c n0 replace n1 st = do {
     _ \<leftarrow> check_var n0 st;
     _ \<leftarrow> check_var n1 st;
     let st = st\<lparr>equalvars := (equalvars st)(n1 := replace)\<rparr>;
         k = amount st n1;
         (fs, s) = run_state (num_replace_all k n1 replace (fn_bdds st)) (bst st)
     in do {
       (r, st) \<leftarrow> rebuild_all c k (st\<lparr>fn_bdds := fs, bst := s\<rparr>);
       if r = TRIV_UNSAT then Some (TRIV_UNSAT, st)
       else Some (PREP_NO_CHANGE, merge_independant n0 n1 (length k) (length (amount st n0)) st) } }"

definition apply_equal :: "nat \<Rightarrow> nat \<Rightarrow> prep \<Rightarrow> (prep_result \<times> prep) option" where
  "apply_equal n0 n1 st = apply_replace False n0 (int n0) n1 st"

definition apply_opposite :: "nat \<Rightarrow> nat \<Rightarrow> prep \<Rightarrow> (prep_result \<times> prep) option" where
  "apply_opposite n0 n1 st = apply_replace True n0 (- int n0) n1 st"

definition apply_literal :: "nat \<Rightarrow> bool \<Rightarrow> prep \<Rightarrow> (prep_result \<times> prep) option" where
  "apply_literal n torf st = do {
     _ \<leftarrow> check_var n st;
     let st = st\<lparr>true_false := (true_false st)(n := if torf then 1 else 0)\<rparr>;
         k = amount st n;
         (fs, s) = run_state (set_variable_all k n torf (fn_bdds st)) (bst st)
     in rebuild_all False k (st\<lparr>fn_bdds := fs, bst := s\<rparr>) }"

definition apply_infer :: "infer \<Rightarrow> prep \<Rightarrow> (prep_result \<times> prep) option" where
  "apply_infer = (\<lambda>(n0, n1) st.
     if n1 \<noteq> 0 then
       (if n1 > 0 then apply_equal (nat n0) (nat n1) st else apply_opposite (nat n0) (nat (- n1)) st)
     else
       (if n0 > 0 then apply_literal (nat n0) True st else apply_literal (nat (- n0)) False st))"

section \<open>The loop\<close>

text \<open>The loop may add inferences to its own list, so that its end is a theorem, not a definition.\<close>

definition run_gc :: "prep \<Rightarrow> prep" where
  "run_gc st = st\<lparr>bst := snd (run_state bdd_gc (bst st))\<rparr>"

partial_function (option) apply_loop :: "prep \<Rightarrow> (prep_result \<times> prep) option" where
  "apply_loop st =
     (case inferlist st of
        [] \<Rightarrow> Some (PREP_NO_CHANGE, st)
      | i # _ \<Rightarrow> do {
          (r, st) \<leftarrow> apply_infer i (run_gc st);
          if r = TRIV_UNSAT then Some (TRIV_UNSAT, st)
          else apply_loop (st\<lparr>inferlist := tl (inferlist st)\<rparr>) })"

definition Do_Apply_Inferences :: "prep \<Rightarrow> (prep_result \<times> prep) option" where
  "Do_Apply_Inferences st = do {
     (r, st) \<leftarrow> apply_loop (run_gc (st\<lparr>DO_INFERENCES := False\<rparr>));
     if r = TRIV_UNSAT then Some (TRIV_UNSAT, st)
     else Some (PREP_NO_CHANGE, st\<lparr>inferlist := [], DO_INFERENCES := True\<rparr>) }"

definition Rebuild_BDDx :: "nat \<Rightarrow> prep \<Rightarrow> (prep_result \<times> prep) option" where
  "Rebuild_BDDx x st = do {
     (r, st) \<leftarrow> Rebuild_body x st;
     if r \<noteq> PREP_NO_CHANGE then Some (r, st)
     else if DO_INFERENCES st then Do_Apply_Inferences st
     else Some (PREP_NO_CHANGE, st) }"

section \<open>The lists of functions\<close>

lemma Rebuild_BDDx_in_loop:
  "\<not> DO_INFERENCES st \<Longrightarrow> Rebuild_body x st = Some (r, st') \<Longrightarrow> DO_INFERENCES st' = DO_INFERENCES st \<Longrightarrow>
    Rebuild_BDDx x st = Rebuild_body x st"
  by (simp add: Rebuild_BDDx_def)

definition counted :: "prep \<Rightarrow> bool" where
  "counted st \<longleftrightarrow> (\<forall>v. num_funcs_var_occurs st v = int (length (amount st v)))"

text \<open>
  The effect of the walk. It does not depend on the order of the old variables, which
  \<open>MinMaxBDD\<close> may have turned round; in between a list may have a function twice.
\<close>

definition amounts_only :: "prep \<Rightarrow> prep \<Rightarrow> bool" where
  "amounts_only st st' \<longleftrightarrow>
     st'\<lparr>amount := (\<lambda>_. []), num_funcs_var_occurs := (\<lambda>_. 0)\<rparr>
       = st\<lparr>amount := (\<lambda>_. []), num_funcs_var_occurs := (\<lambda>_. 0)\<rparr>"

lemma amounts_only_trans: "amounts_only a b \<Longrightarrow> amounts_only b c \<Longrightarrow> amounts_only a c"
  by (simp add: amounts_only_def)

lemma amounts_only_step: "amounts_only st (amount_delete x v st)" "amounts_only st (amount_add x v st)"
    "amounts_only st st"
  by (simp_all add: amounts_only_def amount_delete_def amount_add_def)

lemma amounts_onlyD:
  assumes "amounts_only st st'"
  shows "bst st' = bst st"
    "fn_bdds st' = fn_bdds st"
    "var_lists st' = var_lists st"
    "var_min st' = var_min st"
    "var_max st' = var_max st"
    "functionType st' = functionType st"
    "equalityVble st' = equalityVble st"
    "true_false st' = true_false st"
    "equalvars st' = equalvars st"
    "independantVars st' = independantVars st"
    "repeats st' = repeats st"
    "classes st' = classes st"
    "inferlist st' = inferlist st"
    "DO_INFERENCES st' = DO_INFERENCES st"
    "equivalences_on st' = equivalences_on st"
    "preproc_uses_limits st' = preproc_uses_limits st"
    "functionTypeLimits st' = functionTypeLimits st"
  using assms unfolding amounts_only_def by (cases st; cases st'; simp)+

definition one_if :: "bool \<Rightarrow> 'a \<Rightarrow> 'a multiset" where
  "one_if b x = (if b then {#x#} else {#})"

definition merged :: "nat \<Rightarrow> nat set \<Rightarrow> nat set \<Rightarrow> prep \<Rightarrow> prep \<Rightarrow> bool" where
  "merged x A B st st' \<longleftrightarrow> amounts_only st st' \<and> counted st' \<and>
     (\<forall>v. mset (amount st' v) + one_if (v \<in> B) x = mset (amount st v) + one_if (v \<in> A) x)"

lemma amount_delete_ok:
  assumes "counted st" "x \<in> set (amount st v)"
  shows "counted (amount_delete x v st)"
    and "mset (amount (amount_delete x v st) w) + one_if (w = v) x = mset (amount st w)"
    and "w \<noteq> v \<Longrightarrow> amount (amount_delete x v st) w = amount st w"
  using assms
  by (auto simp: counted_def amount_delete_def length_remove1 one_if_def
      of_nat_diff [OF Suc_leI [OF length_pos_if_in_set]])

lemma amount_add_ok:
  assumes "counted st"
  shows "counted (amount_add x v st)"
    and "mset (amount (amount_add x v st) w) = mset (amount st w) + one_if (w = v) x"
    and "set (amount st w) \<subseteq> set (amount (amount_add x v st) w)"
  using assms by (auto simp: counted_def amount_add_def one_if_def)

lemma merged_delete:
  assumes "counted st" "x \<in> set (amount st b)" "b \<notin> B" "merged x A B (amount_delete x b st) st'"
  shows "merged x A (insert b B) st st'"
proof -
  have "mset (amount st' v) + one_if (v \<in> insert b B) x = mset (amount st v) + one_if (v \<in> A) x" for v
  proof -
    have "mset (amount st' v) + one_if (v \<in> B) x = mset (amount (amount_delete x b st) v) + one_if (v \<in> A) x"
      using assms(4) by (simp add: merged_def)
    then show ?thesis
      using amount_delete_ok(2) [OF assms(1,2), of v] assms(3) by (cases "v = b") (auto simp: one_if_def)
  qed
  then show ?thesis
    using assms(4) amounts_only_trans [OF amounts_only_step(1)] unfolding merged_def by blast
qed

lemma merged_add:
  assumes "counted st" "a \<notin> A" "merged x A B (amount_add x a st) st'"
  shows "merged x (insert a A) B st st'"
proof -
  have "mset (amount st' v) + one_if (v \<in> B) x = mset (amount st v) + one_if (v \<in> insert a A) x" for v
  proof -
    have "mset (amount st' v) + one_if (v \<in> B) x = mset (amount (amount_add x a st) v) + one_if (v \<in> A) x"
      using assms(3) by (simp add: merged_def)
    then show ?thesis
      using amount_add_ok(2) [OF assms(1), of x a v] assms(2) by (cases "v = a") (auto simp: one_if_def)
  qed
  then show ?thesis
    using assms(3) amounts_only_trans [OF amounts_only_step(2)] unfolding merged_def by blast
qed

lemma merge_vars_ok:
  assumes "distinct as" "distinct bs" "counted st" "\<forall>v \<in> set bs. x \<in> set (amount st v)"
  shows "merged x (set as) (set bs) st (merge_vars x as bs st)"
  using assms
proof (induction x as bs st rule: merge_vars.induct)
  case (1 x a as b bs st)
  consider "b < a" | "a < b" | "a = b" by linarith
  then show ?case
  proof cases
    case 1
    have nb: "b \<notin> set bs" and xb: "x \<in> set (amount st b)" using "1.prems"(2,4) by auto
    note del = amount_delete_ok [OF "1.prems"(3) xb]
    have "\<forall>v \<in> set bs. x \<in> set (amount (amount_delete x b st) v)"
    proof
      fix v assume v: "v \<in> set bs"
      then have "v \<noteq> b" using nb by auto
      then show "x \<in> set (amount (amount_delete x b st) v)" using del(3) v "1.prems"(4) by simp
    qed
    then have "merged x (set (a # as)) (set bs) (amount_delete x b st) (merge_vars x (a # as) bs (amount_delete x b st))"
      using "1.IH"(1) [OF 1 "1.prems"(1) _ del(1)] "1.prems"(2) by simp
    then show ?thesis using merged_delete [OF "1.prems"(3) xb nb] 1 by simp
  next
    case 2
    have na: "a \<notin> set as" using "1.prems"(1) by auto
    note add = amount_add_ok [OF "1.prems"(3), where x = x and v = a]
    have "\<forall>v \<in> set (b # bs). x \<in> set (amount (amount_add x a st) v)"
      by (intro ballI subsetD [OF add(3)] bspec [OF "1.prems"(4)])
    then have "merged x (set as) (set (b # bs)) (amount_add x a st) (merge_vars x as (b # bs) (amount_add x a st))"
      using "1.IH"(2) [OF _ 2 _ "1.prems"(2) add(1)] 2 "1.prems"(1) by simp
    then show ?thesis using merged_add [OF "1.prems"(3) na] 2 by simp
  next
    case 3
    have na: "a \<notin> set as" "b \<notin> set bs" using "1.prems"(1,2) by auto
    have m: "merged x (set as) (set bs) st (merge_vars x as bs st)"
      by (rule "1.IH"(3)) (use 3 "1.prems" in auto)
    have "mset (amount (merge_vars x as bs st) v) + one_if (v \<in> set (b # bs)) x =
        mset (amount st v) + one_if (v \<in> set (a # as)) x" for v
    proof -
      have "mset (amount (merge_vars x as bs st) v) + one_if (v \<in> set bs) x = mset (amount st v) + one_if (v \<in> set as) x"
        using m by (simp add: merged_def)
      then show ?thesis using 3 na by (cases "v = b") (simp_all add: one_if_def)
    qed
    then show ?thesis using m 3 by (simp add: merged_def)
  qed
next
  case (2 x b bs st)
  have nb: "b \<notin> set bs" and xb: "x \<in> set (amount st b)" using "2.prems"(2,4) by auto
  note del = amount_delete_ok [OF "2.prems"(3) xb]
  have "\<forall>v \<in> set bs. x \<in> set (amount (amount_delete x b st) v)"
  proof
    fix v assume v: "v \<in> set bs"
    then have "v \<noteq> b" using nb by auto
    then show "x \<in> set (amount (amount_delete x b st) v)" using del(3) v "2.prems"(4) by simp
  qed
  then have "merged x (set []) (set bs) (amount_delete x b st) (merge_vars x [] bs (amount_delete x b st))"
    using "2.IH" [OF _ _ del(1)] "2.prems"(2) by simp
  then show ?case using merged_delete [OF "2.prems"(3) xb nb] by simp
next
  case (3 x a as st)
  have na: "a \<notin> set as" using "3.prems"(1) by auto
  have "merged x (set as) (set []) (amount_add x a st) (merge_vars x as [] (amount_add x a st))"
    using "3.IH" [OF _ _ amount_add_ok(1) [OF "3.prems"(3)]] "3.prems"(1) by simp
  then show ?case using merged_add [OF "3.prems"(3) na] by simp
next
  case (4 x st)
  then show ?case using amounts_only_step(3) by (simp add: merged_def)
qed

text \<open>When the lists were right before, they are right afterwards, and have no function twice.\<close>

lemma merged_lists:
  assumes m: "merged x A B st st'" and d: "distinct (amount st v)" and x: "x \<in> set (amount st v) \<longleftrightarrow> v \<in> B"
  shows "distinct (amount st' v)" and "y \<in> set (amount st' v) \<longleftrightarrow> (if y = x then v \<in> A else y \<in> set (amount st v))"
proof -
  have eq: "mset (amount st' v) + one_if (v \<in> B) x = mset (amount st v) + one_if (v \<in> A) x"
    using m by (simp add: merged_def)
  have c: "count (mset (amount st v)) z = (if z \<in> set (amount st v) then 1 else 0)" for z
    using d by (simp add: distinct_count_atmost_1)
  have cz: "count (mset (amount st' v)) z = (if z = x then (if v \<in> A then 1 else 0) else if z \<in> set (amount st v) then 1 else 0)" for z
    using arg_cong [OF eq, of "\<lambda>M. count M z"] c [of z] x
    by (auto simp: one_if_def split: if_splits)
  have mem: "z \<in> set (amount st' v) \<longleftrightarrow> 0 < count (mset (amount st' v)) z" for z by simp
  show "y \<in> set (amount st' v) \<longleftrightarrow> (if y = x then v \<in> A else y \<in> set (amount st v))" unfolding mem cz by simp
  have "count (mset (amount st' v)) z = (if z \<in> set (amount st' v) then 1 else 0)" for z unfolding mem cz by simp
  then show "distinct (amount st' v)" unfolding distinct_count_atmost_1 by blast
qed

section \<open>The invariant\<close>

text \<open>
  The variables that are gone: set or replaced. \<open>known\<close> is what the variable list says of them,
  \<open>pending\<close> the inferences not yet applied, without the first \<open>c\<close> (the one that is being applied).
\<close>

definition eliminated :: "prep \<Rightarrow> nat set" where
  "eliminated st = {v. true_false st v \<in> {0, 1} \<or> equalvars st v \<noteq> 0}"

definition known :: "prep \<Rightarrow> assignment \<Rightarrow> bool" where
  "known st a \<longleftrightarrow> (\<forall>v. (true_false st v = 1 \<longrightarrow> a v) \<and> (true_false st v = 0 \<longrightarrow> \<not> a v) \<and>
     (equalvars st v \<noteq> 0 \<longrightarrow> a v = lit (equalvars st v) a))"

definition pending :: "nat \<Rightarrow> prep \<Rightarrow> infer list" where
  "pending c st = drop c (inferlist st)"

text \<open>The solutions that the state still allows.\<close>

definition Sol :: "nat \<Rightarrow> prep \<Rightarrow> assignment set" where
  "Sol c st = {a. (\<forall>f \<in> set (fn_bdds st). ev f a) \<and> known st a \<and> (\<forall>i \<in> set (pending c st). infer_holds i a)}"

definition vars_in :: "nat \<Rightarrow> prep \<Rightarrow> nat list" where
  "vars_in x st = (case var_lists st ! x of None \<Rightarrow> [] | Some vs \<Rightarrow> vs)"

text \<open>
  \<open>D\<close> are the functions that have changed since they were last rebuilt. The lists of the others are
  up to date, and their inferences have been entered into the classes.
\<close>

definition lists_ok :: "nat set \<Rightarrow> prep \<Rightarrow> bool" where
  "lists_ok D st \<longleftrightarrow> length (var_lists st) = length (fn_bdds st) \<and> counted st \<and> (\<forall>v. distinct (amount st v)) \<and>
     (\<forall>x < length (fn_bdds st). distinct (vars_in x st) \<and>
        (x \<notin> D \<longrightarrow> set (vars_in x st) = bvars (fn_bdds st ! x))) \<and>
     (\<forall>x v. x \<in> set (amount st v) \<longleftrightarrow> x < length (fn_bdds st) \<and> v \<in> set (vars_in x st))"

definition infs_ok :: "nat \<Rightarrow> prep \<Rightarrow> bool" where
  "infs_ok c st \<longleftrightarrow>
     (let e = classes st; q = pending c st in
      c \<le> length (inferlist st) \<and> equiv_inv e \<and> Tr e < Fa e \<and>
      (\<forall>v. true_false st v \<in> {-1, 0, 1}) \<and> (\<forall>v \<in> eliminated st. 0 < v \<and> int v < no_inp_vars e) \<and>
      (\<forall>i \<in> set q. infer_in e i) \<and> elims_ok (int ` eliminated st) q \<and>
      mins e \<inter> (int ` eliminated st \<union> elim ` set q) = {} \<and>
      (\<forall>a. with_consts e a \<in> models e \<longleftrightarrow> known st a \<and> (\<forall>i \<in> set q. infer_holds i a)) \<and>
      (\<forall>b. \<exists>a. known st a \<and> (\<forall>v. v \<notin> eliminated st \<longrightarrow> a v = b v)))"

definition limits_ok :: "prep \<Rightarrow> bool" where
  "limits_ok st \<longleftrightarrow> (\<forall>t \<in> {PLAINOR, PLAINXOR, AND, MINMAX, NEG_MINMAX}. 0 < functionTypeLimits st t)"

definition fns_ok :: "nat set \<Rightarrow> prep \<Rightarrow> bool" where
  "fns_ok D st \<longleftrightarrow> st_ok (bst st) \<and> limits_ok st \<and>
     (\<forall>f \<in> set (fn_bdds st). robdd f \<and> (\<forall>v \<in> bvars f. int v < no_inp_vars (classes st) \<and> v \<notin> eliminated st)) \<and>
     (\<forall>x < length (fn_bdds st). x \<notin> D \<longrightarrow> (\<forall>a. with_consts (classes st) a \<in> models (classes st) \<longrightarrow>
        (\<forall>i \<in> set (inferences (equivalences_on st) (fn_bdds st ! x)). infer_holds i a)))"

definition prep_inv :: "nat set \<Rightarrow> nat \<Rightarrow> prep \<Rightarrow> bool" where
  "prep_inv D c st \<longleftrightarrow> lists_ok D st \<and> infs_ok c st \<and> fns_ok D st"

text \<open>The fields that the invariant reads; a change of the others keeps it.\<close>

definition same_core :: "prep \<Rightarrow> prep \<Rightarrow> bool" where
  "same_core st st' \<longleftrightarrow> bst st' = bst st \<and> fn_bdds st' = fn_bdds st \<and> var_lists st' = var_lists st \<and>
     amount st' = amount st \<and> num_funcs_var_occurs st' = num_funcs_var_occurs st \<and>
     true_false st' = true_false st \<and> equalvars st' = equalvars st \<and> classes st' = classes st \<and>
     inferlist st' = inferlist st \<and> equivalences_on st' = equivalences_on st \<and>
     limits_ok st' = limits_ok st"

lemma same_coreD:
  assumes "same_core st st'"
  shows "prep_inv D c st' = prep_inv D c st" "Sol c st' = Sol c st" "eliminated st' = eliminated st"
proof -
  have fr: "bst st' = bst st" "fn_bdds st' = fn_bdds st" "var_lists st' = var_lists st" "amount st' = amount st"
      "num_funcs_var_occurs st' = num_funcs_var_occurs st" "true_false st' = true_false st"
      "equalvars st' = equalvars st" "classes st' = classes st" "inferlist st' = inferlist st"
      "equivalences_on st' = equivalences_on st" "limits_ok st' = limits_ok st"
    using assms by (simp_all add: same_core_def)
  have same: "vars_in x st' = vars_in x st" "known st' = known st" "pending c st' = pending c st"
      "eliminated st' = eliminated st" for x c
    by (simp_all add: fr vars_in_def known_def pending_def eliminated_def fun_eq_iff)
  show "prep_inv D c st' = prep_inv D c st"
    unfolding prep_inv_def lists_ok_def infs_ok_def fns_ok_def counted_def same fr ..
  show "Sol c st' = Sol c st" unfolding Sol_def same fr ..
  show "eliminated st' = eliminated st" by (rule same)
qed

text \<open>What a rebuild leaves as it is.\<close>

definition kept :: "prep \<Rightarrow> prep \<Rightarrow> bool" where
  "kept st st' \<longleftrightarrow> fn_bdds st' = fn_bdds st \<and> true_false st' = true_false st \<and> equalvars st' = equalvars st \<and>
     DO_INFERENCES st' = DO_INFERENCES st \<and> equivalences_on st' = equivalences_on st \<and>
     same_frame (classes st) (classes st') \<and> (\<exists>js. inferlist st' = inferlist st @ js)"

section \<open>Rebuilding keeps the invariant\<close>

lemma findandset_fnType_const:
  assumes "\<forall>t \<in> {PLAINOR, PLAINXOR, AND, MINMAX, NEG_MINMAX}. 0 < limits t"
  shows "findandset_fnType limits f (UNSURE, 0, []) s = Some ((False, UNSURE, 0, []), s)"
  using assms by (simp add: findandset_fnType_def not_le [symmetric])

lemma rebuild_type_ok:
  assumes lim: "limits_ok st" and f: "robdd (fn_bdds st ! x)" and vs: "distinct vs" "set vs = bvars (fn_bdds st ! x)"
    and s: "st_ok (bst st)" and x: "x < length (var_lists st)" "var_lists st ! x = Some vs"
  shows "\<exists>ty equ s ws. rebuild_type x vs st = Some (st\<lparr>functionType := ty, equalityVble := equ, bst := s,
      var_lists := (var_lists st)[x := Some ws]\<rparr>) \<and> distinct ws \<and> set ws = set vs \<and> st_ok s"
proof -
  have id: "(var_lists st)[x := Some vs] = var_lists st" using x(2) by (metis list_update_id)
  show ?thesis
  proof (cases "functionType st x = XDD \<or> \<not> preproc_uses_limits st")
    case True
    then show ?thesis
      using id vs(1) s
      by (intro exI [of _ "if functionType st x = XDD then functionType st else (functionType st)(x := UNSURE)"]
          exI [of _ "if functionType st x = XDD then equalityVble st else (equalityVble st)(x := 0)"]
          exI [of _ "bst st"] exI [of _ vs]) (auto simp: rebuild_type_def)
  next
    case False
    then have pos: "\<forall>t \<in> {PLAINOR, PLAINXOR, AND, MINMAX, NEG_MINMAX}. 0 < functionTypeLimits st t"
      using lim by (simp add: limits_ok_def)
    have "\<exists>r ty equ ws s'. findandset_fnType (functionTypeLimits st) (fn_bdds st ! x) (UNSURE, 0, vs) (bst st) =
        Some ((r, ty, equ, ws), s') \<and> st_ok s' \<and> distinct ws \<and> set ws = set vs"
    proof (cases "IS_TRUE_FALSE (fn_bdds st ! x)")
      case True
      then have "vs = []" using vs(2) by (auto simp: IS_TRUE_FALSE_def)
      then show ?thesis using findandset_fnType_const [OF pos] s by auto
    next
      case no: False
      have "0 \<notin> set vs" using vs(2) bvars_le_variable [OF f, of 0] by auto
      then show ?thesis
        using findandset_fnType_ok [OF f vs(1) _ no s, of "functionTypeLimits st" UNSURE 0] vs(1)
        by (auto simp: sorted_or_same_def)
    qed
    then obtain r ty equ ws s' where fs: "findandset_fnType (functionTypeLimits st) (fn_bdds st ! x) (UNSURE, 0, vs) (bst st) =
        Some ((r, ty, equ, ws), s')" "st_ok s'" "distinct ws" "set ws = set vs"
      by blast
    have "rebuild_type x vs st = Some (st\<lparr>functionType := (functionType st)(x := ty), equalityVble := (equalityVble st)(x := equ),
        bst := s', var_lists := (var_lists st)[x := Some ws]\<rparr>)"
      using False fs(1) by (simp add: rebuild_type_def Let_def)
    then show ?thesis using fs(2-4) by blast
  qed
qed

lemma Rebuild_infers:
  assumes "prep_inv D c st" "x < length (fn_bdds st)"
    and "i \<in> set (inferences (equivalences_on st) (fn_bdds st ! x))"
  shows "infer_in (classes st) i" and "ev (fn_bdds st ! x) a \<Longrightarrow> infer_holds i a"
proof -
  let ?f = "fn_bdds st ! x"
  have f: "robdd ?f" "\<forall>v \<in> bvars ?f. int v < no_inp_vars (classes st)"
    using assms(1,2) by (auto simp: prep_inv_def fns_ok_def)
  show "infer_holds i a" if "ev ?f a" using inferences_sound [OF f(1) that assms(3)] .
  have "0 < no_inp_vars (classes st)" using assms(1) f inferences_vars [OF assms(3)] by fastforce
  then show "infer_in (classes st) i"
    using inferences_wf [OF f(1) assms(3)] inferences_vars [OF assms(3)] f(2)
    by (cases "snd i = 0") (force simp: infer_in_def)+
qed
text \<open>The state after the rebuild, by its fields.\<close>

definition rebuilt :: "nat \<Rightarrow> infer list \<Rightarrow> equiv \<Rightarrow> prep \<Rightarrow> prep \<Rightarrow> bool" where
  "rebuilt x js e' st st' \<longleftrightarrow>
     fn_bdds st' = fn_bdds st \<and> true_false st' = true_false st \<and> equalvars st' = equalvars st \<and>
     DO_INFERENCES st' = DO_INFERENCES st \<and> equivalences_on st' = equivalences_on st \<and>
     limits_ok st' = limits_ok st \<and>
     inferlist st' = inferlist st @ js \<and> classes st' = e' \<and> st_ok (bst st') \<and> counted st' \<and>
     (\<forall>v. distinct (amount st' v)) \<and>
     (\<exists>vs. distinct vs \<and> set vs = bvars (fn_bdds st ! x) \<and> var_lists st' = (var_lists st)[x := Some vs] \<and>
       (\<forall>v y. y \<in> set (amount st' v) \<longleftrightarrow> (if y = x then v \<in> set vs else y \<in> set (amount st v))))"

text \<open>What entering the inferences alone does to the fields that the invariant of the inferences reads.\<close>

definition entered :: "infer list \<Rightarrow> equiv \<Rightarrow> prep \<Rightarrow> prep \<Rightarrow> bool" where
  "entered js e' st st' \<longleftrightarrow>
     true_false st' = true_false st \<and> equalvars st' = equalvars st \<and>
     inferlist st' = inferlist st @ js \<and> classes st' = e'"

lemma rebuilt_entered: "rebuilt x js e' st st' \<Longrightarrow> entered js e' st st'"
  by (simp add: rebuilt_def entered_def)

lemma Rebuild_body_shape:
  assumes inv: "prep_inv D c st" and x: "x < length (fn_bdds st)" and f: "fn_bdds st ! x \<noteq> FalseP"
    and r: "ReduceInferences (inferences (equivalences_on st) (fn_bdds st ! x)) (classes st) = Some (PREP_NO_CHANGE, js, e')"
  shows "\<exists>st'. Rebuild_body x st = Some (PREP_NO_CHANGE, st') \<and> rebuilt x js e' st st'"
proof -
  let ?f = "fn_bdds st ! x"
  have st: "st_ok (bst st)" "limits_ok st" "robdd ?f" using inv x by (auto simp: prep_inv_def fns_ok_def)
  have lists: "length (var_lists st) = length (fn_bdds st)" "counted st" "distinct (vars_in x st)"
      "\<And>v. distinct (amount st v)" "\<And>v. x \<in> set (amount st v) \<longleftrightarrow> v \<in> set (vars_in x st)"
    using inv x by (auto simp: prep_inv_def lists_ok_def)
  obtain y s where u: "run_state (unravelBDD ?f) (bst st) = (y, s)" by (metis surj_pair)
  have y: "distinct y" "set y = bvars ?f" and s: "st_ok s"
    using gives_run [OF unravelBDD_gives st(1) u] by auto
  define vs where "vs = sort y"
  have vs: "distinct vs" "set vs = bvars ?f" using y by (simp_all add: vs_def)
  define st1 where "st1 = (SetRepeats x st)\<lparr>inferlist := inferlist st @ js, classes := e', bst := s\<rparr>"
  define m where "m = merge_vars x vs (vars_in x st) st1"
  define st2 where "st2 = m\<lparr>var_lists := (var_lists m)[x := Some vs],
    var_min := (var_min m)(x := if vs = [] then 0 else hd vs), var_max := (var_max m)(x := if vs = [] then 0 else last vs)\<rparr>"
  have same: "amount st1 = amount st" "num_funcs_var_occurs st1 = num_funcs_var_occurs st"
    by (simp_all add: st1_def SetRepeats_def)
  have mm: "merged x (set vs) (set (vars_in x st)) st1 m"
    unfolding m_def by (rule merge_vars_ok) (use vs lists same in \<open>simp_all add: counted_def\<close>)
  have ao: "amounts_only st1 m" and cm: "counted m" using mm by (simp_all add: merged_def)
  note fr = amounts_onlyD [OF ao]
  have ml: "distinct (amount m v)" "y \<in> set (amount m v) \<longleftrightarrow> (if y = x then v \<in> set vs else y \<in> set (amount st v))" for v y
    using merged_lists [OF mm, of v] lists(4,5) same by simp_all
  have "limits_ok st2" using st(2) fr by (simp add: limits_ok_def st2_def st1_def SetRepeats_def)
  moreover have "fn_bdds st2 ! x = ?f" "bst st2 = s" "var_lists st2 ! x = Some vs" "x < length (var_lists st2)"
    using fr x lists(1) by (simp_all add: st2_def st1_def SetRepeats_def)
  ultimately obtain ty equ s3 ws where st3: "rebuild_type x vs st2 = Some (st2\<lparr>functionType := ty, equalityVble := equ, bst := s3,
      var_lists := (var_lists st2)[x := Some ws]\<rparr>)" and ws: "distinct ws" "set ws = set vs" "st_ok s3"
    using rebuild_type_ok [of st2 x vs] st(3) vs s by auto
  define st3 where "st3 = st2\<lparr>functionType := ty, equalityVble := equ, bst := s3, var_lists := (var_lists st2)[x := Some ws]\<rparr>"
  have run: "Rebuild_body x st = Some (PREP_NO_CHANGE, st3)"
  proof -
    have "fn_bdds (SetRepeats x st) = fn_bdds st" "equivalences_on (SetRepeats x st) = equivalences_on st"
        "classes (SetRepeats x st) = classes st" "inferlist (SetRepeats x st) = inferlist st"
        "bst (SetRepeats x st) = bst st" "var_lists (SetRepeats x st) = var_lists st"
      by (simp_all add: SetRepeats_def)
    then show ?thesis
      using f r x u st3 [folded st3_def, unfolded st2_def m_def vars_in_def st1_def vs_def]
      by (simp add: Rebuild_body_def Let_def)
  qed
  have "amount st3 = amount m" "num_funcs_var_occurs st3 = num_funcs_var_occurs m" "bst st3 = s3"
      "inferlist st3 = inferlist m" "classes st3 = classes m" "fn_bdds st3 = fn_bdds m"
      "true_false st3 = true_false m" "equalvars st3 = equalvars m" "DO_INFERENCES st3 = DO_INFERENCES m"
      "equivalences_on st3 = equivalences_on m" "limits_ok st3 = limits_ok m"
      "var_lists st3 = (var_lists m)[x := Some ws]"
    by (simp_all add: st3_def st2_def limits_ok_def)
  moreover have "limits_ok m = limits_ok st" using fr by (simp add: limits_ok_def st1_def SetRepeats_def)
  ultimately have "rebuilt x js e' st st3"
    unfolding rebuilt_def using fr ml cm vs(2) ws
    by (auto simp: st1_def SetRepeats_def counted_def intro!: exI [of _ ws])
  then show ?thesis using run by blast
qed

lemma rebuilt_vars_in:
  assumes "rebuilt x js e' st st'" "length (var_lists st) = length (fn_bdds st)" "x < length (fn_bdds st)"
  shows "set (vars_in y st') = (if y = x then bvars (fn_bdds st ! x) else set (vars_in y st))"
    and "distinct (vars_in y st) \<Longrightarrow> distinct (vars_in y st')"
  using assms by (auto simp: rebuilt_def vars_in_def nth_list_update)

lemma rebuilt_lists_ok:
  assumes "rebuilt x js e' st st'" "lists_ok D st" "x < length (fn_bdds st)"
  shows "lists_ok (D - {x}) st'"
proof -
  have fr: "fn_bdds st' = fn_bdds st" "counted st'" "\<forall>v. distinct (amount st' v)" "length (var_lists st') = length (var_lists st)"
    using assms(1) by (auto simp: rebuilt_def)
  have l: "length (var_lists st) = length (fn_bdds st)"
      "\<And>y. y < length (fn_bdds st) \<Longrightarrow> distinct (vars_in y st) \<and>
         (y \<notin> D \<longrightarrow> set (vars_in y st) = bvars (fn_bdds st ! y))"
      "\<And>y v. y \<in> set (amount st v) \<longleftrightarrow> y < length (fn_bdds st) \<and> v \<in> set (vars_in y st)"
    using assms(2) by (auto simp: lists_ok_def)
  note v = rebuilt_vars_in [OF assms(1) l(1) assms(3)]
  have a: "y \<in> set (amount st' w) \<longleftrightarrow> (if y = x then w \<in> bvars (fn_bdds st ! x) else y \<in> set (amount st w))" for y w
    using assms(1) by (auto simp: rebuilt_def)
  show ?thesis
    unfolding lists_ok_def fr v(1) a using l v(2) assms(3) fr by auto
qed
lemma entered_eliminated:
  assumes "entered js e' st st'"
  shows "eliminated st' = eliminated st" and "known st' = known st"
    and "c \<le> length (inferlist st) \<Longrightarrow> pending c st' = pending c st @ js"
  using assms by (auto simp: entered_def eliminated_def known_def pending_def fun_eq_iff)

lemma pending_models:
  "infs_ok c st \<Longrightarrow> with_consts (classes st) a \<in> models (classes st) \<longleftrightarrow>
     known st a \<and> (\<forall>i \<in> set (pending c st). infer_holds i a)"
  unfolding infs_ok_def Let_def by blast

lemma infs_ok_length: "infs_ok c st \<Longrightarrow> c \<le> length (inferlist st)"
  unfolding infs_ok_def Let_def by blast

lemma entered_infs_ok:
  assumes b: "entered js e' st st'" and inv: "infs_ok c st"
    and r: "reduced_list (classes st) (int ` eliminated st \<union> elim ` set (pending c st)) is js e'"
  shows "infs_ok c st'"
proof -
  let ?e = "classes st" and ?E = "int ` eliminated st \<union> elim ` set (pending c st)"
  note c = infs_ok_length [OF inv]
  have fr: "classes st' = e'" "true_false st' = true_false st" "length (inferlist st') = length (inferlist st) + length js"
    using b by (auto simp: entered_def)
  note el = entered_eliminated [OF b]
  have sf: "same_frame ?e e'" and e': "equiv_inv e'" and js: "\<forall>j \<in> set js. infer_in ?e j" "elims_ok ?E js"
      "mins e' \<inter> (?E \<union> elim ` set js) = {}"
    and m: "\<And>a. with_consts ?e a \<in> models e' \<longleftrightarrow> with_consts ?e a \<in> models ?e \<and> (\<forall>i \<in> set is. infer_holds i a)"
    and n: "\<And>a. with_consts ?e a \<in> models ?e \<Longrightarrow> (\<forall>j \<in> set js. infer_holds j a) = (\<forall>i \<in> set is. infer_holds i a)"
    using r unfolding reduced_list_def by blast+
  have i: "Tr ?e < Fa ?e" "\<forall>v. true_false st v \<in> {-1, 0, 1}"
      "\<forall>v \<in> eliminated st. 0 < v \<and> int v < no_inp_vars ?e"
      "\<forall>i \<in> set (pending c st). infer_in ?e i" "elims_ok (int ` eliminated st) (pending c st)"
      "\<forall>b. \<exists>a. known st a \<and> (\<forall>v. v \<notin> eliminated st \<longrightarrow> a v = b v)"
    using inv unfolding infs_ok_def Let_def by - ((elim conjE, assumption)+)
  have k: "Tr e' = Tr ?e" "Fa e' = Fa ?e" "no_inp_vars e' = no_inp_vars ?e"
    using sf by (simp_all add: same_frame_def)
  have mod: "with_consts e' a \<in> models e' \<longleftrightarrow> known st a \<and> (\<forall>i \<in> set (pending c st @ js). infer_holds i a)" for a
    using m [of a] n [of a] pending_models [OF inv, of a]
    unfolding with_consts_frame [OF sf] set_append by blast
  have "elims_ok (int ` eliminated st) (pending c st @ js)"
    using i(5) js(2) by (simp add: elims_ok_append)
  moreover have "mins e' \<inter> (int ` eliminated st \<union> elim ` set (pending c st @ js)) = {}"
    using js(3) by auto
  moreover have "\<forall>i \<in> set (pending c st @ js). infer_in e' i"
    using i(4) js(1) by (auto simp: infer_in_frame [OF sf])
  ultimately show ?thesis
    unfolding infs_ok_def Let_def el(1,2) el(3) [OF c] fr k
    using c e' i(1-3,6) mod by simp
qed

lemma rebuilt_fns_ok:
  assumes b: "rebuilt x js e' st st'" and inv: "fns_ok D st" "infs_ok c st"
    and r: "reduced_list (classes st) E (inferences (equivalences_on st) (fn_bdds st ! x)) js e'"
  shows "fns_ok (D - {x}) st'"
proof -
  let ?e = "classes st"
  have sf: "same_frame ?e e'"
    and m: "\<And>a. with_consts ?e a \<in> models e' \<longleftrightarrow> with_consts ?e a \<in> models ?e \<and>
      (\<forall>i \<in> set (inferences (equivalences_on st) (fn_bdds st ! x)). infer_holds i a)"
    using r by (auto simp: reduced_list_def)
  have fr: "fn_bdds st' = fn_bdds st" "equivalences_on st' = equivalences_on st" "classes st' = e'"
      "st_ok (bst st')" "limits_ok st' = limits_ok st"
    using b by (auto simp: rebuilt_def)
  have ent: "\<forall>i \<in> set (inferences (equivalences_on st) (fn_bdds st ! y)). infer_holds i a"
    if "y < length (fn_bdds st)" "y \<notin> D - {x}" "with_consts ?e a \<in> models e'" for y a
    using that inv(1) m [of a] by (cases "y = x") (auto simp: fns_ok_def)
  have k: "no_inp_vars e' = no_inp_vars ?e" using sf by (simp add: same_frame_def)
  show ?thesis
    unfolding fns_ok_def fr entered_eliminated [OF rebuilt_entered [OF b]] with_consts_frame [OF sf] k
    using inv(1) ent fr(4) by (auto simp: fns_ok_def)
qed

lemma rebuilt_Sol:
  assumes b: "rebuilt x js e' st st'" and inv: "prep_inv D c st" and x: "x < length (fn_bdds st)"
    and r: "reduced_list (classes st) E (inferences (equivalences_on st) (fn_bdds st ! x)) js e'"
  shows "Sol c st' = Sol c st"
proof -
  have i: "infs_ok c st" "c \<le> length (inferlist st)" using inv infs_ok_length by (auto simp: prep_inv_def)
  have n: "\<And>a. with_consts (classes st) a \<in> models (classes st) \<Longrightarrow> (\<forall>j \<in> set js. infer_holds j a) =
      (\<forall>i \<in> set (inferences (equivalences_on st) (fn_bdds st ! x)). infer_holds i a)"
    using r by (auto simp: reduced_list_def)
  have fr: "fn_bdds st' = fn_bdds st" using b by (simp add: rebuilt_def)
  have "\<forall>j \<in> set js. infer_holds j a"
    if "a \<in> Sol c st" for a
  proof -
    have "ev (fn_bdds st ! x) a" "known st a \<and> (\<forall>i \<in> set (pending c st). infer_holds i a)"
      using that x by (auto simp: Sol_def)
    then show ?thesis
      using n [of a] pending_models [OF i(1), of a] Rebuild_infers(2) [OF inv x] by blast
  qed
  then show ?thesis
    unfolding Sol_def fr entered_eliminated [OF rebuilt_entered [OF b]] entered_eliminated(3) [OF rebuilt_entered [OF b] i(2)] set_append by blast
qed

lemma Rebuild_body_ok:
  assumes inv: "prep_inv D c st" and x: "x < length (fn_bdds st)"
  shows "\<exists>r st'. Rebuild_body x st = Some (r, st') \<and>
    (r = PREP_NO_CHANGE \<and> prep_inv (D - {x}) c st' \<and> kept st st' \<and> Sol c st' = Sol c st \<or>
     r = TRIV_UNSAT \<and> Sol c st = {})"
proof (cases "fn_bdds st ! x = FalseP")
  case True
  then have "Sol c st = {}" using x by (force simp: Sol_def dest: nth_mem)
  then show ?thesis using True by (simp add: Rebuild_body_def SetRepeats_def)
next
  case False
  let ?e = "classes st" and ?E = "int ` eliminated st \<union> elim ` set (pending c st)"
  let ?is = "inferences (equivalences_on st) (fn_bdds st ! x)"
  have i: "infs_ok c st" and l: "lists_ok D st" and f: "fns_ok D st" using inv by (auto simp: prep_inv_def)
  have e: "equiv_inv ?e" "Tr ?e < Fa ?e" "mins ?e \<inter> ?E = {}"
    using i unfolding infs_ok_def Let_def by blast+
  have ins: "\<forall>i \<in> set ?is. infer_in ?e i" using Rebuild_infers(1) [OF inv x] by blast
  obtain r js e' where r: "ReduceInferences ?is ?e = Some (r, js, e')"
      "r = PREP_NO_CHANGE \<and> reduced_list ?e ?E ?is js e' \<or>
       r = TRIV_UNSAT \<and> (\<forall>a. with_consts ?e a \<in> models ?e \<longrightarrow> \<not> (\<forall>i \<in> set ?is. infer_holds i a))"
    using ReduceInferences_ok [OF e(1,2) ins e(3)] by blast
  show ?thesis
  proof (cases "r = TRIV_UNSAT")
    case True
    then have no: "\<not> (\<forall>i \<in> set ?is. infer_holds i a)" if "with_consts ?e a \<in> models ?e" for a
      using r(2) that by auto
    have "a \<notin> Sol c st" for a
    proof
      assume "a \<in> Sol c st"
      then have "ev (fn_bdds st ! x) a" "known st a \<and> (\<forall>i \<in> set (pending c st). infer_holds i a)"
        using x by (auto simp: Sol_def)
      then show False
        using no [of a] pending_models [OF i, of a] Rebuild_infers(2) [OF inv x] by blast
    qed
    moreover have "\<exists>st'. Rebuild_body x st = Some (TRIV_UNSAT, st')"
      using r(1) True False by (simp add: Rebuild_body_def SetRepeats_def Let_def)
    ultimately show ?thesis by blast
  next
    case False': False
    then have nc: "r = PREP_NO_CHANGE" and rl: "reduced_list ?e ?E ?is js e'" using r(2) by auto
    obtain st' where st': "Rebuild_body x st = Some (PREP_NO_CHANGE, st')" "rebuilt x js e' st st'"
      using Rebuild_body_shape [OF inv x False r(1) [unfolded nc]] by blast
    have "prep_inv (D - {x}) c st'"
      using rebuilt_lists_ok [OF st'(2) l x] entered_infs_ok [OF rebuilt_entered [OF st'(2)] i rl] rebuilt_fns_ok [OF st'(2) f i rl]
      by (simp add: prep_inv_def)
    moreover have "same_frame ?e e'" using rl by (simp add: reduced_list_def)
    then have "kept st st'" using st'(2) by (simp add: kept_def rebuilt_def)
    ultimately show ?thesis using st'(1) rebuilt_Sol [OF st'(2) inv x rl] by blast
  qed
qed
lemma kept_refl: "kept st st"
  by (simp add: kept_def same_frame_def)

lemma kept_trans: "kept a b \<Longrightarrow> kept b c \<Longrightarrow> kept a c"
  by (auto simp: kept_def intro: same_frame_trans)

lemma prep_inv_mono: "prep_inv D c st \<Longrightarrow> D \<subseteq> D' \<Longrightarrow> prep_inv D' c st"
  by (auto simp: prep_inv_def lists_ok_def fns_ok_def)

lemma rebuild_all_ok:
  assumes "prep_inv (set k) c st" "\<forall>j \<in> set k. j < length (fn_bdds st)"
  shows "\<exists>r st'. rebuild_all b k st = Some (r, st') \<and>
    (r = PREP_NO_CHANGE \<and> prep_inv {} c st' \<and> kept st st' \<and> Sol c st' = Sol c st \<or>
     r = TRIV_UNSAT \<and> Sol c st = {})"
  using assms
proof (induction k arbitrary: st)
  case Nil
  then show ?case by (simp add: kept_refl)
next
  case (Cons j k)
  have j: "j < length (fn_bdds st)" using Cons.prems(2) by simp
  show ?case
  proof (cases "b \<and> fn_bdds st ! j = FalseP")
    case True
    then have "Sol c st = {}" using j by (force simp: Sol_def dest: nth_mem)
    then show ?thesis using True by simp
  next
    case False
    obtain r st1 where r: "Rebuild_body j st = Some (r, st1)"
        "r = PREP_NO_CHANGE \<and> prep_inv (set (j # k) - {j}) c st1 \<and> kept st st1 \<and> Sol c st1 = Sol c st \<or>
         r = TRIV_UNSAT \<and> Sol c st = {}"
      using Rebuild_body_ok [OF Cons.prems(1) j] by blast
    show ?thesis
    proof (cases "r = TRIV_UNSAT")
      case True
      then show ?thesis using r False by auto
    next
      case nu: False
      then have st1: "prep_inv (set k) c st1" "kept st st1" "Sol c st1 = Sol c st"
        using r(2) prep_inv_mono [of "set (j # k) - {j}" c st1 "set k"] by auto
      then have "\<forall>j \<in> set k. j < length (fn_bdds st1)" using Cons.prems(2) by (simp add: kept_def)
      then obtain r' st' where r': "rebuild_all b k st1 = Some (r', st')"
          "r' = PREP_NO_CHANGE \<and> prep_inv {} c st' \<and> kept st1 st' \<and> Sol c st' = Sol c st1 \<or>
           r' = TRIV_UNSAT \<and> Sol c st1 = {}"
        using Cons.IH [OF st1(1)] by blast
      have "rebuild_all b (j # k) st = Some (r', st')" using r(1) r'(1) nu False by auto
      then show ?thesis using r'(2) st1(2,3) kept_trans by auto
    qed
  qed
qed

section \<open>Eliminating a variable\<close>

text \<open>
  What setting or replacing the variable \<open>v\<close> of the inference \<open>i\<close> does, before the functions that
  had it are rebuilt.
\<close>

definition stepped :: "infer \<Rightarrow> nat \<Rightarrow> prep \<Rightarrow> prep \<Rightarrow> bool" where
  "stepped i v st st' \<longleftrightarrow>
     classes st' = classes st \<and> inferlist st' = inferlist st \<and> amount st' = amount st \<and>
     num_funcs_var_occurs st' = num_funcs_var_occurs st \<and> var_lists st' = var_lists st \<and>
     limits_ok st' = limits_ok st \<and> equivalences_on st' = equivalences_on st \<and>
     st_ok (bst st') \<and> (\<forall>w. true_false st' w \<in> {-1, 0, 1}) \<and>
     eliminated st' = insert v (eliminated st) \<and> (\<forall>a. known st' a \<longleftrightarrow> known st a \<and> infer_holds i a) \<and>
     (\<forall>b. \<exists>a. known st' a \<and> (\<forall>w. w \<notin> eliminated st' \<longrightarrow> a w = b w)) \<and>
     length (fn_bdds st') = length (fn_bdds st) \<and>
     (\<forall>x < length (fn_bdds st). (x \<notin> set (amount st v) \<longrightarrow> fn_bdds st' ! x = fn_bdds st ! x) \<and>
        robdd (fn_bdds st' ! x) \<and>
        (\<forall>w \<in> bvars (fn_bdds st' ! x). int w < no_inp_vars (classes st) \<and> w \<notin> eliminated st') \<and>
        (\<forall>a. infer_holds i a \<longrightarrow> ev (fn_bdds st' ! x) a = ev (fn_bdds st ! x) a))"

lemma stepped_ok:
  assumes s: "stepped i v st st'" and inv: "prep_inv {} 0 st" and i: "inferlist st = i # q" "elim i = int v"
  shows "prep_inv (set (amount st v)) 1 st'" and "Sol 1 st' = Sol 0 st"
proof -
  have p: "pending 0 st = i # q" "pending 1 st' = q" using s i(1) by (auto simp: pending_def stepped_def)
  have fr: "classes st' = classes st" "inferlist st' = inferlist st" "amount st' = amount st"
      "num_funcs_var_occurs st' = num_funcs_var_occurs st" "var_lists st' = var_lists st"
      "limits_ok st' = limits_ok st" "equivalences_on st' = equivalences_on st"
      "st_ok (bst st')" "\<forall>w. true_false st' w \<in> {-1, 0, 1}" "eliminated st' = insert v (eliminated st)"
      "length (fn_bdds st') = length (fn_bdds st)"
    and kn: "\<And>a. known st' a \<longleftrightarrow> known st a \<and> infer_holds i a"
    and ex: "\<forall>b. \<exists>a. known st' a \<and> (\<forall>w. w \<notin> eliminated st' \<longrightarrow> a w = b w)"
    using s unfolding stepped_def by - ((elim conjE, (assumption | erule spec))+)
  have fn: "x \<notin> set (amount st v) \<Longrightarrow> fn_bdds st' ! x = fn_bdds st ! x" "robdd (fn_bdds st' ! x)"
      "w \<in> bvars (fn_bdds st' ! x) \<Longrightarrow> int w < no_inp_vars (classes st) \<and> w \<notin> eliminated st'"
      "infer_holds i a \<Longrightarrow> ev (fn_bdds st' ! x) a = ev (fn_bdds st ! x) a" if "x < length (fn_bdds st)" for x w a
  proof -
    have *: "\<forall>x < length (fn_bdds st). (x \<notin> set (amount st v) \<longrightarrow> fn_bdds st' ! x = fn_bdds st ! x) \<and>
        robdd (fn_bdds st' ! x) \<and>
        (\<forall>w \<in> bvars (fn_bdds st' ! x). int w < no_inp_vars (classes st) \<and> w \<notin> eliminated st') \<and>
        (\<forall>a. infer_holds i a \<longrightarrow> ev (fn_bdds st' ! x) a = ev (fn_bdds st ! x) a)"
      using s unfolding stepped_def by (elim conjE)
    show "x \<notin> set (amount st v) \<Longrightarrow> fn_bdds st' ! x = fn_bdds st ! x" "robdd (fn_bdds st' ! x)"
        "w \<in> bvars (fn_bdds st' ! x) \<Longrightarrow> int w < no_inp_vars (classes st) \<and> w \<notin> eliminated st'"
        "infer_holds i a \<Longrightarrow> ev (fn_bdds st' ! x) a = ev (fn_bdds st ! x) a"
      using * that by blast+
  qed
  have io: "infs_ok 0 st" and l: "lists_ok {} st" and f: "fns_ok {} st" using inv by (auto simp: prep_inv_def)
  have "vars_in x st' = vars_in x st" for x by (simp add: vars_in_def fr)
  then have "lists_ok (set (amount st v)) st'"
    using l fn(1) unfolding lists_ok_def counted_def fr by auto
  moreover have "infs_ok 1 st'"
  proof -
    let ?e = "classes st"
    have a: "equiv_inv ?e" "Tr ?e < Fa ?e" "\<forall>v \<in> eliminated st. 0 < v \<and> int v < no_inp_vars ?e"
        "\<forall>i \<in> set (i # q). infer_in ?e i" "elims_ok (int ` eliminated st) (i # q)"
        "mins ?e \<inter> (int ` eliminated st \<union> elim ` set (i # q)) = {}"
        "\<forall>a. with_consts ?e a \<in> models ?e \<longleftrightarrow> known st a \<and> (\<forall>i \<in> set (i # q). infer_holds i a)"
      using io unfolding infs_ok_def Let_def p by - ((elim conjE, assumption)+)
    have v: "0 < v \<and> int v < no_inp_vars ?e"
      using a(4) i(2) by (auto simp: infer_in_def infer_wf_def elim_def split: if_splits)
    have im: "int ` eliminated st' = insert (elim i) (int ` eliminated st)" by (simp add: fr i(2))
    have "mins ?e \<inter> (int ` eliminated st' \<union> elim ` set q) = {}" using a(6) unfolding im by auto
    moreover have "with_consts ?e b \<in> models ?e \<longleftrightarrow> known st' b \<and> (\<forall>i \<in> set q. infer_holds i b)" for b
      unfolding kn using spec [OF a(7), of b] by auto
    moreover have "elims_ok (int ` eliminated st') q" using a(5) unfolding im by simp
    ultimately show ?thesis
      unfolding infs_ok_def Let_def p(2) fr(1,2) i(1) using a(1-4) v fr(9) ex unfolding fr(10) by auto
  qed
  moreover have "fns_ok (set (amount st v)) st'"
  proof -
    have "\<forall>f \<in> set (fn_bdds st'). robdd f \<and> (\<forall>w \<in> bvars f. int w < no_inp_vars (classes st) \<and> w \<notin> eliminated st')"
      using fn(2,3) fr(11) by (simp only: all_set_conv_all_nth) blast
    moreover have "\<forall>x < length (fn_bdds st'). x \<notin> set (amount st v) \<longrightarrow> (\<forall>a. with_consts (classes st) a \<in> models (classes st) \<longrightarrow>
        (\<forall>i \<in> set (inferences (equivalences_on st) (fn_bdds st' ! x)). infer_holds i a))"
      using f fn(1) fr(11) by (simp add: fns_ok_def)
    moreover have "limits_ok st" using f by (simp add: fns_ok_def)
    ultimately show ?thesis
      unfolding fns_ok_def fr(1,6,7) using fr(8) by simp
  qed
  ultimately show "prep_inv (set (amount st v)) 1 st'" by (simp add: prep_inv_def)
  have "(\<forall>f \<in> set (fn_bdds st'). ev f a) = (\<forall>f \<in> set (fn_bdds st). ev f a)" if "infer_holds i a" for a
    using fn(4) [OF _ that] fr(11) by (simp add: all_set_conv_all_nth)
  then show "Sol 1 st' = Sol 0 st" unfolding Sol_def p kn by auto
qed
section \<open>The two kinds of step\<close>

lemma assigned_bvars:
  assumes "assigned n b f r"
  shows "bvars r \<subseteq> bvars f - {n}"
proof
  fix w
  assume w: "w \<in> bvars r"
  have r: "robdd f" "robdd r" "\<And>a. ev r a = ev f (a(n := b))"
    using assms by (auto simp: assigned_def is_node_def)
  obtain a c where ne: "ev f ((a(w := c))(n := b)) \<noteq> ev f (a(n := b))"
    using w bvars_iff [OF r(2)] by (auto simp: r(3))
  then have "w \<noteq> n" by auto
  then have "ev f ((a(n := b))(w := c)) \<noteq> ev f (a(n := b))" using ne by (simp add: fun_upd_twist)
  then show "w \<in> bvars f - {n}" using \<open>w \<noteq> n\<close> bvars_iff [OF r(1)] by blast
qed

lemma replaced_bvars:
  assumes "replaced n l f r" "l \<noteq> 0" "nat \<bar>l\<bar> \<noteq> n"
  shows "bvars r \<subseteq> insert (nat \<bar>l\<bar>) (bvars f - {n})"
proof
  fix w
  assume w: "w \<in> bvars r"
  have r: "robdd f" "robdd r" "\<And>a. ev r a = ev f (a(n := lit l a))"
    using assms by (auto simp: replaced_def is_node_def subst_lit_def)
  have l: "lit l (a(v := c)) = lit l a" if "v \<noteq> nat \<bar>l\<bar>" for a v c
    using that by (auto simp: lit_def split: if_splits)
  obtain a c where ne: "ev f ((a(w := c))(n := lit l (a(w := c)))) \<noteq> ev f (a(n := lit l a))"
    using w bvars_iff [OF r(2)] by (auto simp: r(3))
  show "w \<in> insert (nat \<bar>l\<bar>) (bvars f - {n})"
  proof (cases "w = nat \<bar>l\<bar>")
    case False
    then have ne: "ev f ((a(w := c))(n := lit l a)) \<noteq> ev f (a(n := lit l a))" using ne l by simp
    then have "w \<noteq> n" by auto
    then have "ev f ((a(n := lit l a))(w := c)) \<noteq> ev f (a(n := lit l a))" using ne by (simp add: fun_upd_twist)
    then show ?thesis using \<open>w \<noteq> n\<close> bvars_iff [OF r(1)] by blast
  qed simp
qed

lemma assigned_ok:
  assumes "assigned n b f r"
  shows "robdd r" "bvars r \<subseteq> bvars f - {n}" "a n = b \<Longrightarrow> ev r a = ev f a"
  using assms assigned_bvars [OF assms] fun_upd_idem [of a n b] by (auto simp: assigned_def is_node_def)

lemma replaced_ok:
  assumes "replaced n l f r" "l \<noteq> 0" "nat \<bar>l\<bar> \<noteq> n"
  shows "robdd r" "bvars r \<subseteq> insert (nat \<bar>l\<bar>) (bvars f - {n})" "a n = lit l a \<Longrightarrow> ev r a = ev f a"
  using assms replaced_bvars [OF assms] fun_upd_idem [of a n "lit l a"]
  by (auto simp: replaced_def is_node_def subst_lit_def)

lemma not_eliminated:
  "n \<notin> eliminated st \<Longrightarrow> true_false st n \<in> {-1, 0, 1} \<Longrightarrow>
    (true_false st n = 2 \<or> true_false st n = -1) \<and> equalvars st n = 0 \<and> check_var n st = Some ()"
  by (auto simp: eliminated_def check_var_def)

text \<open>
  The functions after either step: \<open>R\<close> is the relation of the old and the new diagram, \<open>M\<close> the
  variables that may come in, \<open>P\<close> what the step assumes of an assignment.
\<close>

lemma updated_fns:
  assumes inv: "prep_inv {} 0 st" and up: "updated_all R (amount st n) (fn_bdds st) fs" and x: "x < length (fn_bdds st)"
    and R: "\<And>f r. R f r \<Longrightarrow> robdd r \<and> bvars r \<subseteq> M \<union> (bvars f - {n}) \<and> (\<forall>a. P a \<longrightarrow> ev r a = ev f a)"
    and M: "\<forall>w \<in> M. int w < no_inp_vars (classes st) \<and> w \<notin> insert n (eliminated st)"
  shows "(x \<notin> set (amount st n) \<longrightarrow> fs ! x = fn_bdds st ! x) \<and> robdd (fs ! x) \<and>
      (\<forall>w \<in> bvars (fs ! x). int w < no_inp_vars (classes st) \<and> w \<notin> insert n (eliminated st)) \<and>
      (\<forall>a. P a \<longrightarrow> ev (fs ! x) a = ev (fn_bdds st ! x) a)"
proof -
  let ?f = "fn_bdds st ! x"
  have l: "lists_ok {} st" and f: "fns_ok {} st" using inv by (auto simp: prep_inv_def)
  have fx: "robdd ?f" "\<forall>w \<in> bvars ?f. int w < no_inp_vars (classes st) \<and> w \<notin> eliminated st"
    using f x by (auto simp: fns_ok_def)
  have am: "x \<in> set (amount st n) \<longleftrightarrow> n \<in> bvars ?f" using l x by (simp add: lists_ok_def)
  show ?thesis
  proof (cases "x \<in> set (amount st n)")
    case True
    then have "R ?f (fs ! x)" using up x by (simp add: updated_all_def)
    note r = R [OF this]
    then have "int w < no_inp_vars (classes st) \<and> w \<notin> insert n (eliminated st)" if "w \<in> bvars (fs ! x)" for w
      using that M fx(2) by auto
    then show ?thesis using True r by blast
  next
    case False
    then have "fs ! x = ?f" using up x by (simp add: updated_all_def)
    then show ?thesis using False am fx by auto
  qed
qed

lemma literal_stepped:
  assumes inv: "prep_inv {} 0 st" and n: "n \<notin> eliminated st" "0 < n"
    and fs: "updated_all (assigned n b) (amount st n) (fn_bdds st) fs" and s: "st_ok s"
  shows "stepped (if b then int n else - int n, 0) n st
    (st\<lparr>true_false := (true_false st)(n := if b then 1 else 0), fn_bdds := fs, bst := s\<rparr>)" (is "stepped ?i n st ?st")
proof -
  have io: "infs_ok 0 st" using inv by (auto simp: prep_inv_def)
  have tf: "\<forall>v. true_false st v \<in> {-1, 0, 1}"
    and ex: "\<forall>b. \<exists>a. known st a \<and> (\<forall>v. v \<notin> eliminated st \<longrightarrow> a v = b v)"
    using io unfolding infs_ok_def Let_def by - ((elim conjE, assumption)+)
  have el: "eliminated ?st = insert n (eliminated st)" by (auto simp: eliminated_def)
  have eq: "equalvars st n = 0" "true_false st n \<noteq> 1" "true_false st n \<noteq> 0"
    using n(1) by (auto simp: eliminated_def)
  have ih: "infer_holds ?i a \<longleftrightarrow> a n = b" for a
    using n(2) by (auto simp: infer_holds_def)
  have kn: "known ?st a \<longleftrightarrow> known st a \<and> a n = b" for a
    using eq by (auto simp: known_def)
  have "\<exists>a. known ?st a \<and> (\<forall>w. w \<notin> eliminated ?st \<longrightarrow> a w = c w)" for c
  proof -
    obtain a where "known st a" "\<forall>v. v \<notin> eliminated st \<longrightarrow> a v = (c(n := b)) v" using ex by blast
    then show ?thesis using n(1) unfolding kn el by (intro exI [of _ a]) auto
  qed
  moreover have "(x \<notin> set (amount st n) \<longrightarrow> fs ! x = fn_bdds st ! x) \<and> robdd (fs ! x) \<and>
      (\<forall>w \<in> bvars (fs ! x). int w < no_inp_vars (classes st) \<and> w \<notin> insert n (eliminated st)) \<and>
      (\<forall>a. a n = b \<longrightarrow> ev (fs ! x) a = ev (fn_bdds st ! x) a)"
    if x: "x < length (fn_bdds st)" for x
    by (rule updated_fns [OF inv fs x, where M = "{}"]) (use assigned_ok in auto)
  moreover have "length fs = length (fn_bdds st)" using fs by (simp add: updated_all_def)
  ultimately show ?thesis
    unfolding stepped_def ih kn el using tf s by (simp add: limits_ok_def)
qed

lemma replace_stepped:
  assumes inv: "prep_inv {} 0 st" and n: "n0 \<notin> eliminated st" "n1 \<notin> eliminated st" "0 < n0" "n0 \<noteq> n1"
      "int n0 < no_inp_vars (classes st)"
    and l: "l = int n0 \<or> l = - int n0" and i: "\<And>a. infer_holds i a \<longleftrightarrow> a n1 = lit l a"
    and fs: "updated_all (replaced n1 l) (amount st n1) (fn_bdds st) fs" and s: "st_ok s"
  shows "stepped i n1 st (st\<lparr>equalvars := (equalvars st)(n1 := l), fn_bdds := fs, bst := s\<rparr>)" (is "stepped i n1 st ?st")
proof -
  have io: "infs_ok 0 st" using inv by (auto simp: prep_inv_def)
  have tf: "\<forall>v. true_false st v \<in> {-1, 0, 1}"
    and ex: "\<forall>b. \<exists>a. known st a \<and> (\<forall>v. v \<notin> eliminated st \<longrightarrow> a v = b v)"
    using io unfolding infs_ok_def Let_def by - ((elim conjE, assumption)+)
  have l0: "l \<noteq> 0" "nat \<bar>l\<bar> = n0" using l n(3) by auto
  have el: "eliminated ?st = insert n1 (eliminated st)" using l0 by (auto simp: eliminated_def)
  have eq: "equalvars st n1 = 0" "true_false st n1 \<noteq> 1" "true_false st n1 \<noteq> 0"
    using n(2) by (auto simp: eliminated_def)
  have kn: "known ?st a \<longleftrightarrow> known st a \<and> a n1 = lit l a" for a
    using eq l0 by (auto simp: known_def)
  have lit: "lit l a = lit l b" if "a n0 = b n0" for a b using l n(3) that by auto
  have "\<exists>a. known ?st a \<and> (\<forall>w. w \<notin> eliminated ?st \<longrightarrow> a w = c w)" for c
  proof -
    obtain a where a: "known st a" "\<forall>v. v \<notin> eliminated st \<longrightarrow> a v = (c(n1 := lit l c)) v" using ex by blast
    then have "a n0 = c n0" "a n1 = lit l c" using n by auto
    then have "known ?st a" using a(1) lit [of a c] by (simp add: kn)
    then show ?thesis using a(2) unfolding el by (intro exI [of _ a]) auto
  qed
  moreover have "(x \<notin> set (amount st n1) \<longrightarrow> fs ! x = fn_bdds st ! x) \<and> robdd (fs ! x) \<and>
      (\<forall>w \<in> bvars (fs ! x). int w < no_inp_vars (classes st) \<and> w \<notin> insert n1 (eliminated st)) \<and>
      (\<forall>a. a n1 = lit l a \<longrightarrow> ev (fs ! x) a = ev (fn_bdds st ! x) a)"
    if x: "x < length (fn_bdds st)" for x
  proof (rule updated_fns [OF inv fs x])
    show "robdd r \<and> bvars r \<subseteq> {n0} \<union> (bvars f - {n1}) \<and> (\<forall>a. a n1 = lit l a \<longrightarrow> ev r a = ev f a)"
      if "replaced n1 l f r" for f r
      using replaced_ok [OF that l0(1)] l0(2) n(4) by simp
    show "\<forall>w \<in> {n0}. int w < no_inp_vars (classes st) \<and> w \<notin> insert n1 (eliminated st)"
      using n by simp
  qed
  moreover have "length fs = length (fn_bdds st)" using fs by (simp add: updated_all_def)
  ultimately show ?thesis
    unfolding stepped_def i kn el using tf s by (simp add: limits_ok_def)
qed
section \<open>Applying an inference\<close>

lemma bdd_gc_st_ok: "st_ok s \<Longrightarrow> st_ok (snd (run_state bdd_gc s))"
  by (auto simp: bdd_gc_def st_ok_def removeall_cache_ok)

lemma run_gc_ok: "prep_inv D c st \<Longrightarrow> prep_inv D c (run_gc st)" "Sol c (run_gc st) = Sol c st"
    "eliminated (run_gc st) = eliminated st" "inferlist (run_gc st) = inferlist st"
    "fn_bdds (run_gc st) = fn_bdds st" "classes (run_gc st) = classes st"
    "DO_INFERENCES (run_gc st) = DO_INFERENCES st" "equivalences_on (run_gc st) = equivalences_on st"
proof -
  have "vars_in x (run_gc st) = vars_in x st" "known (run_gc st) = known st" "pending c (run_gc st) = pending c st"
      "eliminated (run_gc st) = eliminated st" for x
    by (simp_all add: run_gc_def vars_in_def known_def pending_def eliminated_def fun_eq_iff)
  note same = this
  show "prep_inv D c st \<Longrightarrow> prep_inv D c (run_gc st)"
    unfolding prep_inv_def lists_ok_def infs_ok_def fns_ok_def counted_def same
    by (simp add: run_gc_def bdd_gc_st_ok limits_ok_def)
  show "Sol c (run_gc st) = Sol c st" unfolding Sol_def same by (simp add: run_gc_def)
  show "eliminated (run_gc st) = eliminated st" by (rule same)
qed (simp_all add: run_gc_def)

definition advanced :: "prep \<Rightarrow> prep \<Rightarrow> bool" where
  "advanced st st' \<longleftrightarrow> length (fn_bdds st') = length (fn_bdds st) \<and> DO_INFERENCES st' = DO_INFERENCES st \<and>
     equivalences_on st' = equivalences_on st \<and> same_frame (classes st) (classes st') \<and>
     eliminated st \<subseteq> eliminated st'"

lemma advanced_trans: "advanced a b \<Longrightarrow> advanced b c \<Longrightarrow> advanced a c"
  by (auto simp: advanced_def intro: same_frame_trans)

lemma kept_eliminated: "kept st st' \<Longrightarrow> eliminated st' = eliminated st"
  by (simp add: kept_def eliminated_def)

definition applied :: "infer \<Rightarrow> prep \<Rightarrow> prep \<Rightarrow> bool" where
  "applied i st st' \<longleftrightarrow> prep_inv {} 1 st' \<and> Sol 1 st' = Sol 0 st \<and> advanced st st' \<and>
     eliminated st' = insert (nat (elim i)) (eliminated st) \<and> (\<exists>js. inferlist st' = inferlist st @ js)"

lemma rebuilt_applied:
  assumes s: "stepped i v st st1" and d: "DO_INFERENCES st1 = DO_INFERENCES st"
    and inv: "prep_inv {} 0 st" and i: "inferlist st = i # q" "elim i = int v"
  shows "\<exists>r st'. rebuild_all b (amount st v) st1 = Some (r, st') \<and>
    (r = PREP_NO_CHANGE \<and> applied i st st' \<or> r = TRIV_UNSAT \<and> Sol 0 st = {})"
proof -
  note ok = stepped_ok [OF s inv i]
  have len: "length (fn_bdds st1) = length (fn_bdds st)" "inferlist st1 = inferlist st"
      "eliminated st1 = insert v (eliminated st)" "classes st1 = classes st" "equivalences_on st1 = equivalences_on st"
    using s unfolding stepped_def by - ((elim conjE, assumption)+)
  have "\<forall>j \<in> set (amount st v). j < length (fn_bdds st1)"
    using inv len by (simp add: prep_inv_def lists_ok_def)
  then obtain r st' where r: "rebuild_all b (amount st v) st1 = Some (r, st')"
      "r = PREP_NO_CHANGE \<and> prep_inv {} 1 st' \<and> kept st1 st' \<and> Sol 1 st' = Sol 1 st1 \<or>
       r = TRIV_UNSAT \<and> Sol 1 st1 = {}"
    using rebuild_all_ok [OF ok(1)] by blast
  have "applied i st st'" if "prep_inv {} 1 st'" "kept st1 st'" "Sol 1 st' = Sol 1 st1"
    using that len d i(2) kept_eliminated [OF that(2)] ok(2)
    by (auto simp: applied_def advanced_def kept_def)
  then show ?thesis using r ok(2) by auto
qed

lemma merge_independant_applied: "applied i st st' \<Longrightarrow> applied i st (merge_independant n0 n1 c1 c0 st')"
proof -
  let ?st = "merge_independant n0 n1 c1 c0 st'"
  have c: "same_core st' ?st" and "DO_INFERENCES ?st = DO_INFERENCES st'"
    by (simp_all add: merge_independant_def Let_def same_core_def limits_ok_def)
  then have "advanced st ?st = advanced st st'"
    using same_coreD(3) [OF c] by (simp add: advanced_def same_core_def)
  moreover have "inferlist ?st = inferlist st'" using c by (simp add: same_core_def)
  moreover assume "applied i st st'"
  ultimately show ?thesis by (simp add: applied_def same_coreD [OF c])
qed

lemma head_ok:
  assumes inv: "prep_inv {} 0 st" and i: "inferlist st = i # q"
  shows "infer_in (classes st) i" "nat (elim i) \<notin> eliminated st" "elim i = int (nat (elim i))" "0 < elim i"
    "elim i < no_inp_vars (classes st)" "check_var (nat (elim i)) st = Some ()"
    "snd i \<noteq> 0 \<Longrightarrow> nat (fst i) \<notin> eliminated st \<and> nat (fst i) \<noteq> nat (elim i) \<and> 0 < fst i \<and>
       fst i < no_inp_vars (classes st) \<and> check_var (nat (fst i)) st = Some ()"
proof -
  have io: "infs_ok 0 st" using inv by (auto simp: prep_inv_def)
  have p: "pending 0 st = i # q" using i by (simp add: pending_def)
  have tf: "\<forall>v. true_false st v \<in> {-1, 0, 1}" and a: "\<forall>i \<in> set (i # q). infer_in (classes st) i"
      "elims_ok (int ` eliminated st) (i # q)"
    using io unfolding infs_ok_def Let_def p by - ((elim conjE, assumption)+)
  show wf: "infer_in (classes st) i" using a(1) by simp
  show pos: "0 < elim i" and eq: "elim i = int (nat (elim i))" and "elim i < no_inp_vars (classes st)"
    using wf by (auto simp: infer_in_def infer_wf_def elim_def)
  have in_iff: "nat z \<in> eliminated st \<Longrightarrow> 0 < z \<Longrightarrow> z \<in> int ` eliminated st" for z by force
  show ne: "nat (elim i) \<notin> eliminated st" using a(2) in_iff [OF _ pos] by auto
  show "check_var (nat (elim i)) st = Some ()" using not_eliminated [OF ne] tf by blast
  show "nat (fst i) \<notin> eliminated st \<and> nat (fst i) \<noteq> nat (elim i) \<and> 0 < fst i \<and>
      fst i < no_inp_vars (classes st) \<and> check_var (nat (fst i)) st = Some ()" if "snd i \<noteq> 0"
  proof -
    have f: "0 < fst i" "fst i < no_inp_vars (classes st)" using wf that by (auto simp: infer_in_def infer_wf_def)
    have nf: "nat (fst i) \<notin> eliminated st" and "fst i \<noteq> elim i" using a(2) in_iff [OF _ f(1)] that by auto
    then show ?thesis using f pos not_eliminated [OF nf] tf by auto
  qed
qed

lemma apply_literal_ok:
  assumes inv: "prep_inv {} 0 st" and i: "inferlist st = i # q" "i = (if b then int n else - int n, 0)"
  shows "\<exists>r st'. apply_literal n b st = Some (r, st') \<and>
    (r = PREP_NO_CHANGE \<and> applied i st st' \<or> r = TRIV_UNSAT \<and> Sol 0 st = {})"
proof -
  note h = head_ok [OF inv i(1)]
  have n: "elim i = int n" "0 < n" "n \<notin> eliminated st" using i(2) h(2,4) by (auto simp: elim_def split: if_splits)
  have rob: "\<forall>f \<in> set (fn_bdds st). robdd f" "st_ok (bst st)" "distinct (amount st n)"
      "\<forall>k \<in> set (amount st n). k < length (fn_bdds st)"
    using inv by (auto simp: prep_inv_def fns_ok_def lists_ok_def counted_def)
  obtain fs s where run: "run_state (set_variable_all (amount st n) n b (fn_bdds st)) (bst st) = (fs, s)"
    by (metis surj_pair)
  have fs: "updated_all (assigned n b) (amount st n) (fn_bdds st) fs" "st_ok s"
    using gives_run [OF set_variable_all_gives [OF rob(1,3,4)] rob(2) run] by auto
  let ?st = "st\<lparr>true_false := (true_false st)(n := if b then 1 else 0), fn_bdds := fs, bst := s\<rparr>"
  have "stepped i n st ?st" unfolding i(2) by (rule literal_stepped [OF inv n(3,2) fs])
  then have "\<exists>r st'. rebuild_all False (amount st n) ?st = Some (r, st') \<and>
      (r = PREP_NO_CHANGE \<and> applied i st st' \<or> r = TRIV_UNSAT \<and> Sol 0 st = {})"
    by (rule rebuilt_applied [OF _ _ inv i(1) n(1)]) simp
  moreover have "apply_literal n b st = rebuild_all False (amount st n) ?st"
    using h(6) n(1) run by (simp add: apply_literal_def)
  ultimately show ?thesis by simp
qed

lemma apply_replace_ok:
  assumes inv: "prep_inv {} 0 st" and i: "inferlist st = i # q" "elim i = int n1" "fst i = int n0" "snd i \<noteq> 0"
    and l: "l = int n0 \<or> l = - int n0" "\<And>a. infer_holds i a \<longleftrightarrow> a n1 = lit l a"
  shows "\<exists>r st'. apply_replace c n0 l n1 st = Some (r, st') \<and>
    (r = PREP_NO_CHANGE \<and> applied i st st' \<or> r = TRIV_UNSAT \<and> Sol 0 st = {})"
proof -
  note h = head_ok [OF inv i(1)] and h' = head_ok(7) [OF inv i(1) i(4)]
  have n: "n0 \<notin> eliminated st" "n1 \<notin> eliminated st" "0 < n0" "n0 \<noteq> n1" "int n0 < no_inp_vars (classes st)"
    using h(2) h' i(2,3) by auto
  have rob: "\<forall>f \<in> set (fn_bdds st). robdd f" "st_ok (bst st)" "distinct (amount st n1)"
      "\<forall>k \<in> set (amount st n1). k < length (fn_bdds st)"
    using inv by (auto simp: prep_inv_def fns_ok_def lists_ok_def counted_def)
  obtain fs s where run: "run_state (num_replace_all (amount st n1) n1 l (fn_bdds st)) (bst st) = (fs, s)"
    by (metis surj_pair)
  have fs: "updated_all (replaced n1 l) (amount st n1) (fn_bdds st) fs" "st_ok s"
    using gives_run [OF num_replace_all_gives [OF rob(1,3,4)] rob(2) run] by auto
  let ?st = "st\<lparr>equalvars := (equalvars st)(n1 := l), fn_bdds := fs, bst := s\<rparr>"
  have "stepped i n1 st ?st" by (rule replace_stepped [OF inv n l fs])
  then obtain r st' where r: "rebuild_all c (amount st n1) ?st = Some (r, st')"
      "r = PREP_NO_CHANGE \<and> applied i st st' \<or> r = TRIV_UNSAT \<and> Sol 0 st = {}"
    using rebuilt_applied [OF _ _ inv i(1,2)] by fastforce
  have "check_var n0 st = Some ()" "check_var n1 st = Some ()" using h(6) h' i(2,3) by auto
  then have "apply_replace c n0 l n1 st =
      (if r = TRIV_UNSAT then Some (TRIV_UNSAT, st')
       else Some (PREP_NO_CHANGE, merge_independant n0 n1 (length (amount st n1)) (length (amount st' n0)) st'))"
    using run r(1) by (simp add: apply_replace_def Let_def)
  then show ?thesis using r(2) merge_independant_applied by (cases "r = TRIV_UNSAT") auto
qed

lemma apply_infer_ok:
  assumes inv: "prep_inv {} 0 st" and i: "inferlist st = i # q"
  shows "\<exists>r st'. apply_infer i st = Some (r, st') \<and>
    (r = PREP_NO_CHANGE \<and> applied i st st' \<or> r = TRIV_UNSAT \<and> Sol 0 st = {})"
proof -
  obtain n0 n1 where n: "i = (n0, n1)" by force
  note h = head_ok [OF inv i]
  have wf: "n0 \<noteq> 0" using h(1) n by (simp add: infer_in_def infer_wf_def)
  show ?thesis
  proof (cases "n1 = 0")
    case True
    have e: "i = (if 0 < n0 then int (nat \<bar>n0\<bar>) else - int (nat \<bar>n0\<bar>), 0)" using n True wf by auto
    have "apply_infer i st = apply_literal (nat \<bar>n0\<bar>) (0 < n0) st"
      using n True wf by (auto simp: apply_infer_def)
    then show ?thesis using apply_literal_ok [OF inv i e] by simp
  next
    case False
    have n0: "0 < n0" using h(7) n False by simp
    define l where "l = (if 0 < n1 then int (nat n0) else - int (nat n0))"
    have e: "elim i = int (nat \<bar>n1\<bar>)" "fst i = int (nat n0)" "snd i \<noteq> 0" using n False n0 by (simp_all add: elim_def)
    have l: "l = int (nat n0) \<or> l = - int (nat n0)" by (simp add: l_def)
    have ih: "infer_holds i a \<longleftrightarrow> a (nat \<bar>n1\<bar>) = lit l a" for a
      using n n0 False by (auto simp: infer_holds_def l_def lit_def)
    have "apply_infer i st = apply_replace (n1 < 0) (nat n0) l (nat \<bar>n1\<bar>) st"
      using n False by (auto simp: apply_infer_def apply_equal_def apply_opposite_def l_def)
    then show ?thesis using apply_replace_ok [OF inv i e l ih] by simp
  qed
qed

section \<open>The loop\<close>

lemma pop_ok:
  assumes "prep_inv D 1 st"
  shows "prep_inv D 0 (st\<lparr>inferlist := tl (inferlist st)\<rparr>)"
    and "Sol 0 (st\<lparr>inferlist := tl (inferlist st)\<rparr>) = Sol 1 st"
proof -
  let ?st = "st\<lparr>inferlist := tl (inferlist st)\<rparr>"
  have same: "vars_in x ?st = vars_in x st" "known ?st = known st" "pending 0 ?st = pending 1 st"
      "eliminated ?st = eliminated st" for x
    by (simp_all add: vars_in_def known_def pending_def eliminated_def fun_eq_iff drop_Suc)
  show "prep_inv D 0 ?st"
    using assms unfolding prep_inv_def lists_ok_def infs_ok_def fns_ok_def counted_def same Let_def by (simp add: limits_ok_def)
  show "Sol 0 ?st = Sol 1 st" unfolding Sol_def same by simp
qed

definition unset :: "prep \<Rightarrow> nat" where
  "unset st = card ({1..<no_inp_vars (classes st)} - int ` eliminated st)"

lemma applied_unset:
  assumes inv: "prep_inv {} 0 st" and i: "inferlist st = i # q" and a: "applied i st st'"
  shows "unset st' < unset st"
proof -
  note h = head_ok [OF inv i]
  have "no_inp_vars (classes st') = no_inp_vars (classes st)"
    using a by (simp add: applied_def advanced_def same_frame_def)
  moreover have "eliminated st' = insert (nat (elim i)) (eliminated st)" using a by (simp add: applied_def)
  moreover have "elim i \<notin> int ` eliminated st" using h(2) by force
  moreover have "int (nat (elim i)) = elim i" using h(3) by simp
  ultimately show ?thesis
    unfolding unset_def using h(4,5) by (intro psubset_card_mono) auto
qed

definition finished :: "prep \<Rightarrow> prep \<Rightarrow> bool" where
  "finished st st' \<longleftrightarrow> prep_inv {} 0 st' \<and> inferlist st' = [] \<and> Sol 0 st' = Sol 0 st \<and> advanced st st'"

lemma apply_loop_ok:
  assumes "prep_inv {} 0 st"
  shows "\<exists>r st'. apply_loop st = Some (r, st') \<and>
    (r = PREP_NO_CHANGE \<and> finished st st' \<or> r = TRIV_UNSAT \<and> Sol 0 st = {})"
  using assms
proof (induction "unset st" arbitrary: st rule: less_induct)
  case less
  show ?case
  proof (cases "inferlist st")
    case Nil
    then show ?thesis using less.prems
      by (subst apply_loop.simps) (simp add: finished_def advanced_def same_frame_def)
  next
    case (Cons i q)
    have g: "prep_inv {} 0 (run_gc st)" "inferlist (run_gc st) = i # q" "Sol 0 (run_gc st) = Sol 0 st"
      using run_gc_ok less.prems Cons by simp_all
    obtain r st1 where r: "apply_infer i (run_gc st) = Some (r, st1)"
        "r = PREP_NO_CHANGE \<and> applied i (run_gc st) st1 \<or> r = TRIV_UNSAT \<and> Sol 0 st = {}"
      using apply_infer_ok [OF g(1,2)] g(3) by blast
    show ?thesis
    proof (cases "r = TRIV_UNSAT")
      case True
      then show ?thesis using Cons r by (subst apply_loop.simps) auto
    next
      case False
      then have ap: "applied i (run_gc st) st1" using r(2) by auto
      let ?st = "st1\<lparr>inferlist := tl (inferlist st1)\<rparr>"
      have p: "prep_inv {} 0 ?st" "Sol 0 ?st = Sol 0 st"
        using ap pop_ok [of "{}" st1] g(3) by (auto simp: applied_def)
      have "unset ?st = unset st1" "unset (run_gc st) = unset st"
        by (simp_all add: unset_def eliminated_def run_gc_def)
      then have "unset ?st < unset st" using applied_unset [OF g(1,2) ap] by simp
      from less.hyps [OF this p(1)] obtain r' st' where r': "apply_loop ?st = Some (r', st')"
          "r' = PREP_NO_CHANGE \<and> finished ?st st' \<or> r' = TRIV_UNSAT \<and> Sol 0 st = {}"
        using p(2) by auto
      have "advanced (run_gc st) st1" using ap by (simp add: applied_def)
      moreover have "advanced st (run_gc st)" "advanced st1 ?st"
        using run_gc_ok by (simp_all add: advanced_def same_frame_def eliminated_def)
      ultimately have "advanced st ?st" using advanced_trans by blast
      then have "finished st st'" if "finished ?st st'"
        using that p(2) advanced_trans by (auto simp: finished_def)
      moreover have "apply_loop st = Some (r', st')"
        using Cons r(1) r'(1) False by (subst apply_loop.simps) simp
      ultimately show ?thesis using r'(2) by auto
    qed
  qed
qed

lemma DO_INFERENCES_ok:
  "prep_inv D c (st\<lparr>DO_INFERENCES := b\<rparr>) = prep_inv D c st" "Sol c (st\<lparr>DO_INFERENCES := b\<rparr>) = Sol c st"
  "eliminated (st\<lparr>DO_INFERENCES := b\<rparr>) = eliminated st"
  by (rule same_coreD; simp add: same_core_def limits_ok_def)+

definition propagated :: "prep \<Rightarrow> prep \<Rightarrow> bool" where
  "propagated st st' \<longleftrightarrow> prep_inv {} 0 st' \<and> inferlist st' = [] \<and> Sol 0 st' = Sol 0 st \<and>
     length (fn_bdds st') = length (fn_bdds st) \<and> equivalences_on st' = equivalences_on st \<and>
     eliminated st \<subseteq> eliminated st' \<and> same_frame (classes st) (classes st') \<and> DO_INFERENCES st'"

lemma Do_Apply_Inferences_ok:
  assumes "prep_inv {} 0 st"
  shows "\<exists>r st'. Do_Apply_Inferences st = Some (r, st') \<and>
    (r = PREP_NO_CHANGE \<and> propagated st st' \<or> r = TRIV_UNSAT \<and> Sol 0 st = {})"
proof -
  let ?st = "run_gc (st\<lparr>DO_INFERENCES := False\<rparr>)"
  have p: "prep_inv {} 0 ?st" "Sol 0 ?st = Sol 0 st"
    using assms run_gc_ok DO_INFERENCES_ok by simp_all
  obtain r st1 where r: "apply_loop ?st = Some (r, st1)"
      "r = PREP_NO_CHANGE \<and> finished ?st st1 \<or> r = TRIV_UNSAT \<and> Sol 0 st = {}"
    using apply_loop_ok [OF p(1)] p(2) by blast
  show ?thesis
  proof (cases "r = TRIV_UNSAT")
    case True
    then show ?thesis using r by (auto simp: Do_Apply_Inferences_def)
  next
    case False
    then have f: "finished ?st st1" using r(2) by auto
    then have "st1\<lparr>inferlist := []\<rparr> = st1" by (simp add: finished_def)
    then have run: "Do_Apply_Inferences st = Some (PREP_NO_CHANGE, st1\<lparr>DO_INFERENCES := True\<rparr>)"
      using r(1) False by (simp add: Do_Apply_Inferences_def)
    have "propagated st (st1\<lparr>DO_INFERENCES := True\<rparr>)"
      using f p(2) run_gc_ok(3,5,6,8) [of "st\<lparr>DO_INFERENCES := False\<rparr>"]
      by (simp add: propagated_def finished_def advanced_def DO_INFERENCES_ok)
    then show ?thesis using run by simp
  qed
qed

lemma Rebuild_BDDx_ok:
  assumes inv: "prep_inv {x} 0 st" and x: "x < length (fn_bdds st)" and d: "DO_INFERENCES st"
  shows "\<exists>r st'. Rebuild_BDDx x st = Some (r, st') \<and>
    (r = PREP_NO_CHANGE \<and> propagated st st' \<or> r = TRIV_UNSAT \<and> Sol 0 st = {})"
proof -
  obtain r st1 where r: "Rebuild_body x st = Some (r, st1)"
      "r = PREP_NO_CHANGE \<and> prep_inv {} 0 st1 \<and> kept st st1 \<and> Sol 0 st1 = Sol 0 st \<or>
       r = TRIV_UNSAT \<and> Sol 0 st = {}"
    using Rebuild_body_ok [OF inv x] by auto
  show ?thesis
  proof (cases "r = TRIV_UNSAT")
    case True
    then show ?thesis using r by (auto simp: Rebuild_BDDx_def)
  next
    case False
    then have k: "prep_inv {} 0 st1" "kept st st1" "Sol 0 st1 = Sol 0 st" and nc: "r = PREP_NO_CHANGE" using r(2) by auto
    have run: "Rebuild_BDDx x st = Do_Apply_Inferences st1"
      using r(1) nc k(2) d by (simp add: Rebuild_BDDx_def kept_def)
    have "fn_bdds st1 = fn_bdds st" "equivalences_on st1 = equivalences_on st" "same_frame (classes st) (classes st1)"
      using k(2) by (simp_all add: kept_def)
    then have "propagated st st'" if "propagated st1 st'" for st'
      using that k(3) kept_eliminated [OF k(2)] same_frame_trans [of "classes st" "classes st1" "classes st'"]
      by (simp add: propagated_def)
    then show ?thesis
      unfolding run using Do_Apply_Inferences_ok [OF k(1)] k(3) by auto
  qed
qed

section \<open>Nothing is left to infer\<close>

lemma inferences_smaller:
  "robdd f \<Longrightarrow> p \<in> set (inferences d f) \<Longrightarrow> snd p \<noteq> 0 \<Longrightarrow> \<bar>snd p\<bar> < fst p"
proof (induction f arbitrary: p)
  case (Node v t e)
  let ?r = "inferences d t" and ?e = "inferences d e"
  have b: "\<bar>fst q\<bar> < int v" if "q \<in> set ?r \<or> q \<in> set ?e" for q
    using that inferences_bound [of t q d] inferences_bound [of e q d] Node.prems(1) by fastforce
  have ih: "\<bar>snd p\<bar> < fst p" if "p \<in> set ?r \<or> p \<in> set ?e"
    using that Node.IH Node.prems(1,3) by auto
  have "\<bar>snd p\<bar> < fst p" if p1: "p \<in> set (infer_pass1 (int v) ?r ?e)"
  proof -
    obtain x where "p = (int v, x)" "(x, 0) \<in> set ?r" using infer_pass1_set [OF p1] by blast
    then show ?thesis using b [of "(x, 0)"] by simp
  qed
  then show ?case
    using Node.prems(2,3) ih infer_pass2_left [of p d ?r ?e] infer_pass3_set [of p ?r ?e]
    by (auto simp: GetInferFoAN_def pass3_reason_def split: if_splits)
qed auto

text \<open>An inference can be broken by an assignment, and it speaks of variables of its function.\<close>

lemma infer_refutable: "infer_wf i \<Longrightarrow> \<bar>fst i\<bar> \<noteq> \<bar>snd i\<bar> \<Longrightarrow> \<exists>b. \<not> infer_holds i b"
  by (rule exI [of _ "\<lambda>v. if snd i = 0 then fst i < 0 else snd i < 0 \<or> v = nat \<bar>fst i\<bar>"])
    (auto simp: infer_holds_def infer_wf_def lit_def nat_eq_iff split: if_splits)

lemma infer_holds_agree:
  "a (nat \<bar>fst i\<bar>) = b (nat \<bar>fst i\<bar>) \<Longrightarrow> (snd i \<noteq> 0 \<Longrightarrow> a (nat \<bar>snd i\<bar>) = b (nat \<bar>snd i\<bar>)) \<Longrightarrow>
    infer_holds i a = infer_holds i b"
  by (auto simp: infer_holds_def lit_def)

lemma quiescent:
  assumes inv: "prep_inv {} 0 st" and e: "inferlist st = []" and x: "x < length (fn_bdds st)"
  shows "inferences (equivalences_on st) (fn_bdds st ! x) = []"
proof (rule ccontr)
  let ?f = "fn_bdds st ! x"
  assume "inferences (equivalences_on st) ?f \<noteq> []"
  then obtain i where i: "i \<in> set (inferences (equivalences_on st) ?f)" by (metis last_in_set)
  have io: "infs_ok 0 st" and f: "fns_ok {} st" using inv by (auto simp: prep_inv_def)
  have rob: "robdd ?f" "\<forall>v \<in> bvars ?f. v \<notin> eliminated st" using f x by (auto simp: fns_ok_def)
  have wf: "infer_wf i" by (rule inferences_wf [OF rob(1) i])
  have "\<bar>fst i\<bar> \<noteq> \<bar>snd i\<bar>"
    using inferences_smaller [OF rob(1) i] wf by (cases "snd i = 0") (auto simp: infer_wf_def)
  then obtain b where b: "\<not> infer_holds i b" using infer_refutable [OF wf] by blast
  have "\<forall>b. \<exists>a. known st a \<and> (\<forall>v. v \<notin> eliminated st \<longrightarrow> a v = b v)"
    using io unfolding infs_ok_def Let_def by - (elim conjE, assumption)
  then obtain a where a: "known st a" "\<And>v. v \<notin> eliminated st \<Longrightarrow> a v = b v" by blast
  have "with_consts (classes st) a \<in> models (classes st)"
    using pending_models [OF io, of a] a(1) e by (simp add: pending_def)
  then have "infer_holds i a" using f x i by (auto simp: fns_ok_def)
  moreover have "infer_holds i a = infer_holds i b"
    by (rule infer_holds_agree) (use inferences_vars [OF i] rob(2) a(2) in auto)
  ultimately show False using b by simp
qed

lemma quiet_state:
  assumes "prep_inv {} 0 st" "inferlist st = []"
  shows "\<forall>f \<in> set (fn_bdds st). inferences (equivalences_on st) f = [] \<and> bvars f \<inter> eliminated st = {}"
proof
  fix f assume "f \<in> set (fn_bdds st)"
  moreover from this obtain x where "x < length (fn_bdds st)" "f = fn_bdds st ! x" by (metis in_set_conv_nth)
  ultimately show "inferences (equivalences_on st) f = [] \<and> bvars f \<inter> eliminated st = {}"
    using quiescent [OF assms] assms(1) by (auto simp: prep_inv_def fns_ok_def)
qed

section \<open>After a contradiction\<close>

text \<open>
  No routine changes \<open>DO_INFERENCES\<close> but \<open>Do_Apply_Inferences\<close>, which leaves it off when it finds
  the circuit unsatisfiable.
\<close>

lemma merge_vars_DO: "DO_INFERENCES (merge_vars x as bs st) = DO_INFERENCES st"
  by (induction x as bs st rule: merge_vars.induct) (auto simp: amount_delete_def amount_add_def)

lemma rebuild_type_DO: "rebuild_type x vs st = Some st' \<Longrightarrow> DO_INFERENCES st' = DO_INFERENCES st"
  by (auto simp: rebuild_type_def Let_def split: if_splits bind_splits)

lemma Rebuild_body_DO: "Rebuild_body x st = Some (r, st') \<Longrightarrow> DO_INFERENCES st' = DO_INFERENCES st"
  by (auto simp: Rebuild_body_def Let_def SetRepeats_def merge_vars_DO case_prod_unfold
      dest!: rebuild_type_DO split: if_splits bind_splits)

lemma rebuild_all_DO: "rebuild_all c k st = Some (r, st') \<Longrightarrow> DO_INFERENCES st' = DO_INFERENCES st"
proof (induction k arbitrary: st)
  case (Cons j k)
  show ?case
  proof (cases "c \<and> fn_bdds st ! j = FalseP")
    case False
    then obtain r1 st1 where r1: "Rebuild_body j st = Some (r1, st1)"
        "(if r1 = TRIV_UNSAT then Some (TRIV_UNSAT, st1) else rebuild_all c k st1) = Some (r, st')"
      using Cons.prems by (auto split: bind_splits)
    then have "DO_INFERENCES st' = DO_INFERENCES st1" using Cons.IH [of st1] by (auto split: if_splits)
    then show ?thesis using Rebuild_body_DO [OF r1(1)] by simp
  qed (use Cons.prems in auto)
qed simp

lemma apply_infer_DO: "apply_infer i st = Some (r, st') \<Longrightarrow> DO_INFERENCES st' = DO_INFERENCES st"
proof -
  have m: "DO_INFERENCES (merge_independant a b c d st) = DO_INFERENCES st" for a b c d st
    by (simp add: merge_independant_def Let_def)
  have r: "apply_replace c n0 l n1 st = Some (r, st') \<Longrightarrow> DO_INFERENCES st' = DO_INFERENCES st" for c n0 l n1
    by (auto simp: apply_replace_def Let_def case_prod_unfold m dest!: rebuild_all_DO split: if_splits bind_splits)
  have l: "apply_literal n b st = Some (r, st') \<Longrightarrow> DO_INFERENCES st' = DO_INFERENCES st" for n b
    by (auto simp: apply_literal_def Let_def case_prod_unfold dest!: rebuild_all_DO split: bind_splits)
  show "apply_infer i st = Some (r, st') \<Longrightarrow> DO_INFERENCES st' = DO_INFERENCES st"
    using r l by (auto simp: apply_infer_def apply_equal_def apply_opposite_def split: if_splits prod.splits)
qed

lemma apply_loop_DO: "apply_loop st = Some y \<Longrightarrow> DO_INFERENCES (snd y) = DO_INFERENCES st"
proof (induction rule: apply_loop.raw_induct [rotated, consumes 1])
  case (1 f st y)
  have gc: "DO_INFERENCES (run_gc st) = DO_INFERENCES st" by (simp add: run_gc_def)
  show ?case
  proof (cases "inferlist st")
    case Nil
    then show ?thesis using 1(2) by auto
  next
    case (Cons i q)
    then obtain r st1 where r: "apply_infer i (run_gc st) = Some (r, st1)"
        "(if r = TRIV_UNSAT then Some (TRIV_UNSAT, st1) else f (st1\<lparr>inferlist := tl (inferlist st1)\<rparr>)) = Some y"
      using 1(2) by (auto split: bind_splits)
    have d: "DO_INFERENCES st1 = DO_INFERENCES st" using apply_infer_DO [OF r(1)] gc by simp
    show ?thesis
    proof (cases "r = TRIV_UNSAT")
      case True
      then show ?thesis using r(2) d by auto
    next
      case False
      then show ?thesis using 1(1) [of "st1\<lparr>inferlist := tl (inferlist st1)\<rparr>" y] r(2) d by simp
    qed
  qed
qed

lemma Do_Apply_unsat: "Do_Apply_Inferences st = Some (TRIV_UNSAT, st') \<Longrightarrow> \<not> DO_INFERENCES st'"
  using apply_loop_DO [of "run_gc (st\<lparr>DO_INFERENCES := False\<rparr>)"]
  by (auto simp: Do_Apply_Inferences_def run_gc_def split: bind_splits if_splits)

text \<open>The inferences on the list do not contradict each other or what is known.\<close>

lemma elims_ok_member: "elims_ok E q \<Longrightarrow> i \<in> set q \<Longrightarrow> elim i \<notin> E \<and> (snd i \<noteq> 0 \<longrightarrow> fst i \<notin> E)"
  by (induction E q rule: elims_ok.induct) auto

text \<open>An inference reads its variable \<open>elim\<close> and, when it is an equality, the one before it.\<close>

lemma infer_holds_cong:
  "infer_wf i \<Longrightarrow> a (nat (elim i)) = b (nat (elim i)) \<Longrightarrow> (snd i \<noteq> 0 \<Longrightarrow> a (nat (fst i)) = b (nat (fst i))) \<Longrightarrow>
    infer_holds i a = infer_holds i b"
  by (rule infer_holds_agree) (auto simp: elim_def infer_wf_def split: if_splits)

lemma infer_settable:
  assumes "infer_wf i" "snd i \<noteq> 0 \<Longrightarrow> fst i \<noteq> elim i"
  shows "\<exists>v. infer_holds i (b(nat (elim i) := v))"
proof (cases "snd i = 0")
  case True
  then show ?thesis using assms(1)
    by (intro exI [of _ "0 < fst i"]) (auto simp: infer_holds_def lit_def elim_def infer_wf_def)
next
  case False
  then have "0 < fst i" "fst i \<noteq> \<bar>snd i\<bar>" using assms by (auto simp: infer_wf_def elim_def)
  then show ?thesis using False
    by (intro exI [of _ "(0 < snd i) = b (nat (fst i))"]) (auto simp: infer_holds_def lit_def elim_def nat_eq_iff)
qed

lemma elims_consistent:
  "elims_ok E q \<Longrightarrow> \<forall>i \<in> set q. infer_wf i \<Longrightarrow> \<exists>b. \<forall>i \<in> set q. infer_holds i b"
proof (induction E q rule: elims_ok.induct)
  case (2 E i q)
  then obtain b where b: "\<forall>j \<in> set q. infer_holds j b" by auto
  have i: "infer_wf i" "snd i \<noteq> 0 \<Longrightarrow> fst i \<noteq> elim i" using "2.prems" by auto
  obtain v where v: "infer_holds i (b(nat (elim i) := v))" using infer_settable [OF i] by blast
  have "infer_holds j (b(nat (elim i) := v))" if j: "j \<in> set q" for j
  proof -
    have "infer_wf j" using "2.prems"(2) j by simp
    moreover have "elim j \<noteq> elim i" "snd j \<noteq> 0 \<longrightarrow> fst j \<noteq> elim i"
      using elims_ok_member [of "insert (elim i) E" q j] "2.prems"(1) j by auto
    moreover have "0 \<le> elim i" "0 \<le> elim j" by (simp_all add: elim_def)
    ultimately have "infer_holds j (b(nat (elim i) := v)) = infer_holds j b"
      by (intro infer_holds_cong) (auto simp: infer_wf_def nat_eq_iff)
    then show ?thesis using b j by simp
  qed
  then show ?case using v by auto
qed simp

lemma pending_consistent:
  assumes i: "infs_ok c st"
  shows "\<exists>a. with_consts (classes st) a \<in> models (classes st)"
proof -
  have q: "elims_ok (int ` eliminated st) (pending c st)" "\<forall>i \<in> set (pending c st). infer_in (classes st) i"
    using i unfolding infs_ok_def Let_def by blast+
  have wf: "\<forall>i \<in> set (pending c st). infer_wf i" using q(2) by (simp add: infer_in_def)
  obtain b where b: "\<forall>i \<in> set (pending c st). infer_holds i b" using elims_consistent [OF q(1) wf] by blast
  have "\<forall>b. \<exists>a. known st a \<and> (\<forall>v. v \<notin> eliminated st \<longrightarrow> a v = b v)"
    using i unfolding infs_ok_def Let_def by - (elim conjE, assumption)
  then obtain a where a: "known st a" "\<And>v. v \<notin> eliminated st \<Longrightarrow> a v = b v" by blast
  have "infer_holds i a" if j: "i \<in> set (pending c st)" for i
  proof -
    have m: "elim i \<notin> int ` eliminated st" "snd i \<noteq> 0 \<longrightarrow> fst i \<notin> int ` eliminated st"
      using elims_ok_member [OF q(1) j] by blast+
    have w: "infer_wf i" using wf j by blast
    have "nat (elim i) \<notin> eliminated st" using m(1) by (force simp: elim_def)
    moreover have "snd i \<noteq> 0 \<Longrightarrow> nat (fst i) \<notin> eliminated st" using m(2) w by (force simp: infer_wf_def)
    ultimately have "infer_holds i a = infer_holds i b" using infer_holds_cong [OF w] a(2) by blast
    then show ?thesis using b j by blast
  qed
  then show ?thesis using pending_models [OF i, of a] a(1) by blast
qed

text \<open>
  What is left when the circuit has been found unsatisfiable: the end of preprocessing can still
  apply the inferences on the list, or does not try to.
\<close>

definition calm :: "prep \<Rightarrow> bool" where
  "calm st \<longleftrightarrow> (DO_INFERENCES st \<longrightarrow> inferlist st = [] \<or> prep_inv {} 0 st)"

lemma calm_returns: "calm st \<Longrightarrow> DO_INFERENCES st \<Longrightarrow> \<exists>r st'. Do_Apply_Inferences st = Some (r, st')"
proof (cases "inferlist st = []")
  case True
  then show ?thesis by (simp add: Do_Apply_Inferences_def apply_loop.simps run_gc_def)
next
  case False
  then show "calm st \<Longrightarrow> DO_INFERENCES st \<Longrightarrow> ?thesis" using Do_Apply_Inferences_ok [of st] by (auto simp: calm_def)
qed

lemma calm_gc: "calm st \<Longrightarrow> calm (run_gc st)"
  using run_gc_ok(1,4,7) by (auto simp: calm_def)

text \<open>
  A function whose inferences have not been entered yet is rebuilt with an empty list; the others
  are in order.
\<close>

lemma Rebuild_body_calm:
  assumes inv: "prep_inv {x} 0 st" and x: "x < length (fn_bdds st)"
    and l: "inferlist st = [] \<or> prep_inv {} 0 st" and r: "Rebuild_body x st = Some (TRIV_UNSAT, st')"
  shows "calm st'"
proof (cases "fn_bdds st ! x = FalseP")
  case True
  then have st': "st' = SetRepeats x st" using r by (simp add: Rebuild_body_def SetRepeats_def)
  have "same_core st (SetRepeats x st)" by (simp add: same_core_def SetRepeats_def limits_ok_def)
  then show ?thesis using l same_coreD(1) unfolding st' calm_def by (auto simp: SetRepeats_def)
next
  case False
  let ?e = "classes st" and ?is = "inferences (equivalences_on st) (fn_bdds st ! x)"
  let ?E = "int ` eliminated st \<union> elim ` set (pending 0 st)"
  have i: "infs_ok 0 st" and f: "fns_ok {x} st" using inv by (auto simp: prep_inv_def)
  have e: "equiv_inv ?e" "Tr ?e < Fa ?e" "mins ?e \<inter> ?E = {}"
    using i unfolding infs_ok_def Let_def by blast+
  have ins: "\<forall>i \<in> set ?is. infer_in ?e i" using Rebuild_infers(1) [OF inv x] by blast
  obtain r' js e' where r': "ReduceInferences ?is ?e = Some (r', js, e')"
      "r' = PREP_NO_CHANGE \<and> reduced_list ?e ?E ?is js e' \<or>
       r' = TRIV_UNSAT \<and> (\<forall>a. with_consts ?e a \<in> models ?e \<longrightarrow> \<not> (\<forall>i \<in> set ?is. infer_holds i a))"
    using ReduceInferences_ok [OF e(1,2) ins e(3)] by blast
  have no: "r' \<noteq> TRIV_UNSAT"
  proof
    assume "r' = TRIV_UNSAT"
    then have no: "\<not> (\<forall>i \<in> set ?is. infer_holds i a)" if "with_consts ?e a \<in> models ?e" for a
      using r'(2) that by auto
    from l show False
    proof
      assume emp: "inferlist st = []"
      have rob: "robdd (fn_bdds st ! x)" "\<forall>v \<in> bvars (fn_bdds st ! x). v \<notin> eliminated st"
        using f x by (auto simp: fns_ok_def)
      obtain b where b: "ev (fn_bdds st ! x) b" using robdd_satisfiable [OF rob(1) False] by blast
      have "\<forall>b. \<exists>a. known st a \<and> (\<forall>v. v \<notin> eliminated st \<longrightarrow> a v = b v)"
        using i unfolding infs_ok_def Let_def by - (elim conjE, assumption)
      then obtain a where a: "known st a" "\<And>v. v \<notin> eliminated st \<Longrightarrow> a v = b v" by blast
      have "ev (fn_bdds st ! x) a = ev (fn_bdds st ! x) b" by (rule ev_agree) (use rob(2) a(2) in blast)
      then have "\<forall>i \<in> set ?is. infer_holds i a" using b Rebuild_infers(2) [OF inv x] by blast
      moreover have "with_consts ?e a \<in> models ?e" using pending_models [OF i, of a] a(1) emp by (simp add: pending_def)
      ultimately show False using no by blast
    next
      assume p: "prep_inv {} 0 st"
      then have "infs_ok 0 st" "fns_ok {} st" by (auto simp: prep_inv_def)
      moreover obtain a where a: "with_consts ?e a \<in> models ?e" using pending_consistent [OF i] by blast
      ultimately have "\<forall>i \<in> set ?is. infer_holds i a" using x unfolding fns_ok_def by blast
      then show False using no a by blast
    qed
  qed
  then have "r' = PREP_NO_CHANGE" using r'(2) by blast
  then show ?thesis using r r'(1) False
    by (auto simp: Rebuild_body_def SetRepeats_def Let_def case_prod_unfold split: if_splits bind_splits)
qed

lemma Rebuild_BDDx_calm:
  assumes "prep_inv {x} 0 st" "x < length (fn_bdds st)" "inferlist st = [] \<or> prep_inv {} 0 st"
    and r: "Rebuild_BDDx x st = Some (TRIV_UNSAT, st')"
  shows "calm st'"
proof -
  obtain r1 st1 where r1: "Rebuild_body x st = Some (r1, st1)"
    "(if r1 \<noteq> PREP_NO_CHANGE then Some (r1, st1)
      else if DO_INFERENCES st1 then Do_Apply_Inferences st1 else Some (PREP_NO_CHANGE, st1)) = Some (TRIV_UNSAT, st')"
    using r by (auto simp: Rebuild_BDDx_def split: bind_splits)
  show ?thesis
  proof (cases "r1 = PREP_NO_CHANGE")
    case True
    then have "Do_Apply_Inferences st1 = Some (TRIV_UNSAT, st')" using r1(2) by (auto split: if_splits)
    then show ?thesis using Do_Apply_unsat by (auto simp: calm_def)
  next
    case False
    then show ?thesis using r1 Rebuild_body_calm [OF assms(1-3)] by auto
  qed
qed

end
