(* ===== verification/Preproc.thy ===== *)
theory Preproc
  imports Applyinfs "HOL-Library.Char_ord"
begin

text \<open>
  The start of the preprocessor, preproc/init_preproc.cc: \<open>Init_Preprocessing\<close> sets up the arrays,
  enters the preset variables, rebuilds every function without applying inferences and then with
  them; \<open>add_newFunctions\<close> puts further functions into free places. With them come
  \<open>Rebuild_BDD\<close>, which enters the inferences of a diagram that is no function, and \<open>getNuminp\<close>.
\<close>

section \<open>The inferences of one diagram\<close>

text \<open>The second component is the array \<open>bdd_vars\<close>, None when the routine does not reach it.\<close>

definition Rebuild_BDD :: "bdd \<Rightarrow> prep \<Rightarrow> ((prep_result \<times> nat list option) \<times> prep) option" where
  "Rebuild_BDD bdd st =
     (if bdd = FalseP then Some ((TRIV_UNSAT, None), st)
      else do {
        (r, new, l) \<leftarrow> ReduceInferences (inferences (equivalences_on st) bdd) (classes st);
        let st = st\<lparr>inferlist := inferlist st @ new, classes := l\<rparr> in
        if r \<noteq> PREP_NO_CHANGE then Some ((r, None), st)
        else
          (let (y, s) = run_state (unravelBDD bdd) (bst st)
           in Some ((PREP_NO_CHANGE, Some (sort y)), st\<lparr>bst := s\<rparr>)) })"

section \<open>Preset variables\<close>

text \<open>
  The string of preset variables: signed names separated by blanks. None is the exit on an
  unexpected character, an empty name or an unknown variable; \<open>i_getsym\<close> is the search in the
  symbol table, a parameter; the theorems are for tables in which every name is that of a variable,
  so that it answers with a positive number (the negative ones are for names of another type).
\<close>

definition name_char :: "char \<Rightarrow> bool" where
  "name_char p \<longleftrightarrow> (CHR ''a'' \<le> p \<and> p \<le> CHR ''z'') \<or> (CHR ''A'' \<le> p \<and> p \<le> CHR ''Z'') \<or> p = CHR ''_'' \<or>
     (CHR ''0'' \<le> p \<and> p \<le> CHR ''9'')"

function preset_literals :: "(string \<Rightarrow> int) \<Rightarrow> int \<Rightarrow> string \<Rightarrow> int list option" where
  "preset_literals i_getsym numinp str =
     (case dropWhile (\<lambda>p. p = CHR '' '') str of
        [] \<Rightarrow> Some []
      | p # r \<Rightarrow>
          if p \<noteq> CHR ''+'' \<and> p \<noteq> CHR ''-'' then None
          else
            (let name = takeWhile name_char r; rest = dropWhile name_char r in
             if rest \<noteq> [] \<and> hd rest \<noteq> CHR '' '' \<or> name = [] then None
             else if i_getsym name > numinp then None
             else do {
               ls \<leftarrow> preset_literals i_getsym numinp rest;
               Some ((if p = CHR ''-'' then - i_getsym name else i_getsym name) # ls) }))"
  by pat_completeness auto
termination
proof (relation "measure (\<lambda>(_, _, str). length str)")
  fix str p r name rest
  assume "dropWhile (\<lambda>p. p = CHR '' '') str = p # r" "rest = dropWhile name_char r"
  then have "length (p # r) \<le> length str" "length rest \<le> length r"
    by (metis length_dropWhile_le)+
  then show "((i_getsym, numinp, rest), i_getsym, numinp, str) \<in> measure (\<lambda>(_, _, str). length str)"
    for i_getsym :: "string \<Rightarrow> int" and numinp :: int
    by simp
qed simp

declare preset_literals.simps [simp del]

primrec preset_conj :: "int list \<Rightarrow> bdd \<Rightarrow> (bddst, bdd) state" where
  "preset_conj [] f = State_Monad.return f"
| "preset_conj (l # ls) f = do { g \<leftarrow> ite_lift (ite_and f (ite_var l)); preset_conj ls g }"

section \<open>The start\<close>

definition getNuminp :: "bdd list \<Rightarrow> int" where
  "getNuminp fs = foldl (\<lambda>n f. if variable f > n then variable f else n) 0 fs"

text \<open>
  The arrays of the first call, when none of them exists yet. \<open>T\<close> and \<open>F\<close> are the constants of the
  equivalence classes.
\<close>

definition Init_arrays :: "int \<Rightarrow> prep \<Rightarrow> prep option" where
  "Init_arrays numinp st = do {
     l \<leftarrow> Equiv (numinp + 1) (numinp + 2) (numinp + 3);
     Some (st\<lparr>true_false := (\<lambda>_. -1), equalvars := (\<lambda>_. 0),
              var_lists := replicate (length (fn_bdds st)) None, var_min := (\<lambda>_. 0), var_max := (\<lambda>_. 0),
              inferlist := [], repeats := (\<lambda>_ _. False), classes := l, amount := (\<lambda>_. []),
              num_funcs_var_occurs := (\<lambda>_. 0)\<rparr>) }"

fun rebuild_each :: "nat list \<Rightarrow> prep \<Rightarrow> (prep_result \<times> prep) option" where
  "rebuild_each [] st = Some (PREP_NO_CHANGE, st)"
| "rebuild_each (x # xs) st = do {
     (r, st) \<leftarrow> Rebuild_BDDx x st;
     if r \<in> {TRIV_UNSAT, TRIV_SAT, PREP_ERROR} then Some (r, st) else rebuild_each xs st }"

definition Init_Preprocessing :: "(string \<Rightarrow> int) \<Rightarrow> string \<Rightarrow> prep \<Rightarrow> (prep_result \<times> prep) option" where
  "Init_Preprocessing i_getsym preset_variables_string st =
     (let nmbrFunctions = length (fn_bdds st) in
      if nmbrFunctions = 0 then Some (TRIV_SAT, st)
      else
        (let OLD_DO_INFERENCES = DO_INFERENCES st;
             st = st\<lparr>DO_INFERENCES := False\<rparr>;
             numinp = getNuminp (fn_bdds st)
         in do {
           st \<leftarrow> Init_arrays numinp st;
           ls \<leftarrow> preset_literals i_getsym numinp preset_variables_string;
           let (preset_bdd, s) = run_state (preset_conj ls TrueP) (bst st) in do {
             ((r, _), st) \<leftarrow> Rebuild_BDD preset_bdd (st\<lparr>bst := s\<rparr>);
             if r \<in> {TRIV_UNSAT, TRIV_SAT, PREP_ERROR} then Some (r, st)
             else do {
               (r, st) \<leftarrow> rebuild_each [0..<nmbrFunctions] st;
               if r \<in> {TRIV_UNSAT, TRIV_SAT, PREP_ERROR} then Some (r, st)
               else rebuild_each [0..<nmbrFunctions] (st\<lparr>DO_INFERENCES := OLD_DO_INFERENCES\<rparr>) } } }))"
section \<open>Further functions\<close>

text \<open>
  \<open>add_newFunctions\<close> takes the places of functions that are true, then new ones; these are true here
  until they are filled, which the code does before it reads them. The second component is the array
  \<open>free_spots_pass\<close>.
\<close>

definition free_spots :: "bdd list \<Rightarrow> nat \<Rightarrow> nat list" where
  "free_spots fs k =
     (let free = take k (filter (\<lambda>x. fs ! x = TrueP) [0..<length fs])
      in free @ [length fs..<length fs + (k - length free)])"

fun place_each :: "nat list \<Rightarrow> bdd list \<Rightarrow> prep \<Rightarrow> (prep_result \<times> prep) option" where
  "place_each (y # ys) (g # gs) st = do {
     (r, st) \<leftarrow> Rebuild_BDDx y (st\<lparr>fn_bdds := (fn_bdds st)[y := g], functionType := (functionType st)(y := UNSURE),
                                   equalityVble := (equalityVble st)(y := 0)\<rparr>);
     if r \<in> {TRIV_UNSAT, TRIV_SAT, PREP_ERROR} then Some (r, st) else place_each ys gs st }"
| "place_each _ _ st = Some (PREP_NO_CHANGE, st)"

definition more_functions :: "nat \<Rightarrow> prep \<Rightarrow> prep" where
  "more_functions n st =
     (let old = length (fn_bdds st) in
      st\<lparr>fn_bdds := fn_bdds st @ replicate n TrueP, var_lists := var_lists st @ replicate n None,
         var_min := (\<lambda>x. if x < old then var_min st x else 0), var_max := (\<lambda>x. if x < old then var_max st x else 0),
         repeats := (\<lambda>k x. x < old \<and> repeats st k x)\<rparr>)"

definition add_newFunctions :: "bdd list \<Rightarrow> prep \<Rightarrow> ((prep_result \<times> nat list) \<times> prep) option" where
  "add_newFunctions new_bdds st =
     (if new_bdds = [] then Some ((PREP_NO_CHANGE, []), st)
      else
        (let new_size = length new_bdds; spots = free_spots (fn_bdds st) new_size;
             st = more_functions (length (filter (\<lambda>y. y \<ge> length (fn_bdds st)) spots)) st;
             OLD_DO_INFERENCES = DO_INFERENCES st
         in do {
           (r, st) \<leftarrow> place_each spots new_bdds (st\<lparr>DO_INFERENCES := False\<rparr>);
           if r \<in> {TRIV_UNSAT, TRIV_SAT, PREP_ERROR} then Some ((r, spots), st)
           else do {
             (r, st) \<leftarrow> rebuild_each spots (st\<lparr>DO_INFERENCES := OLD_DO_INFERENCES\<rparr>);
             if r \<in> {TRIV_UNSAT, TRIV_SAT, PREP_ERROR} then Some ((r, spots), st)
             else Some ((PREP_CHANGED, spots), st) } }))"

section \<open>Entering inferences keeps the invariant\<close>

lemma infers_in:
  assumes "robdd f" "\<forall>v \<in> bvars f. int v < no_inp_vars e" "i \<in> set (inferences d f)"
  shows "infer_in e i"
proof -
  have "0 < no_inp_vars e" using assms(2) inferences_vars [OF assms(3)] by fastforce
  then show ?thesis
    using inferences_wf [OF assms(1,3)] inferences_vars [OF assms(3)] assms(2)
    by (cases "snd i = 0") (force simp: infer_in_def)+
qed

text \<open>The same for any change of the state that only enters the inferences \<open>is\<close>.\<close>

lemma entered_prep_inv:
  assumes b: "entered js e' st st'" and inv: "prep_inv D c st"
    and r: "reduced_list (classes st) (int ` eliminated st \<union> elim ` set (pending c st)) is js e'"
    and same: "fn_bdds st' = fn_bdds st" "var_lists st' = var_lists st" "amount st' = amount st"
      "num_funcs_var_occurs st' = num_funcs_var_occurs st" "st_ok (bst st')" "DO_INFERENCES st' = DO_INFERENCES st"
      "limits_ok st' = limits_ok st" "equivalences_on st' = equivalences_on st"
  shows "prep_inv D c st'" "kept st st'" "Sol c st' = {a \<in> Sol c st. \<forall>i \<in> set is. infer_holds i a}"
proof -
  let ?e = "classes st"
  have i: "infs_ok c st" and l: "lists_ok D st" and f: "fns_ok D st" using inv by (auto simp: prep_inv_def)
  have sf: "same_frame ?e e'"
    and m: "\<And>a. with_consts ?e a \<in> models e' \<longleftrightarrow> with_consts ?e a \<in> models ?e \<and> (\<forall>i \<in> set is. infer_holds i a)"
    and n: "\<And>a. with_consts ?e a \<in> models ?e \<Longrightarrow> (\<forall>j \<in> set js. infer_holds j a) = (\<forall>i \<in> set is. infer_holds i a)"
    using r unfolding reduced_list_def by blast+
  have fr: "true_false st' = true_false st" "equalvars st' = equalvars st" "inferlist st' = inferlist st @ js" "classes st' = e'"
    using b by (simp_all add: entered_def)
  note el = entered_eliminated [OF b]
  have k: "no_inp_vars e' = no_inp_vars ?e" using sf by (simp add: same_frame_def)
  have "lists_ok D st'" using l unfolding lists_ok_def counted_def vars_in_def same .
  moreover have "fns_ok D st'"
    unfolding fns_ok_def fr same el with_consts_frame [OF sf] k using f m same(5) by (auto simp: fns_ok_def)
  ultimately show "prep_inv D c st'" using entered_infs_ok [OF b i r] by (simp add: prep_inv_def)
  show "kept st st'" using fr same sf by (simp add: kept_def)
  have "(\<forall>j \<in> set js. infer_holds j a) = (\<forall>i \<in> set is. infer_holds i a)"
    if "known st a" "\<forall>i \<in> set (pending c st). infer_holds i a" for a
    using n [of a] that pending_models [OF i, of a] by blast
  then show "Sol c st' = {a \<in> Sol c st. \<forall>i \<in> set is. infer_holds i a}"
    unfolding Sol_def same el el(3) [OF infs_ok_length [OF i]] set_append by blast
qed

lemma Rebuild_BDD_ok:
  assumes inv: "prep_inv D c st" and f: "robdd f" "\<forall>v \<in> bvars f. int v < no_inp_vars (classes st)"
  shows "\<exists>r vs st'. Rebuild_BDD f st = Some ((r, vs), st') \<and>
    (r = PREP_NO_CHANGE \<and> (\<exists>ws. vs = Some ws \<and> sorted_wrt (<) ws \<and> set ws = bvars f) \<and>
       prep_inv D c st' \<and> kept st st' \<and>
       Sol c st' = {a \<in> Sol c st. \<forall>i \<in> set (inferences (equivalences_on st) f). infer_holds i a} \<or>
     r = TRIV_UNSAT \<and> (\<forall>a \<in> Sol c st. \<not> ev f a))"
proof (cases "f = FalseP")
  case True
  then show ?thesis by (simp add: Rebuild_BDD_def)
next
  case False
  let ?e = "classes st" and ?E = "int ` eliminated st \<union> elim ` set (pending c st)"
  let ?is = "inferences (equivalences_on st) f"
  have i: "infs_ok c st" and st: "st_ok (bst st)" using inv by (auto simp: prep_inv_def fns_ok_def)
  have e: "equiv_inv ?e" "Tr ?e < Fa ?e" "mins ?e \<inter> ?E = {}"
    using i unfolding infs_ok_def Let_def by blast+
  have ins: "\<forall>i \<in> set ?is. infer_in ?e i" using infers_in [OF f] by blast
  obtain r js e' where r: "ReduceInferences ?is ?e = Some (r, js, e')"
      "r = PREP_NO_CHANGE \<and> reduced_list ?e ?E ?is js e' \<or>
       r = TRIV_UNSAT \<and> (\<forall>a. with_consts ?e a \<in> models ?e \<longrightarrow> \<not> (\<forall>i \<in> set ?is. infer_holds i a))"
    using ReduceInferences_ok [OF e(1,2) ins e(3)] by blast
  show ?thesis
  proof (cases "r = TRIV_UNSAT")
    case True
    then have no: "\<not> (\<forall>i \<in> set ?is. infer_holds i a)" if "with_consts ?e a \<in> models ?e" for a
      using r(2) that by auto
    have "\<not> ev f a" if "a \<in> Sol c st" for a
    proof
      assume "ev f a"
      moreover have "with_consts ?e a \<in> models ?e"
        using that pending_models [OF i, of a] by (simp add: Sol_def)
      ultimately show False using no inferences_sound [OF f(1)] by blast
    qed
    then show ?thesis using r(1) True False by (simp add: Rebuild_BDD_def)
  next
    case nu: False
    then have nc: "r = PREP_NO_CHANGE" and rl: "reduced_list ?e ?E ?is js e'" using r(2) by auto
    obtain y s where u: "run_state (unravelBDD f) (bst st) = (y, s)" by (metis surj_pair)
    have y: "distinct y" "set y = bvars f" and s: "st_ok s"
      using gives_run [OF unravelBDD_gives st u] by auto
    let ?st = "st\<lparr>inferlist := inferlist st @ js, classes := e', bst := s\<rparr>"
    have "entered js e' st ?st" by (simp add: entered_def)
    note ok = entered_prep_inv [OF this inv rl]
    have "prep_inv D c ?st" "kept st ?st" "Sol c ?st = {a \<in> Sol c st. \<forall>i \<in> set ?is. infer_holds i a}"
      by (rule ok; simp add: s limits_ok_def)+
    moreover have "Rebuild_BDD f st = Some ((PREP_NO_CHANGE, Some (sort y)), ?st)"
      using r(1) nc False u by (simp add: Rebuild_BDD_def)
    moreover have "sorted_wrt (<) (sort y)" "set (sort y) = bvars f" using y by (simp_all add: strict_sorted_iff)
    ultimately show ?thesis by blast
  qed
qed

section \<open>The preset variables as one diagram\<close>

lemma preset_conj_gives:
  "robdd f \<Longrightarrow> \<forall>l \<in> set ls. l \<noteq> 0 \<and> \<bar>l\<bar> \<le> B \<Longrightarrow> variable f \<le> B \<Longrightarrow>
    gives st_ok (preset_conj ls f) (is_node B (\<lambda>a. ev f a \<and> (\<forall>l \<in> set ls. lit l a)))"
proof (induction ls arbitrary: f)
  case Nil
  then show ?case by (simp add: gives_return is_node_def)
next
  case (Cons l ls)
  have l: "l \<noteq> 0" "\<bar>l\<bar> \<le> B" using Cons.prems(2) by auto
  have "gives cache_ok (ite_and f (ite_var l)) (is_node B (\<lambda>a. ev f a \<and> ev (ite_var l) a))"
    using ite_and_computes [of f "ite_var l" B] Cons.prems l by (simp add: computes_gives)
  then have "gives st_ok (ite_lift (ite_and f (ite_var l))) (is_node B (\<lambda>a. ev f a \<and> ev (ite_var l) a))"
    by (rule st_ite_lift)
  then show ?case
    unfolding preset_conj.simps
  proof (rule gives_bind)
    fix g
    assume g: "is_node B (\<lambda>a. ev f a \<and> ev (ite_var l) a) g"
    then have "gives st_ok (preset_conj ls g) (is_node B (\<lambda>a. ev g a \<and> (\<forall>l \<in> set ls. lit l a)))"
      using Cons.IH [of g] Cons.prems(2) g unfolding is_node_def [of _ "\<lambda>a. ev f a \<and> ev (ite_var l) a"] by simp
    then show "gives st_ok (preset_conj ls g) (is_node B (\<lambda>a. ev f a \<and> (\<forall>l \<in> set (l # ls). lit l a)))"
      by (rule gives_post) (use g l in \<open>auto simp: is_node_def ev_ite_var\<close>)
  qed
qed

lemma preset_literals_ok:
  "preset_literals g n str = Some ls \<Longrightarrow> \<forall>s. 0 < g s \<Longrightarrow> \<forall>l \<in> set ls. l \<noteq> 0 \<and> \<bar>l\<bar> \<le> n"
proof (induction g n str arbitrary: ls rule: preset_literals.induct)
  case (1 g n str)
  show ?case
  proof (cases "dropWhile (\<lambda>p. p = CHR '' '') str")
    case Nil
    then show ?thesis using "1.prems"(1) unfolding preset_literals.simps [of g n str] Nil by simp
  next
    case (Cons p r)
    let ?name = "takeWhile name_char r" and ?rest = "dropWhile name_char r"
    have c: "p = CHR ''+'' \<or> p = CHR ''-''" "\<not> (?rest \<noteq> [] \<and> hd ?rest \<noteq> CHR '' '' \<or> ?name = [])"
        "\<not> g ?name > n"
      using "1.prems"(1) Cons by (auto simp: preset_literals.simps [of g n str] Let_def split: if_splits)
    then obtain ms where ms: "preset_literals g n ?rest = Some ms"
        "ls = (if p = CHR ''-'' then - g ?name else g ?name) # ms"
      using "1.prems"(1) Cons by (auto simp: preset_literals.simps [of g n str] Let_def bind_eq_Some_conv split: if_splits)
    have "\<not> (p \<noteq> CHR ''+'' \<and> p \<noteq> CHR ''-'')" using c(1) by auto
    from "1.IH" [OF Cons this refl refl c(2,3) ms(1) "1.prems"(2)]
    show ?thesis using ms(2) c(3) "1.prems"(2) by (auto simp: less_imp_neq [symmetric] dest: spec [of _ ?name])
  qed
qed
section \<open>The start keeps the solutions\<close>

lemma getNuminp_ge: "f \<in> set fs \<Longrightarrow> variable f \<le> getNuminp fs" "0 \<le> getNuminp fs"
proof -
  have *: "n \<le> foldl (\<lambda>n f. if variable f > n then variable f else n) n fs \<and>
      (\<forall>f \<in> set fs. variable f \<le> foldl (\<lambda>n f. if variable f > n then variable f else n) n fs)" for n
  proof (induction fs arbitrary: n)
    case (Cons f fs)
    show ?case using Cons.IH [of "if variable f > n then variable f else n"] by (auto split: if_splits)
  qed simp
  show "0 \<le> getNuminp fs" using * [of 0] by (simp add: getNuminp_def)
  show "f \<in> set fs \<Longrightarrow> variable f \<le> getNuminp fs" using * [of 0] by (simp add: getNuminp_def)
qed

lemma Init_arrays_ok:
  assumes fs: "\<forall>f \<in> set (fn_bdds st). robdd f \<and> variable f \<le> n" "0 \<le> n"
    and st: "st_ok (bst st)" "limits_ok st"
  shows "\<exists>st'. Init_arrays n st = Some st' \<and> prep_inv {0..<length (fn_bdds st)} 0 st' \<and>
    Sol 0 st' = {a. \<forall>f \<in> set (fn_bdds st). ev f a} \<and> no_inp_vars (classes st') = n + 1 \<and> eliminated st' = {} \<and>
    fn_bdds st' = fn_bdds st \<and> DO_INFERENCES st' = DO_INFERENCES st \<and> equivalences_on st' = equivalences_on st \<and>
    inferlist st' = [] \<and> bst st' = bst st"
proof -
  obtain e where e: "Equiv (n + 1) (n + 2) (n + 3) = Some e" by (simp add: Equiv_def)
  have i: "equiv_inv e" "models e = {v. v (n + 2) \<and> \<not> v (n + 3)}" using Equiv_inv [OF e] fs(2) by simp_all
  have f: "no_inp_vars e = n + 1" "Tr e = n + 2" "Fa e = n + 3"
    using e by (auto simp: Equiv_def equiv_start_def split: if_splits)
  have m: "with_consts e a \<in> models e" for a by (simp add: i(2) with_consts_def f)
  define st' where "st' = st\<lparr>true_false := (\<lambda>_. -1), equalvars := (\<lambda>_. 0),
    var_lists := replicate (length (fn_bdds st)) None, var_min := (\<lambda>_. 0), var_max := (\<lambda>_. 0),
    inferlist := [], repeats := (\<lambda>_ _. False), classes := e, amount := (\<lambda>_. []), num_funcs_var_occurs := (\<lambda>_. 0)\<rparr>"
  have run: "Init_arrays n st = Some st'" using e by (simp add: Init_arrays_def st'_def)
  have el: "eliminated st' = {}" and kn: "known st' a" and p: "pending 0 st' = []" for a
    by (simp_all add: st'_def eliminated_def known_def pending_def)
  have fr: "classes st' = e" "fn_bdds st' = fn_bdds st" "bst st' = bst st" "true_false st' = (\<lambda>_. -1)"
      "limits_ok st' = limits_ok st"
    by (simp_all add: st'_def limits_ok_def)
  have "vars_in x st' = []" if "x < length (fn_bdds st)" for x
    using that by (simp add: vars_in_def st'_def)
  then have "lists_ok {0..<length (fn_bdds st)} st'"
    by (auto simp: lists_ok_def counted_def st'_def)
  moreover have "infs_ok 0 st'"
    unfolding infs_ok_def Let_def el p fr using i(1) f m kn by auto
  moreover have "fns_ok {0..<length (fn_bdds st)} st'"
    unfolding fns_ok_def el fr using st fs bvars_le_variable f(1) by fastforce
  ultimately have "prep_inv {0..<length (fn_bdds st)} 0 st'" by (simp add: prep_inv_def)
  moreover have "Sol 0 st' = {a. \<forall>f \<in> set (fn_bdds st). ev f a}" by (simp add: Sol_def p kn fr)
  moreover have "DO_INFERENCES st' = DO_INFERENCES st" "equivalences_on st' = equivalences_on st" "inferlist st' = []"
    by (simp_all add: st'_def)
  ultimately show ?thesis using run f el fr by auto
qed

lemma Rebuild_BDDx_entering:
  assumes inv: "prep_inv D c st" and x: "x < length (fn_bdds st)" and d: "\<not> DO_INFERENCES st"
  shows "\<exists>r st'. Rebuild_BDDx x st = Some (r, st') \<and>
    (r = PREP_NO_CHANGE \<and> prep_inv (D - {x}) c st' \<and> kept st st' \<and> Sol c st' = Sol c st \<or>
     r = TRIV_UNSAT \<and> Sol c st = {})"
proof -
  obtain r st1 where r: "Rebuild_body x st = Some (r, st1)"
      "r = PREP_NO_CHANGE \<and> prep_inv (D - {x}) c st1 \<and> kept st st1 \<and> Sol c st1 = Sol c st \<or>
       r = TRIV_UNSAT \<and> Sol c st = {}"
    using Rebuild_body_ok [OF inv x] by blast
  then show ?thesis using d by (auto simp: Rebuild_BDDx_def kept_def)
qed

lemma rebuild_each_entering:
  assumes "prep_inv D 0 st" "\<forall>x \<in> set xs. x < length (fn_bdds st)" "\<not> DO_INFERENCES st"
  shows "\<exists>r st'. rebuild_each xs st = Some (r, st') \<and>
    (r = PREP_NO_CHANGE \<and> prep_inv (D - set xs) 0 st' \<and> kept st st' \<and> Sol 0 st' = Sol 0 st \<or>
     r = TRIV_UNSAT \<and> Sol 0 st = {})"
  using assms
proof (induction xs arbitrary: D st)
  case Nil
  then show ?case by (simp add: kept_refl)
next
  case (Cons x xs)
  have x: "x < length (fn_bdds st)" using Cons.prems(2) by simp
  obtain r st1 where r: "Rebuild_BDDx x st = Some (r, st1)"
      "r = PREP_NO_CHANGE \<and> prep_inv (D - {x}) 0 st1 \<and> kept st st1 \<and> Sol 0 st1 = Sol 0 st \<or>
       r = TRIV_UNSAT \<and> Sol 0 st = {}"
    using Rebuild_BDDx_entering [OF Cons.prems(1) x Cons.prems(3)] by blast
  show ?case
  proof (cases "r = TRIV_UNSAT")
    case True
    then show ?thesis using r by auto
  next
    case False
    then have k: "prep_inv (D - {x}) 0 st1" "kept st st1" "Sol 0 st1 = Sol 0 st" and nc: "r = PREP_NO_CHANGE"
      using r(2) by auto
    have fr: "fn_bdds st1 = fn_bdds st" "DO_INFERENCES st1 = DO_INFERENCES st" using k(2) by (simp_all add: kept_def)
    have run: "rebuild_each (x # xs) st = rebuild_each xs st1" using r(1) nc by simp
    have *: "\<forall>x \<in> set xs. x < length (fn_bdds st1)" "\<not> DO_INFERENCES st1" using Cons.prems(2,3) fr by simp_all
    obtain r' st' where r': "rebuild_each xs st1 = Some (r', st')"
        "r' = PREP_NO_CHANGE \<and> prep_inv (D - {x} - set xs) 0 st' \<and> kept st1 st' \<and> Sol 0 st' = Sol 0 st1 \<or>
         r' = TRIV_UNSAT \<and> Sol 0 st1 = {}"
      using Cons.IH [OF k(1) *] by blast
    have "D - {x} - set xs = D - set (x # xs)" by auto
    then show ?thesis unfolding run using r' k(2,3) kept_trans by auto
  qed
qed

text \<open>What a routine leaves behind that ends with all inferences applied.\<close>

definition settled :: "prep \<Rightarrow> bool" where
  "settled st \<longleftrightarrow> prep_inv {} 0 st \<and> inferlist st = [] \<and> DO_INFERENCES st"

definition onward :: "prep \<Rightarrow> prep \<Rightarrow> bool" where
  "onward st st' \<longleftrightarrow> length (fn_bdds st') = length (fn_bdds st) \<and> equivalences_on st' = equivalences_on st \<and>
     eliminated st \<subseteq> eliminated st' \<and> same_frame (classes st) (classes st')"

lemma onward_refl: "onward st st" by (simp add: onward_def same_frame_def)

lemma onward_trans: "onward a b \<Longrightarrow> onward b c \<Longrightarrow> onward a c"
  by (auto simp: onward_def intro: same_frame_trans)

lemma propagated_settled: "propagated st st' \<Longrightarrow> settled st' \<and> onward st st' \<and> Sol 0 st' = Sol 0 st"
  by (simp add: propagated_def settled_def onward_def)

lemma kept_onward: "kept st st' \<Longrightarrow> onward st st'"
  using kept_eliminated [of st st'] by (simp add: onward_def kept_def)

lemma rebuild_each_applying:
  assumes "prep_inv {} 0 st" "\<forall>x \<in> set xs. x < length (fn_bdds st)" "DO_INFERENCES st" "xs = [] \<Longrightarrow> inferlist st = []"
  shows "\<exists>r st'. rebuild_each xs st = Some (r, st') \<and>
    (r = PREP_NO_CHANGE \<and> settled st' \<and> onward st st' \<and> Sol 0 st' = Sol 0 st \<or>
     r = TRIV_UNSAT \<and> calm st' \<and> Sol 0 st = {})"
  using assms
proof (induction xs arbitrary: st)
  case Nil
  then show ?case by (simp add: settled_def onward_refl)
next
  case (Cons x xs)
  have x: "x < length (fn_bdds st)" using Cons.prems(2) by simp
  have xi: "prep_inv {x} 0 st" using prep_inv_mono Cons.prems(1) by blast
  then obtain r st1 where r: "Rebuild_BDDx x st = Some (r, st1)"
      "r = PREP_NO_CHANGE \<and> propagated st st1 \<or> r = TRIV_UNSAT \<and> Sol 0 st = {}"
    using Rebuild_BDDx_ok [OF _ x Cons.prems(3)] by blast
  show ?case
  proof (cases "r = TRIV_UNSAT")
    case True
    then show ?thesis using r Rebuild_BDDx_calm [OF xi x disjI2 [OF Cons.prems(1)]] by auto
  next
    case False
    then have nc: "r = PREP_NO_CHANGE" and s1: "settled st1" "onward st st1" "Sol 0 st1 = Sol 0 st"
      using r(2) propagated_settled by auto
    have run: "rebuild_each (x # xs) st = rebuild_each xs st1" using r(1) nc by simp
    have "\<forall>x \<in> set xs. x < length (fn_bdds st1)" using Cons.prems(2) s1(2) by (simp add: onward_def)
    then obtain r' st' where r': "rebuild_each xs st1 = Some (r', st')"
        "r' = PREP_NO_CHANGE \<and> settled st' \<and> onward st1 st' \<and> Sol 0 st' = Sol 0 st1 \<or>
         r' = TRIV_UNSAT \<and> calm st' \<and> Sol 0 st1 = {}"
      using Cons.IH [of st1] s1(1) by (auto simp: settled_def)
    then show ?thesis unfolding run using s1 onward_trans by auto
  qed
qed

lemma bst_upd_ok:
  assumes "st_ok s"
  shows "prep_inv D c st \<Longrightarrow> prep_inv D c (st\<lparr>bst := s\<rparr>)" "Sol c (st\<lparr>bst := s\<rparr>) = Sol c st"
proof -
  let ?st = "st\<lparr>bst := s\<rparr>"
  have same: "vars_in x ?st = vars_in x st" "known ?st = known st" "pending c ?st = pending c st"
      "eliminated ?st = eliminated st" for x c
    by (simp_all add: vars_in_def known_def pending_def eliminated_def fun_eq_iff)
  show "prep_inv D c st \<Longrightarrow> prep_inv D c ?st"
    using assms unfolding prep_inv_def lists_ok_def infs_ok_def fns_ok_def counted_def same by (simp add: limits_ok_def)
  show "Sol c ?st = Sol c st" unfolding Sol_def same by simp
qed

text \<open>The inferences of a conjunction of literals are equivalent to it.\<close>

lemma literals_inferred:
  assumes p: "robdd p" "p \<noteq> FalseP" "\<And>a. ev p a \<longleftrightarrow> (\<forall>l \<in> set ls. lit l a)" and ls: "\<forall>l \<in> set ls. l \<noteq> 0"
  shows "(\<forall>i \<in> set (inferences d p). infer_holds i a) \<longleftrightarrow> ev p a"
proof
  assume h: "\<forall>i \<in> set (inferences d p). infer_holds i a"
  have "lit l a" if "l \<in> set ls" for l
  proof -
    have "(l, 0) \<in> set (inferences d p)"
      by (rule inferences_complete [OF p(1,2)]) (use that ls p(3) in auto)
    then show ?thesis using h by (auto simp: infer_holds_def)
  qed
  then show "ev p a" by (simp add: p(3))
next
  assume "ev p a"
  then show "\<forall>i \<in> set (inferences d p). infer_holds i a" using inferences_sound [OF p(1)] by blast
qed

text \<open>With \<open>DO_INFERENCES\<close> off, it stays off.\<close>

lemma Rebuild_BDD_DO: "Rebuild_BDD p st = Some (r, st') \<Longrightarrow> DO_INFERENCES st' = DO_INFERENCES st"
  by (auto simp: Rebuild_BDD_def Let_def case_prod_unfold split: if_splits bind_splits)

lemma rebuild_each_DO: "rebuild_each xs st = Some (r, st') \<Longrightarrow> \<not> DO_INFERENCES st \<Longrightarrow> \<not> DO_INFERENCES st'"
proof (induction xs arbitrary: st)
  case (Cons x xs)
  then obtain r1 st1 where r1: "Rebuild_BDDx x st = Some (r1, st1)"
      "(if r1 \<in> {TRIV_UNSAT, TRIV_SAT, PREP_ERROR} then Some (r1, st1) else rebuild_each xs st1) = Some (r, st')"
    by (auto split: bind_splits)
  have "\<not> DO_INFERENCES st1"
    using r1(1) Rebuild_body_DO [of x st] Cons.prems(2) by (auto simp: Rebuild_BDDx_def split: bind_splits if_splits)
  then show ?case using Cons.IH [of st1] r1(2) by (auto split: if_splits)
qed simp

lemma Init_Preprocessing_ok:
  assumes fs: "\<forall>f \<in> set (fn_bdds st). robdd f" "fn_bdds st \<noteq> []" and st: "st_ok (bst st)" "limits_ok st"
    and g: "\<forall>s. 0 < g s" and ls: "preset_literals g (getNuminp (fn_bdds st)) str = Some ls"
  shows "\<exists>r st'. Init_Preprocessing g str st = Some (r, st') \<and>
    (r = PREP_NO_CHANGE \<and> prep_inv {} 0 st' \<and> DO_INFERENCES st' = DO_INFERENCES st \<and>
       (DO_INFERENCES st \<longrightarrow> inferlist st' = []) \<and> length (fn_bdds st') = length (fn_bdds st) \<and>
       no_inp_vars (classes st') = getNuminp (fn_bdds st) + 1 \<and> Sol 0 st' = {a. (\<forall>f \<in> set (fn_bdds st). ev f a) \<and> (\<forall>l \<in> set ls. lit l a)} \<or>
     r = TRIV_UNSAT \<and> calm st' \<and> {a. (\<forall>f \<in> set (fn_bdds st). ev f a) \<and> (\<forall>l \<in> set ls. lit l a)} = {})"
proof -
  let ?n = "getNuminp (fn_bdds st)" and ?old = "DO_INFERENCES st"
  let ?S = "{a. (\<forall>f \<in> set (fn_bdds st). ev f a) \<and> (\<forall>l \<in> set ls. lit l a)}"
  let ?xs = "[0..<length (fn_bdds st)]"
  have n: "\<forall>f \<in> set (fn_bdds st). robdd f \<and> variable f \<le> ?n" "0 \<le> ?n" using fs(1) getNuminp_ge by auto
  obtain st1 where st1: "Init_arrays ?n (st\<lparr>DO_INFERENCES := False\<rparr>) = Some st1"
      "prep_inv {0..<length (fn_bdds st)} 0 st1" "Sol 0 st1 = {a. \<forall>f \<in> set (fn_bdds st). ev f a}"
      "no_inp_vars (classes st1) = ?n + 1" "fn_bdds st1 = fn_bdds st" "\<not> DO_INFERENCES st1" "bst st1 = bst st"
    using Init_arrays_ok [of "st\<lparr>DO_INFERENCES := False\<rparr>" ?n] n st by (auto simp: limits_ok_def)
  obtain p s where ps: "run_state (preset_conj ls TrueP) (bst st1) = (p, s)" by (metis surj_pair)
  have lits: "\<forall>l \<in> set ls. l \<noteq> 0 \<and> \<bar>l\<bar> \<le> ?n" by (rule preset_literals_ok [OF ls g])
  have p: "robdd p" "variable p \<le> ?n" "\<And>a. ev p a \<longleftrightarrow> (\<forall>l \<in> set ls. lit l a)" "st_ok s"
    using gives_run [OF preset_conj_gives [of TrueP ls ?n] _ ps] lits n(2) st(1) st1(7) by (auto simp: is_node_def)
  let ?st1 = "st1\<lparr>bst := s\<rparr>"
  have inv1: "prep_inv {0..<length (fn_bdds st)} 0 ?st1" "Sol 0 ?st1 = {a. \<forall>f \<in> set (fn_bdds st). ev f a}"
    using bst_upd_ok(1) [OF p(4) st1(2)] bst_upd_ok(2) [OF p(4), of 0 st1] st1(3) by auto
  have "\<forall>v \<in> bvars p. int v < no_inp_vars (classes ?st1)"
    using bvars_le_variable [OF p(1)] p(2) st1(4) by fastforce
  then obtain r vs st2 where r: "Rebuild_BDD p ?st1 = Some ((r, vs), st2)"
      "r = PREP_NO_CHANGE \<and> prep_inv {0..<length (fn_bdds st)} 0 st2 \<and> kept ?st1 st2 \<and>
         Sol 0 st2 = {a \<in> Sol 0 ?st1. \<forall>i \<in> set (inferences (equivalences_on ?st1) p). infer_holds i a} \<or>
       r = TRIV_UNSAT \<and> (\<forall>a \<in> Sol 0 ?st1. \<not> ev p a)"
    using Rebuild_BDD_ok [OF inv1(1) p(1)] by blast
  have pf: "(\<forall>i \<in> set (inferences d p). infer_holds i a) \<longleftrightarrow> ev p a" if "p \<noteq> FalseP" for a d
    by (rule literals_inferred [OF p(1) that p(3)]) (use lits in auto)
  have ne: "length (fn_bdds st) \<noteq> 0" using fs(2) by simp
  show ?thesis
  proof (cases "r = TRIV_UNSAT")
    case True
    then have "?S = {}" using r(2) inv1(2) p(3) by auto
    moreover have "Init_Preprocessing g str st = Some (TRIV_UNSAT, st2)"
      using r(1) True ne st1(1,7) ls ps by (simp add: Init_Preprocessing_def Let_def)
    moreover have "calm st2" using Rebuild_BDD_DO [OF r(1)] st1(6) by (simp add: calm_def)
    ultimately show ?thesis by blast
  next
    case False
    then have nc: "r = PREP_NO_CHANGE" and k: "prep_inv {0..<length (fn_bdds st)} 0 st2" "kept ?st1 st2"
        "Sol 0 st2 = {a \<in> Sol 0 ?st1. \<forall>i \<in> set (inferences (equivalences_on ?st1) p). infer_holds i a}"
      using r(2) by auto
    have "p \<noteq> FalseP" using r(1) nc by (auto simp: Rebuild_BDD_def)
    then have S2: "Sol 0 st2 = ?S" unfolding k(3) inv1(2) by (simp add: pf p(3))
    have fr2: "fn_bdds st2 = fn_bdds st" "\<not> DO_INFERENCES st2" using k(2) st1(5,6) by (simp_all add: kept_def)
    obtain r' st3 where r': "rebuild_each ?xs st2 = Some (r', st3)"
        "r' = PREP_NO_CHANGE \<and> prep_inv ({0..<length (fn_bdds st)} - set ?xs) 0 st3 \<and> kept st2 st3 \<and> Sol 0 st3 = Sol 0 st2 \<or>
         r' = TRIV_UNSAT \<and> Sol 0 st2 = {}"
      using rebuild_each_entering [OF k(1), of ?xs] fr2 by auto
    show ?thesis
    proof (cases "r' = TRIV_UNSAT")
      case True
      then have "Init_Preprocessing g str st = Some (TRIV_UNSAT, st3)"
        using r(1) r'(1) nc ne st1(1,7) ls ps by (simp add: Init_Preprocessing_def Let_def)
      moreover have "calm st3" using rebuild_each_DO [OF r'(1)] fr2(2) by (simp add: calm_def)
      ultimately show ?thesis using r'(2) True S2 by auto
    next
      case nu: False
      then have nc': "r' = PREP_NO_CHANGE" and k3: "prep_inv {} 0 st3" "kept st2 st3" "Sol 0 st3 = ?S"
        using r'(2) S2 by auto
      let ?st3 = "st3\<lparr>DO_INFERENCES := ?old\<rparr>"
      have run: "Init_Preprocessing g str st = rebuild_each ?xs ?st3"
        using r(1) r'(1) nc nc' ne st1(1,7) ls ps by (simp add: Init_Preprocessing_def Let_def)
      have i3: "prep_inv {} 0 ?st3" "Sol 0 ?st3 = ?S" using k3 DO_INFERENCES_ok by simp_all
      have n3: "no_inp_vars (classes ?st3) = ?n + 1"
        using k3(2) k(2) st1(4) by (simp add: kept_def same_frame_def)
      have x3: "\<forall>x \<in> set ?xs. x < length (fn_bdds ?st3)" and l3: "fn_bdds ?st3 = fn_bdds st"
        using k3(2) fr2 by (simp_all add: kept_def)
      show ?thesis
      proof (cases ?old)
        case True
        then show ?thesis
          unfolding run using rebuild_each_applying [OF i3(1) x3] ne i3(2) l3 n3
          by (auto simp: settled_def onward_def same_frame_def)
      next
        case no: False
        then show ?thesis
          unfolding run using rebuild_each_entering [OF i3(1) x3] rebuild_each_DO [of ?xs ?st3] i3(2) l3 n3
          by (auto simp: kept_def same_frame_def calm_def)
      qed
    qed
  qed
qed

section \<open>Putting a function in its place\<close>

lemma assign_fn:
  assumes inv: "prep_inv {} c st" and x: "x < length (fn_bdds st)" and g: "robdd g"
    and v: "\<forall>v \<in> bvars g. int v < no_inp_vars (classes st) \<and> v \<notin> eliminated st"
  shows "prep_inv {x} c (st\<lparr>fn_bdds := (fn_bdds st)[x := g]\<rparr>)"
proof -
  let ?st = "st\<lparr>fn_bdds := (fn_bdds st)[x := g]\<rparr>"
  have same: "vars_in y ?st = vars_in y st" "known ?st = known st" "pending c ?st = pending c st"
      "eliminated ?st = eliminated st" for y c
    by (simp_all add: vars_in_def known_def pending_def eliminated_def fun_eq_iff)
  have l: "lists_ok {} st" and i: "infs_ok c st" and f: "fns_ok {} st" using inv by (auto simp: prep_inv_def)
  have "lists_ok {x} ?st" using l x unfolding lists_ok_def counted_def same by (auto simp: nth_list_update)
  moreover have "infs_ok c ?st" using i unfolding infs_ok_def Let_def same by simp
  moreover have "\<forall>f \<in> set ((fn_bdds st)[x := g]). robdd f \<and>
      (\<forall>v \<in> bvars f. int v < no_inp_vars (classes st) \<and> v \<notin> eliminated st)"
    using f g v by (auto simp: fns_ok_def dest!: subsetD [OF set_update_subset_insert])
  then have "fns_ok {x} ?st" using f unfolding fns_ok_def same by (simp add: nth_list_update limits_ok_def)
  ultimately show ?thesis by (simp add: prep_inv_def)
qed

lemma Sol_settled: "inferlist st = [] \<Longrightarrow> Sol 0 st = {a. known st a \<and> holds_all (fn_bdds st) a}"
  by (auto simp: Sol_def pending_def holds_all_def)

text \<open>
  A step of the preprocessor: it puts \<open>g\<close> at place \<open>x\<close>, may change fields that the invariant does
  not read, and rebuilds.
\<close>

lemma put_and_rebuild:
  assumes st: "settled st" and x: "x < length (fn_bdds st)" and g: "robdd g"
    and v: "\<forall>v \<in> bvars g. int v < no_inp_vars (classes st) \<and> v \<notin> eliminated st"
    and c: "same_core (st\<lparr>fn_bdds := (fn_bdds st)[x := g]\<rparr>) st1" "DO_INFERENCES st1"
  shows "\<exists>r st'. Rebuild_BDDx x st1 = Some (r, st') \<and>
    (r = PREP_NO_CHANGE \<and> settled st' \<and> onward st st' \<and>
       Sol 0 st' = {a. known st a \<and> holds_all ((fn_bdds st)[x := g]) a} \<or>
     r = TRIV_UNSAT \<and> calm st' \<and> {a. known st a \<and> holds_all ((fn_bdds st)[x := g]) a} = {})"
proof -
  let ?st = "st\<lparr>fn_bdds := (fn_bdds st)[x := g]\<rparr>"
  have inv: "prep_inv {} 0 st" "inferlist st = []" using st by (simp_all add: settled_def)
  have p: "prep_inv {x} 0 st1" "x < length (fn_bdds st1)" "inferlist st1 = [] \<or> prep_inv {} 0 st1"
    using assign_fn [OF inv(1) x g v] same_coreD(1) [OF c(1)] x c(1) inv(2) by (simp_all add: same_core_def)
  obtain r st' where r: "Rebuild_BDDx x st1 = Some (r, st')"
      "r = PREP_NO_CHANGE \<and> propagated st1 st' \<or> r = TRIV_UNSAT \<and> Sol 0 st1 = {}"
    using Rebuild_BDDx_ok [OF p(1,2) c(2)] by blast
  have "r = TRIV_UNSAT \<Longrightarrow> calm st'" using Rebuild_BDDx_calm [OF p] r(1) by simp
  note r = r this
  have "Sol 0 st1 = Sol 0 ?st" by (rule same_coreD(2) [OF c(1)])
  also have "\<dots> = {a. known st a \<and> holds_all ((fn_bdds st)[x := g]) a}"
    using Sol_settled [of ?st] inv(2) by (simp add: known_def)
  finally have S: "Sol 0 st1 = {a. known st a \<and> holds_all ((fn_bdds st)[x := g]) a}" .
  have "onward st st'" if "onward st1 st'"
    using that c(1) same_coreD(3) [OF c(1)] by (simp add: onward_def same_core_def eliminated_def)
  then show ?thesis using r S propagated_settled by auto
qed

lemma put_and_enter:
  assumes inv: "prep_inv {} 0 st" and x: "x < length (fn_bdds st)" and g: "robdd g"
    and v: "\<forall>v \<in> bvars g. int v < no_inp_vars (classes st) \<and> v \<notin> eliminated st"
    and c: "same_core (st\<lparr>fn_bdds := (fn_bdds st)[x := g]\<rparr>) st1" "\<not> DO_INFERENCES st1"
  shows "\<exists>r st'. Rebuild_BDDx x st1 = Some (r, st') \<and>
    (r = PREP_NO_CHANGE \<and> prep_inv {} 0 st' \<and> kept st1 st' \<and> Sol 0 st' = Sol 0 st1 \<or>
     r = TRIV_UNSAT \<and> Sol 0 st1 = {})"
proof -
  have "prep_inv {x} 0 st1" using assign_fn [OF inv x g v] same_coreD(1) [OF c(1)] by simp
  moreover have "x < length (fn_bdds st1)" using x c(1) by (simp add: same_core_def)
  ultimately show ?thesis using Rebuild_BDDx_entering [of "{x}" 0 st1 x] c(2) by simp
qed

section \<open>Further functions\<close>

lemma Sol_put:
  assumes "x < length (fn_bdds st)" "fn_bdds st ! x = TrueP"
    and "same_core (st\<lparr>fn_bdds := (fn_bdds st)[x := g]\<rparr>) st1"
  shows "Sol c st1 = {a \<in> Sol c st. ev g a}"
proof -
  have "holds_all ((fn_bdds st)[x := g]) a \<longleftrightarrow> ev g a \<and> holds_all (fn_bdds st) a" for a
    using holds_all_update [OF assms(1), of g a] holds_all_split [OF assms(1), of a] assms(2) by auto
  then show ?thesis
    unfolding same_coreD(2) [OF assms(3)] by (auto simp: Sol_def known_def pending_def holds_all_def)
qed

lemma place_each_ok:
  assumes "prep_inv {} 0 st" "\<not> DO_INFERENCES st" "length ys = length gs" "distinct ys"
    and "\<forall>y \<in> set ys. y < length (fn_bdds st) \<and> fn_bdds st ! y = TrueP"
    and "\<forall>g \<in> set gs. robdd g \<and> (\<forall>v \<in> bvars g. int v < no_inp_vars (classes st) \<and> v \<notin> eliminated st)"
  shows "\<exists>r st'. place_each ys gs st = Some (r, st') \<and>
    (r = PREP_NO_CHANGE \<and> prep_inv {} 0 st' \<and> onward st st' \<and> Sol 0 st' = {a \<in> Sol 0 st. \<forall>g \<in> set gs. ev g a} \<or>
     r = TRIV_UNSAT \<and> {a \<in> Sol 0 st. \<forall>g \<in> set gs. ev g a} = {})"
  using assms(3,1,2,4-6)
proof (induction ys gs arbitrary: st rule: list_induct2)
  case Nil
  then show ?case by (simp add: onward_refl)
next
  case (Cons y ys g gs)
  let ?st = "st\<lparr>fn_bdds := (fn_bdds st)[y := g], functionType := (functionType st)(y := UNSURE),
    equalityVble := (equalityVble st)(y := 0)\<rparr>"
  have y: "y < length (fn_bdds st)" "fn_bdds st ! y = TrueP" and g: "robdd g"
      "\<forall>v \<in> bvars g. int v < no_inp_vars (classes st) \<and> v \<notin> eliminated st"
    using Cons.prems(4,5) by auto
  have c: "same_core (st\<lparr>fn_bdds := (fn_bdds st)[y := g]\<rparr>) ?st" "\<not> DO_INFERENCES ?st"
    using Cons.prems(2) by (simp_all add: same_core_def limits_ok_def)
  note S = Sol_put [OF y c(1), of 0]
  obtain r st1 where r: "Rebuild_BDDx y ?st = Some (r, st1)"
      "r = PREP_NO_CHANGE \<and> prep_inv {} 0 st1 \<and> kept ?st st1 \<and> Sol 0 st1 = Sol 0 ?st \<or>
       r = TRIV_UNSAT \<and> Sol 0 ?st = {}"
    using put_and_enter [OF Cons.prems(1) y(1) g c] by blast
  show ?case
  proof (cases "r = TRIV_UNSAT")
    case True
    then show ?thesis using r S by auto
  next
    case False
    then have k: "prep_inv {} 0 st1" "kept ?st st1" "Sol 0 st1 = Sol 0 ?st" and nc: "r = PREP_NO_CHANGE"
      using r(2) by auto
    have fr: "fn_bdds st1 = (fn_bdds st)[y := g]" "\<not> DO_INFERENCES st1" "eliminated st1 = eliminated st"
        "same_frame (classes st) (classes st1)" "equivalences_on st1 = equivalences_on st"
      using k(2) kept_eliminated [OF k(2)] Cons.prems(2) by (simp_all add: kept_def eliminated_def)
    have ys: "\<forall>z \<in> set ys. z < length (fn_bdds st1) \<and> fn_bdds st1 ! z = TrueP"
    proof
      fix z assume z: "z \<in> set ys"
      then have "y \<noteq> z" using Cons.prems(3) by auto
      then show "z < length (fn_bdds st1) \<and> fn_bdds st1 ! z = TrueP"
        using z Cons.prems(4) fr(1) by (simp add: nth_list_update_neq)
    qed
    have gs: "\<forall>g \<in> set gs. robdd g \<and> (\<forall>v \<in> bvars g. int v < no_inp_vars (classes st1) \<and> v \<notin> eliminated st1)"
      using Cons.prems(5) fr(3,4) by (simp add: same_frame_def)
    have "onward st st1" using fr by (simp add: onward_def)
    then have "onward st st'" if "onward st1 st'" for st' using that onward_trans by blast
    moreover have "place_each (y # ys) (g # gs) st = place_each ys gs st1" using r(1) nc by simp
    moreover have "{a \<in> Sol 0 st1. \<forall>g \<in> set gs. ev g a} = {a \<in> Sol 0 st. \<forall>g \<in> set (g # gs). ev g a}"
      unfolding k(3) S by auto
    moreover have "distinct ys" using Cons.prems(3) by simp
    ultimately show ?thesis using Cons.IH [OF k(1) fr(2) _ ys gs] by auto
  qed
qed

lemma free_spots_ok:
  fixes fs k
  defines "spots \<equiv> free_spots fs k"
  defines "n \<equiv> length (filter (\<lambda>y. y \<ge> length fs) spots)"
  shows "length spots = k" "distinct spots" "\<forall>y \<in> set spots. y < length fs + n \<and> (fs @ replicate n TrueP) ! y = TrueP"
proof -
  define free where "free = take k (filter (\<lambda>x. fs ! x = TrueP) [0..<length fs])"
  have s: "spots = free @ [length fs..<length fs + (k - length free)]"
    by (simp add: spots_def free_spots_def Let_def free_def)
  have f: "x < length fs \<and> fs ! x = TrueP" if "x \<in> set free" for x
    using in_set_takeD [OF that [unfolded free_def]] by simp
  have d: "distinct free" "length free \<le> k" by (simp_all add: free_def)
  have "filter (\<lambda>y. y \<ge> length fs) free = []" unfolding filter_empty_conv using f by (metis not_le)
  then have n: "n = k - length free" by (simp add: n_def s)
  show "length spots = k" using d(2) by (simp add: s)
  have "\<not> length fs \<le> x" if "x \<in> set free" for x using f [OF that] by simp
  then show "distinct spots" unfolding s distinct_append using d(1) by auto
  show "\<forall>y \<in> set spots. y < length fs + n \<and> (fs @ replicate n TrueP) ! y = TrueP"
  proof
    fix y assume "y \<in> set spots"
    then consider "y \<in> set free" | "length fs \<le> y" "y < length fs + n" unfolding s n by fastforce
    then show "y < length fs + n \<and> (fs @ replicate n TrueP) ! y = TrueP"
    proof cases
      case 1
      then show ?thesis using f [OF 1] by (simp add: nth_append)
    next
      case 2
      then show ?thesis by (simp add: nth_append)
    qed
  qed
qed

lemma more_functions_ok:
  assumes "prep_inv {} 0 st"
  shows "prep_inv {} 0 (more_functions n st)" "Sol c (more_functions n st) = Sol c st"
    "eliminated (more_functions n st) = eliminated st" "classes (more_functions n st) = classes st"
    "equivalences_on (more_functions n st) = equivalences_on st" "inferlist (more_functions n st) = inferlist st"
    "fn_bdds (more_functions n st) = fn_bdds st @ replicate n TrueP" "DO_INFERENCES (more_functions n st) = DO_INFERENCES st"
proof -
  let ?st = "more_functions n st"
  show fr: "classes ?st = classes st" "fn_bdds ?st = fn_bdds st @ replicate n TrueP"
      "equivalences_on ?st = equivalences_on st" "inferlist ?st = inferlist st" "DO_INFERENCES ?st = DO_INFERENCES st"
    by (simp_all add: more_functions_def Let_def)
  have l: "lists_ok {} st" and i: "infs_ok 0 st" and f: "fns_ok {} st" using assms by (auto simp: prep_inv_def)
  have len: "length (var_lists st) = length (fn_bdds st)" using l by (simp add: lists_ok_def)
  have same: "known ?st = known st" "pending c ?st = pending c st" "amount ?st = amount st" "counted ?st = counted st"
      "true_false ?st = true_false st" "bst ?st = bst st" "limits_ok ?st = limits_ok st"
      "length (var_lists ?st) = length (var_lists st) + n" for c
    by (simp_all add: more_functions_def Let_def known_def pending_def counted_def limits_ok_def fun_eq_iff)
  show el: "eliminated ?st = eliminated st" by (simp add: more_functions_def Let_def eliminated_def)
  have v: "vars_in x ?st = (if x < length (fn_bdds st) then vars_in x st else [])"
    if "x < length (fn_bdds st) + n" for x
    using that len by (auto simp: more_functions_def Let_def vars_in_def nth_append)
  have "lists_ok {} ?st"
    unfolding lists_ok_def same fr using l v by (auto simp: lists_ok_def nth_append)
  moreover have "infs_ok 0 ?st" using i unfolding infs_ok_def Let_def same fr el .
  moreover have "fns_ok {} ?st" unfolding fns_ok_def same fr el using f by (auto simp: fns_ok_def nth_append)
  ultimately show "prep_inv {} 0 ?st" by (simp add: prep_inv_def)
  show "Sol c ?st = Sol c st" unfolding Sol_def same fr by auto
qed

lemma add_newFunctions_ok:
  assumes st: "settled st" and g: "\<forall>g \<in> set gs. robdd g \<and> (\<forall>v \<in> bvars g. int v < no_inp_vars (classes st) \<and> v \<notin> eliminated st)"
    and ne: "gs \<noteq> []"
  shows "\<exists>r spots st'. add_newFunctions gs st = Some ((r, spots), st') \<and>
    (r = PREP_CHANGED \<and> settled st' \<and> Sol 0 st' = {a \<in> Sol 0 st. \<forall>g \<in> set gs. ev g a} \<and> length spots = length gs \<and>
       length (fn_bdds st) \<le> length (fn_bdds st') \<or>
     r = TRIV_UNSAT \<and> {a \<in> Sol 0 st. \<forall>g \<in> set gs. ev g a} = {})"
proof -
  define spots where "spots = free_spots (fn_bdds st) (length gs)"
  define n where "n = length (filter (\<lambda>y. y \<ge> length (fn_bdds st)) spots)"
  define st0 where "st0 = more_functions n st"
  have inv: "prep_inv {} 0 st" "inferlist st = []" "DO_INFERENCES st" using st by (simp_all add: settled_def)
  note sp = free_spots_ok [of "fn_bdds st" "length gs", folded spots_def, folded n_def]
  note m = more_functions_ok [OF inv(1), where n = n, folded st0_def]
  let ?st0 = "st0\<lparr>DO_INFERENCES := False\<rparr>"
  have p0: "prep_inv {} 0 ?st0" "\<not> DO_INFERENCES ?st0" "Sol 0 ?st0 = Sol 0 st" "eliminated ?st0 = eliminated st"
    using m(1-3) DO_INFERENCES_ok by simp_all
  obtain r st1 where r: "place_each spots gs ?st0 = Some (r, st1)"
      "r = PREP_NO_CHANGE \<and> prep_inv {} 0 st1 \<and> onward ?st0 st1 \<and> Sol 0 st1 = {a \<in> Sol 0 st. \<forall>g \<in> set gs. ev g a} \<or>
       r = TRIV_UNSAT \<and> {a \<in> Sol 0 st. \<forall>g \<in> set gs. ev g a} = {}"
    using place_each_ok [OF p0(1,2) sp(1,2)] sp(3) g m(4,7) p0(3,4) by auto
  have fold: "add_newFunctions gs st = (do {
      (r, st) \<leftarrow> place_each spots gs ?st0;
      if r \<in> {TRIV_UNSAT, TRIV_SAT, PREP_ERROR} then Some ((r, spots), st)
      else do {
        (r, st) \<leftarrow> rebuild_each spots (st\<lparr>DO_INFERENCES := True\<rparr>);
        if r \<in> {TRIV_UNSAT, TRIV_SAT, PREP_ERROR} then Some ((r, spots), st)
        else Some ((PREP_CHANGED, spots), st) } })"
  proof -
    have d: "DO_INFERENCES st0 = True" using inv(3) m(8) by simp
    show ?thesis
      unfolding add_newFunctions_def Let_def spots_def [symmetric] n_def [symmetric] st0_def [symmetric] d
      using ne by simp
  qed
  show ?thesis
  proof (cases "r = TRIV_UNSAT")
    case True
    then show ?thesis unfolding fold using r by auto
  next
    case False
    then have nc: "r = PREP_NO_CHANGE" and k: "prep_inv {} 0 st1" "onward ?st0 st1"
        "Sol 0 st1 = {a \<in> Sol 0 st. \<forall>g \<in> set gs. ev g a}"
      using r(2) by auto
    let ?st1 = "st1\<lparr>DO_INFERENCES := True\<rparr>"
    have k1: "prep_inv {} 0 ?st1" "Sol 0 ?st1 = Sol 0 st1" using k(1) DO_INFERENCES_ok by simp_all
    have len: "length (fn_bdds st1) = length (fn_bdds st) + n" using k(2) m(7) by (simp add: onward_def)
    have "\<forall>x \<in> set spots. x < length (fn_bdds ?st1)" using sp(3) len by simp
    moreover have "spots \<noteq> []" using sp(1) ne by auto
    ultimately obtain r' st' where r': "rebuild_each spots ?st1 = Some (r', st')"
        "r' = PREP_NO_CHANGE \<and> settled st' \<and> onward ?st1 st' \<and> Sol 0 st' = Sol 0 ?st1 \<or> r' = TRIV_UNSAT \<and> Sol 0 ?st1 = {}"
      using rebuild_each_applying [OF k1(1), of spots] by auto
    have "length (fn_bdds st) \<le> length (fn_bdds st')" if "onward ?st1 st'"
      using that len by (simp add: onward_def)
    then show ?thesis unfolding fold using r(1) nc r' k(3) k1(2) sp(1) by auto
  qed
qed

end
