(* ===== verification/Prepsteps.thy ===== *)
theory Prepsteps
  imports Preproc Bddvars Bddprune
begin

text \<open>
  Steps of the preprocessor that go over all pairs of functions: \<open>Do_Strength\<close> (do_strength.cc)
  conjoins to a function the projection of another one, the variants of \<open>Do_Pruning\<close>
  (do_pruning.cc) simplify a function where another one is false; then the steps on function types
  (do_findft.cc, do_clearft.cc). Each changed function is rebuilt, which may apply inferences to all
  functions. Interrupts (\<open>nCtrlC\<close>) are left out.
\<close>

section \<open>The loops over the pairs\<close>

definition bail :: "prep_result \<Rightarrow> bool" where
  "bail r \<longleftrightarrow> r \<in> {TRIV_UNSAT, TRIV_SAT, PREP_ERROR}"

type_synonym 'a pair_step = "nat \<Rightarrow> nat \<Rightarrow> prep_result \<times> prep \<Rightarrow> 'a option"

text \<open>
  The loop over \<open>j\<close> and the one over \<open>x\<close>; \<open>ret\<close> is PREP_CHANGED after the first change, and the
  code of a rebuild that ends both loops.
\<close>

fun pair_row :: "(prep_result \<times> prep) pair_step \<Rightarrow> nat \<Rightarrow> nat list \<Rightarrow> prep_result \<times> prep \<Rightarrow> (prep_result \<times> prep) option" where
  "pair_row step x [] (ret, st) = Some (ret, st)"
| "pair_row step x (j # js) (ret, st) =
     (if fn_bdds st ! j = TrueP then pair_row step x js (ret, st)
      else do {
        (ret, st) \<leftarrow> step x j (ret, st);
        if bail ret then Some (ret, st) else pair_row step x js (ret, st) })"

fun pair_rows :: "repeat_kind \<Rightarrow> (prep_result \<times> prep) pair_step \<Rightarrow> nat list \<Rightarrow> prep_result \<times> prep \<Rightarrow>
    (prep_result \<times> prep) option" where
  "pair_rows k step [] (ret, st) = Some (ret, st)"
| "pair_rows k step (x # xs) (ret, st) =
     (let st = st\<lparr>repeats := (repeats st)(k := (repeats st k)(x := False))\<rparr> in
      if fn_bdds st ! x = TrueP then pair_rows k step xs (ret, st)
      else do {
        (ret, st) \<leftarrow> pair_row step x [x + 1..<length (fn_bdds st)] (ret, st);
        if bail ret then Some (ret, st) else pair_rows k step xs (ret, st) })"

definition within_limit :: "nat \<Rightarrow> prep \<Rightarrow> bool" where
  "within_limit x st \<longleftrightarrow> int (length (vars_in x st)) < functionTypeLimits st (functionType st x)"

definition apart :: "nat \<Rightarrow> nat \<Rightarrow> prep \<Rightarrow> bool" where
  "apart x j st \<longleftrightarrow> var_min st x \<ge> var_max st j \<or> var_min st j \<ge> var_max st x"

section \<open>Strengthening\<close>

definition strengthen :: "nat \<Rightarrow> nat \<Rightarrow> prep \<Rightarrow> (bdd \<times> prep) option" where
  "strengthen bddNmbr1 bddNmbr2 st =
     (let (quantifiedBDD2, s) = run_state
            (quantify_unshared (vars_in bddNmbr1 st) (vars_in bddNmbr2 st) (fn_bdds st ! bddNmbr2)) (bst st);
          st = st\<lparr>bst := s\<rparr>
      in do {
        st \<leftarrow> (if quantifiedBDD2 = fn_bdds st ! bddNmbr2 then do {
                 let st = st\<lparr>fn_bdds := (fn_bdds st)[bddNmbr2 := TrueP]\<rparr>;
                     OLD_DO_INFERENCES = DO_INFERENCES st
                 in do {
                   (_, st) \<leftarrow> Rebuild_BDDx bddNmbr2 (st\<lparr>DO_INFERENCES := False\<rparr>);
                   Some (st\<lparr>DO_INFERENCES := OLD_DO_INFERENCES\<rparr>) } }
               else Some st);
        let (r, s) = run_state (ite_lift (ite_and (fn_bdds st ! bddNmbr1) quantifiedBDD2)) (bst st) in
        Some (r, st\<lparr>bst := s\<rparr>) })"

definition st_half :: "(prep_result \<times> prep) pair_step" where
  "st_half x j = (\<lambda>(ret, st). do {
     (currentBDD, st) \<leftarrow> strengthen x j st;
     if currentBDD \<noteq> fn_bdds st ! x then do {
       (r, st) \<leftarrow> Rebuild_BDDx x (st\<lparr>fn_bdds := (fn_bdds st)[x := currentBDD]\<rparr>);
       Some (if bail r then r else PREP_CHANGED, st) }
     else Some (ret, st) })"

definition in_common :: "nat \<Rightarrow> nat \<Rightarrow> nat \<Rightarrow> prep \<Rightarrow> bool option" where
  "in_common STRENGTH x j st = nmbrVarsInCommon (vars_in x st) (vars_in j st) STRENGTH"

definition st_pair :: "nat \<Rightarrow> (nat \<Rightarrow> bool) \<Rightarrow> (prep_result \<times> prep) pair_step" where
  "st_pair STRENGTH repeat_small x j = (\<lambda>(ret, st).
     if \<not> repeat_small j \<and> \<not> repeat_small x \<or> apart x j st then Some (ret, st)
     else do {
       (go, did_vars_incommon, ret, st) \<leftarrow>
         (if within_limit x st then do {
            c \<leftarrow> in_common STRENGTH x j st;
            if \<not> c then Some (False, False, ret, st)
            else do { (ret, st) \<leftarrow> st_half x j (ret, st); Some (\<not> bail ret, True, ret, st) } }
          else Some (True, False, ret, st));
       if go \<and> within_limit j st then do {
         c \<leftarrow> (if did_vars_incommon then Some True else in_common STRENGTH x j st);
         if \<not> c then Some (ret, st) else st_half j x (ret, st) }
       else Some (ret, st) })"

definition Do_Strength :: "nat \<Rightarrow> prep \<Rightarrow> (prep_result \<times> prep) option" where
  "Do_Strength STRENGTH st =
     pair_rows St_repeat (st_pair STRENGTH (repeats st St_repeat)) [0..<length (fn_bdds st)] (PREP_NO_CHANGE, st)"

section \<open>Branch pruning\<close>

text \<open>The simplification \<open>op\<close> of each variant, on the whole state.\<close>

type_synonym pruner = "bdd \<Rightarrow> bdd \<Rightarrow> itetable \<Rightarrow> (bdd \<times> itetable) option"

definition pr_half :: "pruner \<Rightarrow> (prep_result \<times> prep) pair_step" where
  "pr_half op x j = (\<lambda>(ret, st). do {
     (currentBDD, T) \<leftarrow> op (fn_bdds st ! x) (fn_bdds st ! j) (itet (bst st));
     let st = st\<lparr>bst := (bst st)\<lparr>itet := T\<rparr>\<rparr> in
     if currentBDD \<noteq> fn_bdds st ! x then
       (let st = SetRepeats x st;
            st = st\<lparr>fn_bdds := (fn_bdds st)[x := currentBDD], functionType := (functionType st)(x := UNSURE)\<rparr>
        in do {
          (r, st) \<leftarrow> Rebuild_BDDx x st;
          Some (if bail r then r else PREP_CHANGED, st) })
     else Some (ret, st) })"

definition pr_pair :: "pruner \<Rightarrow> nat \<Rightarrow> (nat \<Rightarrow> bool) \<Rightarrow> (prep_result \<times> prep) pair_step" where
  "pr_pair op STRENGTH repeat_small x j = (\<lambda>(ret, st).
     if \<not> repeat_small j \<and> \<not> repeat_small x \<or> apart x j st then Some (ret, st)
     else do {
       c \<leftarrow> in_common STRENGTH x j st;
       if \<not> c then Some (ret, st)
       else do {
         (ret, st) \<leftarrow> (if within_limit x st then pr_half op x j (ret, st) else Some (ret, st));
         if \<not> bail ret \<and> within_limit j st then pr_half op j x (ret, st) else Some (ret, st) } })"

definition DO_PRUNING_FN :: "repeat_kind \<Rightarrow> pruner \<Rightarrow> nat \<Rightarrow> prep \<Rightarrow> (prep_result \<times> prep) option" where
  "DO_PRUNING_FN k op STRENGTH st =
     pair_rows k (pr_pair op STRENGTH (repeats st k)) [0..<length (fn_bdds st)] (PREP_NO_CHANGE, st)"

definition Do_Pruning_1 :: "nat \<Rightarrow> prep \<Rightarrow> (prep_result \<times> prep) option" where
  "Do_Pruning_1 = DO_PRUNING_FN P1_repeat (\<lambda>f c T. Some (pruning_p1 f c, T))"

definition Do_Pruning :: "nat \<Rightarrow> prep \<Rightarrow> (prep_result \<times> prep) option" where
  "Do_Pruning = DO_PRUNING_FN P2_repeat pruning"

definition Do_Pruning_2 :: "nat \<Rightarrow> prep \<Rightarrow> (prep_result \<times> prep) option" where
  "Do_Pruning_2 = DO_PRUNING_FN P2_repeat pruning_p2"

definition Do_Steal :: "nat \<Rightarrow> prep \<Rightarrow> (prep_result \<times> prep) option" where
  "Do_Steal STRENGTH st = DO_PRUNING_FN Steal_repeat (steal (equivalences_on st)) STRENGTH st"

section \<open>Function types\<close>

definition find_type :: "nat \<Rightarrow> prep \<Rightarrow> prep option" where
  "find_type i st =
     (if functionType st i = UNSURE then do {
        ((_, ty, equ, vars), s) \<leftarrow>
          findandset_fnType (functionTypeLimits st) (fn_bdds st ! i)
            (functionType st i, equalityVble st i, vars_in i st) (bst st);
        Some (st\<lparr>bst := s, functionType := (functionType st)(i := ty), equalityVble := (equalityVble st)(i := equ),
                 var_lists := (var_lists st)[i := map_option (\<lambda>_. vars) (var_lists st ! i)]\<rparr>) }
      else Some st)"

fun find_types :: "nat list \<Rightarrow> prep \<Rightarrow> prep option" where
  "find_types [] st = Some st"
| "find_types (i # is) st = do { st \<leftarrow> find_type i st; find_types is st }"

definition Do_Find_FunctionType :: "prep \<Rightarrow> (prep_result \<times> prep) option" where
  "Do_Find_FunctionType st = do { st \<leftarrow> find_types [0..<length (fn_bdds st)] st; Some (PREP_NO_CHANGE, st) }"

definition Do_Clear_FunctionType :: "prep \<Rightarrow> (prep_result \<times> prep) option" where
  "Do_Clear_FunctionType st =
     Some (PREP_NO_CHANGE, st\<lparr>functionType := (\<lambda>x. if x < length (fn_bdds st) then UNSURE else functionType st x),
                              equalityVble := (\<lambda>x. if x < length (fn_bdds st) then 0 else equalityVble st x)\<rparr>)"

section \<open>The contract of a step\<close>

text \<open>
  Every step ends; it keeps the invariant and the solutions, with every inference applied, or it
  finds that there is no solution, and leaves a state on which preprocessing can end.
\<close>

definition step_post :: "prep \<Rightarrow> (prep_result \<times> prep) option \<Rightarrow> bool" where
  "step_post st res \<longleftrightarrow> (\<exists>r st'. res = Some (r, st') \<and>
     (r \<in> {PREP_NO_CHANGE, PREP_CHANGED} \<and> settled st' \<and> onward st st' \<and> Sol 0 st' = Sol 0 st \<or>
      r = TRIV_UNSAT \<and> calm st' \<and> Sol 0 st = {}))"

lemma step_postI:
  "res = Some (r, st') \<Longrightarrow> r \<in> {PREP_NO_CHANGE, PREP_CHANGED} \<Longrightarrow> settled st' \<Longrightarrow> onward st st' \<Longrightarrow>
    Sol 0 st' = Sol 0 st \<Longrightarrow> step_post st res"
  "res = Some (TRIV_UNSAT, st') \<Longrightarrow> calm st' \<Longrightarrow> Sol 0 st = {} \<Longrightarrow> step_post st res"
  by (auto simp: step_post_def)

lemma step_post_from:
  assumes "onward st st1" "Sol 0 st1 = Sol 0 st" "step_post st1 res"
  shows "step_post st res"
proof -
  obtain r st' where r: "res = Some (r, st')"
      "r \<in> {PREP_NO_CHANGE, PREP_CHANGED} \<and> settled st' \<and> onward st1 st' \<and> Sol 0 st' = Sol 0 st1 \<or>
       r = TRIV_UNSAT \<and> calm st' \<and> Sol 0 st1 = {}"
    using assms(3) by (auto simp: step_post_def)
  then show ?thesis
    unfolding step_post_def using onward_trans [OF assms(1), of st'] assms(2) by auto
qed

lemma step_post_bind:
  assumes "step_post st m"
    and "\<And>r st'. r \<in> {PREP_NO_CHANGE, PREP_CHANGED} \<Longrightarrow> settled st' \<Longrightarrow> onward st st' \<Longrightarrow> step_post st' (k r st')"
  shows "step_post st (Option.bind m (\<lambda>(r, st). if bail r then Some (r, st) else k r st))"
proof -
  obtain r st' where r: "m = Some (r, st')"
      "r \<in> {PREP_NO_CHANGE, PREP_CHANGED} \<and> settled st' \<and> onward st st' \<and> Sol 0 st' = Sol 0 st \<or>
       r = TRIV_UNSAT \<and> calm st' \<and> Sol 0 st = {}"
    using assms(1) by (auto simp: step_post_def)
  show ?thesis
  proof (cases "r = TRIV_UNSAT")
    case True
    then show ?thesis using r by (auto simp: step_post_def bail_def)
  next
    case False
    then have s: "r \<in> {PREP_NO_CHANGE, PREP_CHANGED}" "settled st'" "onward st st'" "Sol 0 st' = Sol 0 st" using r(2) by auto
    have "\<not> bail r" using s(1) by (auto simp: bail_def)
    moreover have "step_post st (k r st')" by (rule step_post_from [OF s(3,4) assms(2) [OF s(1-3)]])
    ultimately show ?thesis using r(1) by simp
  qed
qed

lemma settled_core:
  assumes "settled st" "same_core st st'" "DO_INFERENCES st' = DO_INFERENCES st"
  shows "settled st'" "onward st st'" "Sol 0 st' = Sol 0 st"
  using assms same_coreD [OF assms(2)] by (auto simp: settled_def onward_def same_core_def same_frame_def)

lemma settled_bst:
  assumes "settled st" "st_ok s"
  shows "settled (st\<lparr>bst := s\<rparr>)" "onward st (st\<lparr>bst := s\<rparr>)" "Sol 0 (st\<lparr>bst := s\<rparr>) = Sol 0 st"
  using assms(1) bst_upd_ok(1) [OF assms(2)] bst_upd_ok(2) [OF assms(2)]
  by (auto simp: settled_def onward_def same_frame_def eliminated_def)

text \<open>Steps on a pair of functions, and the loops that run them.\<close>

locale sound_pair_step =
  fixes step :: "(prep_result \<times> prep) pair_step"
  assumes step_sound: "settled st \<Longrightarrow> x < length (fn_bdds st) \<Longrightarrow> j < length (fn_bdds st) \<Longrightarrow> x \<noteq> j \<Longrightarrow>
    r \<in> {PREP_NO_CHANGE, PREP_CHANGED} \<Longrightarrow> step_post st (step x j (r, st))"
begin

lemma pair_row_sound:
  "settled st \<Longrightarrow> x < length (fn_bdds st) \<Longrightarrow> \<forall>j \<in> set js. j < length (fn_bdds st) \<and> j \<noteq> x \<Longrightarrow>
    r \<in> {PREP_NO_CHANGE, PREP_CHANGED} \<Longrightarrow> step_post st (pair_row step x js (r, st))"
proof (induction js arbitrary: r st)
  case Nil
  then show ?case by (auto intro!: step_postI(1) simp: onward_refl)
next
  case (Cons j js)
  show ?case
  proof (cases "fn_bdds st ! j = TrueP")
    case True
    then show ?thesis using Cons by simp
  next
    case False
    have "step_post st (do { (r, st) \<leftarrow> step x j (r, st); if bail r then Some (r, st) else pair_row step x js (r, st) })"
    proof (rule step_post_bind)
      show "step_post st (step x j (r, st))" using step_sound Cons.prems by auto
      show "step_post st' (pair_row step x js (r', st'))"
        if "r' \<in> {PREP_NO_CHANGE, PREP_CHANGED}" "settled st'" "onward st st'" for r' st'
        using Cons.IH [OF that(2)] that Cons.prems(2,3) by (simp add: onward_def)
    qed
    then show ?thesis using False by simp
  qed
qed

lemma pair_rows_sound:
  "settled st \<Longrightarrow> \<forall>x \<in> set xs. x < length (fn_bdds st) \<Longrightarrow> r \<in> {PREP_NO_CHANGE, PREP_CHANGED} \<Longrightarrow>
    step_post st (pair_rows k step xs (r, st))"
proof (induction xs arbitrary: r st)
  case Nil
  then show ?case by (auto intro!: step_postI(1) simp: onward_refl)
next
  case (Cons x xs)
  define st1 where "st1 = st\<lparr>repeats := (repeats st)(k := (repeats st k)(x := False))\<rparr>"
  have c: "same_core st st1" "DO_INFERENCES st1 = DO_INFERENCES st"
    by (simp_all add: st1_def same_core_def limits_ok_def)
  note s1 = settled_core [OF Cons.prems(1) c]
  have len: "length (fn_bdds st1) = length (fn_bdds st)" using s1(2) by (simp add: onward_def)
  have "step_post st1 (if fn_bdds st1 ! x = TrueP then pair_rows k step xs (r, st1)
      else do {
        (r, st) \<leftarrow> pair_row step x [x + 1..<length (fn_bdds st1)] (r, st1);
        if bail r then Some (r, st) else pair_rows k step xs (r, st) })"
  proof (cases "fn_bdds st1 ! x = TrueP")
    case True
    then show ?thesis using Cons.IH [OF s1(1)] Cons.prems len by simp
  next
    case False
    have "step_post st1 (do {
        (r, st) \<leftarrow> pair_row step x [x + 1..<length (fn_bdds st1)] (r, st1);
        if bail r then Some (r, st) else pair_rows k step xs (r, st) })"
    proof (rule step_post_bind)
      show "step_post st1 (pair_row step x [x + 1..<length (fn_bdds st1)] (r, st1))"
        by (rule pair_row_sound) (use s1 len Cons.prems in auto)
      show "step_post st' (pair_rows k step xs (r', st'))"
        if "r' \<in> {PREP_NO_CHANGE, PREP_CHANGED}" "settled st'" "onward st1 st'" for r' st'
        using Cons.IH [OF that(2)] that len Cons.prems(2) by (simp add: onward_def)
    qed
    then show ?thesis using False by simp
  qed
  then have "step_post st (if fn_bdds st1 ! x = TrueP then pair_rows k step xs (r, st1)
      else do {
        (r, st) \<leftarrow> pair_row step x [x + 1..<length (fn_bdds st1)] (r, st1);
        if bail r then Some (r, st) else pair_rows k step xs (r, st) })"
    by (rule step_post_from [OF s1(2,3)])
  then show ?case unfolding pair_rows.simps Let_def st1_def .
qed

end

section \<open>Arrays in any order\<close>

text \<open>
  \<open>MinMaxBDD\<close> may leave an array descending, and then the merges that assume ascending arrays miss
  shared variables. They stay inside the arrays, and the projection only gets weaker.
\<close>

lemma exists_var_weaker:
  assumes "exists_var n f r"
  shows "robdd r" "bvars r \<subseteq> bvars f" "ev f a \<Longrightarrow> ev r a"
proof -
  have r: "is_node (variable f) (\<lambda>a. \<exists>b. ev f (a(n := b))) r" using assms by (simp add: exists_var_def)
  show "robdd r" using r by (simp add: is_node_def)
  have same: "(\<exists>b. ev f ((a(v := c))(n := b))) = (\<exists>b. ev f (a(n := b)))" if "v \<notin> bvars f" for v c a
  proof (cases "v = n")
    case False
    then have "(a(v := c))(n := b) = (a(n := b))(v := c)" for b by (rule fun_upd_twist)
    then show ?thesis using that by simp
  qed simp
  show "bvars r \<subseteq> bvars f" by (rule is_node_bvars [OF r]) (rule same)
  have "ev f (a(n := a n))" if "ev f a" using that by simp
  then show "ev f a \<Longrightarrow> ev r a" using r unfolding is_node_def by blast
qed

definition weaker :: "bdd \<Rightarrow> bdd \<Rightarrow> bool" where
  "weaker f q \<longleftrightarrow> robdd q \<and> bvars q \<subseteq> bvars f \<and> (\<forall>a. ev f a \<longrightarrow> ev q a)"

lemma weaker_trans: "weaker f q \<Longrightarrow> weaker q p \<Longrightarrow> weaker f p"
  by (auto simp: weaker_def)

lemma quantify_unshared_weaker:
  "robdd f \<Longrightarrow> 0 \<notin> set vs2 \<Longrightarrow> gives st_ok (quantify_unshared vs1 vs2 f) (weaker f)"
proof (induction vs1 vs2 f rule: quantify_unshared.induct)
  case (1 v1 vs1 v2 vs2 f)
  have "gives st_ok (do { q \<leftarrow> xquantify f v2; quantify_unshared (v1 # vs1) vs2 q }) (weaker f)"
    if "\<not> v1 < v2" "v1 \<noteq> v2"
  proof (rule gives_bind [OF xquantify_gives])
    fix q assume "exists_var v2 f q"
    then have q: "weaker f q" using exists_var_weaker by (auto simp: weaker_def)
    have "gives st_ok (quantify_unshared (v1 # vs1) vs2 q) (weaker q)"
      using "1.IH"(3) [OF that, of q] "1.prems"(2) q [unfolded weaker_def] by simp
    then show "gives st_ok (quantify_unshared (v1 # vs1) vs2 q) (weaker f)"
      by (rule gives_post) (rule weaker_trans [OF q])
  qed (use "1.prems" in auto)
  then show ?case using "1.IH"(1,2) "1.prems" by simp
next
  case (2 v2 vs2 f)
  show ?case
    unfolding quantify_unshared.simps
  proof (rule gives_bind [OF xquantify_gives])
    fix q assume "exists_var v2 f q"
    then have q: "weaker f q" using exists_var_weaker by (auto simp: weaker_def)
    have "gives st_ok (quantify_unshared [] vs2 q) (weaker q)"
      using "2.IH" [of q] "2.prems"(2) q [unfolded weaker_def] by simp
    then show "gives st_ok (quantify_unshared [] vs2 q) (weaker f)"
      by (rule gives_post) (rule weaker_trans [OF q])
  qed (use "2.prems" in auto)
qed (simp add: gives_return weaker_def)

lemma common_loop_inside:
  "k < n \<Longrightarrow> i < m1 \<Longrightarrow> j < m2 \<Longrightarrow> m1 + n = length xs + k + 1 \<Longrightarrow> m2 + n = length ys + k + 1 \<Longrightarrow>
    \<exists>b. common_loop xs ys i j k m1 m2 n = Some b"
proof (induction xs ys i j k m1 m2 n rule: common_loop.induct)
  case (1 xs ys i j k m1 m2 n)
  have ij: "i < length xs" "j < length ys" using "1.prems" by linarith+
  then have nn: "\<not> (length xs \<le> i \<or> length ys \<le> j)" by simp
  consider (lt) "xs ! i < ys ! j" | (gt) "\<not> xs ! i < ys ! j" "ys ! j < xs ! i" | (eq) "xs ! i = ys ! j" by linarith
  then show ?case
  proof cases
    case lt
    have "\<exists>b. common_loop xs ys (i + 1) j k m1 m2 n = Some b" if "i + 1 \<noteq> m1"
      using "1.IH"(1) [OF nn lt that] "1.prems" that by simp
    then show ?thesis using nn lt by (subst common_loop.simps) auto
  next
    case gt
    have "\<exists>b. common_loop xs ys i (j + 1) k m1 m2 n = Some b" if "j + 1 \<noteq> m2"
      using "1.IH"(2) [OF nn gt that] "1.prems" that by simp
    then show ?thesis using nn gt by (subst common_loop.simps) auto
  next
    case eq
    then have ne: "\<not> xs ! i < ys ! j" "\<not> ys ! j < xs ! i" by simp_all
    have "\<exists>b. common_loop xs ys (i + 1) (j + 1) (k + 1) (m1 + 1) (m2 + 1) n = Some b" if "k + 1 \<noteq> n"
      using "1.IH"(3) [OF nn ne that] "1.prems" that by simp
    then show ?thesis using nn ne by (subst common_loop.simps) auto
  qed
qed

lemma in_common_inside: "0 < n \<Longrightarrow> \<exists>b. in_common n x j st = Some b"
proof -
  assume n: "0 < n"
  let ?xs = "vars_in x st" and ?ys = "vars_in j st"
  show ?thesis
  proof (cases "length ?xs < n \<or> length ?ys < n")
    case True
    then show ?thesis by (auto simp: in_common_def nmbrVarsInCommon_def)
  next
    case False
    then show ?thesis
      using common_loop_inside [of 0 n 0 "length ?xs - n + 1" 0 "length ?ys - n + 1" ?xs ?ys] n
      by (simp add: in_common_def nmbrVarsInCommon_def)
  qed
qed

section \<open>Strengthening keeps the contract\<close>

lemma settled_facts:
  assumes "settled st" "x < length (fn_bdds st)"
  shows "st_ok (bst st)" "robdd (fn_bdds st ! x)"
    "\<forall>v \<in> bvars (fn_bdds st ! x). int v < no_inp_vars (classes st) \<and> v \<notin> eliminated st"
    "set (vars_in x st) = bvars (fn_bdds st ! x)" "0 \<notin> set (vars_in x st)" "distinct (vars_in x st)"
proof -
  have f: "fns_ok {} st" and l: "lists_ok {} st" using assms(1) by (simp_all add: settled_def prep_inv_def)
  show "st_ok (bst st)" "robdd (fn_bdds st ! x)"
      "\<forall>v \<in> bvars (fn_bdds st ! x). int v < no_inp_vars (classes st) \<and> v \<notin> eliminated st"
    using f assms(2) by (auto simp: fns_ok_def)
  show v: "set (vars_in x st) = bvars (fn_bdds st ! x)" "distinct (vars_in x st)"
    using l assms(2) by (simp_all add: lists_ok_def)
  show "0 \<notin> set (vars_in x st)" unfolding v using bvars_le_variable [of "fn_bdds st ! x" 0] f assms(2) by (auto simp: fns_ok_def)
qed

text \<open>Taking a function away, without applying inferences: there are none.\<close>

lemma Rebuild_true:
  assumes st: "settled st" and x: "x < length (fn_bdds st)"
  shows "\<exists>st'. Rebuild_BDDx x (st\<lparr>fn_bdds := (fn_bdds st)[x := TrueP], DO_INFERENCES := False\<rparr>) = Some (PREP_NO_CHANGE, st') \<and>
    settled (st'\<lparr>DO_INFERENCES := True\<rparr>) \<and> onward st (st'\<lparr>DO_INFERENCES := True\<rparr>) \<and>
    fn_bdds st' = (fn_bdds st)[x := TrueP] \<and> known st' = known st \<and> eliminated st' = eliminated st"
proof -
  let ?st = "st\<lparr>fn_bdds := (fn_bdds st)[x := TrueP], DO_INFERENCES := False\<rparr>"
  have inv: "prep_inv {} 0 st" "inferlist st = []" using st by (simp_all add: settled_def)
  have "same_core (st\<lparr>fn_bdds := (fn_bdds st)[x := TrueP]\<rparr>) ?st" by (simp add: same_core_def limits_ok_def)
  then have p: "prep_inv {x} 0 ?st"
    using assign_fn [OF inv(1) x, of TrueP] same_coreD(1) by simp
  have x': "x < length (fn_bdds ?st)" and f: "fn_bdds ?st ! x = TrueP" using x by simp_all
  obtain st' where st': "Rebuild_body x ?st = Some (PREP_NO_CHANGE, st')" "rebuilt x [] (classes st) ?st st'"
    using Rebuild_body_shape [OF p x', of "[]" "classes st"] f by auto
  have k: "prep_inv {} 0 st'" "kept ?st st'"
    using Rebuild_body_ok [OF p x'] st'(1) by auto
  have fr: "inferlist st' = []" "fn_bdds st' = (fn_bdds st)[x := TrueP]" "DO_INFERENCES st' = False"
      "true_false st' = true_false st" "equalvars st' = equalvars st"
    using st'(2) inv(2) by (simp_all add: rebuilt_def)
  have "Rebuild_BDDx x ?st = Some (PREP_NO_CHANGE, st')" using st'(1) fr(3) by (simp add: Rebuild_BDDx_def)
  moreover have "settled (st'\<lparr>DO_INFERENCES := True\<rparr>)" using k(1) fr(1) by (simp add: settled_def DO_INFERENCES_ok)
  moreover have "eliminated st' = eliminated st" "known st' = known st" using fr(4,5) by (simp_all add: eliminated_def known_def fun_eq_iff)
  moreover have "onward st (st'\<lparr>DO_INFERENCES := True\<rparr>)"
    using kept_onward [OF k(2)] by (simp add: onward_def DO_INFERENCES_ok eliminated_def)
  ultimately show ?thesis using fr(2) by blast
qed

text \<open>What \<open>strengthen\<close> hands to the caller, who puts \<open>g\<close> in place of function \<open>x\<close>.\<close>

definition strengthened :: "nat \<Rightarrow> prep \<Rightarrow> bdd \<Rightarrow> prep \<Rightarrow> bool" where
  "strengthened x st g st' \<longleftrightarrow> settled st' \<and> onward st st' \<and> robdd g \<and>
     (\<forall>v \<in> bvars g. int v < no_inp_vars (classes st') \<and> v \<notin> eliminated st') \<and>
     (\<forall>a. known st' a \<and> holds_all ((fn_bdds st')[x := g]) a \<longleftrightarrow> known st a \<and> holds_all (fn_bdds st) a)"

lemma strengthen_ok:
  assumes st: "settled st" and x: "x < length (fn_bdds st)" "j < length (fn_bdds st)" "x \<noteq> j"
  shows "\<exists>g st'. strengthen x j st = Some (g, st') \<and> strengthened x st g st'"
proof -
  let ?f = "fn_bdds st ! x" and ?c = "fn_bdds st ! j"
  note sx = settled_facts [OF st x(1)] and sj = settled_facts [OF st x(2)]
  obtain q s1 where q: "run_state (quantify_unshared (vars_in x st) (vars_in j st) ?c) (bst st) = (q, s1)"
      "weaker ?c q" "st_ok s1"
    using gives_run [OF quantify_unshared_weaker [OF sj(2,5), of "vars_in x st"] sx(1)] by (metis surj_pair)
  let ?st1 = "st\<lparr>bst := s1\<rparr>"
  note s1 = settled_bst [OF st q(3)]
  define st2 where "st2 = (if q = ?c then
    the (do { (_, st) \<leftarrow> Rebuild_BDDx j (?st1\<lparr>fn_bdds := (fn_bdds st)[j := TrueP], DO_INFERENCES := False\<rparr>);
              Some (st\<lparr>DO_INFERENCES := True\<rparr>) }) else ?st1)"
  have two: "(if q = ?c then do {
      (_, st) \<leftarrow> Rebuild_BDDx j (?st1\<lparr>fn_bdds := (fn_bdds st)[j := TrueP], DO_INFERENCES := False\<rparr>);
      Some (st\<lparr>DO_INFERENCES := True\<rparr>) } else Some ?st1) = Some st2"
    and st2: "settled st2" "onward st st2" "known st2 = known st" "eliminated st2 = eliminated st"
      "fn_bdds st2 = (if q = ?c then (fn_bdds st)[j := TrueP] else fn_bdds st)"
  proof -
    obtain st3 where st3: "Rebuild_BDDx j (?st1\<lparr>fn_bdds := (fn_bdds st)[j := TrueP], DO_INFERENCES := False\<rparr>) = Some (PREP_NO_CHANGE, st3)"
        "settled (st3\<lparr>DO_INFERENCES := True\<rparr>)" "onward ?st1 (st3\<lparr>DO_INFERENCES := True\<rparr>)"
        "fn_bdds st3 = (fn_bdds st)[j := TrueP]" "known st3 = known ?st1" "eliminated st3 = eliminated ?st1"
      using Rebuild_true [OF s1(1), of j] x(2) by auto
    show "(if q = ?c then do {
        (_, st) \<leftarrow> Rebuild_BDDx j (?st1\<lparr>fn_bdds := (fn_bdds st)[j := TrueP], DO_INFERENCES := False\<rparr>);
        Some (st\<lparr>DO_INFERENCES := True\<rparr>) } else Some ?st1) = Some st2"
      using st3(1) by (simp add: st2_def)
    have e: "st2 = (if q = ?c then st3\<lparr>DO_INFERENCES := True\<rparr> else ?st1)" using st3(1) by (simp add: st2_def)
    show "settled st2" "onward st st2" using st3(2,3) s1(1,2) onward_trans [OF s1(2)] by (simp_all add: e)
    show "known st2 = known st" "eliminated st2 = eliminated st"
      using st3(5,6) by (auto simp: e known_def eliminated_def fun_eq_iff)
    show "fn_bdds st2 = (if q = ?c then (fn_bdds st)[j := TrueP] else fn_bdds st)" using st3(4) by (simp add: e)
  qed
  have fx: "fn_bdds st2 ! x = ?f" using st2(5) x(3) by simp
  obtain g s3 where g: "run_state (ite_lift (ite_and ?f q)) (bst st2) = (g, s3)" by (metis surj_pair)
  define B where "B = max (variable ?f) (variable q)"
  have ig: "is_node B (\<lambda>a. ev ?f a \<and> ev q a) g" and s3: "st_ok s3"
  proof -
    have "gives cache_ok (ite_and ?f q) (is_node B (\<lambda>a. ev ?f a \<and> ev q a))"
      using ite_and_computes [OF sx(2), of q B] q(2) by (simp add: computes_gives B_def weaker_def)
    moreover have "st_ok (bst st2)" using settled_facts(1) [OF st2(1), of x] st2(5) x(1) by simp
    ultimately show "is_node B (\<lambda>a. ev ?f a \<and> ev q a) g" "st_ok s3"
      using gives_run [OF st_ite_lift _ g] by blast+
  qed
  let ?st3 = "st2\<lparr>bst := s3\<rparr>"
  note f3 = settled_bst [OF st2(1) s3]
  have run: "strengthen x j st = Some (g, ?st3)"
    using two g fx q(1) st by (simp add: strengthen_def Let_def settled_def cong: if_cong)
  have "bvars g \<subseteq> bvars ?f \<union> bvars q" by (rule is_node_bvars [OF ig]) simp
  then have "bvars g \<subseteq> bvars ?f \<union> bvars ?c" using q(2) by (auto simp: weaker_def)
  moreover have "no_inp_vars (classes st2) = no_inp_vars (classes st)" using st2(2) by (simp add: onward_def same_frame_def)
  ultimately have gv: "\<forall>v \<in> bvars g. int v < no_inp_vars (classes ?st3) \<and> v \<notin> eliminated ?st3"
    using sx(3) sj(3) st2(4) by (auto simp: eliminated_def)
  have eg: "ev g a \<longleftrightarrow> ev ?f a \<and> ev q a" for a using ig by (simp add: is_node_def)
  have "holds_all ((fn_bdds st2)[x := g]) a = holds_all (fn_bdds st) a" for a
  proof (cases "q = ?c")
    case True
    have "holds_all ((fn_bdds st2)[x := g]) a \<longleftrightarrow> ev g a \<and> (\<forall>i < length (fn_bdds st). i \<noteq> x \<longrightarrow> ev ((fn_bdds st)[j := TrueP] ! i) a)"
      using holds_all_update [of x "(fn_bdds st)[j := TrueP]" g a] x(1) True by (simp add: st2(5))
    also have "\<dots> \<longleftrightarrow> (\<forall>i < length (fn_bdds st). ev (fn_bdds st ! i) a)"
      using eg [of a] True x by (auto simp: nth_list_update)
    finally show ?thesis by (simp add: holds_all_def all_set_conv_all_nth)
  next
    case False
    have "ev ?c a \<Longrightarrow> ev q a" using q(2) by (simp add: weaker_def)
    then show ?thesis
      using holds_all_update [OF x(1), of g a] holds_all_split [OF x(1), of a] eg [of a] False x(2,3)
      by (auto simp: st2(5))
  qed
  then have "known ?st3 a \<and> holds_all ((fn_bdds ?st3)[x := g]) a \<longleftrightarrow> known st a \<and> holds_all (fn_bdds st) a" for a
    using fun_cong [OF st2(3), of a] by (simp add: known_def)
  then have "strengthened x st g ?st3"
    using f3 st2(2) onward_trans ig gv unfolding strengthened_def by (auto simp: is_node_def)
  then show ?thesis using run by blast
qed

text \<open>Replacing function \<open>x\<close> by one that keeps the solutions, and rebuilding.\<close>

lemma replace_step:
  assumes st: "settled st" and x: "x < length (fn_bdds st)" and g: "robdd g"
    and v: "\<forall>v \<in> bvars g. int v < no_inp_vars (classes st) \<and> v \<notin> eliminated st"
    and c: "same_core (st\<lparr>fn_bdds := (fn_bdds st)[x := g]\<rparr>) st1" "DO_INFERENCES st1"
    and S: "{a. known st a \<and> holds_all ((fn_bdds st)[x := g]) a} = S"
  shows "\<exists>r st'. (do { (r, st) \<leftarrow> Rebuild_BDDx x st1; Some (if bail r then r else PREP_CHANGED, st) }) = Some (r, st') \<and>
    (r = PREP_CHANGED \<and> settled st' \<and> onward st st' \<and> Sol 0 st' = S \<or>
     r = TRIV_UNSAT \<and> calm st' \<and> S = {})"
proof -
  obtain r st' where "Rebuild_BDDx x st1 = Some (r, st')"
      "r = PREP_NO_CHANGE \<and> settled st' \<and> onward st st' \<and> Sol 0 st' = S \<or>
       r = TRIV_UNSAT \<and> calm st' \<and> S = {}"
    using put_and_rebuild [OF st x g v c] unfolding S by blast
  then show ?thesis by (auto simp: bail_def)
qed

lemma st_half_sound:
  assumes st: "settled st" and x: "x < length (fn_bdds st)" "j < length (fn_bdds st)" "x \<noteq> j"
    and r: "r \<in> {PREP_NO_CHANGE, PREP_CHANGED}"
  shows "step_post st (st_half x j (r, st))"
proof -
  obtain g st1 where g: "strengthen x j st = Some (g, st1)" "strengthened x st g st1"
    using strengthen_ok [OF st x] by blast
  have s1: "settled st1" "onward st st1" "robdd g" "\<forall>v \<in> bvars g. int v < no_inp_vars (classes st1) \<and> v \<notin> eliminated st1"
      "\<And>a. known st1 a \<and> holds_all ((fn_bdds st1)[x := g]) a \<longleftrightarrow> known st a \<and> holds_all (fn_bdds st) a"
    using g(2) by (simp_all add: strengthened_def)
  have i: "inferlist st = []" "inferlist st1 = []" "DO_INFERENCES st1" using st s1(1) by (simp_all add: settled_def)
  have S: "{a. known st1 a \<and> holds_all ((fn_bdds st1)[x := g]) a} = Sol 0 st"
    unfolding s1(5) Sol_settled [OF i(1)] ..
  have x1: "x < length (fn_bdds st1)" using x(1) s1(2) by (simp add: onward_def)
  show ?thesis
  proof (cases "g = fn_bdds st1 ! x")
    case True
    then have "Sol 0 st1 = Sol 0 st" using S x1 unfolding Sol_settled [OF i(2)] by simp
    then show ?thesis using g(1) True r s1 by (intro step_postI(1) [of _ r st1]) (simp_all add: st_half_def)
  next
    case False
    let ?st1 = "st1\<lparr>fn_bdds := (fn_bdds st1)[x := g]\<rparr>"
    have "same_core ?st1 ?st1" "DO_INFERENCES ?st1" using i by (simp_all add: same_core_def)
    from replace_step [OF s1(1) x1 s1(3,4) this S] obtain r' st' where
      r': "(do { (r, st) \<leftarrow> Rebuild_BDDx x ?st1; Some (if bail r then r else PREP_CHANGED, st) }) = Some (r', st')"
        "r' = PREP_CHANGED \<and> settled st' \<and> onward st1 st' \<and> Sol 0 st' = Sol 0 st \<or>
         r' = TRIV_UNSAT \<and> calm st' \<and> Sol 0 st = {}"
      by blast
    have "st_half x j (r, st) = Some (r', st')" using g(1) False r'(1) by (simp add: st_half_def)
    then show ?thesis using r'(2) onward_trans [OF s1(2)] by (auto simp: step_post_def)
  qed
qed

lemma step_post_same: "settled st \<Longrightarrow> r \<in> {PREP_NO_CHANGE, PREP_CHANGED} \<Longrightarrow> step_post st (Some (r, st))"
  by (auto simp: step_post_def onward_refl)

lemma not_bail: "r \<in> {PREP_NO_CHANGE, PREP_CHANGED} \<Longrightarrow> \<not> bail r" and bail_unsat: "bail TRIV_UNSAT"
  by (auto simp: bail_def)

text \<open>Two halves one after the other, the second for the states that a test \<open>t\<close> lets through.\<close>

lemma two_halves:
  assumes first: "step_post st (Some (r, st1))"
    and second: "\<And>r. settled st1 \<Longrightarrow> onward st st1 \<Longrightarrow> r \<in> {PREP_NO_CHANGE, PREP_CHANGED} \<Longrightarrow> step_post st1 (k r)"
  shows "step_post st (if \<not> bail r \<and> t then k r else Some (r, st1))"
proof (cases "\<not> bail r \<and> t")
  case True
  then have s: "r \<in> {PREP_NO_CHANGE, PREP_CHANGED}" "settled st1" "onward st st1" "Sol 0 st1 = Sol 0 st"
    using first by (auto simp: step_post_def bail_def)
  then show ?thesis using step_post_from [OF s(3,4) second [OF s(2,3,1)]] True by simp
qed (use first in auto)

lemma step_post_Some: "step_post st m \<Longrightarrow> \<exists>r st'. m = Some (r, st')"
  by (auto simp: step_post_def)

interpretation strength: sound_pair_step "st_pair (Suc n) repeat_small" for n repeat_small
proof
  fix st x j r
  assume st: "settled st" and x: "x < length (fn_bdds st)" "j < length (fn_bdds st)" "x \<noteq> j"
    and r: "r \<in> {PREP_NO_CHANGE, PREP_CHANGED}"
  have inside: "\<exists>b. in_common (Suc n) x j st = Some b" for st by (rule in_common_inside) simp
  obtain b where b: "in_common (Suc n) x j st = Some b" using inside by blast
  obtain r1 st1 where h: "st_half x j (r, st) = Some (r1, st1)"
    using step_post_Some [OF st_half_sound [OF st x r]] by blast
  have post1: "step_post st (Some (r1, st1))" using st_half_sound [OF st x r] h by simp
  have second: "step_post st' (st_half j x (r', st'))"
    if "settled st'" "onward st st'" "r' \<in> {PREP_NO_CHANGE, PREP_CHANGED}" for r' st'
    by (rule st_half_sound) (use that x in \<open>simp_all add: onward_def\<close>)
  have same: "step_post st (Some (r, st))" by (rule step_post_same [OF st r])
  show "step_post st (st_pair (Suc n) repeat_small x j (r, st))"
  proof (cases "\<not> repeat_small j \<and> \<not> repeat_small x \<or> apart x j st")
    case True
    then show ?thesis using same by (simp add: st_pair_def)
  next
    case go: False
    show ?thesis
    proof (cases "within_limit x st \<and> b")
      case True
      then have "st_pair (Suc n) repeat_small x j (r, st) =
          (if \<not> bail r1 \<and> within_limit j st1 then st_half j x (r1, st1) else Some (r1, st1))"
        unfolding st_pair_def prod.case if_not_P [OF go] using b h by simp
      then show ?thesis using two_halves [OF post1, of "\<lambda>r. st_half j x (r, st1)"] second by simp
    next
      case no: False
      then have "st_pair (Suc n) repeat_small x j (r, st) =
          (if \<not> within_limit x st \<and> within_limit j st \<and> b then st_half j x (r, st) else Some (r, st))"
        unfolding st_pair_def prod.case if_not_P [OF go] using b by auto
      then show ?thesis using second [OF st onward_refl r] same by simp
    qed
  qed
qed

section \<open>Pruning keeps the contract\<close>

text \<open>A simplification that may change a function only where the care function is false.\<close>

locale care_pruner =
  fixes op :: pruner
  assumes op_agree: "robdd f \<Longrightarrow> robdd c \<Longrightarrow> ogives cache_ok (op f c) (agree (bvars f \<union> bvars c) c f)"
begin

lemma pr_half_sound:
  assumes st: "settled st" and x: "x < length (fn_bdds st)" "j < length (fn_bdds st)" "x \<noteq> j"
    and r: "r \<in> {PREP_NO_CHANGE, PREP_CHANGED}"
  shows "step_post st (pr_half op x j (r, st))"
proof -
  let ?f = "fn_bdds st ! x" and ?c = "fn_bdds st ! j"
  note sx = settled_facts [OF st x(1)] and sj = settled_facts [OF st x(2)]
  obtain g T where g: "op ?f ?c (itet (bst st)) = Some (g, T)" "agree (bvars ?f \<union> bvars ?c) ?c ?f g" "cache_ok T"
    using ogives_run [OF op_agree [OF sx(2) sj(2)], of "itet (bst st)"] sx(1) by (auto simp: st_ok_def)
  define st1 where "st1 = st\<lparr>bst := (bst st)\<lparr>itet := T\<rparr>\<rparr>"
  have "st_ok ((bst st)\<lparr>itet := T\<rparr>)" using sx(1) g(3) by (simp add: st_ok_def)
  note s1 = settled_bst [OF st this, folded st1_def]
  have fr: "fn_bdds st1 = fn_bdds st" "known st1 = known st" by (simp_all add: st1_def known_def fun_eq_iff)
  have i: "inferlist st = []" "DO_INFERENCES st" using st by (simp_all add: settled_def)
  have "no_inp_vars (classes st1) = no_inp_vars (classes st)" "eliminated st1 = eliminated st"
    by (simp_all add: st1_def eliminated_def)
  then have gv: "\<forall>v \<in> bvars g. int v < no_inp_vars (classes st1) \<and> v \<notin> eliminated st1"
    using g(2) sx(3) sj(3) by (auto simp: agree_def)
  have "ev g a = ev ?f a" if "ev ?c a" for a using g(2) that by (simp add: agree_def)
  then have "holds_all ((fn_bdds st)[x := g]) a = holds_all (fn_bdds st) a" for a
    using holds_all_update [OF x(1), of g a] holds_all_split [OF x(1), of a] x(2,3) by auto
  then have S: "{a. known st1 a \<and> holds_all ((fn_bdds st1)[x := g]) a} = Sol 0 st"
    unfolding fr Sol_settled [OF i(1)] by simp
  show ?thesis
  proof (cases "g = ?f")
    case True
    then show ?thesis using g(1) s1 r by (intro step_postI(1) [of _ r st1]) (simp_all add: pr_half_def st1_def)
  next
    case False
    let ?st2 = "(SetRepeats x st1)\<lparr>fn_bdds := (fn_bdds st1)[x := g], functionType := (functionType st1)(x := UNSURE)\<rparr>"
    have c: "same_core (st1\<lparr>fn_bdds := (fn_bdds st1)[x := g]\<rparr>) ?st2" "DO_INFERENCES ?st2"
      using i(2) by (simp_all add: same_core_def SetRepeats_def limits_ok_def st1_def)
    have x1: "x < length (fn_bdds st1)" using x(1) fr(1) by simp
    have rg: "robdd g" using g(2) by (simp add: agree_def)
    from replace_step [OF s1(1) x1 rg gv c S] obtain r' st' where
      r': "(do { (r, st) \<leftarrow> Rebuild_BDDx x ?st2; Some (if bail r then r else PREP_CHANGED, st) }) = Some (r', st')"
        "r' = PREP_CHANGED \<and> settled st' \<and> onward st1 st' \<and> Sol 0 st' = Sol 0 st \<or>
         r' = TRIV_UNSAT \<and> calm st' \<and> Sol 0 st = {}"
      by blast
    have "pr_half op x j (r, st) = Some (r', st')"
      using g(1) False r'(1) by (simp add: pr_half_def st1_def SetRepeats_def Let_def)
    then show ?thesis using r'(2) onward_trans [OF s1(2)] by (auto simp: step_post_def)
  qed
qed

end

sublocale care_pruner \<subseteq> sound_pair_step "pr_pair op (Suc n) repeat_small" for n repeat_small
proof
  fix st x j r
  assume st: "settled st" and x: "x < length (fn_bdds st)" "j < length (fn_bdds st)" "x \<noteq> j"
    and r: "r \<in> {PREP_NO_CHANGE, PREP_CHANGED}"
  obtain b where b: "in_common (Suc n) x j st = Some b" using in_common_inside [of "Suc n"] by blast
  have same: "step_post st (Some (r, st))" by (rule step_post_same [OF st r])
  show "step_post st (pr_pair op (Suc n) repeat_small x j (r, st))"
  proof (cases "(\<not> repeat_small j \<and> \<not> repeat_small x \<or> apart x j st) \<or> \<not> b")
    case True
    then show ?thesis using same b by (auto simp: pr_pair_def)
  next
    case False
    then have go: "\<not> (\<not> repeat_small j \<and> \<not> repeat_small x \<or> apart x j st)" and c: "b" by auto
    have "step_post st (if within_limit x st then pr_half op x j (r, st) else Some (r, st))"
      using pr_half_sound [OF st x r] same by simp
    then obtain r1 st1 where h: "(if within_limit x st then pr_half op x j (r, st) else Some (r, st)) = Some (r1, st1)"
        "step_post st (Some (r1, st1))"
      using step_post_Some by metis
    have "step_post st1 (pr_half op j x (r', st1))"
      if "settled st1" "onward st st1" "r' \<in> {PREP_NO_CHANGE, PREP_CHANGED}" for r'
      by (rule pr_half_sound) (use that x in \<open>simp_all add: onward_def\<close>)
    from two_halves [OF h(2), of "\<lambda>r. pr_half op j x (r, st1)" "within_limit j st1", OF this]
    show ?thesis unfolding pr_pair_def prod.case if_not_P [OF go] using b c h(1) by simp
  qed
qed

lemma pruner_agree:
  assumes "ogives cache_ok m (agree (bvars f) c f)"
  shows "ogives cache_ok m (agree (bvars f \<union> bvars c) c f)"
  by (rule ogives_post [OF assms]) (auto simp: agree_def)

interpretation p1: care_pruner "\<lambda>f c T. Some (pruning_p1 f c, T)"
proof
  fix f c
  assume "robdd f" "robdd c"
  then show "ogives cache_ok (\<lambda>T. Some (pruning_p1 f c, T)) (agree (bvars f \<union> bvars c) c f)"
    by (intro pruner_agree ret_agree pruning_p1_agree)
qed

interpretation pr: care_pruner pruning
  by unfold_locales (intro pruner_agree pruning_agree)

interpretation p2: care_pruner pruning_p2
  by unfold_locales (intro pruner_agree pruning_p2_agree)

interpretation steal: care_pruner "steal d" for d
  by unfold_locales (rule steal_agree)

lemma Do_Strength_sound:
  assumes "settled st" "0 < n"
  shows "step_post st (Do_Strength n st)"
proof -
  obtain m where n: "n = Suc m" using assms(2) by (cases n) auto
  show ?thesis
    unfolding Do_Strength_def n by (rule strength.pair_rows_sound [OF assms(1)]) auto
qed

lemma DO_PRUNING_FN_sound:
  assumes "settled st" "0 < n"
  shows "step_post st (Do_Pruning_1 n st)" "step_post st (Do_Pruning n st)" "step_post st (Do_Pruning_2 n st)"
    "step_post st (Do_Steal n st)"
proof -
  obtain m where n: "n = Suc m" using assms(2) by (cases n) auto
  have xs: "\<forall>x \<in> set [0..<length (fn_bdds st)]. x < length (fn_bdds st)" and r: "PREP_NO_CHANGE \<in> {PREP_NO_CHANGE, PREP_CHANGED}"
    by auto
  show "step_post st (Do_Pruning_1 n st)"
    unfolding Do_Pruning_1_def DO_PRUNING_FN_def n by (rule p1.pair_rows_sound [OF assms(1) xs r])
  show "step_post st (Do_Pruning n st)"
    unfolding Do_Pruning_def DO_PRUNING_FN_def n by (rule pr.pair_rows_sound [OF assms(1) xs r])
  show "step_post st (Do_Pruning_2 n st)"
    unfolding Do_Pruning_2_def DO_PRUNING_FN_def n by (rule p2.pair_rows_sound [OF assms(1) xs r])
  show "step_post st (Do_Steal n st)"
    unfolding Do_Steal_def DO_PRUNING_FN_def n by (rule steal.pair_rows_sound [OF assms(1) xs r])
qed

section \<open>The steps on function types\<close>

lemma var_lists_ok:
  fixes st :: prep and ty :: "nat \<Rightarrow> fn_type" and equ :: "nat \<Rightarrow> int"
  assumes st: "settled st" and x: "x < length (fn_bdds st)"
    and ws: "distinct ws" "set ws = set (vars_in x st)" and s: "st_ok s"
  defines "st' \<equiv> st\<lparr>bst := s, functionType := ty, equalityVble := equ,
    var_lists := (var_lists st)[x := map_option (\<lambda>_. ws) (var_lists st ! x)]\<rparr>"
  shows "settled st'" "onward st st'" "Sol 0 st' = Sol 0 st"
proof -
  have l: "lists_ok {} st" and i: "infs_ok 0 st" and f: "fns_ok {} st" using st by (auto simp: settled_def prep_inv_def)
  have len: "length (var_lists st) = length (fn_bdds st)" using l by (simp add: lists_ok_def)
  have v: "set (vars_in y st') = set (vars_in y st)" "distinct (vars_in y st) \<Longrightarrow> distinct (vars_in y st')" for y
    using ws x len unfolding st'_def vars_in_def by (cases "y = x"; cases "var_lists st ! x"; simp)+
  have same: "known st' = known st" "pending c st' = pending c st" "eliminated st' = eliminated st"
      "classes st' = classes st" "fn_bdds st' = fn_bdds st" "amount st' = amount st" "counted st' = counted st"
      "true_false st' = true_false st" "inferlist st' = inferlist st" "equivalences_on st' = equivalences_on st"
      "limits_ok st' = limits_ok st" "length (var_lists st') = length (var_lists st)" "bst st' = s"
      "DO_INFERENCES st' = DO_INFERENCES st" for c
    using l x unfolding st'_def known_def pending_def eliminated_def counted_def limits_ok_def fun_eq_iff by simp_all
  have "lists_ok {} st'" using l v unfolding lists_ok_def same by simp
  moreover have "infs_ok 0 st'" using i unfolding infs_ok_def Let_def same .
  moreover have "fns_ok {} st'" using f s unfolding fns_ok_def same by simp
  ultimately show "settled st'" using st by (simp add: settled_def prep_inv_def same)
  show "onward st st'" by (simp add: onward_def same same_frame_def)
  show "Sol 0 st' = Sol 0 st" unfolding Sol_def same ..
qed

lemma settled_limits: "settled st \<Longrightarrow> limits_ok st"
  by (simp add: settled_def prep_inv_def fns_ok_def)

definition typed :: "prep \<Rightarrow> prep \<Rightarrow> bool" where
  "typed st st' \<longleftrightarrow> settled st' \<and> onward st st' \<and> Sol 0 st' = Sol 0 st \<and> fn_bdds st' = fn_bdds st"

lemma find_type_sound:
  assumes st: "settled st" and i: "i < length (fn_bdds st)"
  shows "\<exists>st'. find_type i st = Some st' \<and> typed st st' \<and> type_ok (functionType st' i) (equalityVble st' i) (fn_bdds st ! i) (bvars (fn_bdds st ! i))
    \<or> functionType st i \<noteq> UNSURE \<and> find_type i st = Some st"
proof (cases "functionType st i = UNSURE")
  case True
  let ?f = "fn_bdds st ! i"
  note s = settled_facts [OF st i]
  have "\<exists>r ty equ ws s'. findandset_fnType (functionTypeLimits st) ?f (UNSURE, equalityVble st i, vars_in i st) (bst st) =
      Some ((r, ty, equ, ws), s') \<and> st_ok s' \<and> distinct ws \<and> set ws = set (vars_in i st) \<and> type_ok ty equ ?f (bvars ?f)"
  proof (cases "IS_TRUE_FALSE ?f")
    case const: True
    then have v: "vars_in i st = []" using s(4) by (auto simp: IS_TRUE_FALSE_def)
    have "findandset_fnType (functionTypeLimits st) ?f (UNSURE, equalityVble st i, []) (bst st) =
        Some ((False, UNSURE, equalityVble st i, []), bst st)"
      using settled_limits [OF st] by (simp add: findandset_fnType_def limits_ok_def not_le [symmetric])
    then show ?thesis using v s(1) by auto
  next
    case False
    then show ?thesis
      using findandset_fnType_ok [OF s(2) s(6) s(5) _ s(1), of "functionTypeLimits st" UNSURE "equalityVble st i"] s(4,6)
      by (auto simp: sorted_or_same_def)
  qed
  then obtain r ty equ ws s' where r: "findandset_fnType (functionTypeLimits st) ?f (UNSURE, equalityVble st i, vars_in i st) (bst st) =
      Some ((r, ty, equ, ws), s')" "st_ok s'" "distinct ws" "set ws = set (vars_in i st)" "type_ok ty equ ?f (bvars ?f)"
    by blast
  let ?st = "st\<lparr>bst := s', functionType := (functionType st)(i := ty), equalityVble := (equalityVble st)(i := equ),
    var_lists := (var_lists st)[i := map_option (\<lambda>_. ws) (var_lists st ! i)]\<rparr>"
  have "find_type i st = Some ?st" using True r(1) by (simp add: find_type_def)
  moreover have "typed st ?st"
    unfolding typed_def using var_lists_ok [OF st i r(3,4,2)] by simp
  ultimately show ?thesis using r(5) by auto
qed (simp add: find_type_def)

lemma find_types_sound:
  "settled st \<Longrightarrow> \<forall>i \<in> set is. i < length (fn_bdds st) \<Longrightarrow>
    \<exists>st'. find_types is st = Some st' \<and> typed st st'"
proof (induction "is" arbitrary: st)
  case Nil
  then show ?case by (simp add: typed_def onward_refl)
next
  case (Cons i "is")
  have i: "i < length (fn_bdds st)" using Cons.prems(2) by simp
  obtain st1 where st1: "find_type i st = Some st1" "typed st st1"
    using find_type_sound [OF Cons.prems(1) i] Cons.prems(1) by (auto simp: typed_def onward_refl)
  then have "\<exists>st'. find_types is st1 = Some st' \<and> typed st1 st'"
    using Cons.IH [of st1] Cons.prems(2) by (simp add: typed_def)
  then obtain st' where "find_types is st1 = Some st'" "typed st1 st'" by blast
  moreover have "typed st st'" using st1(2) calculation(2) onward_trans unfolding typed_def by auto
  ultimately show ?case using st1(1) by auto
qed

lemma Do_Find_FunctionType_sound:
  "settled st \<Longrightarrow> step_post st (Do_Find_FunctionType st)"
  using find_types_sound [of st "[0..<length (fn_bdds st)]"]
  by (auto simp: Do_Find_FunctionType_def typed_def intro!: step_postI(1))

lemma Do_Clear_FunctionType_sound: "settled st \<Longrightarrow> step_post st (Do_Clear_FunctionType st)"
  unfolding Do_Clear_FunctionType_def
  by (rule step_postI(1) [OF refl]; (rule settled_core)?) (simp_all add: same_core_def limits_ok_def)

end
