(* ===== verification/Prepseq.thy ===== *)
theory Prepseq
  imports Prepsteps "HOL-Library.Sublist"
begin

text \<open>
  The interpreter of the preprocessing sequence (preproc/preprocess.cc): the table of steps, the
  string of their names with the groups \<open>[..]\<close> and the cycles \<open>{..}n\<close>, and \<open>Preprocessor\<close>. The
  pointer into the string is the rest of the string; \<open>None\<close> is a failed assertion, an overflow of
  the loop limit, or a read behind the end of the string.
\<close>

section \<open>The table of steps\<close>

datatype switch =
  DO_CALC | DO_STRENGTH | DO_SAFE_ASSIGN | DO_SAFE_SEARCH | DO_PRUNING | DO_COFACTOR
  | DO_EXIST_QUANTIFY | DO_EXIST_QUANTIFY_AND | DO_EX_SAFE_CLUSTER | DO_POSSIBLE_ANDING
  | DO_DEP_CLUSTER | DO_SPLIT | DO_REWIND | DO_CLEAR_FUNCTION_TYPE | DO_FIND_FUNCTION_TYPE
  | DO_PROVER3 | DO_IDENTIFY_SAME_STRUCTURE | DO_EXTEND_RES | DO_DIAMETER | DO_MESSAGE_PASSING

type_synonym prep_step = "prep \<Rightarrow> (prep_result \<times> prep) option"

record preproc_type =
  step_id :: string
  step_fn :: prep_step
  step_enable :: switch

definition Do_Calc :: prep_step where
  "Do_Calc st = Some (PREP_NO_CHANGE, st)"

text \<open>\<open>other\<close> stands for the steps of other files, by their names in the table.\<close>

definition preproc :: "nat \<Rightarrow> (string \<Rightarrow> prep_step) \<Rightarrow> preproc_type list" where
  "preproc STRENGTH other = map (\<lambda>(i, f, e). \<lparr>step_id = i, step_fn = f, step_enable = e\<rparr>)
    [(''Calc'', Do_Calc, DO_CALC),
     (''St'', Do_Strength STRENGTH, DO_STRENGTH),
     (''Sa'', other ''Sa'', DO_SAFE_ASSIGN),
     (''Ss'', other ''Ss'', DO_SAFE_SEARCH),
     (''Pr'', Do_Pruning STRENGTH, DO_PRUNING),
     (''P1'', Do_Pruning_1 STRENGTH, DO_PRUNING),
     (''P2'', Do_Pruning_2 STRENGTH, DO_PRUNING),
     (''Sl'', Do_Steal STRENGTH, DO_PRUNING),
     (''PR'', other ''PR'', DO_PRUNING),
     (''Co'', other ''Co'', DO_COFACTOR),
     (''Ex'', other ''Ex'', DO_EXIST_QUANTIFY),
     (''Ea'', other ''Ea'', DO_EXIST_QUANTIFY_AND),
     (''Es'', other ''Es'', DO_EX_SAFE_CLUSTER),
     (''Pa'', other ''Pa'', DO_POSSIBLE_ANDING),
     (''Dc'', other ''Dc'', DO_DEP_CLUSTER),
     (''Sp'', other ''Sp'', DO_SPLIT),
     (''Rw'', other ''Rw'', DO_REWIND),
     (''Cf'', Do_Clear_FunctionType, DO_CLEAR_FUNCTION_TYPE),
     (''Ff'', Do_Find_FunctionType, DO_FIND_FUNCTION_TYPE),
     (''P3'', other ''P3'', DO_PROVER3),
     (''Is'', other ''Is'', DO_IDENTIFY_SAME_STRUCTURE),
     (''Er'', other ''Er'', DO_EXTEND_RES),
     (''Di'', other ''Di'', DO_DIAMETER),
     (''Mp'', other ''Mp'', DO_MESSAGE_PASSING)]"

text \<open>
  The state of a run: the state of preprocessing, the switches, and how often the clock has been
  read; \<open>late k\<close> says whether reading \<open>k\<close> finds that \<open>max_preproc_time\<close> has passed.
\<close>

record run =
  prep_st :: prep
  enabled :: "switch \<Rightarrow> int"
  readings :: nat

definition check_time :: "(nat \<Rightarrow> bool) \<Rightarrow> run \<Rightarrow> run" where
  "check_time late s =
     (let n = readings s; s = s\<lparr>readings := n + 1\<rparr> in
      if late n then s\<lparr>enabled := (enabled s)(DO_STRENGTH := 0, DO_PRUNING := 0, DO_DEP_CLUSTER := 0)\<rparr>
      else s)"

section \<open>The interpreter\<close>

definition isdigit :: "char \<Rightarrow> bool" where
  "isdigit c \<longleftrightarrow> c \<in> set ''0123456789''"

definition digit_val :: "char \<Rightarrow> nat" where
  "digit_val c = of_char c - of_char (CHR ''0'')"

abbreviation "INT_MAX \<equiv> 2147483647 :: nat"

fun read_limit :: "nat \<Rightarrow> string \<Rightarrow> (nat \<times> string) option" where
  "read_limit limit [] = Some (limit, [])"
| "read_limit limit (c # p) =
     (if isdigit c then
        (let limit = limit * 10 + digit_val c in if limit > INT_MAX then None else read_limit limit p)
      else Some (limit, c # p))"

definition loop_limit :: "string \<Rightarrow> (nat \<times> string) option" where
  "loop_limit p =
     (case p of
        c # q \<Rightarrow> if c = CHR ''*'' then Some (INT_MAX, q) else if isdigit c then read_limit 0 p else Some (INT_MAX, p)
      | [] \<Rightarrow> Some (INT_MAX, p))"

definition skip_limit :: "string \<Rightarrow> string" where
  "skip_limit p = (case p of c # q \<Rightarrow> if c = CHR ''*'' then q else dropWhile isdigit p | [] \<Rightarrow> p)"

abbreviation next_is :: "char \<Rightarrow> string \<Rightarrow> bool" where
  "next_is c p \<equiv> p \<noteq> [] \<and> hd p = c"

text \<open>The loop over the arguments of a step, which moves on by two characters in each round.\<close>

fun skip_args :: "string \<Rightarrow> string option" where
  "skip_args [] = Some []"
| "skip_args [c] = (if c = CHR '')'' then Some [c] else None)"
| "skip_args (c # d # p) =
     (if c = CHR '')'' then Some (c # d # p)
      else if d \<in> {CHR ''{'', CHR ''}'', CHR ''(''} then Some (d # p)
      else skip_args p)"

text \<open>
  The functions below take \<open>parse_seq\<close> as an argument. A cycle reads its body once without running
  it, to find the limit, then runs it until nothing changes or the limit is reached.
\<close>

type_synonym interp = "bool \<Rightarrow> string \<Rightarrow> run \<Rightarrow> (prep_result \<times> string \<times> run) option"

function cycle_loop :: "(run \<Rightarrow> (prep_result \<times> 'p \<times> run) option) \<Rightarrow> nat \<Rightarrow> nat \<Rightarrow> run \<Rightarrow> (prep_result \<times> nat \<times> 'p \<times> run) option" where
  "cycle_loop body limit loop_counter s = do {
     (ret, p, s) \<leftarrow> body s;
     let loop_counter = loop_counter + 1 in
     if loop_counter < limit \<and> ret = PREP_CHANGED then cycle_loop body limit loop_counter s
     else Some (ret, loop_counter, p, s) }"
  by pat_completeness auto
termination by (relation "measure (\<lambda>(_, limit, n, _). limit - n)") auto

declare cycle_loop.simps [simp del]

definition parse_cycle :: "interp \<Rightarrow> interp" where
  "parse_cycle seq parse_only start s = do {
     (ret, p, s) \<leftarrow> seq True start s;
     (ret, loop_counter, over, p, s) \<leftarrow>
       (if parse_only then Some (ret, 0, False, p, s)
        else if \<not> next_is (CHR ''}'') p then Some (PREP_ERROR, 0, True, p, s)
        else do {
          (limit, p) \<leftarrow> loop_limit (tl p);
          if limit = 0 then Some (PREP_NO_CHANGE, 0, True, p, s)
          else do {
            (ret, n, p, s) \<leftarrow> cycle_loop (seq False start) limit 0 s;
            Some (ret, n, bail ret, p, s) } });
     if over then Some (ret, p, s)
     else if \<not> next_is (CHR ''}'') p then Some (PREP_ERROR, p, s)
     else Some (if ret = PREP_NO_CHANGE \<and> loop_counter > 1 then PREP_CHANGED else ret, skip_limit (tl p), s) }"

definition parse_group :: "interp \<Rightarrow> interp" where
  "parse_group seq parse_only p s = do {
     (r, p, s) \<leftarrow> seq parse_only p s;
     if r \<notin> {PREP_CHANGED, PREP_NO_CHANGE} then Some (r, p, s)
     else if \<not> next_is (CHR '']'') p then None
     else (let p = tl p in
       if p \<noteq> [] \<and> isdigit (hd p) then Some (if hd p = CHR ''0'' then PREP_NO_CHANGE else PREP_CHANGED, tl p, s)
       else Some (r, p, s)) }"

text \<open>
  A step of the table; its argument \<open>fn_param\<close>, which none of the modelled steps reads, is left out.
\<close>

definition run_step :: "preproc_type \<Rightarrow> bool \<Rightarrow> run \<Rightarrow> (prep_result \<times> run) option" where
  "run_step row parse_only s =
     (if \<not> parse_only \<and> enabled s (step_enable row) = 1 then do {
        (r, st) \<leftarrow> step_fn row (prep_st s);
        Some (r, s\<lparr>prep_st := run_gc st\<rparr>) }
      else Some (PREP_NO_CHANGE, s))"

definition parse_step :: "preproc_type list \<Rightarrow> bool \<Rightarrow> string \<Rightarrow> run \<Rightarrow> (prep_result option \<times> string \<times> run) option" where
  "parse_step rows parse_only p s =
     (case find (\<lambda>row. prefix (step_id row) p) rows of
        None \<Rightarrow> Some (None, p, s)
      | Some row \<Rightarrow> do {
          let p = drop (length (step_id row)) p;
          (failed, p) \<leftarrow> (if next_is (CHR ''('') p then do {
              p \<leftarrow> skip_args p;
              Some (if next_is (CHR '')'') p then (False, tl p) else (True, p)) }
            else Some (False, p));
          if failed then Some (Some PREP_ERROR, p, s)
          else do {
            (r, s) \<leftarrow> run_step row parse_only s;
            Some (Some r, p, s) } })"

definition parse_item :: "preproc_type list \<Rightarrow> interp \<Rightarrow> bool \<Rightarrow> string \<Rightarrow> run \<Rightarrow> (prep_result option \<times> string \<times> run) option" where
  "parse_item rows seq parse_only p s =
     (if hd p = CHR ''{'' then map_option (\<lambda>(r, q). (Some r, q)) (parse_cycle seq parse_only (tl p) s)
      else if hd p = CHR ''['' then map_option (\<lambda>(r, q). (Some r, q)) (parse_group seq parse_only (tl p) s)
      else parse_step rows parse_only p s)"

text \<open>
  \<open>parse_seq\<close>, with its variable \<open>ret\<close> as an argument. Every call is for a shorter rest of the
  string, so that its length bounds the fuel.
\<close>

fun parse_seq :: "preproc_type list \<Rightarrow> (nat \<Rightarrow> bool) \<Rightarrow> nat \<Rightarrow> prep_result \<Rightarrow> interp" where
  "parse_seq rows late 0 ret parse_only p s = None"
| "parse_seq rows late (Suc n) ret parse_only p s =
     (let s = check_time late s in
      if p = [] \<or> hd p = CHR '']'' \<or> hd p = CHR ''}'' then Some (ret, p, s)
      else do {
        (r, p, s) \<leftarrow> parse_item rows (parse_seq rows late n PREP_NO_CHANGE) parse_only p s;
        case r of
          None \<Rightarrow> Some (ret, p, s)
        | Some r \<Rightarrow>
            if bail r then Some (r, p, s)
            else parse_seq rows late n (if r = PREP_CHANGED then PREP_CHANGED else ret) parse_only p s })"

definition Preprocessor :: "preproc_type list \<Rightarrow> (nat \<Rightarrow> bool) \<Rightarrow> string \<Rightarrow> run \<Rightarrow> (prep_result \<times> run) option" where
  "Preprocessor rows late preproc_string s = do {
     (ret, st) \<leftarrow> (if DO_INFERENCES (prep_st s) then Do_Apply_Inferences (prep_st s) else Some (PREP_NO_CHANGE, prep_st s));
     let s = s\<lparr>prep_st := st\<rparr> in
     if bail ret then Some (ret, s)
     else do {
       (ret, _, s) \<leftarrow> parse_seq rows late (length preproc_string + 1) PREP_NO_CHANGE False preproc_string s;
       Some (ret, s) } }"
section \<open>Strategies\<close>

text \<open>
  What the strings mean: a strategy is a sequence of steps, groups, with a digit that overrides the
  result, and cycles, with a limit. \<open>render\<close> writes it down, \<open>eval\<close> runs it; a cycle first goes over
  its body without running it, which only reads the clock.
\<close>

datatype limit = Unlimited | Star | Times string

datatype strategy = Step string | Group "strategy list" "char option" | Cycle "strategy list" limit

fun render_limit :: "limit \<Rightarrow> string" where
  "render_limit Unlimited = []"
| "render_limit Star = ''*''"
| "render_limit (Times ds) = ds"

fun render :: "strategy \<Rightarrow> string" where
  "render (Step i) = i"
| "render (Group ss d) = CHR ''['' # concat (map render ss) @ CHR '']'' # (case d of None \<Rightarrow> [] | Some c \<Rightarrow> [c])"
| "render (Cycle ss l) = CHR ''{'' # concat (map render ss) @ CHR ''}'' # render_limit l"

abbreviation render_all :: "strategy list \<Rightarrow> string" where
  "render_all ss \<equiv> concat (map render ss)"

definition limit_val :: "limit \<Rightarrow> nat" where
  "limit_val l = (case l of Times ds \<Rightarrow> (case read_limit 0 ds of Some (k, _) \<Rightarrow> k | None \<Rightarrow> 0) | _ \<Rightarrow> INT_MAX)"

fun wf_limit :: "limit \<Rightarrow> bool" where
  "wf_limit (Times ds) \<longleftrightarrow> ds \<noteq> [] \<and> (\<forall>c \<in> set ds. isdigit c) \<and> read_limit 0 ds \<noteq> None"
| "wf_limit _ \<longleftrightarrow> True"

fun wf_strategy :: "preproc_type list \<Rightarrow> strategy \<Rightarrow> bool" where
  "wf_strategy rows (Step i) \<longleftrightarrow> (\<exists>row \<in> set rows. step_id row = i)"
| "wf_strategy rows (Group ss d) \<longleftrightarrow> (\<forall>s \<in> set ss. wf_strategy rows s) \<and> (case d of None \<Rightarrow> True | Some c \<Rightarrow> isdigit c)"
| "wf_strategy rows (Cycle ss l) \<longleftrightarrow> (\<forall>s \<in> set ss. wf_strategy rows s) \<and> wf_limit l"

fun repeat_until :: "(run \<Rightarrow> (prep_result \<times> run) option) \<Rightarrow> nat \<Rightarrow> run \<Rightarrow> (prep_result \<times> nat \<times> run) option" where
  "repeat_until body 0 s = None"
| "repeat_until body (Suc k) s = do {
     (r, s) \<leftarrow> body s;
     if r = PREP_CHANGED \<and> 0 < k then map_option (\<lambda>(r, n, s). (r, n + 1, s)) (repeat_until body k s)
     else Some (r, 1, s) }"

fun eval :: "preproc_type list \<Rightarrow> (nat \<Rightarrow> bool) \<Rightarrow> bool \<Rightarrow> strategy \<Rightarrow> run \<Rightarrow> (prep_result \<times> run) option"
and eval_all :: "preproc_type list \<Rightarrow> (nat \<Rightarrow> bool) \<Rightarrow> bool \<Rightarrow> prep_result \<Rightarrow> strategy list \<Rightarrow> run \<Rightarrow> (prep_result \<times> run) option" where
  "eval rows late scan (Step i) s =
     (case find (\<lambda>row. step_id row = i) rows of None \<Rightarrow> None | Some row \<Rightarrow> run_step row scan s)"
| "eval rows late scan (Group ss d) s = do {
     (r, s) \<leftarrow> eval_all rows late scan PREP_NO_CHANGE ss s;
     Some (if bail r then r
           else case d of None \<Rightarrow> r | Some c \<Rightarrow> if c = CHR ''0'' then PREP_NO_CHANGE else PREP_CHANGED, s) }"
| "eval rows late scan (Cycle ss l) s = do {
     (r, s) \<leftarrow> eval_all rows late True PREP_NO_CHANGE ss s;
     if scan then Some (r, s)
     else if limit_val l = 0 then Some (PREP_NO_CHANGE, s)
     else do {
       (r, n, s) \<leftarrow> repeat_until (eval_all rows late False PREP_NO_CHANGE ss) (limit_val l) s;
       Some (if r = PREP_NO_CHANGE \<and> n > 1 then PREP_CHANGED else r, s) } }"
| "eval_all rows late scan ret [] s = Some (ret, check_time late s)"
| "eval_all rows late scan ret (x # xs) s = do {
     (r, s) \<leftarrow> eval rows late scan x (check_time late s);
     if bail r then Some (r, s)
     else eval_all rows late scan (if r = PREP_CHANGED then PREP_CHANGED else ret) xs s }"

section \<open>The interpreter runs strategies\<close>

definition table_ok :: "preproc_type list \<Rightarrow> bool" where
  "table_ok rows \<longleftrightarrow>
     (\<forall>r \<in> set rows. step_id r \<noteq> [] \<and> hd (step_id r) \<notin> set ''{}[](*0123456789'') \<and>
     (\<forall>r \<in> set rows. \<forall>q \<in> set rows. prefix (step_id r) (step_id q) \<longrightarrow> step_id r = step_id q)"

definition free :: "string \<Rightarrow> bool" where
  "free p \<longleftrightarrow> p = [] \<or> hd p \<notin> set ''(*0123456789''"

lemma preproc_table_ok: "table_ok (preproc n other)"
  unfolding table_ok_def preproc_def by simp

lemma find_prefix:
  assumes "table_ok rows" "\<exists>row \<in> set rows. step_id row = i"
  shows "find (\<lambda>row. prefix (step_id row) (i @ rest)) rows = find (\<lambda>row. step_id row = i) rows"
proof -
  have "prefix (step_id row) (i @ rest) \<longleftrightarrow> step_id row = i" if "row \<in> set rows" for row
  proof
    assume p: "prefix (step_id row) (i @ rest)"
    have "prefix i (i @ rest)" by simp
    from prefix_same_cases [OF p this] show "step_id row = i"
      using assms that unfolding table_ok_def by metis
  qed auto
  then show ?thesis by (intro find_cong refl)
qed

lemma render_start:
  assumes "table_ok rows" "wf_strategy rows s"
  shows "render s \<noteq> [] \<and> hd (render s) \<notin> set ''}](*0123456789''"
  using assms by (cases s) (auto simp: table_ok_def)

lemma free_render_all:
  assumes "table_ok rows" "\<forall>s \<in> set ss. wf_strategy rows s" "free rest"
  shows "free (render_all ss @ rest)"
  using assms render_start by (cases ss) (fastforce simp: free_def)+
lemma read_limit_append:
  "\<forall>c \<in> set ds. isdigit c \<Longrightarrow> q = [] \<or> \<not> isdigit (hd q) \<Longrightarrow>
    read_limit k (ds @ q) = map_option (\<lambda>(n, _). (n, q)) (read_limit k ds)"
proof (induction ds arbitrary: k)
  case Nil
  then show ?case by (cases q) auto
qed (auto simp: Let_def)

lemma free_no_digit: "free q \<Longrightarrow> q = [] \<or> \<not> isdigit (hd q)"
  by (auto simp: free_def isdigit_def)

lemma limit_render:
  assumes "wf_limit l" "free q"
  shows "loop_limit (render_limit l @ q) = Some (limit_val l, q)" "skip_limit (render_limit l @ q) = q"
proof -
  have d: "\<not> isdigit (CHR ''*'')" by (simp add: isdigit_def)
  show "loop_limit (render_limit l @ q) = Some (limit_val l, q)"
  proof (cases l)
    case (Times ds)
    then obtain c cs where ds: "ds = c # cs" "isdigit c" "\<forall>c \<in> set ds. isdigit c"
      using assms(1) by (cases ds) auto
    moreover obtain k r where "read_limit 0 ds = Some (k, r)" using Times assms(1) by auto
    ultimately show ?thesis
      using Times d read_limit_append [OF ds(3) free_no_digit [OF assms(2)], of 0]
      by (auto simp: loop_limit_def limit_val_def)
  qed (use assms(2) free_no_digit [OF assms(2)] in \<open>cases q; auto simp: loop_limit_def limit_val_def free_def\<close>)+
  show "skip_limit (render_limit l @ q) = q"
  proof (cases l)
    case (Times ds)
    have "dropWhile isdigit (ds @ q) = q"
      using assms(1) Times free_no_digit [OF assms(2)] by (cases q) (auto simp: dropWhile_append2 dropWhile_append3)
    moreover obtain c cs where ds: "ds = c # cs" "isdigit c" using Times assms(1) by (cases ds) auto
    ultimately show ?thesis using Times d by (auto simp: skip_limit_def)
  qed (use assms(2) free_no_digit [OF assms(2)] in \<open>cases q; auto simp: skip_limit_def free_def\<close>)+
qed

definition agrees :: "'p \<Rightarrow> (prep_result \<times> 'p \<times> run) option \<Rightarrow> (prep_result \<times> run) option \<Rightarrow> bool" where
  "agrees rest m e \<longleftrightarrow>
     (case e of None \<Rightarrow> m = None | Some (r, s) \<Rightarrow> \<exists>p. m = Some (r, p, s) \<and> (bail r \<or> p = rest))"

lemma cycle_loop_agrees:
  assumes "\<And>s. agrees rest (body s) (run1 s)" "n < limit"
  shows "case repeat_until run1 (limit - n) s of
      None \<Rightarrow> cycle_loop body limit n s = None
    | Some (r, m, s') \<Rightarrow> \<exists>p. cycle_loop body limit n s = Some (r, n + m, p, s') \<and> (bail r \<or> p = rest)"
  using assms(2)
proof (induction "limit - n" arbitrary: n s)
  case (Suc k)
  then have k: "limit - n = Suc k" "k = limit - Suc n" by auto
  note step = cycle_loop.simps [of body limit n s] assms(1) [of s, unfolded agrees_def]
  show ?case
  proof (cases "run1 s")
    case None
    then show ?thesis using step k(1) by simp
  next
    case (Some a)
    then obtain r s' where e: "run1 s = Some (r, s')" by (cases a) auto
    then obtain p where b: "body s = Some (r, p, s')" "bail r \<or> p = rest" using step(2) by auto
    show ?thesis
    proof (cases "r = PREP_CHANGED \<and> 0 < k")
      case True
      then have "Suc n < limit" using k by auto
      from Suc.hyps(1) [OF k(2) this, of s'] show ?thesis
        using True b e k step(1) by (fastforce split: option.splits prod.splits)
    next
      case False
      then have "\<not> (Suc n < limit \<and> r = PREP_CHANGED)" using k by auto
      then show ?thesis using False b e k(1) step(1) by auto
    qed
  qed
qed simp

text \<open>Going over a strategy without running it always succeeds.\<close>

abbreviation goes_on :: "prep_result \<Rightarrow> bool" where
  "goes_on r \<equiv> r \<in> {PREP_NO_CHANGE, PREP_CHANGED}"

lemma not_bail_iff: "\<not> bail r \<longleftrightarrow> goes_on r"
  by (cases r) (auto simp: bail_def)

lemma scan_all:
  assumes "\<And>x s. x \<in> set ss \<Longrightarrow> \<exists>r s'. eval rows late True x s = Some (r, s') \<and> goes_on r"
  shows "goes_on ret \<Longrightarrow> \<exists>r s'. eval_all rows late True ret ss s = Some (r, s') \<and> goes_on r"
  using assms
proof (induction ss arbitrary: ret s)
  case (Cons x ss)
  obtain r s' where x: "eval rows late True x (check_time late s) = Some (r, s')" "goes_on r"
    using Cons.prems(2) [of x "check_time late s"] by auto
  have "goes_on (if r = PREP_CHANGED then PREP_CHANGED else ret)" using Cons.prems(1) by auto
  from Cons.IH [OF this, of s'] Cons.prems(2) show ?case using x not_bail [OF x(2)] by auto
qed simp

lemma scan_ok:
  "wf_strategy rows x \<Longrightarrow> \<exists>r s'. eval rows late True x s = Some (r, s') \<and> goes_on r"
proof (induction x arbitrary: s)
  case (Step i)
  then obtain row where "find (\<lambda>row. step_id row = i) rows = Some row"
    by (metis (mono_tags, lifting) find_None_iff option.exhaust wf_strategy.simps(1))
  then show ?case by (simp add: run_step_def)
next
  case (Group ss d)
  then obtain r s' where "eval_all rows late True PREP_NO_CHANGE ss s = Some (r, s')" "goes_on r"
    using scan_all [of ss rows late PREP_NO_CHANGE s] by auto
  then show ?case by (auto split: option.splits)
next
  case (Cycle ss l)
  then obtain r s' where "eval_all rows late True PREP_NO_CHANGE ss s = Some (r, s')" "goes_on r"
    using scan_all [of ss rows late PREP_NO_CHANGE s] by auto
  then show ?case by auto
qed

definition agrees_item :: "string \<Rightarrow> (prep_result option \<times> string \<times> run) option \<Rightarrow> (prep_result \<times> run) option \<Rightarrow> bool" where
  "agrees_item rest m e \<longleftrightarrow>
     (case e of None \<Rightarrow> m = None | Some (r, s) \<Rightarrow> \<exists>p. m = Some (Some r, p, s) \<and> (bail r \<or> p = rest))"

lemma agrees_itemI: "agrees rest m e \<Longrightarrow> agrees_item rest (map_option (\<lambda>(r, q). (Some r, q)) m) e"
  by (auto simp: agrees_def agrees_item_def split: option.splits)

definition stop :: "string \<Rightarrow> bool" where
  "stop p \<longleftrightarrow> p = [] \<or> hd p = CHR '']'' \<or> hd p = CHR ''}''"

lemma stop_free: "stop p \<Longrightarrow> free p"
  by (auto simp: stop_def free_def)

lemma parse_seq_agrees:
  assumes "table_ok rows" "\<forall>x \<in> set ss. wf_strategy rows x" "stop rest" "length (render_all ss @ rest) < n"
    and "\<And>x q m s. x \<in> set ss \<Longrightarrow> free q \<Longrightarrow> length (render x @ q) \<le> m \<Longrightarrow>
      agrees_item q (parse_item rows (parse_seq rows late m PREP_NO_CHANGE) po (render x @ q) s) (eval rows late po x s)"
  shows "agrees rest (parse_seq rows late n ret po (render_all ss @ rest) s) (eval_all rows late po ret ss s)"
  using assms(2,4,5)
proof (induction ss arbitrary: n ret s)
  case Nil
  then obtain m where "n = Suc m" by (cases n) auto
  then show ?case using assms(3) by (auto simp: agrees_def stop_def)
next
  case (Cons x ss)
  let ?q = "render_all ss @ rest"
  obtain m where m: "n = Suc m" using Cons.prems(2) by (cases n) auto
  have wf: "wf_strategy rows x" and fr: "free ?q"
    using Cons.prems(1) free_render_all [OF assms(1) _ stop_free [OF assms(3)]] by auto
  have hd: "\<not> (render x @ ?q = [] \<or> hd (render x @ ?q) = CHR '']'' \<or> hd (render x @ ?q) = CHR ''}'')"
    using render_start [OF assms(1) wf] by auto
  have item: "agrees_item ?q (parse_item rows (parse_seq rows late m PREP_NO_CHANGE) po (render x @ ?q) (check_time late s))
      (eval rows late po x (check_time late s))"
    using Cons.prems(2) m fr by (intro Cons.prems(3)) auto
  have len: "length ?q < m" using render_start [OF assms(1) wf] Cons.prems(2) m by (cases "render x") auto
  have ih: "agrees rest (parse_seq rows late m ret' po ?q s') (eval_all rows late po ret' ss s')" for ret' s'
    by (rule Cons.IH [OF _ len]) (use Cons.prems(1,3) in auto)
  show ?case
  proof (cases "eval rows late po x (check_time late s)")
    case None
    then show ?thesis using item hd m by (simp add: agrees_item_def agrees_def Let_def)
  next
    case (Some a)
    then obtain r s' where e: "eval rows late po x (check_time late s) = Some (r, s')" by (cases a) auto
    then obtain p where p: "parse_item rows (parse_seq rows late m PREP_NO_CHANGE) po (render x @ ?q) (check_time late s) =
        Some (Some r, p, s')" "bail r \<or> p = ?q"
      using item by (auto simp: agrees_item_def)
    show ?thesis
    proof (cases "bail r")
      case True
      then show ?thesis using e p hd m by (auto simp: agrees_def Let_def)
    next
      case False
      then show ?thesis using e p hd m ih by (auto simp: Let_def)
    qed
  qed
qed

lemma parse_group_agrees:
  assumes "agrees (CHR '']'' # (case d of None \<Rightarrow> [] | Some c \<Rightarrow> [c]) @ q) (seq po p s) (eval_all rows late po PREP_NO_CHANGE ss s)"
    and "free q" "case d of None \<Rightarrow> True | Some c \<Rightarrow> isdigit c"
  shows "agrees q (parse_group seq po p s) (eval rows late po (Group ss d) s)"
proof (cases "eval_all rows late po PREP_NO_CHANGE ss s")
  case None
  then show ?thesis using assms(1) by (simp add: agrees_def parse_group_def)
next
  case (Some a)
  then obtain r s' where e: "eval_all rows late po PREP_NO_CHANGE ss s = Some (r, s')" by (cases a) auto
  then obtain p' where p: "seq po p s = Some (r, p', s')"
      "bail r \<or> p' = CHR '']'' # (case d of None \<Rightarrow> [] | Some c \<Rightarrow> [c]) @ q"
    using assms(1) by (auto simp: agrees_def)
  show ?thesis
  proof (cases "bail r")
    case True
    then have "r \<notin> {PREP_CHANGED, PREP_NO_CHANGE}" by (auto simp: bail_def)
    then show ?thesis using True e p by (simp add: agrees_def parse_group_def)
  next
    case False
    then have r: "r \<in> {PREP_CHANGED, PREP_NO_CHANGE}" by (auto simp: not_bail_iff)
    have p': "p' = CHR '']'' # (case d of None \<Rightarrow> [] | Some c \<Rightarrow> [c]) @ q" using False p(2) by simp
    show ?thesis
      using free_no_digit [OF assms(2)] assms(3) False e
      unfolding agrees_def parse_group_def p(1) p'
      by (cases d) (use r in \<open>auto simp: Let_def\<close>)
  qed
qed

lemma parse_step_agrees:
  assumes "table_ok rows" "\<exists>row \<in> set rows. step_id row = i" "free q"
  shows "agrees_item q (parse_step rows po (i @ q) s) (eval rows late po (Step i) s)"
proof -
  obtain row where row: "find (\<lambda>row. step_id row = i) rows = Some row"
    using assms(2) by (metis (mono_tags, lifting) find_None_iff option.exhaust)
  then have i: "step_id row = i" by (auto simp: find_Some_iff)
  have "\<not> next_is (CHR ''('') q" using assms(3) by (auto simp: free_def)
  then show ?thesis
    using find_prefix [OF assms(1,2), of q] row i
    by (auto simp: parse_step_def agrees_item_def Let_def split: option.splits)
qed

lemma parse_cycle_agrees:
  assumes seq: "\<And>po s. agrees (CHR ''}'' # render_limit l @ q) (seq po start s) (eval_all rows late po PREP_NO_CHANGE ss s)"
    and wf: "\<forall>x \<in> set ss. wf_strategy rows x" "wf_limit l" "free q"
  shows "agrees q (parse_cycle seq po start s) (eval rows late po (Cycle ss l) s)"
proof -
  let ?p = "CHR ''}'' # render_limit l @ q"
  note lim = limit_render [OF wf(2,3)]
  obtain r s1 where e: "eval_all rows late True PREP_NO_CHANGE ss s = Some (r, s1)" "goes_on r"
    using scan_all [of ss rows late PREP_NO_CHANGE s] scan_ok wf(1) by auto
  have p: "seq True start s = Some (r, ?p, s1)"
    using seq [of True s] e not_bail [OF e(2)] by (auto simp: agrees_def)
  show ?thesis
  proof (cases po)
    case True
    then show ?thesis using e p lim(2) by (auto simp: agrees_def parse_cycle_def)
  next
    case po: False
    show ?thesis
    proof (cases "limit_val l = 0")
      case True
      then show ?thesis using po e p lim(1) by (auto simp: agrees_def parse_cycle_def)
    next
      case False
      have c: "case repeat_until (eval_all rows late False PREP_NO_CHANGE ss) (limit_val l) s1 of
          None \<Rightarrow> cycle_loop (seq False start) (limit_val l) 0 s1 = None
        | Some (r, m, s') \<Rightarrow> \<exists>p. cycle_loop (seq False start) (limit_val l) 0 s1 = Some (r, m, p, s') \<and> (bail r \<or> p = ?p)"
        using cycle_loop_agrees [of ?p "seq False start" "eval_all rows late False PREP_NO_CHANGE ss" 0 "limit_val l" s1, OF seq]
          False unfolding add_0 diff_zero neq0_conv .
      show ?thesis
      proof (cases "repeat_until (eval_all rows late False PREP_NO_CHANGE ss) (limit_val l) s1")
        case None
        then show ?thesis using c po False e p lim by (simp add: agrees_def parse_cycle_def)
      next
        case (Some a)
        obtain r' m s' where a: "a = (r', m, s')" by (cases a) auto
        then obtain p' where p': "cycle_loop (seq False start) (limit_val l) 0 s1 = Some (r', m, p', s')" "bail r' \<or> p' = ?p"
          using c Some by auto
        have nb: "bail r' \<Longrightarrow> r' \<noteq> PREP_NO_CHANGE" by (auto simp: bail_def)
        show ?thesis
          using po False e p lim p' Some a nb
          by (cases "bail r'") (auto simp: agrees_def parse_cycle_def not_bail_iff)
      qed
    qed
  qed
qed

lemma parse_item_agrees:
  assumes "table_ok rows"
  shows "wf_strategy rows x \<Longrightarrow> free q \<Longrightarrow> length (render x @ q) \<le> m \<Longrightarrow>
    agrees_item q (parse_item rows (parse_seq rows late m PREP_NO_CHANGE) po (render x @ q) s) (eval rows late po x s)"
proof (induction x arbitrary: q m po s)
  case (Step i)
  then have "hd (i @ q) \<noteq> CHR ''{''" "hd (i @ q) \<noteq> CHR ''[''" using assms by (auto simp: table_ok_def)
  then show ?case using parse_step_agrees [OF assms, of i q] Step by (simp add: parse_item_def)
next
  case (Group ss d)
  let ?r = "CHR '']'' # (case d of None \<Rightarrow> [] | Some c \<Rightarrow> [c]) @ q"
  have "agrees ?r (parse_seq rows late m PREP_NO_CHANGE po (render_all ss @ ?r) s) (eval_all rows late po PREP_NO_CHANGE ss s)"
    by (rule parse_seq_agrees [OF assms])
      (use Group in \<open>auto simp: stop_def split: option.splits\<close>)
  then have "agrees q (parse_group (parse_seq rows late m PREP_NO_CHANGE) po (render_all ss @ ?r) s) (eval rows late po (Group ss d) s)"
    by (rule parse_group_agrees) (use Group.prems in auto)
  then show ?case using agrees_itemI by (fastforce simp: parse_item_def)
next
  case (Cycle ss l)
  let ?r = "CHR ''}'' # render_limit l @ q"
  have "agrees ?r (parse_seq rows late m PREP_NO_CHANGE po (render_all ss @ ?r) s) (eval_all rows late po PREP_NO_CHANGE ss s)" for po s
    by (rule parse_seq_agrees [OF assms]) (use Cycle in \<open>auto simp: stop_def\<close>)
  then have "agrees q (parse_cycle (parse_seq rows late m PREP_NO_CHANGE) po (render_all ss @ ?r) s) (eval rows late po (Cycle ss l) s)"
    by (rule parse_cycle_agrees) (use Cycle.prems in auto)
  then show ?case using agrees_itemI by (fastforce simp: parse_item_def)
qed

lemma agrees_result: "agrees rest m e \<Longrightarrow> do { (r, _, s) \<leftarrow> m; Some (r, s) } = e"
  by (auto simp: agrees_def split: option.splits)

text \<open>The whole string: the fuel of \<open>Preprocessor\<close> is enough, and the result is that of the strategy.\<close>

lemma Preprocessor_eval:
  assumes "table_ok rows" "\<forall>x \<in> set ss. wf_strategy rows x"
  shows "Preprocessor rows late (render_all ss) s = do {
     (ret, st) \<leftarrow> (if DO_INFERENCES (prep_st s) then Do_Apply_Inferences (prep_st s) else Some (PREP_NO_CHANGE, prep_st s));
     let s = s\<lparr>prep_st := st\<rparr> in
     if bail ret then Some (ret, s) else eval_all rows late False PREP_NO_CHANGE ss s }"
proof -
  have "agrees [] (parse_seq rows late (length (render_all ss) + 1) PREP_NO_CHANGE False (render_all ss @ []) s')
      (eval_all rows late False PREP_NO_CHANGE ss s')" for s'
    by (rule parse_seq_agrees [OF assms]) (use parse_item_agrees [OF assms(1)] assms(2) in \<open>auto simp: stop_def\<close>)
  then have "do { (ret, _, s) \<leftarrow> parse_seq rows late (length (render_all ss) + 1) PREP_NO_CHANGE False (render_all ss) s'; Some (ret, s) } =
      eval_all rows late False PREP_NO_CHANGE ss s'" for s'
    unfolding append_Nil2 by (rule agrees_result)
  then show ?thesis unfolding Preprocessor_def by (simp only:)
qed

section \<open>Sequences of sound steps\<close>

text \<open>
  The contract of a table whose steps keep \<open>ok\<close> and relate the states by \<open>same\<close>, or find that a
  state is \<open>unsat\<close>, as far as their names are in \<open>names\<close>; every strategy over these names does the
  same, whatever the switches and the clock.
\<close>

fun steps_of :: "strategy \<Rightarrow> string set" where
  "steps_of (Step i) = {i}"
| "steps_of (Group ss d) = (\<Union>x \<in> set ss. steps_of x)"
| "steps_of (Cycle ss l) = (\<Union>x \<in> set ss. steps_of x)"

locale sound_steps =
  fixes rows :: "preproc_type list" and names :: "string set"
    and ok :: "prep \<Rightarrow> bool" and same :: "prep \<Rightarrow> prep \<Rightarrow> bool" and unsat :: "prep \<Rightarrow> bool"
    and halt :: "prep \<Rightarrow> bool"
  assumes same_refl: "same st st"
    and same_trans: "same st st' \<Longrightarrow> same st' st'' \<Longrightarrow> same st st''"
    and unsat_back: "same st st' \<Longrightarrow> unsat st' \<Longrightarrow> unsat st"
    and gc_halt: "halt st \<Longrightarrow> halt (run_gc st)"
    and gc_keeps: "ok st \<Longrightarrow> ok (run_gc st) \<and> same st (run_gc st)"
    and step_sound: "row \<in> set rows \<Longrightarrow> step_id row \<in> names \<Longrightarrow> ok st \<Longrightarrow> \<exists>r st'. step_fn row st = Some (r, st') \<and>
      (goes_on r \<and> ok st' \<and> same st st' \<or> r = TRIV_UNSAT \<and> halt st' \<and> unsat st)"
begin

definition post :: "run \<Rightarrow> (prep_result \<times> run) option \<Rightarrow> bool" where
  "post s m \<longleftrightarrow> (\<exists>r s'. m = Some (r, s') \<and>
     (goes_on r \<and> ok (prep_st s') \<and> same (prep_st s) (prep_st s') \<or> r = TRIV_UNSAT \<and> halt (prep_st s') \<and> unsat (prep_st s)))"

lemma post_here: "goes_on r \<Longrightarrow> ok (prep_st s) \<Longrightarrow> post s (Some (r, s))"
  using same_refl by (auto simp: post_def)

lemma post_back: "same (prep_st s) (prep_st s1) \<Longrightarrow> post s1 m \<Longrightarrow> post s m"
  unfolding post_def using same_trans unsat_back by blast

lemma post_time: "post (check_time late s) m = post s m" "prep_st (check_time late s) = prep_st s"
  by (simp_all add: post_def check_time_def Let_def)

lemma run_step_sound:
  assumes "row \<in> set rows" "step_id row \<in> names" "ok (prep_st s)"
  shows "post s (run_step row scan s)"
proof (cases "\<not> scan \<and> enabled s (step_enable row) = 1")
  case True
  obtain r st' where r: "step_fn row (prep_st s) = Some (r, st')"
      "goes_on r \<and> ok st' \<and> same (prep_st s) st' \<or> r = TRIV_UNSAT \<and> halt st' \<and> unsat (prep_st s)"
    using step_sound [OF assms] by auto
  then show ?thesis
    using True gc_keeps gc_halt same_trans unfolding post_def run_step_def by fastforce
qed (use assms(3) post_here in \<open>auto simp: run_step_def\<close>)

lemma eval_all_sound:
  assumes "\<And>x s. x \<in> set ss \<Longrightarrow> ok (prep_st s) \<Longrightarrow> post s (eval rows late scan x s)"
  shows "ok (prep_st s) \<Longrightarrow> goes_on ret \<Longrightarrow> post s (eval_all rows late scan ret ss s)"
  using assms
proof (induction ss arbitrary: ret s)
  case Nil
  then show ?case using post_here [of ret "check_time late s"] by (simp add: post_time)
next
  case (Cons x ss)
  have "post s (eval rows late scan x (check_time late s))"
    using Cons.prems(3) [of x "check_time late s"] Cons.prems(1) by (simp add: post_time)
  then obtain r s' where r: "eval rows late scan x (check_time late s) = Some (r, s')"
      "goes_on r \<and> ok (prep_st s') \<and> same (prep_st s) (prep_st s') \<or> r = TRIV_UNSAT \<and> halt (prep_st s') \<and> unsat (prep_st s)"
    by (auto simp: post_def)
  show ?case
  proof (cases "r = TRIV_UNSAT")
    case True
    then show ?thesis using r bail_unsat by (auto simp: post_def)
  next
    case False
    then have s': "goes_on r" "ok (prep_st s')" "same (prep_st s) (prep_st s')" using r(2) by auto
    have "goes_on (if r = PREP_CHANGED then PREP_CHANGED else ret)" using Cons.prems(2) by simp
    from Cons.IH [OF s'(2) this] Cons.prems(3) show ?thesis
      using r(1) not_bail [OF s'(1)] post_back [OF s'(3)] by auto
  qed
qed

lemma repeat_until_sound:
  assumes "\<And>s. ok (prep_st s) \<Longrightarrow> post s (body s)"
  shows "ok (prep_st s) \<Longrightarrow> 0 < k \<Longrightarrow> post s (map_option (\<lambda>(r, n, s). (r, s)) (repeat_until body k s))"
proof (induction k arbitrary: s)
  case (Suc k)
  obtain r s' where r: "body s = Some (r, s')"
      "goes_on r \<and> ok (prep_st s') \<and> same (prep_st s) (prep_st s') \<or> r = TRIV_UNSAT \<and> halt (prep_st s') \<and> unsat (prep_st s)"
    using assms [OF Suc.prems(1)] by (auto simp: post_def)
  show ?case
  proof (cases "r = PREP_CHANGED \<and> 0 < k")
    case True
    then have "post s (map_option (\<lambda>(r, n, s). (r, s)) (repeat_until body k s'))"
      using r(2) Suc.IH [of s'] post_back [of s s'] by auto
    then show ?thesis using True r(1) by (simp add: option.map_comp comp_def case_prod_unfold)
  next
    case False
    then show ?thesis using r by (auto simp: post_def)
  qed
qed simp

lemma eval_sound:
  "wf_strategy rows x \<Longrightarrow> steps_of x \<subseteq> names \<Longrightarrow> ok (prep_st s) \<Longrightarrow> post s (eval rows late scan x s)"
proof (induction x arbitrary: s scan)
  case (Step i)
  then obtain row where row: "find (\<lambda>row. step_id row = i) rows = Some row"
    by (metis (mono_tags, lifting) find_None_iff option.exhaust wf_strategy.simps(1))
  then have "row \<in> set rows" "step_id row = i" by (auto simp: find_Some_iff)
  then show ?case using row run_step_sound [of row s scan] Step.prems by simp
next
  case (Group ss d)
  have "post s (eval_all rows late scan PREP_NO_CHANGE ss s)"
    by (rule eval_all_sound [OF Group.IH Group.prems(3)]) (use Group.prems in auto)
  then show ?case unfolding post_def by (auto simp: not_bail bail_unsat split: option.splits)
next
  case (Cycle ss l)
  have all: "ok (prep_st s) \<Longrightarrow> post s (eval_all rows late sc PREP_NO_CHANGE ss s)" for sc s
    by (rule eval_all_sound [OF Cycle.IH]) (use Cycle.prems in auto)
  obtain r s1 where s1: "eval_all rows late True PREP_NO_CHANGE ss s = Some (r, s1)"
      "goes_on r \<and> ok (prep_st s1) \<and> same (prep_st s) (prep_st s1) \<or> r = TRIV_UNSAT \<and> halt (prep_st s1) \<and> unsat (prep_st s)"
    using all [OF Cycle.prems(3), of True] unfolding post_def by blast
  have "goes_on r"
    using scan_all [of ss rows late PREP_NO_CHANGE s] scan_ok Cycle.prems(1) s1(1) by fastforce
  then have ok: "ok (prep_st s1)" "same (prep_st s) (prep_st s1)" using s1(2) by auto
  show ?case
  proof (cases "scan \<or> limit_val l = 0")
    case True
    then show ?thesis using s1 ok \<open>goes_on r\<close> by (auto simp: post_def)
  next
    case False
    have "post s1 (map_option (\<lambda>(r, n, s). (r, s)) (repeat_until (eval_all rows late False PREP_NO_CHANGE ss) (limit_val l) s1))"
      using repeat_until_sound [OF all ok(1)] False by simp
    then have "post s (map_option (\<lambda>(r, n, s). (r, s)) (repeat_until (eval_all rows late False PREP_NO_CHANGE ss) (limit_val l) s1))"
      by (rule post_back [OF ok(2)])
    then show ?thesis using False s1(1) by (auto simp: post_def)
  qed
qed

end

text \<open>The steps that keep the solutions.\<close>

definition sound_names :: "string set" where
  "sound_names = {''Calc'', ''St'', ''Pr'', ''P1'', ''P2'', ''Sl'', ''Cf'', ''Ff''}"

lemma run_gc_settled: "settled st \<Longrightarrow> settled (run_gc st)"
  using run_gc_ok by (simp add: settled_def)

interpretation seq: sound_steps "preproc (Suc n) other" sound_names settled
    "\<lambda>st st'. onward st st' \<and> Sol 0 st' = Sol 0 st" "\<lambda>st. Sol 0 st = {}" calm
proof
  fix row st assume row: "row \<in> set (preproc (Suc n) other)" "step_id row \<in> sound_names" and st: "settled st"
  have "step_post st (Do_Calc st)" using st by (auto simp: Do_Calc_def step_post_same)
  then have "step_post st (step_fn row st)"
    using row Do_Strength_sound [OF st, of "Suc n"] DO_PRUNING_FN_sound [OF st, of "Suc n"] Do_Find_FunctionType_sound [OF st]
      Do_Clear_FunctionType_sound [OF st]
    by (auto simp: preproc_def sound_names_def)
  then show "\<exists>r st'. step_fn row st = Some (r, st') \<and>
      (goes_on r \<and> settled st' \<and> onward st st' \<and> Sol 0 st' = Sol 0 st \<or>
       r = TRIV_UNSAT \<and> calm st' \<and> Sol 0 st = {})"
    unfolding step_post_def by auto
next
  fix st assume "settled st"
  moreover have "onward st (run_gc st)" using run_gc_ok [where st = st] by (simp add: onward_def same_frame_def)
  ultimately show "settled (run_gc st) \<and> onward st (run_gc st) \<and> Sol 0 (run_gc st) = Sol 0 st"
    using run_gc_settled run_gc_ok(2) by blast
next
  show "onward st st' \<and> Sol 0 st' = Sol 0 st \<Longrightarrow> onward st' st'' \<and> Sol 0 st'' = Sol 0 st' \<Longrightarrow>
      onward st st'' \<and> Sol 0 st'' = Sol 0 st" for st st' st''
    using onward_trans by auto
qed (auto simp: onward_refl calm_gc)

lemma Preprocessor_sound_steps:
  assumes st: "settled (prep_st s)" and ss: "\<forall>x \<in> set ss. wf_strategy (preproc (Suc n) other) x \<and> steps_of x \<subseteq> sound_names"
  shows "seq.post s (Preprocessor (preproc (Suc n) other) late (render_all ss) s)"
proof -
  let ?rows = "preproc (Suc n) other"
  obtain r st1 where r: "Do_Apply_Inferences (prep_st s) = Some (r, st1)"
      "r = PREP_NO_CHANGE \<and> propagated (prep_st s) st1 \<or> r = TRIV_UNSAT \<and> Sol 0 (prep_st s) = {}"
    using Do_Apply_Inferences_ok [of "prep_st s"] st by (auto simp: settled_def)
  have d: "DO_INFERENCES (prep_st s)" using st by (simp add: settled_def)
  have wf: "\<forall>x \<in> set ss. wf_strategy ?rows x" using ss by simp
  show ?thesis
  proof (cases "r = TRIV_UNSAT")
    case True
    then have "calm st1" using Do_Apply_unsat r(1) by (simp add: calm_def)
    then show ?thesis
      using True r d unfolding Preprocessor_eval [OF preproc_table_ok wf] seq.post_def by (auto simp: bail_unsat)
  next
    case False
    then have st1: "settled st1" "onward (prep_st s) st1 \<and> Sol 0 st1 = Sol 0 (prep_st s)" "r = PREP_NO_CHANGE"
      using r(2) propagated_settled by auto
    let ?s = "s\<lparr>prep_st := st1\<rparr>"
    have "seq.post ?s (eval_all ?rows late False PREP_NO_CHANGE ss ?s)"
      by (rule seq.eval_all_sound [OF seq.eval_sound]) (use ss st1 in auto)
    then have "seq.post s (eval_all ?rows late False PREP_NO_CHANGE ss ?s)"
      by (rule seq.post_back [rotated]) (use st1 in simp)
    then show ?thesis
      using r(1) d st1(3) not_bail unfolding Preprocessor_eval [OF preproc_table_ok wf] by simp
  qed
qed

section \<open>The fuel is enough for every string\<close>

text \<open>
  The interpreter returns a rest that is no longer than its string, so that the length of the string
  bounds the nesting and the number of items; with more fuel than that the result is the same.
\<close>

definition shrinks :: "interp \<Rightarrow> bool" where
  "shrinks seq \<longleftrightarrow> (\<forall>po p s r p' s'. seq po p s = Some (r, p', s') \<longrightarrow> length p' \<le> length p)"

lemma cycle_loop_body:
  "cycle_loop body limit n s = Some (r, m, p, s') \<Longrightarrow> \<exists>s0. body s0 = Some (r, p, s')"
proof (induction body limit n s rule: cycle_loop.induct)
  case (1 body limit n s)
  from "1.prems" obtain r1 p1 s1 where b: "body s = Some (r1, p1, s1)"
    by (cases "body s") (auto simp: cycle_loop.simps [of body limit n s])
  show ?case
  proof (cases "n + 1 < limit \<and> r1 = PREP_CHANGED")
    case True
    then show ?thesis using "1.IH" [OF b refl refl refl] "1.prems" b by (auto simp: cycle_loop.simps [of body limit n s])
  next
    case False
    then have "r1 = r" "p1 = p" "s1 = s'" using "1.prems" b by (auto simp: cycle_loop.simps [of body limit n s])
    then show ?thesis using b by auto
  qed
qed

lemma read_limit_length: "read_limit k p = Some (n, q) \<Longrightarrow> length q \<le> length p"
  by (induction k p rule: read_limit.induct) (auto simp: Let_def split: if_splits)

lemma loop_limit_length: "loop_limit p = Some (n, q) \<Longrightarrow> length q \<le> length p"
  by (auto simp: loop_limit_def simp del: read_limit.simps split: list.splits if_splits dest!: read_limit_length)

lemma skip_limit_length: "length (skip_limit p) \<le> length p"
  by (auto simp: skip_limit_def length_dropWhile_le le_SucI split: list.splits)

lemma skip_args_length: "skip_args p = Some q \<Longrightarrow> length q \<le> length p"
  by (induction p rule: skip_args.induct) (auto split: if_splits)

lemma parse_cycle_length:
  assumes "shrinks seq" "parse_cycle seq po p s = Some (r, p', s')"
  shows "length p' \<le> length p"
proof -
  have seq: "length q \<le> length p" if "seq b p t = Some (r', q, t')" for b t r' q t'
    using assms(1) that unfolding shrinks_def by blast
  have loop: "length q \<le> length p" if "cycle_loop (seq False p) k n t = Some (r', m, q, t')" for k n t r' m q t'
    using cycle_loop_body [OF that] seq by blast
  have tl: "length (skip_limit (tl q)) \<le> length q" for q :: string
    using skip_limit_length [of "tl q"] by simp
  have lim: "length q' \<le> length q" if "loop_limit (tl q) = Some (n, q')" for q n q'
    using loop_limit_length [OF that] by simp
  show ?thesis
    using assms(2) unfolding parse_cycle_def
    by (auto split: if_splits Option.bind_splits prod.splits dest!: seq loop lim intro: order_trans [OF tl] order_trans)
qed

lemma parse_group_length:
  "shrinks seq \<Longrightarrow> parse_group seq po p s = Some (r, p', s') \<Longrightarrow> length p' \<le> length p"
  unfolding parse_group_def shrinks_def
  by (fastforce simp: Let_def split: if_splits Option.bind_splits prod.splits)

lemma parse_step_length:
  assumes "table_ok rows" "parse_step rows po p s = Some (Some r, p', s')"
  shows "length p' < length p"
proof -
  obtain row where row: "find (\<lambda>row. prefix (step_id row) p) rows = Some row"
    using assms(2) by (auto simp: parse_step_def split: option.splits)
  then have "row \<in> set rows" "prefix (step_id row) p" by (auto simp: find_Some_iff)
  then have "step_id row \<noteq> []" "length (step_id row) \<le> length p"
    using assms(1) prefix_length_le by (auto simp: table_ok_def)
  then have "length (drop (length (step_id row)) p) < length p" by (cases p) auto
  moreover have "length p' \<le> length (drop (length (step_id row)) p)"
    using assms(2) row
    by (auto simp: parse_step_def Let_def split: if_splits Option.bind_splits prod.splits dest!: skip_args_length)
  ultimately show ?thesis by linarith
qed

lemma parse_item_length:
  assumes "table_ok rows" "shrinks seq" "p \<noteq> []" "parse_item rows seq po p s = Some (Some r, p', s')"
  shows "length p' < length p"
proof -
  have "length (tl p) < length p" using assms(3) by simp
  then show ?thesis
    using assms(4) parse_cycle_length [OF assms(2), of po "tl p" s] parse_group_length [OF assms(2), of po "tl p" s]
      parse_step_length [OF assms(1), of po p s]
    unfolding parse_item_def by (force split: if_splits)
qed

lemma parse_seq_shrinks: "table_ok rows \<Longrightarrow> shrinks (parse_seq rows late n ret)"
proof (induction n arbitrary: ret)
  case (Suc n)
  show ?case unfolding shrinks_def
  proof (intro allI impI)
    fix po p s r p' s'
    assume run: "parse_seq rows late (Suc n) ret po p s = Some (r, p', s')"
    show "length p' \<le> length p"
    proof (cases "p = [] \<or> hd p = CHR '']'' \<or> hd p = CHR ''}''")
      case False
      let ?m = "parse_item rows (parse_seq rows late n PREP_NO_CHANGE) po p (check_time late s)"
      obtain r1 p1 s1 where m: "?m = Some (r1, p1, s1)" using run False by (cases ?m) (auto simp: Let_def)
      show ?thesis
      proof (cases r1)
        case None
        then have "p1 = p" using m False by (auto simp: parse_item_def parse_step_def Let_def split: if_splits option.splits Option.bind_splits)
        then show ?thesis using run False m None by (auto simp: Let_def)
      next
        case (Some r2)
        then have "length p1 < length p" using parse_item_length [OF Suc.prems Suc.IH [OF Suc.prems]] m False by blast
        moreover have "length p' \<le> length p1" if b: "\<not> bail r2"
        proof -
          have "parse_seq rows late n (if r2 = PREP_CHANGED then PREP_CHANGED else ret) po p1 s1 = Some (r, p', s')"
            using run False m Some b by (simp add: Let_def)
          then show ?thesis using Suc.IH [OF Suc.prems] unfolding shrinks_def by blast
        qed
        ultimately show ?thesis using run False m Some by (cases "bail r2") (auto simp: Let_def)
      qed
    qed (use run in \<open>auto simp: Let_def\<close>)
  qed
qed (simp add: shrinks_def)

lemma parse_item_cong:
  assumes "\<And>po q s. length q < length p \<Longrightarrow> seq po q s = seq' po q s" "p \<noteq> []"
  shows "parse_item rows seq po p s = parse_item rows seq' po p s"
proof -
  have "length (tl p) < length p" using assms(2) by simp
  then have eq: "seq b (tl p) = seq' b (tl p)" for b using assms(1) by (simp add: fun_eq_iff)
  show ?thesis unfolding parse_item_def parse_cycle_def parse_group_def eq ..
qed

lemma parse_seq_fuel:
  assumes "table_ok rows"
  shows "length p < n \<Longrightarrow> length p < m \<Longrightarrow> parse_seq rows late n ret po p s = parse_seq rows late m ret po p s"
proof (induction "length p" arbitrary: p n m ret po s rule: less_induct)
  case less
  obtain n' m' where nm: "n = Suc n'" "m = Suc m'" using less.prems by (cases n; cases m) auto
  show ?case
  proof (cases "p = [] \<or> hd p = CHR '']'' \<or> hd p = CHR ''}''")
    case False
    let ?s = "check_time late s"
    have len: "length q < length p \<Longrightarrow> length q < n'" "length q < length p \<Longrightarrow> length q < m'" for q :: string
      using less.prems nm by auto
    have eq: "length q < length p \<Longrightarrow> parse_seq rows late n' ret' b q t = parse_seq rows late m' ret' b q t" for q ret' b t
      using less.hyps len by blast
    have item: "parse_item rows (parse_seq rows late n' PREP_NO_CHANGE) po p ?s =
        parse_item rows (parse_seq rows late m' PREP_NO_CHANGE) po p ?s"
      by (rule parse_item_cong) (use eq False in auto)
    have short: "length p1 < length p"
      if "parse_item rows (parse_seq rows late m' PREP_NO_CHANGE) po p ?s = Some (Some r, p1, s1)" for r p1 s1
      using parse_item_length [OF assms parse_seq_shrinks [OF assms]] that False by blast
    show ?thesis
      using False item short eq unfolding nm parse_seq.simps Let_def
      by (cases "parse_item rows (parse_seq rows late m' PREP_NO_CHANGE) po p ?s") (auto split: option.splits)
  qed (simp add: nm)
qed

lemma parse_seq_stops_at_unknown:
  assumes "p \<noteq> []" "hd p \<notin> set ''{}[]''" "\<forall>row \<in> set rows. \<not> prefix (step_id row) p"
  shows "parse_seq rows late (Suc n) ret po p s = Some (ret, p, check_time late s)"
proof -
  have "find (\<lambda>row. prefix (step_id row) p) rows = None" using assms(3) by (simp add: find_None_iff)
  then show ?thesis using assms(1,2) by (simp add: parse_item_def parse_step_def Let_def)
qed


end
