(* ===== verification/Brancher.thy ===== *)
theory Brancher
  imports Prelude
begin

text \<open>
  The search of the Smurf solver (solv_smurf) without lemmas (\<open>NO_LEMMAS\<close> = 1): inferring a literal
  (vars_inferlit.cc), updating the state machine of a function (fn_smurf/bt_smurf.cc), the queue of
  changed functions (fn_update.cc), the stack of saved states (fn_stack.cc), chronological
  backtracking (br_backtrack_nl.cc), the choice of a branch (br_select_bp.cc) and the main loop
  (br_brancher.cc, br_checks.cc, vars_recordsol.cc). All functions are state machines, so that their
  priority is 0 and one queue of \<open>arrFnInfPriority\<close> is enough. The code is over pointers to states;
  here it is over a type of states with a table. Counters and what only lemmas and heuristics read
  (\<open>arrBacktrackStackIndex\<close>, \<open>pPrevState\<close>) are left out. The pools of the stack of functions are one
  list here, so that their allocation and growth (\<open>FnStackInit\<close>, \<open>BtStackInit\<close>) do not appear.
\<close>

section \<open>State machines\<close>

text \<open>
  Of a transition: the positive and the negative inferences and the next state.
\<close>

record 's smurf_table =
  vbles :: "'s \<Rightarrow> nat list"
  FindTransition :: "'s \<Rightarrow> nat \<Rightarrow> bool \<Rightarrow> nat list \<times> nat list \<times> 's"
  pTrueSmurfState :: 's

section \<open>The state of the search\<close>

text \<open>
  \<open>None\<close> is BOOL_UNKNOWN. The stacks have their top first; \<open>arrInferenceQueue\<close> is the part between
  its two pointers. An entry of the stack of functions is the start of a level, with the version
  number, or a function with its previous version and its state.
\<close>

datatype 's fn_entry = LEVEL_START nat | Saved nat nat 's

record 's search =
  arrSolution :: "nat \<Rightarrow> bool option"
  pCurrentState :: "nat \<Rightarrow> 's"
  nNumUnresolvedFunctions :: int
  arrBacktrackStack :: "(nat \<times> bool) list"
  arrChoicePointStack :: "(nat \<times> int) list"
  arrFnStack :: "'s fn_entry list"
  arrFnFlags :: "nat \<Rightarrow> nat"
  nCurFnVersion :: nat
  arrChangedFn :: "nat \<Rightarrow> nat"
  arrFnInfPriority :: "nat list"
  arrFnInferenceQueue :: "nat list"
  arrInferenceQueue :: "nat list"
  solution_info :: "(nat \<Rightarrow> bool option) list"
  NUM_CHOICE_POINTS :: nat
  NUM_BACKTRACKS :: nat
  ERR_LIMITS :: bool

text \<open>The input of the search: the table, the number of functions, and the functions of each variable.\<close>

record 's solver_input = "'s smurf_table" +
  nNumFuncs :: nat
  arrAFS :: "nat \<Rightarrow> nat list"

section \<open>Inferring a literal\<close>

definition FN_STACK_PUSH :: "nat \<Rightarrow> 's search \<Rightarrow> 's search" where
  "FN_STACK_PUSH i s =
     (if arrFnFlags s i \<noteq> nCurFnVersion s
      then s\<lparr>arrFnStack := Saved i (arrFnFlags s i) (pCurrentState s i) # arrFnStack s,
             arrFnFlags := (arrFnFlags s)(i := nCurFnVersion s)\<rparr>
      else s)"

text \<open>
  The body of the loop over the functions of a variable: bit 0 of \<open>arrChangedFn\<close> marks a function
  in the queue, bit 1 one that has been visited on this level. None is the assertion on the size of
  the second queue.
\<close>

definition mark_function :: "'s solver_input \<Rightarrow> nat \<Rightarrow> 's search \<Rightarrow> 's search option" where
  "mark_function P i s =
     (if even (arrChangedFn s i) then do {
        s \<leftarrow> (if arrChangedFn s i = 0 then
                (if length (arrFnInferenceQueue s) < nNumFuncs P
                 then Some ((FN_STACK_PUSH i s)\<lparr>arrFnInferenceQueue := arrFnInferenceQueue s @ [i]\<rparr>)
                 else None)
              else Some s);
        Some (s\<lparr>arrFnInfPriority := arrFnInfPriority s @ [i], arrChangedFn := (arrChangedFn s)(i := 3)\<rparr>) }
      else Some s)"

fun mark_functions :: "'s solver_input \<Rightarrow> nat list \<Rightarrow> 's search \<Rightarrow> 's search option" where
  "mark_functions P [] s = Some s"
| "mark_functions P (i # is) s = do { s \<leftarrow> mark_function P i s; mark_functions P is s }"

definition InferLiteral :: "'s solver_input \<Rightarrow> nat \<Rightarrow> bool \<Rightarrow> bool \<Rightarrow> 's search \<Rightarrow> 's search option" where
  "InferLiteral P nInferredAtom nInferredValue bWasChoicePoint s = do {
     s \<leftarrow> mark_functions P (arrAFS P nInferredAtom) s;
     if arrSolution s nInferredAtom \<noteq> None then None
     else Some (s\<lparr>arrSolution := (arrSolution s)(nInferredAtom := Some nInferredValue),
                  arrInferenceQueue := arrInferenceQueue s @ [nInferredAtom],
                  arrBacktrackStack := (nInferredAtom, bWasChoicePoint) # arrBacktrackStack s\<rparr>) }"

section \<open>Updating a function\<close>

text \<open>The first component of the results: whether there is a conflict.\<close>

fun CheckSmurfInferences :: "'s solver_input \<Rightarrow> nat list \<Rightarrow> bool \<Rightarrow> 's search \<Rightarrow> (bool \<times> 's search) option" where
  "CheckSmurfInferences P [] value s = Some (False, s)"
| "CheckSmurfInferences P (j # js) value s =
     (case arrSolution s j of
        None \<Rightarrow> do { s \<leftarrow> InferLiteral P j value False s; CheckSmurfInferences P js value s }
      | Some b \<Rightarrow> if b = value then CheckSmurfInferences P js value s else Some (True, s))"

partial_function (option) UpdateRegularSmurf :: "'s solver_input \<Rightarrow> nat \<Rightarrow> 's search \<Rightarrow> (bool \<times> 's search) option" where
  "UpdateRegularSmurf P i s =
     (let pState = pCurrentState s i in
      case find (\<lambda>v. arrSolution s v \<noteq> None) (vbles P pState) of
        None \<Rightarrow> Some (False, s)
      | Some v \<Rightarrow>
          (case FindTransition P pState v (arrSolution s v = Some True) of (pos, neg, next_state) \<Rightarrow> do {
             (conflict, s) \<leftarrow> CheckSmurfInferences P pos True s;
             if conflict then Some (True, s)
             else do {
               (conflict, s) \<leftarrow> CheckSmurfInferences P neg False s;
               if conflict then Some (True, s)
               else let s = s\<lparr>pCurrentState := (pCurrentState s)(i := next_state)\<rparr> in
                 if next_state = pTrueSmurfState P
                 then Some (False, s\<lparr>nNumUnresolvedFunctions := nNumUnresolvedFunctions s - 1\<rparr>)
                 else UpdateRegularSmurf P i s } }))"

definition SmurfUpdateAffectedFunction :: "'s solver_input \<Rightarrow> nat \<Rightarrow> 's search \<Rightarrow> (bool \<times> 's search) option" where
  "SmurfUpdateAffectedFunction P i s =
     (if pCurrentState s i = pTrueSmurfState P then Some (False, s) else UpdateRegularSmurf P i s)"

partial_function (option) UpdateEachAffectedFunction :: "'s solver_input \<Rightarrow> 's search \<Rightarrow> (bool \<times> 's search) option" where
  "UpdateEachAffectedFunction P s =
     (case arrFnInfPriority s of
        [] \<Rightarrow> Some (False, s)
      | i # _ \<Rightarrow>
          if arrChangedFn s i \<noteq> 3 then None
          else do {
            (conflict, s) \<leftarrow> SmurfUpdateAffectedFunction P i s;
            if conflict then Some (True, s)
            else UpdateEachAffectedFunction P
              (s\<lparr>arrChangedFn := (arrChangedFn s)(i := 2), arrFnInfPriority := tl (arrFnInfPriority s)\<rparr>) })"

section \<open>Deduction\<close>

partial_function (option) deduce_queue :: "'s solver_input \<Rightarrow> 's search \<Rightarrow> (bool \<times> 's search) option" where
  "deduce_queue P s =
     (case arrInferenceQueue s of
        [] \<Rightarrow> Some (False, s)
      | _ # q \<Rightarrow> do {
          (conflict, s) \<leftarrow> UpdateEachAffectedFunction P (s\<lparr>arrInferenceQueue := q\<rparr>);
          if conflict then Some (True, s) else deduce_queue P s })"

partial_function (option) ITE_Deduce :: "'s solver_input \<Rightarrow> 's search \<Rightarrow> (bool \<times> 's search) option" where
  "ITE_Deduce P s = do {
     (conflict, s) \<leftarrow> deduce_queue P s;
     if conflict then Some (True, s)
     else do {
       (conflict, s) \<leftarrow> UpdateEachAffectedFunction P s;
       if conflict then Some (True, s)
       else if arrInferenceQueue s \<noteq> [] then ITE_Deduce P s
       else Some (False, s) } }"

section \<open>Branching and backtracking\<close>

definition Functions_Update_Inf_End :: "'s search \<Rightarrow> 's search" where
  "Functions_Update_Inf_End s =
     s\<lparr>arrChangedFn := (\<lambda>i. if i \<in> set (arrFnInferenceQueue s) then 0 else arrChangedFn s i)\<rparr>"

definition FnStackPushFunctionLevel :: "'s search \<Rightarrow> 's search" where
  "FnStackPushFunctionLevel s =
     s\<lparr>nCurFnVersion := nCurFnVersion s + 1, arrFnStack := LEVEL_START (nCurFnVersion s + 1) # arrFnStack s\<rparr>"

text \<open>
  The heuristic is any function of the number of the choice and the state, so that it may have a
  state of its own; None is a failed assertion. The hints for choices come from other kinds of
  functions; here there are none.
\<close>

definition SelectNewBranchPoint :: "'s solver_input \<Rightarrow> (nat \<Rightarrow> 's search \<Rightarrow> (nat \<times> bool) option) \<Rightarrow> 's search \<Rightarrow> 's search option" where
  "SelectNewBranchPoint P procHeurSelect s =
     (let s = Functions_Update_Inf_End s in do {
        (nInferredAtom, nInferredValue) \<leftarrow> procHeurSelect (NUM_CHOICE_POINTS s) s;
        if arrSolution s nInferredAtom \<noteq> None then None
        else
          (let s = FnStackPushFunctionLevel (s\<lparr>NUM_CHOICE_POINTS := NUM_CHOICE_POINTS s + 1\<rparr>);
               s = s\<lparr>arrChoicePointStack := (nInferredAtom, nNumUnresolvedFunctions s) # arrChoicePointStack s,
                     arrFnInferenceQueue := []\<rparr>
           in InferLiteral P nInferredAtom nInferredValue False s) })"

fun pop_backtrack_stack :: "nat \<Rightarrow> (nat \<times> bool) list \<Rightarrow> (nat \<Rightarrow> bool option) \<Rightarrow>
    ((nat \<times> bool) list \<times> (nat \<Rightarrow> bool option)) option" where
  "pop_backtrack_stack v [] sol = None"
| "pop_backtrack_stack v ((w, _) # bt) sol =
     (let sol = sol(w := None) in if w = v then Some (bt, sol) else pop_backtrack_stack v bt sol)"

text \<open>The states, the flags and the marks; with them the rest of the stack and the version.\<close>

fun pop_state_information :: "'s fn_entry list \<Rightarrow> (nat \<Rightarrow> 's) \<Rightarrow> (nat \<Rightarrow> nat) \<Rightarrow> (nat \<Rightarrow> nat) \<Rightarrow>
    ((nat \<Rightarrow> 's) \<times> (nat \<Rightarrow> nat) \<times> (nat \<Rightarrow> nat) \<times> 's fn_entry list \<times> nat) option" where
  "pop_state_information [] cur flags changed = None"
| "pop_state_information (LEVEL_START version # st) cur flags changed = Some (cur, flags, changed, st, version)"
| "pop_state_information (Saved i prev_version x # st) cur flags changed =
     pop_state_information st (cur(i := x)) (flags(i := prev_version)) (changed(i := 0))"

text \<open>Taking back the last choice; the second result is the variable and the value it had.\<close>

definition pop_choice_point :: "'s search \<Rightarrow> ('s search \<times> nat \<times> bool) option" where
  "pop_choice_point s =
     (case arrChoicePointStack s of
        [] \<Rightarrow> None
      | (v, nNumUnresolved) # cps \<Rightarrow> do {
          (bt, sol) \<leftarrow> pop_backtrack_stack v (arrBacktrackStack s) (arrSolution s);
          (cur, flags, changed, st, version) \<leftarrow>
            pop_state_information (arrFnStack s) (pCurrentState s) (arrFnFlags s) (arrChangedFn s);
          Some (s\<lparr>arrSolution := sol, pCurrentState := cur, nNumUnresolvedFunctions := nNumUnresolved,
                  arrBacktrackStack := bt, arrChoicePointStack := cps, arrFnStack := st, arrFnFlags := flags,
                  nCurFnVersion := version, arrChangedFn := changed\<rparr>, v, arrSolution s v = Some True) })"

definition BackTrack_NL :: "'s solver_input \<Rightarrow> 's search \<Rightarrow> (bool \<times> 's search) option" where
  "BackTrack_NL P s =
     (if arrChoicePointStack s = [] then Some (True, s)
      else do {
        (s, nInferredAtom, nInferredValue) \<leftarrow> pop_choice_point s;
        s \<leftarrow> InferLiteral P nInferredAtom (\<not> nInferredValue) True
               (s\<lparr>arrInferenceQueue := [], arrFnInferenceQueue := [], arrFnInfPriority := []\<rparr>);
        Some (False, s) })"

text \<open>\<open>limit k\<close>: at backtrack \<open>k\<close> the limits are checked and one is passed.\<close>

definition CheckBtHooks :: "'s solver_input \<Rightarrow> (nat \<Rightarrow> bool) \<Rightarrow> 's search \<Rightarrow> (bool \<times> 's search) option" where
  "CheckBtHooks P limit s =
     (let s = s\<lparr>NUM_BACKTRACKS := NUM_BACKTRACKS s + 1\<rparr> in
      if limit (NUM_BACKTRACKS s) then Some (True, s\<lparr>ERR_LIMITS := True\<rparr>) else BackTrack_NL P s)"

definition RecordSolution :: "nat \<Rightarrow> 's search \<Rightarrow> bool \<times> 's search" where
  "RecordSolution max_solutions s =
     (let s = s\<lparr>solution_info := solution_info s @ [arrSolution s]\<rparr>
      in (length (solution_info s) = max_solutions, s))"

section \<open>The main loop\<close>

partial_function (option) brancher_loop :: "'s solver_input \<Rightarrow> (nat \<Rightarrow> 's search \<Rightarrow> (nat \<times> bool) option) \<Rightarrow> (nat \<Rightarrow> bool) \<Rightarrow>
    nat \<Rightarrow> 's search \<Rightarrow> 's search option" where
  "brancher_loop P procHeurSelect limit max_solutions s = do {
     (conflict, s) \<leftarrow> ITE_Deduce P s;
     if \<not> conflict \<and> nNumUnresolvedFunctions s < 0 then None
     else if \<not> conflict \<and> nNumUnresolvedFunctions s \<noteq> 0 then do {
       s \<leftarrow> SelectNewBranchPoint P procHeurSelect s;
       brancher_loop P procHeurSelect limit max_solutions s }
     else
       (let (stop, s) = (if conflict then (False, s) else RecordSolution max_solutions s) in
        if stop then Some s
        else do {
          (stop, s) \<leftarrow> CheckBtHooks P limit s;
          if stop then Some s else brancher_loop P procHeurSelect limit max_solutions s }) }"

datatype solv_result = SOLV_SAT | SOLV_UNSAT | SOLV_UNKNOWN

definition Brancher :: "'s solver_input \<Rightarrow> (nat \<Rightarrow> 's search \<Rightarrow> (nat \<times> bool) option) \<Rightarrow> (nat \<Rightarrow> bool) \<Rightarrow>
    nat \<Rightarrow> 's search \<Rightarrow> (solv_result \<times> 's search) option" where
  "Brancher P procHeurSelect limit max_solutions s = do {
     s \<leftarrow> brancher_loop P procHeurSelect limit max_solutions s;
     Some (if solution_info s \<noteq> [] then SOLV_SAT else if ERR_LIMITS s then SOLV_UNKNOWN else SOLV_UNSAT, s) }"

section \<open>Before the search\<close>

text \<open>The state that InitVariables, FnStackInit, BtStackInit and InitBrancherX set up.\<close>

definition InitBrancherX :: "nat \<Rightarrow> (nat \<Rightarrow> 's) \<Rightarrow> 's search" where
  "InitBrancherX nFuncs pInitialState =
     \<lparr>arrSolution = (\<lambda>v. if v = 0 then Some False else None), pCurrentState = pInitialState,
      nNumUnresolvedFunctions = int nFuncs, arrBacktrackStack = [], arrChoicePointStack = [], arrFnStack = [],
      arrFnFlags = (\<lambda>_. 0), nCurFnVersion = 1, arrChangedFn = (\<lambda>_. 0), arrFnInfPriority = [],
      arrFnInferenceQueue = [], arrInferenceQueue = [], solution_info = [], NUM_CHOICE_POINTS = 0,
      NUM_BACKTRACKS = 0, ERR_LIMITS = False\<rparr>"

text \<open>The functions of each variable, from the variables of the initial states.\<close>

definition SmurfCreateAFS :: "nat \<Rightarrow> nat \<Rightarrow> (nat \<Rightarrow> nat list) \<Rightarrow> nat \<Rightarrow> nat list" where
  "SmurfCreateAFS nFnId nVarId afs = afs(nVarId := afs nVarId @ [nFnId])"

definition AFSInit :: "('s \<Rightarrow> nat list) \<Rightarrow> (nat \<Rightarrow> 's) \<Rightarrow> nat \<Rightarrow> nat \<Rightarrow> nat list" where
  "AFSInit vbles_of pInitialState nFuncs =
     fold (\<lambda>i. fold (SmurfCreateAFS i) (rev (vbles_of (pInitialState i)))) [0..<nFuncs] (\<lambda>_. [])"

text \<open>The simplest heuristic: the first unassigned variable (hr_null.cc).\<close>

function null_loop :: "nat \<Rightarrow> (nat \<Rightarrow> bool option) \<Rightarrow> nat \<Rightarrow> nat option" where
  "null_loop gnMaxVbleIndex sol nBranchAtom =
     (if sol nBranchAtom = None then Some nBranchAtom
      else if nBranchAtom + 1 \<le> gnMaxVbleIndex then null_loop gnMaxVbleIndex sol (nBranchAtom + 1) else None)"
  by pat_completeness auto
termination by (relation "measure (\<lambda>(m, _, x). m - x)") auto

declare null_loop.simps [simp del]

definition NullHeuristic :: "nat \<Rightarrow> nat \<Rightarrow> 's search \<Rightarrow> (nat \<times> bool) option" where
  "NullHeuristic gnMaxVbleIndex k s = map_option (\<lambda>v. (v, True)) (null_loop gnMaxVbleIndex (arrSolution s) 1)"

end
