(* ===== verification/Searchsound.thy ===== *)
theory Searchsound
  imports Brancher
begin

text \<open>
  Correctness of the search of theory Brancher. The locale \<open>smurf_search\<close> states what a table of
  state machines promises; in it the search is proved to return, to record only solutions, and to
  miss none. The invariant has three parts: what holds of a state at all times (\<open>base\<close>), the
  bookkeeping of the queues and marks (\<open>queued\<close>, \<open>quiet\<close>), and the levels that backtracking will
  come back to (\<open>levels\<close>).
\<close>

section \<open>Taking back within a level\<close>

text \<open>
  What \<open>pop_choice_point\<close> reads. A step inside a level leaves what it gives back as it is: entries
  are pushed before a state is changed, and variables are only added.
\<close>

abbreviation popped :: "'s search \<Rightarrow> ((nat \<Rightarrow> 's) \<times> (nat \<Rightarrow> nat) \<times> (nat \<Rightarrow> nat) \<times> 's fn_entry list \<times> nat) option" where
  "popped s \<equiv> pop_state_information (arrFnStack s) (pCurrentState s) (arrFnFlags s) (arrChangedFn s)"

definition state_undo :: "'s search \<Rightarrow> 's search \<Rightarrow> bool" where
  "state_undo s t \<longleftrightarrow> (\<forall>c f ch st ver. popped s = Some (c, f, ch, st, ver) \<longrightarrow>
     (\<exists>ch'. popped t = Some (c, f, ch', st, ver)))"

definition same_stacks :: "'s search \<Rightarrow> 's search \<Rightarrow> bool" where
  "same_stacks s t \<longleftrightarrow> arrSolution t = arrSolution s \<and> pCurrentState t = pCurrentState s \<and>
     nNumUnresolvedFunctions t = nNumUnresolvedFunctions s \<and> arrBacktrackStack t = arrBacktrackStack s \<and>
     arrChoicePointStack t = arrChoicePointStack s \<and> arrFnStack t = arrFnStack s \<and>
     arrFnFlags t = arrFnFlags s \<and> nCurFnVersion s \<le> nCurFnVersion t"

definition same_undo :: "'s search \<Rightarrow> 's search \<Rightarrow> bool" where
  "same_undo s t \<longleftrightarrow> arrChoicePointStack t = arrChoicePointStack s \<and>
     (\<forall>s' r. pop_choice_point s = Some (s', r) \<longrightarrow> (\<exists>t'. pop_choice_point t = Some (t', r) \<and> same_stacks s' t'))"

fun saved :: "'s fn_entry list \<Rightarrow> nat set" where
  "saved [] = {}"
| "saved (LEVEL_START k # st) = {}"
| "saved (Saved i p x # st) = insert i (saved st)"

lemma same_stacks_trans: "same_stacks s t \<Longrightarrow> same_stacks t u \<Longrightarrow> same_stacks s u"
  by (simp add: same_stacks_def)

lemma same_undo_trans: "same_undo s t \<Longrightarrow> same_undo t u \<Longrightarrow> same_undo s u"
  unfolding same_undo_def by (metis same_stacks_trans)

lemma state_undo_trans: "state_undo s t \<Longrightarrow> state_undo t u \<Longrightarrow> state_undo s u"
  unfolding state_undo_def by metis

lemma pop_state_changed:
  "pop_state_information st cur flags ch = Some (c, f, ch', st', ver) \<Longrightarrow>
    \<exists>ch2'. pop_state_information st cur flags ch2 = Some (c, f, ch2', st', ver)"
  by (induction st cur flags ch arbitrary: ch2 rule: pop_state_information.induct) auto

lemma pop_state_marks:
  "pop_state_information st cur flags ch = Some (c, f, ch', st', ver) \<Longrightarrow>
    ch' i = (if i \<in> saved st then 0 else ch i)"
  by (induction st cur flags ch rule: pop_state_information.induct) auto

lemma pop_state_unsaved:
  "i \<in> saved st \<Longrightarrow> pop_state_information st (cur(i := x)) flags ch = pop_state_information st cur flags ch"
proof (induction st cur flags ch rule: pop_state_information.induct)
  case (3 j p y st cur flags ch)
  show ?case
  proof (cases "i = j")
    case True
    show ?thesis unfolding pop_state_information.simps True fun_upd_upd by (rule refl)
  next
    case False
    then have "i \<in> saved st" using 3(2) by simp
    from 3(1) [OF this] show ?thesis
      unfolding pop_state_information.simps fun_upd_twist [OF False] .
  qed
qed auto

lemma state_undo_frame:
  assumes "arrFnStack t = arrFnStack s" "pCurrentState t = pCurrentState s" "arrFnFlags t = arrFnFlags s"
  shows "state_undo s t"
  using assms pop_state_changed unfolding state_undo_def by metis

lemma state_undo_push: "state_undo s (FN_STACK_PUSH i s)"
proof -
  let ?t = "FN_STACK_PUSH i s"
  have "\<exists>ch'. popped ?t = Some (c, f, ch', st, ver)" if "popped s = Some (c, f, ch, st, ver)" for c f ch st ver
    using that pop_state_changed [OF that] by (auto simp: FN_STACK_PUSH_def)
  then show ?thesis unfolding state_undo_def by blast
qed

lemma state_undo_state:
  assumes "i \<in> saved (arrFnStack s)"
  shows "state_undo s (s\<lparr>pCurrentState := (pCurrentState s)(i := x), nNumUnresolvedFunctions := u\<rparr>)"
  using pop_state_unsaved [OF assms, of "pCurrentState s" x "arrFnFlags s" "arrChangedFn s"]
  unfolding state_undo_def by simp

lemma pop_choice_pointD:
  assumes "pop_choice_point s = Some (s', r)"
  obtains v k cps bt sol cur flags ch st ver where
    "arrChoicePointStack s = (v, k) # cps"
    "pop_backtrack_stack v (arrBacktrackStack s) (arrSolution s) = Some (bt, sol)"
    "popped s = Some (cur, flags, ch, st, ver)"
    "s' = s\<lparr>arrSolution := sol, pCurrentState := cur, nNumUnresolvedFunctions := k,
            arrBacktrackStack := bt, arrChoicePointStack := cps, arrFnStack := st, arrFnFlags := flags,
            nCurFnVersion := ver, arrChangedFn := ch\<rparr>"
    "r = (v, arrSolution s v = Some True)"
  using assms by (auto simp: pop_choice_point_def split: list.splits Option.bind_splits prod.splits)

lemma pop_choice_pointI:
  assumes "arrChoicePointStack s = (v, k) # cps"
    "pop_backtrack_stack v (arrBacktrackStack s) (arrSolution s) = Some (bt, sol)"
    "popped s = Some (cur, flags, ch, st, ver)"
  shows "pop_choice_point s = Some (s\<lparr>arrSolution := sol, pCurrentState := cur, nNumUnresolvedFunctions := k,
            arrBacktrackStack := bt, arrChoicePointStack := cps, arrFnStack := st, arrFnFlags := flags,
            nCurFnVersion := ver, arrChangedFn := ch\<rparr>, v, arrSolution s v = Some True)"
  using assms by (simp add: pop_choice_point_def)

text \<open>The trail of the later state gives the same trail back.\<close>

lemma same_undoI:
  assumes "state_undo s t" "arrChoicePointStack t = arrChoicePointStack s"
    and "\<And>v k cps. arrChoicePointStack s = (v, k) # cps \<Longrightarrow>
      pop_backtrack_stack v (arrBacktrackStack t) (arrSolution t) =
        pop_backtrack_stack v (arrBacktrackStack s) (arrSolution s) \<and> arrSolution t v = arrSolution s v"
  shows "same_undo s t"
proof -
  have "\<exists>t'. pop_choice_point t = Some (t', r) \<and> same_stacks s' t'" if pop: "pop_choice_point s = Some (s', r)" for s' r
  proof -
    from pop_choice_pointD [OF pop] obtain v k cps bt sol cur flags ch st ver where
      cps: "arrChoicePointStack s = (v, k) # cps"
      and b: "pop_backtrack_stack v (arrBacktrackStack s) (arrSolution s) = Some (bt, sol)"
      and f: "popped s = Some (cur, flags, ch, st, ver)"
      and s': "s' = s\<lparr>arrSolution := sol, pCurrentState := cur, nNumUnresolvedFunctions := k,
            arrBacktrackStack := bt, arrChoicePointStack := cps, arrFnStack := st, arrFnFlags := flags,
            nCurFnVersion := ver, arrChangedFn := ch\<rparr>"
      and r: "r = (v, arrSolution s v = Some True)" .
    obtain ch' where f': "popped t = Some (cur, flags, ch', st, ver)"
      using assms(1) f unfolding state_undo_def by blast
    have b': "pop_backtrack_stack v (arrBacktrackStack t) (arrSolution t) = Some (bt, sol)"
      and v: "arrSolution t v = arrSolution s v" using assms(3) [OF cps] b by simp_all
    have "arrChoicePointStack t = (v, k) # cps" using assms(2) cps by simp
    from pop_choice_pointI [OF this b' f'] show ?thesis using s' r v by (simp add: same_stacks_def)
  qed
  then show ?thesis using assms(2) by (simp add: same_undo_def)
qed

lemma same_undo_empty:
  "arrChoicePointStack s = [] \<Longrightarrow> arrChoicePointStack t = [] \<Longrightarrow> same_undo s t"
  by (simp add: same_undo_def pop_choice_point_def)

lemma same_stacks_undo:
  assumes "same_stacks s t"
  shows "same_undo s t"
  using assms by (intro same_undoI state_undo_frame) (simp_all add: same_stacks_def)

text \<open>Assigning an unassigned variable.\<close>

lemma pop_backtrack_push:
  "sol w = None \<Longrightarrow> v \<noteq> w \<Longrightarrow>
    pop_backtrack_stack v ((w, c) # bt) (sol(w := Some b)) = pop_backtrack_stack v bt sol"
  by (simp add: fun_upd_idem)

lemma pop_backtrack_split:
  assumes "bt = pre @ (v, c) # bt'" "v \<notin> fst ` set pre"
  shows "pop_backtrack_stack v bt sol = Some (bt', \<lambda>w. if w = v \<or> w \<in> fst ` set pre then None else sol w)"
  using assms
proof (induction pre arbitrary: bt sol)
  case Nil
  then show ?case by (auto simp: fun_eq_iff)
next
  case (Cons x pre)
  obtain w d where x: "x = (w, d)" by (cases x)
  have "pop_backtrack_stack v bt sol = pop_backtrack_stack v (pre @ (v, c) # bt') (sol(w := None))"
    using Cons.prems x by (simp add: Let_def)
  also have "\<dots> = Some (bt', \<lambda>u. if u = v \<or> u \<in> fst ` set pre then None else (sol(w := None)) u)"
    using Cons.prems by (intro Cons.IH) auto
  finally show ?case by (auto simp: x fun_eq_iff)
qed

section \<open>Progress\<close>

text \<open>
  The trail as a number in base 3: a variable of an open choice counts 1, any other 2. It grows
  with every branch, inference and backtrack.
\<close>

fun progress :: "nat \<Rightarrow> nat set \<Rightarrow> (nat \<times> bool) list \<Rightarrow> nat" where
  "progress N C [] = 0"
| "progress N C ((v, c) # bt) = progress N C bt + (if v \<in> C then 1 else 2) * 3 ^ (N - 1 - length bt)"

lemma progress_append:
  "length (pre @ bt) \<le> N \<Longrightarrow> progress N C (pre @ bt) + 3 ^ (N - length (pre @ bt)) \<le> progress N C bt + 3 ^ (N - length bt)"
proof (induction pre)
  case (Cons x pre)
  obtain v c where x: "x = (v, c)" by (cases x)
  have "3 ^ (N - length (pre @ bt)) = (3::nat) * 3 ^ (N - 1 - length (pre @ bt))"
    using Cons.prems by (simp flip: power_Suc add: Suc_diff_Suc)
  moreover have "progress N C (x # pre @ bt) \<le> progress N C (pre @ bt) + 2 * 3 ^ (N - 1 - length (pre @ bt))"
    by (simp add: x)
  ultimately show ?case using Cons.IH Cons.prems by simp
qed simp

lemma progress_mono: "length (pre @ bt) \<le> N \<Longrightarrow> progress N C bt \<le> progress N C (pre @ bt)"
  by (induction pre) auto

lemma progress_bound:
  assumes "length bt \<le> N"
  shows "progress N C bt < 3 ^ N"
proof -
  have "progress N C bt + 3 ^ (N - length bt) \<le> 3 ^ N"
    using progress_append [of bt "[]" N C] assms by simp
  moreover have "0 < (3::nat) ^ (N - length bt)" by simp
  ultimately show ?thesis by linarith
qed

lemma progress_cong: "(\<And>v. v \<in> fst ` set bt \<Longrightarrow> (v \<in> C) = (v \<in> D)) \<Longrightarrow> progress N C bt = progress N D bt"
  by (induction bt) force+

lemma progress_flip:
  assumes "length (pre @ (v, c) # bt) \<le> N" "v \<in> C" "v \<notin> D" "\<And>w. w \<in> fst ` set bt \<Longrightarrow> (w \<in> C) = (w \<in> D)"
  shows "progress N C (pre @ (v, c) # bt) < progress N D ((v, d) # bt)"
proof -
  have "progress N C (pre @ (v, c) # bt) + 3 ^ (N - length (pre @ (v, c) # bt))
      \<le> progress N C ((v, c) # bt) + 3 ^ (N - length ((v, c) # bt))"
    by (rule progress_append) (use assms(1) in simp)
  moreover have "progress N C bt = progress N D bt" by (rule progress_cong) (rule assms(4))
  moreover have "0 < (3::nat) ^ (N - length (pre @ (v, c) # bt))" by simp
  moreover have "progress N C ((v, c) # bt) = progress N C bt + 3 ^ (N - length ((v, c) # bt))"
    "progress N D ((v, d) # bt) = progress N D bt + 2 * 3 ^ (N - length ((v, c) # bt))"
    using assms(2,3) by simp_all
  ultimately show ?thesis by linarith
qed

section \<open>The invariant\<close>

definition extended_by :: "(nat \<Rightarrow> bool option) \<Rightarrow> (nat \<Rightarrow> bool) \<Rightarrow> bool" where
  "extended_by r a \<longleftrightarrow> (\<forall>v b. v \<noteq> 0 \<longrightarrow> r v = Some b \<longrightarrow> a v = b)"

text \<open>The queues and marks. On level 0 nothing has to be saved.\<close>

definition queued :: "nat \<Rightarrow> 's search \<Rightarrow> bool" where
  "queued n s \<longleftrightarrow> (\<forall>i. arrChangedFn s i \<in> {0, 2, 3}) \<and>
     distinct (arrFnInfPriority s) \<and> set (arrFnInfPriority s) = {i. arrChangedFn s i = 3} \<and>
     distinct (arrFnInferenceQueue s) \<and> set (arrFnInferenceQueue s) = {i. arrChangedFn s i \<noteq> 0} \<and>
     (\<forall>i. arrChangedFn s i \<noteq> 0 \<longrightarrow> i < n) \<and> (\<forall>i. arrFnFlags s i \<le> nCurFnVersion s) \<and>
     (arrChoicePointStack s = [] \<or>
      (\<forall>i. arrChangedFn s i \<noteq> 0 \<or> arrFnFlags s i = nCurFnVersion s \<longrightarrow> i \<in> saved (arrFnStack s)))"

text \<open>A function outside the queue has no assigned variable.\<close>

definition quiet :: "'s solver_input \<Rightarrow> 's search \<Rightarrow> bool" where
  "quiet P s \<longleftrightarrow> (\<forall>i < nNumFuncs P. i \<notin> set (arrFnInfPriority s) \<longrightarrow>
     (\<forall>v \<in> set (vbles P (pCurrentState s i)). arrSolution s v = None))"

definition framed :: "'s search \<Rightarrow> 's search \<Rightarrow> bool" where
  "framed s t \<longleftrightarrow> arrChoicePointStack t = arrChoicePointStack s \<and> nCurFnVersion t = nCurFnVersion s \<and>
     solution_info t = solution_info s \<and> NUM_CHOICE_POINTS t = NUM_CHOICE_POINTS s \<and>
     NUM_BACKTRACKS t = NUM_BACKTRACKS s \<and> ERR_LIMITS t = ERR_LIMITS s"

text \<open>Steps inside a level: the trail and the second queue grow at their ends.\<close>

definition extends :: "'s search \<Rightarrow> 's search \<Rightarrow> bool" where
  "extends s t \<longleftrightarrow> framed s t \<and> same_undo s t \<and> (\<exists>pre. arrBacktrackStack t = pre @ arrBacktrackStack s) \<and>
     (\<forall>v b. arrSolution s v = Some b \<longrightarrow> arrSolution t v = Some b) \<and>
     length (arrBacktrackStack t) + length (arrInferenceQueue s) =
       length (arrBacktrackStack s) + length (arrInferenceQueue t)"

definition grows :: "'s search \<Rightarrow> 's search \<Rightarrow> bool" where
  "grows s t \<longleftrightarrow> extends s t \<and> (\<exists>m. arrFnInfPriority t = arrFnInfPriority s @ m \<and>
     (length (arrBacktrackStack t) = length (arrBacktrackStack s) \<longrightarrow> m = []))"

lemma framed_trans: "framed s t \<Longrightarrow> framed t u \<Longrightarrow> framed s u"
  by (simp add: framed_def)

lemma extends_trans: "extends s t \<Longrightarrow> extends t u \<Longrightarrow> extends s u"
  unfolding extends_def by (elim conjE exE, intro conjI) (auto intro: framed_trans same_undo_trans)

lemma extends_refl: "extends s s"
  by (simp add: extends_def framed_def same_undo_def same_stacks_def)

lemma grows_refl: "grows s s"
  by (simp add: grows_def extends_refl)

lemma extends_length: "extends s t \<Longrightarrow> length (arrBacktrackStack s) \<le> length (arrBacktrackStack t)"
  by (auto simp: extends_def)

lemma grows_trans:
  assumes "grows s t" "grows t u"
  shows "grows s u"
proof -
  obtain m m' where m: "arrFnInfPriority t = arrFnInfPriority s @ m" "arrFnInfPriority u = arrFnInfPriority t @ m'"
      "length (arrBacktrackStack t) = length (arrBacktrackStack s) \<longrightarrow> m = []"
      "length (arrBacktrackStack u) = length (arrBacktrackStack t) \<longrightarrow> m' = []"
    using assms by (auto simp: grows_def)
  have e: "extends s t" "extends t u" using assms by (simp_all add: grows_def)
  show ?thesis
    unfolding grows_def
    using m extends_trans [OF e] extends_length [OF e(1)] extends_length [OF e(2)]
    by (intro conjI exI [of _ "m @ m'"]) auto
qed

lemma grows_extends: "grows s t \<Longrightarrow> extends s t"
  by (simp add: grows_def)

text \<open>Steps inside a level that may empty the queues.\<close>

definition within :: "'s search \<Rightarrow> 's search \<Rightarrow> bool" where
  "within s t \<longleftrightarrow> framed s t \<and> same_undo s t \<and> (\<exists>pre. arrBacktrackStack t = pre @ arrBacktrackStack s) \<and>
     (\<forall>v b. arrSolution s v = Some b \<longrightarrow> arrSolution t v = Some b)"

lemma within_trans: "within s t \<Longrightarrow> within t u \<Longrightarrow> within s u"
  unfolding within_def by (elim conjE exE, intro conjI) (auto intro: framed_trans same_undo_trans)

lemma within_refl: "within s s"
  using extends_refl [of s] by (simp add: within_def extends_def)

lemma within_length: "within s t \<Longrightarrow> length (arrBacktrackStack s) \<le> length (arrBacktrackStack t)"
  by (auto simp: within_def)

lemma extends_within: "extends s t \<Longrightarrow> within s t"
  by (simp add: within_def extends_def)

lemma within_queue: "within s (s\<lparr>arrInferenceQueue := q\<rparr>)"
  by (simp add: within_def framed_def same_undoI state_undo_frame)

section \<open>Marking functions\<close>

definition marks :: "'s search \<Rightarrow> 's search \<Rightarrow> bool" where
  "marks s t \<longleftrightarrow> framed s t \<and> state_undo s t \<and> arrSolution t = arrSolution s \<and> pCurrentState t = pCurrentState s \<and>
     nNumUnresolvedFunctions t = nNumUnresolvedFunctions s \<and> arrBacktrackStack t = arrBacktrackStack s \<and>
     arrInferenceQueue t = arrInferenceQueue s \<and> (\<exists>m. arrFnInfPriority t = arrFnInfPriority s @ m)"

lemma marks_refl: "marks s s"
  by (simp add: marks_def framed_def state_undo_frame)

lemma marks_trans: "marks s t \<Longrightarrow> marks t u \<Longrightarrow> marks s u"
  unfolding marks_def by (elim conjE exE, intro conjI) (auto intro: framed_trans state_undo_trans)

lemma push_marks: "marks s (FN_STACK_PUSH i s)"
  using state_undo_push [of s i] by (simp add: marks_def framed_def FN_STACK_PUSH_def)

lemma push_fields:
  "arrFnInfPriority (FN_STACK_PUSH i s) = arrFnInfPriority s"
  "arrChangedFn (FN_STACK_PUSH i s) = arrChangedFn s"
  "arrFnInferenceQueue (FN_STACK_PUSH i s) = arrFnInferenceQueue s"
  "arrChoicePointStack (FN_STACK_PUSH i s) = arrChoicePointStack s"
  "nCurFnVersion (FN_STACK_PUSH i s) = nCurFnVersion s"
  "arrFnFlags (FN_STACK_PUSH i s) j = (if j = i then nCurFnVersion s else arrFnFlags s j)"
  "saved (arrFnStack (FN_STACK_PUSH i s)) = (if arrFnFlags s i = nCurFnVersion s then saved (arrFnStack s)
     else insert i (saved (arrFnStack s)))"
  by (auto simp: FN_STACK_PUSH_def)

lemma mark_function_ok:
  assumes q: "queued (nNumFuncs P) s" and i: "i < nNumFuncs P"
  shows "\<exists>t. mark_function P i s = Some t \<and> queued (nNumFuncs P) t \<and> marks s t \<and> i \<in> set (arrFnInfPriority t)"
proof -
  let ?c = "arrChangedFn s"
  have "?c i \<in> {0, 2, 3}" using q by (simp add: queued_def)
  then consider "?c i = 3" | "?c i = 2" | "?c i = 0" by auto
  then show ?thesis
  proof cases
    case 1
    then have "mark_function P i s = Some s" "i \<in> set (arrFnInfPriority s)"
      using q by (simp_all add: mark_function_def queued_def)
    then show ?thesis using q marks_refl by blast
  next
    case 2
    let ?t = "s\<lparr>arrFnInfPriority := arrFnInfPriority s @ [i], arrChangedFn := (arrChangedFn s)(i := 3)\<rparr>"
    have "mark_function P i s = Some ?t" using 2 by (simp add: mark_function_def)
    moreover have "marks s ?t" by (simp add: marks_def framed_def state_undo_frame)
    moreover have "queued (nNumFuncs P) ?t" using q 2 by (auto simp: queued_def)
    ultimately show ?thesis by auto
  next
    case 3
    let ?u = "(FN_STACK_PUSH i s)\<lparr>arrFnInferenceQueue := arrFnInferenceQueue s @ [i]\<rparr>"
    let ?t = "?u\<lparr>arrFnInfPriority := arrFnInfPriority s @ [i], arrChangedFn := (arrChangedFn s)(i := 3)\<rparr>"
    have i': "i \<notin> set (arrFnInferenceQueue s)" using q 3 by (simp add: queued_def)
    have "set (i # arrFnInferenceQueue s) \<subseteq> {..<nNumFuncs P}" "distinct (i # arrFnInferenceQueue s)"
      using q i i' by (auto simp: queued_def)
    then have "length (i # arrFnInferenceQueue s) \<le> nNumFuncs P"
      using card_mono [of "{..<nNumFuncs P}" "set (i # arrFnInferenceQueue s)"] distinct_card [of "i # arrFnInferenceQueue s"]
      by simp
    then have "mark_function P i s = Some ?t"
      using 3 by (simp add: mark_function_def push_fields)
    moreover have "marks s ?t"
    proof (rule marks_trans [OF push_marks [of s i]])
      show "marks (FN_STACK_PUSH i s) ?t"
        by (simp add: marks_def framed_def state_undo_frame push_fields)
    qed
    moreover have "queued (nNumFuncs P) ?t"
      using q 3 i i' by (auto simp: queued_def push_fields)
    ultimately show ?thesis by auto
  qed
qed

lemma mark_functions_ok:
  "queued (nNumFuncs P) s \<Longrightarrow> set js \<subseteq> {..<nNumFuncs P} \<Longrightarrow>
    \<exists>t. mark_functions P js s = Some t \<and> queued (nNumFuncs P) t \<and> marks s t \<and> set js \<subseteq> set (arrFnInfPriority t)"
proof (induction js arbitrary: s)
  case (Cons i js)
  from mark_function_ok [OF Cons.prems(1), of i] Cons.prems(2)
  obtain t where t: "mark_function P i s = Some t" "queued (nNumFuncs P) t" "marks s t" "i \<in> set (arrFnInfPriority t)"
    by auto
  from Cons.IH [OF t(2)] Cons.prems(2) obtain u where u: "mark_functions P js t = Some u" "queued (nNumFuncs P) u" "marks t u"
      "set js \<subseteq> set (arrFnInfPriority u)" by auto
  have "i \<in> set (arrFnInfPriority u)" using t(4) u(3) by (auto simp: marks_def)
  then show ?case using t u marks_trans [OF t(3) u(3)] by simp
qed (simp add: marks_refl)

section \<open>The contract of the state machines\<close>

text \<open>
  \<open>F g a\<close>: assignment \<open>a\<close> satisfies what state \<open>g\<close> stands for. \<open>init\<close> are the states of the
  functions at the start, over the variables \<open>1, \<dots>, N - 1\<close>.
\<close>

locale smurf_search =
  fixes P :: "'s solver_input" and F :: "'s \<Rightarrow> (nat \<Rightarrow> bool) \<Rightarrow> bool" and good :: "'s \<Rightarrow> bool"
    and init :: "nat \<Rightarrow> 's" and N :: nat
  assumes true_state: "F (pTrueSmurfState P) a" "vbles P (pTrueSmurfState P) = []"
    and open_state: "good g \<Longrightarrow> g \<noteq> pTrueSmurfState P \<Longrightarrow> vbles P g \<noteq> []"
    and transition: "good g \<Longrightarrow> v \<in> set (vbles P g) \<Longrightarrow> FindTransition P g v b = (pos, neg, h) \<Longrightarrow>
      good h \<and> set (vbles P h) \<subseteq> set (vbles P g) - {v} \<and> set pos \<union> set neg \<subseteq> set (vbles P g) - {v} \<and>
      (\<forall>a. a v = b \<longrightarrow> F g a = ((\<forall>p \<in> set pos. a p) \<and> (\<forall>q \<in> set neg. \<not> a q) \<and> F h a))"
    and initial: "i < nNumFuncs P \<Longrightarrow> good (init i) \<and> init i \<noteq> pTrueSmurfState P \<and> set (vbles P (init i)) \<subseteq> {1..<N}"
    and affected: "i \<in> set (arrAFS P v) \<longleftrightarrow> i < nNumFuncs P \<and> v \<in> set (vbles P (init i))"

definition satisfies_all :: "'s solver_input \<Rightarrow> ('s \<Rightarrow> (nat \<Rightarrow> bool) \<Rightarrow> bool) \<Rightarrow> (nat \<Rightarrow> 's) \<Rightarrow> (nat \<Rightarrow> bool) \<Rightarrow> bool" where
  "satisfies_all P F init a \<longleftrightarrow> (\<forall>i < nNumFuncs P. F (init i) a)"

text \<open>A state stands for its function under the assignment so far.\<close>

definition current_ok :: "'s solver_input \<Rightarrow> ('s \<Rightarrow> (nat \<Rightarrow> bool) \<Rightarrow> bool) \<Rightarrow> ('s \<Rightarrow> bool) \<Rightarrow> (nat \<Rightarrow> 's) \<Rightarrow>
    's search \<Rightarrow> nat \<Rightarrow> bool" where
  "current_ok P F good init s i \<longleftrightarrow> good (pCurrentState s i) \<and>
     set (vbles P (pCurrentState s i)) \<subseteq> set (vbles P (init i)) \<and>
     (\<forall>a. extended_by (arrSolution s) a \<longrightarrow> F (pCurrentState s i) a = F (init i) a)"

definition trail_ok :: "nat \<Rightarrow> 's search \<Rightarrow> bool" where
  "trail_ok N s \<longleftrightarrow> distinct (map fst (arrBacktrackStack s)) \<and> fst ` set (arrBacktrackStack s) \<subseteq> {1..<N} \<and>
     (\<forall>v. arrSolution s v \<noteq> None \<longleftrightarrow> v = 0 \<or> v \<in> fst ` set (arrBacktrackStack s)) \<and>
     fst ` set (arrChoicePointStack s) \<subseteq> fst ` set (arrBacktrackStack s)"

definition base :: "'s solver_input \<Rightarrow> ('s \<Rightarrow> (nat \<Rightarrow> bool) \<Rightarrow> bool) \<Rightarrow> ('s \<Rightarrow> bool) \<Rightarrow> (nat \<Rightarrow> 's) \<Rightarrow> nat \<Rightarrow> 's search \<Rightarrow> bool" where
  "base P F good init N s \<longleftrightarrow> (\<forall>i < nNumFuncs P. current_ok P F good init s i) \<and> trail_ok N s \<and>
     nNumUnresolvedFunctions s = int (card {i. i < nNumFuncs P \<and> pCurrentState s i \<noteq> pTrueSmurfState P})"

lemma extended_byD: "extended_by r a \<Longrightarrow> r v = Some b \<Longrightarrow> v \<noteq> 0 \<Longrightarrow> a v = b"
  by (simp add: extended_by_def)

lemma extended_by_upd:
  assumes "v \<noteq> 0" "r v = None"
  shows "extended_by (r(v := Some b)) a \<longleftrightarrow> extended_by r a \<and> a v = b"
proof
  assume a: "extended_by (r(v := Some b)) a"
  have "a w = d" if "w \<noteq> 0" "r w = Some d" for w d
  proof -
    have "w \<noteq> v" using that assms(2) by auto
    with that show ?thesis using extended_byD [OF a, of w d] by simp
  qed
  then show "extended_by r a \<and> a v = b" using extended_byD [OF a, of v b] assms(1) by (simp add: extended_by_def)
next
  assume a: "extended_by r a \<and> a v = b"
  have "a w = d" if "w \<noteq> 0" "(r(v := Some b)) w = Some d" for w d
    using that a extended_byD [of r a w d] by (cases "w = v") simp_all
  then show "extended_by (r(v := Some b)) a" unfolding extended_by_def by blast
qed

lemma trail_length:
  assumes "trail_ok N s"
  shows "length (arrBacktrackStack s) \<le> N"
proof -
  have "card (fst ` set (arrBacktrackStack s)) \<le> card {1..<N}"
    by (rule card_mono) (use assms in \<open>simp_all add: trail_ok_def\<close>)
  moreover have "card (fst ` set (arrBacktrackStack s)) = length (arrBacktrackStack s)"
    using assms distinct_card [of "map fst (arrBacktrackStack s)"] by (simp add: trail_ok_def)
  ultimately show ?thesis by simp
qed

lemma trail_choice: "trail_ok N s \<Longrightarrow> p \<in> set (arrChoicePointStack s) \<Longrightarrow> arrSolution s (fst p) \<noteq> None"
  by (auto simp: trail_ok_def)

lemma trail_assign:
  assumes "trail_ok N s" "v \<in> {1..<N}" "arrSolution s v = None"
    "arrSolution t = (arrSolution s)(v := Some b)" "arrBacktrackStack t = (v, c) # arrBacktrackStack s"
    "fst ` set (arrChoicePointStack t) \<subseteq> insert v (fst ` set (arrChoicePointStack s))"
  shows "trail_ok N t"
proof -
  have v: "v \<notin> fst ` set (arrBacktrackStack s)" using assms(1,3) unfolding trail_ok_def by blast
  have "fst ` set (arrChoicePointStack t) \<subseteq> fst ` set (arrBacktrackStack t)"
    using assms(6) assms(1) unfolding assms(5) trail_ok_def by (simp add: subset_insertI2 order_trans [OF assms(6)])
  then show ?thesis using assms(1-5) v by (simp add: trail_ok_def)
qed

section \<open>Inferring a literal\<close>

text \<open>What \<open>InferLiteral\<close> does to a state in the middle of a level.\<close>

definition inferred :: "'s solver_input \<Rightarrow> nat \<Rightarrow> bool \<Rightarrow> bool \<Rightarrow> 's search \<Rightarrow> 's search \<Rightarrow> bool" where
  "inferred P v b c s t \<longleftrightarrow> arrSolution t = (arrSolution s)(v := Some b) \<and>
     arrBacktrackStack t = (v, c) # arrBacktrackStack s \<and> arrInferenceQueue t = arrInferenceQueue s @ [v] \<and>
     pCurrentState t = pCurrentState s \<and> nNumUnresolvedFunctions t = nNumUnresolvedFunctions s \<and>
     framed s t \<and> state_undo s t \<and> queued (nNumFuncs P) t \<and> (\<exists>m. arrFnInfPriority t = arrFnInfPriority s @ m) \<and>
     set (arrAFS P v) \<subseteq> set (arrFnInfPriority t)"

lemma InferLiteral_marks:
  assumes "queued (nNumFuncs P) s" "set (arrAFS P v) \<subseteq> {..<nNumFuncs P}" "arrSolution s v = None"
  obtains t where "InferLiteral P v b c s = Some (t\<lparr>arrSolution := (arrSolution s)(v := Some b),
      arrInferenceQueue := arrInferenceQueue s @ [v], arrBacktrackStack := (v, c) # arrBacktrackStack s\<rparr>)"
    "queued (nNumFuncs P) t" "marks s t" "set (arrAFS P v) \<subseteq> set (arrFnInfPriority t)"
proof -
  from mark_functions_ok [OF assms(1,2)] obtain t where t: "mark_functions P (arrAFS P v) s = Some t"
      "queued (nNumFuncs P) t" "marks s t" "set (arrAFS P v) \<subseteq> set (arrFnInfPriority t)" by blast
  have f: "arrSolution t = arrSolution s" "arrInferenceQueue t = arrInferenceQueue s"
      "arrBacktrackStack t = arrBacktrackStack s" using t(3) by (simp_all add: marks_def)
  show thesis
    by (rule that [of t]) (use t f assms(3) in \<open>simp_all add: InferLiteral_def\<close>)
qed

text \<open>
  A step with the result \<open>c\<close> (a conflict) loses nothing: an assignment that satisfies all functions
  and agrees with the state before agrees with the one after it, and there is no conflict then.
\<close>

definition no_loss :: "'s solver_input \<Rightarrow> ('s \<Rightarrow> (nat \<Rightarrow> bool) \<Rightarrow> bool) \<Rightarrow> (nat \<Rightarrow> 's) \<Rightarrow> 's search \<Rightarrow> bool \<Rightarrow> 's search \<Rightarrow> bool" where
  "no_loss P F init s c t \<longleftrightarrow> (\<forall>a. satisfies_all P F init a \<longrightarrow> extended_by (arrSolution s) a \<longrightarrow>
     \<not> c \<and> extended_by (arrSolution t) a)"

lemma no_loss_refl: "no_loss P F init s False s"
  by (simp add: no_loss_def)

lemma no_loss_trans: "no_loss P F init s False t \<Longrightarrow> no_loss P F init t c u \<Longrightarrow> no_loss P F init s c u"
  by (simp add: no_loss_def)

context smurf_search
begin

abbreviation "good_base \<equiv> base P F good init N"
abbreviation "Sat \<equiv> satisfies_all P F init"

lemma base_length: "good_base s \<Longrightarrow> length (arrBacktrackStack s) \<le> N"
  by (rule trail_length) (simp add: base_def)

lemma affected_range: "set (arrAFS P v) \<subseteq> {..<nNumFuncs P}"
  using affected by auto

lemma vbles_range:
  assumes "\<forall>i < nNumFuncs P. current_ok P F good init s i" "i < nNumFuncs P" "v \<in> set (vbles P (pCurrentState s i))"
  shows "v \<in> {1..<N}" "i \<in> set (arrAFS P v)"
  using assms initial [OF assms(2)] affected [of i v] by (auto simp: current_ok_def)

lemma InferLiteral_inferred:
  assumes "queued (nNumFuncs P) s" "arrSolution s v = None"
  shows "\<exists>t. InferLiteral P v b c s = Some t \<and> inferred P v b c s t"
proof -
  from InferLiteral_marks [OF assms(1) affected_range assms(2), of b c]
  obtain t where t: "InferLiteral P v b c s = Some (t\<lparr>arrSolution := (arrSolution s)(v := Some b),
      arrInferenceQueue := arrInferenceQueue s @ [v], arrBacktrackStack := (v, c) # arrBacktrackStack s\<rparr>)"
    "queued (nNumFuncs P) t" "marks s t" "set (arrAFS P v) \<subseteq> set (arrFnInfPriority t)" .
  let ?u = "t\<lparr>arrSolution := (arrSolution s)(v := Some b),
      arrInferenceQueue := arrInferenceQueue s @ [v], arrBacktrackStack := (v, c) # arrBacktrackStack s\<rparr>"
  have "state_undo s ?u"
    by (rule state_undo_trans [of _ t]) (use t(3) in \<open>simp_all add: marks_def state_undo_frame\<close>)
  moreover have "queued (nNumFuncs P) ?u" using t(2) by (simp add: queued_def)
  ultimately have "inferred P v b c s ?u" using t(3,4) by (simp add: inferred_def marks_def framed_def)
  then show ?thesis using t(1) by blast
qed

lemma assigned_base:
  assumes "good_base s" "v \<in> {1..<N}" "arrSolution s v = None"
    and t: "arrSolution t = (arrSolution s)(v := Some b)" "arrBacktrackStack t = (v, c) # arrBacktrackStack s"
      "pCurrentState t = pCurrentState s" "nNumUnresolvedFunctions t = nNumUnresolvedFunctions s"
      "fst ` set (arrChoicePointStack t) \<subseteq> insert v (fst ` set (arrChoicePointStack s))"
  shows "good_base t"
proof -
  have "trail_ok N t"
    by (rule trail_assign [OF _ assms(2,3) t(1,2,5)]) (use assms(1) in \<open>simp add: base_def\<close>)
  moreover have "extended_by (arrSolution t) a \<Longrightarrow> extended_by (arrSolution s) a" for a
    using assms(2,3) t(1) by (simp add: extended_by_upd)
  ultimately show ?thesis using assms(1) t(3,4) unfolding base_def current_ok_def by simp
qed

lemma inferred_base:
  assumes "good_base s" "v \<in> {1..<N}" "arrSolution s v = None" "inferred P v b c s t"
  shows "good_base t"
  by (rule assigned_base [OF assms(1-3)]) (use assms(4) in \<open>auto simp: inferred_def framed_def\<close>)

lemma inferred_quiet:
  assumes "\<forall>i < nNumFuncs P. current_ok P F good init s i" "quiet P s" "inferred P v b c s t"
  shows "quiet P t"
  unfolding quiet_def
proof (intro allI impI ballI)
  fix i w assume i: "i < nNumFuncs P" "i \<notin> set (arrFnInfPriority t)" "w \<in> set (vbles P (pCurrentState t i))"
  have w: "w \<in> set (vbles P (pCurrentState s i))" using i(3) assms(3) by (simp add: inferred_def)
  have "i \<notin> set (arrAFS P v)" "i \<notin> set (arrFnInfPriority s)" using i(2) assms(3) by (auto simp: inferred_def)
  then have "w \<noteq> v" "arrSolution s w = None"
    using vbles_range(2) [OF assms(1) i(1) w] assms(2) i(1) w unfolding quiet_def by auto
  then show "arrSolution t w = None" using assms(3) by (simp add: inferred_def)
qed

lemma inferred_grows:
  assumes "good_base s" "arrSolution s v = None" "inferred P v b c s t"
  shows "grows s t"
proof -
  have cp: "arrSolution s w \<noteq> None" if "arrChoicePointStack s = (w, k) # cps" for w k cps
    using assms(1) that by (auto simp: base_def trail_ok_def)
  have "same_undo s t"
  proof (rule same_undoI)
    fix w k cps assume "arrChoicePointStack s = (w, k) # cps"
    then have "w \<noteq> v" using cp assms(2) by auto
    then show "pop_backtrack_stack w (arrBacktrackStack t) (arrSolution t) =
        pop_backtrack_stack w (arrBacktrackStack s) (arrSolution s) \<and> arrSolution t w = arrSolution s w"
      using assms(2,3) by (simp add: inferred_def fun_upd_idem)
  qed (use assms(3) in \<open>simp_all add: inferred_def framed_def\<close>)
  moreover have "arrBacktrackStack t = [(v, c)] @ arrBacktrackStack s" using assms(3) by (simp add: inferred_def)
  ultimately show ?thesis
    using assms(2,3) unfolding grows_def extends_def inferred_def by auto
qed

text \<open>The state between two steps of a level.\<close>

abbreviation "sound s \<equiv> good_base s \<and> queued (nNumFuncs P) s \<and> quiet P s"

lemma InferLiteral_ok:
  assumes "sound s" "v \<in> {1..<N}" "arrSolution s v = None"
  shows "\<exists>t. InferLiteral P v b c s = Some t \<and> sound t \<and> grows s t \<and> pCurrentState t = pCurrentState s \<and>
    nNumUnresolvedFunctions t = nNumUnresolvedFunctions s \<and> arrSolution t = (arrSolution s)(v := Some b)"
proof -
  from InferLiteral_inferred assms obtain t where t: "InferLiteral P v b c s = Some t" "inferred P v b c s t" by blast
  then show ?thesis
    using inferred_base [OF _ assms(2,3) t(2)] inferred_quiet [OF _ _ t(2)] inferred_grows [OF _ assms(3) t(2)] assms(1)
    by (auto simp: inferred_def base_def [of P F good init N s])
qed

section \<open>Updating a function\<close>

text \<open>
  The inferences of a list are entered, and conflict is reported only where they do not hold of any
  assignment that is left.
\<close>

lemma CheckSmurfInferences_ok:
  "sound s \<Longrightarrow> set js \<subseteq> {1..<N} \<Longrightarrow>
    \<exists>c t. CheckSmurfInferences P js value s = Some (c, t) \<and> sound t \<and> grows s t \<and> pCurrentState t = pCurrentState s \<and>
      nNumUnresolvedFunctions t = nNumUnresolvedFunctions s \<and>
      (\<forall>a. (\<forall>j \<in> set js. a j = value) \<longrightarrow> extended_by (arrSolution s) a \<longrightarrow> \<not> c \<and> extended_by (arrSolution t) a) \<and>
      (\<not> c \<longrightarrow> (\<forall>j \<in> set js. arrSolution t j = Some value))"
proof (induction js arbitrary: s)
  case (Cons j js)
  have j: "j \<in> {1..<N}" "j \<noteq> 0" using Cons.prems(2) by auto
  show ?case
  proof (cases "arrSolution s j")
    case None
    from InferLiteral_ok [OF Cons.prems(1) j(1) None] obtain u where u: "InferLiteral P j value False s = Some u" "sound u"
        "grows s u" "pCurrentState u = pCurrentState s" "nNumUnresolvedFunctions u = nNumUnresolvedFunctions s"
        "arrSolution u = (arrSolution s)(j := Some value)" by blast
    from Cons.IH [OF u(2)] Cons.prems(2) obtain c t where t: "CheckSmurfInferences P js value u = Some (c, t)" "sound t" "grows u t"
        "pCurrentState t = pCurrentState u" "nNumUnresolvedFunctions t = nNumUnresolvedFunctions u"
        "\<And>a. \<forall>j \<in> set js. a j = value \<Longrightarrow> extended_by (arrSolution u) a \<Longrightarrow> \<not> c \<and> extended_by (arrSolution t) a"
        "\<not> c \<Longrightarrow> \<forall>j \<in> set js. arrSolution t j = Some value" by auto
    have "arrSolution t j = Some value" using grows_extends [OF t(3)] u(6) by (simp add: extends_def)
    moreover have "extended_by (arrSolution u) a" if "a j = value" "extended_by (arrSolution s) a" for a
      using extended_by_upd [of j "arrSolution s" _ a] j(2) None that u(6) by simp
    moreover have "CheckSmurfInferences P (j # js) value s = Some (c, t)" using None u(1) t(1) by simp
    ultimately show ?thesis
      using t(2,4-7) u(4,5) grows_trans [OF u(3) t(3)] by (intro exI [of _ c] exI [of _ t]) auto
  next
    case (Some b)
    show ?thesis
    proof (cases "b = value")
      case True
      from Cons.IH [OF Cons.prems(1)] Cons.prems(2) obtain c t where t: "CheckSmurfInferences P js value s = Some (c, t)" "sound t"
        "grows s t" "pCurrentState t = pCurrentState s" "nNumUnresolvedFunctions t = nNumUnresolvedFunctions s"
        "\<And>a. \<forall>j \<in> set js. a j = value \<Longrightarrow> extended_by (arrSolution s) a \<Longrightarrow> \<not> c \<and> extended_by (arrSolution t) a"
        "\<not> c \<Longrightarrow> \<forall>j \<in> set js. arrSolution t j = Some value" by auto
      have "arrSolution t j = Some value" using grows_extends [OF t(3)] Some True by (simp add: extends_def)
      then show ?thesis using t Some True by (intro exI [of _ c] exI [of _ t]) auto
    next
      case False
      have "a j = b" if "extended_by (arrSolution s) a" for a using extended_byD [OF that Some j(2)] .
      then show ?thesis
        using Some False Cons.prems(1) grows_refl by (intro exI [of _ True] exI [of _ s]) auto
    qed
  qed
qed (auto simp: grows_refl)

text \<open>The step of a function to the next state, once the inferences of the transition are entered.\<close>

lemma next_state_ok:
  assumes inv: "sound s" and i: "i < nNumFuncs P" "i \<in> set (arrFnInfPriority s)" and g: "pCurrentState s i \<noteq> pTrueSmurfState P"
    and h: "current_ok P F good init (s\<lparr>pCurrentState := (pCurrentState s)(i := h)\<rparr>) i"
    and t: "t = s\<lparr>pCurrentState := (pCurrentState s)(i := h),
      nNumUnresolvedFunctions := nNumUnresolvedFunctions s - (if h = pTrueSmurfState P then 1 else 0)\<rparr>"
  shows "sound t \<and> grows s t"
proof -
  let ?open = "\<lambda>s. {j. j < nNumFuncs P \<and> pCurrentState s j \<noteq> pTrueSmurfState P}"
  have "int (card (?open t)) = int (card (?open s)) - (if h = pTrueSmurfState P then 1 else 0)"
  proof (cases "h = pTrueSmurfState P")
    case True
    then have "?open t = ?open s - {i}" using t by auto
    moreover have "i \<in> ?open s" using i(1) g by simp
    moreover have "0 < card (?open s)" using i(1) g by (auto simp: card_gt_0_iff)
    ultimately show ?thesis using True by (simp add: of_nat_diff)
  next
    case False
    then have "?open t = ?open s" using t g by auto
    then show ?thesis using False by simp
  qed
  moreover have "current_ok P F good init t j" if "j < nNumFuncs P" for j
    using that h inv t by (cases "j = i") (auto simp: base_def current_ok_def)
  ultimately have "good_base t" using inv t by (simp add: base_def trail_ok_def)
  moreover have "queued (nNumFuncs P) t" using inv t by (simp add: queued_def)
  moreover have "quiet P t" using inv t i(2) by (auto simp: quiet_def)
  moreover have "same_undo s t"
  proof (cases "arrChoicePointStack s = []")
    case True
    then show ?thesis using t by (simp add: same_undo_empty)
  next
    case False
    then have "i \<in> saved (arrFnStack s)" using inv i(2) by (simp add: queued_def)
    then show ?thesis unfolding t by (intro same_undoI state_undo_state) simp_all
  qed
  ultimately show ?thesis using t by (simp add: grows_def extends_def framed_def)
qed

lemma extends_back: "extends s t \<Longrightarrow> extended_by (arrSolution t) a \<Longrightarrow> extended_by (arrSolution s) a"
  unfolding extended_by_def extends_def by (elim conjE, intro allI impI) blast

text \<open>
  One transition: its inferences and the next state. What is left of the assignments still satisfies
  the function.
\<close>

lemma transition_ok:
  assumes s: "sound s" and i: "i < nNumFuncs P" "i \<in> set (arrFnInfPriority s)"
    and v: "v \<in> set (vbles P (pCurrentState s i))" "arrSolution s v = Some b"
    and tr: "FindTransition P (pCurrentState s i) v b = (pos, neg, h)"
  shows "(\<exists>u. CheckSmurfInferences P pos True s = Some (True, u) \<and> sound u \<and> grows s u \<and>
      (\<forall>a. F (pCurrentState s i) a \<longrightarrow> \<not> extended_by (arrSolution s) a)) \<or>
    (\<exists>u c t. CheckSmurfInferences P pos True s = Some (False, u) \<and> CheckSmurfInferences P neg False u = Some (c, t) \<and>
      sound t \<and> grows s t \<and> pCurrentState t = pCurrentState s \<and>
      (\<forall>a. F (pCurrentState s i) a \<longrightarrow> extended_by (arrSolution s) a \<longrightarrow> \<not> c \<and> extended_by (arrSolution t) a) \<and>
      (\<not> c \<longrightarrow> current_ok P F good init (t\<lparr>pCurrentState := (pCurrentState t)(i := h)\<rparr>) i))"
proof -
  let ?g = "pCurrentState s i"
  have g: "current_ok P F good init s i" using s i(1) by (simp add: base_def)
  then have "good ?g" by (simp add: current_ok_def)
  from transition [OF this v(1) tr] have tr: "good h" "set (vbles P h) \<subseteq> set (vbles P ?g) - {v}"
      "set pos \<union> set neg \<subseteq> set (vbles P ?g) - {v}"
      "\<And>a. a v = b \<Longrightarrow> F ?g a = ((\<forall>p \<in> set pos. a p) \<and> (\<forall>q \<in> set neg. \<not> a q) \<and> F h a)"
    by (elim conjE, simp_all)
  have rng: "set (vbles P ?g) \<subseteq> {1..<N}" using vbles_range(1) [of s i] s i(1) by (auto simp: base_def)
  have v0: "v \<noteq> 0" using rng v(1) by auto
  have F: "F ?g a = ((\<forall>p \<in> set pos. a p) \<and> (\<forall>q \<in> set neg. \<not> a q) \<and> F h a)" if "extended_by (arrSolution s) a" for a
    by (rule tr(4)) (rule extended_byD [OF that v(2) v0])
  have pn: "set pos \<subseteq> {1..<N}" "set neg \<subseteq> {1..<N}" using tr(3) rng by auto
  from CheckSmurfInferences_ok [OF s pn(1), of True]
  obtain c u where u: "CheckSmurfInferences P pos True s = Some (c, u)" "sound u" "grows s u" "pCurrentState u = pCurrentState s"
      "\<forall>a. (\<forall>j \<in> set pos. a j = True) \<longrightarrow> extended_by (arrSolution s) a \<longrightarrow> \<not> c \<and> extended_by (arrSolution u) a"
      "\<not> c \<longrightarrow> (\<forall>j \<in> set pos. arrSolution u j = Some True)" by blast
  show ?thesis
  proof (cases c)
    case True
    have "\<not> extended_by (arrSolution s) a" if "F ?g a" for a
    proof
      assume a: "extended_by (arrSolution s) a"
      have "\<forall>j \<in> set pos. a j = True" using F [OF a] that by simp
      then show False using u(5) a True by blast
    qed
    then have "\<forall>a. F ?g a \<longrightarrow> \<not> extended_by (arrSolution s) a" by blast
    then show ?thesis using u(1-3) True by (intro disjI1 exI [of _ u]) simp
  next
    case False
    from CheckSmurfInferences_ok [OF u(2) pn(2), of False]
    obtain d t where t: "CheckSmurfInferences P neg False u = Some (d, t)" "sound t" "grows u t" "pCurrentState t = pCurrentState u"
        "\<forall>a. (\<forall>j \<in> set neg. a j = False) \<longrightarrow> extended_by (arrSolution u) a \<longrightarrow> \<not> d \<and> extended_by (arrSolution t) a"
        "\<not> d \<longrightarrow> (\<forall>j \<in> set neg. arrSolution t j = Some False)" by blast
    have st: "extended_by (arrSolution s) a" if "extended_by (arrSolution t) a" for a
      by (rule extends_back [OF grows_extends [OF grows_trans [OF u(3) t(3)]] that])
    have "current_ok P F good init (t\<lparr>pCurrentState := (pCurrentState t)(i := h)\<rparr>) i" if "\<not> d"
    proof -
      have "F h a = F (init i) a" if a: "extended_by (arrSolution t) a" for a
      proof -
        have "a p" if "p \<in> set pos" for p
        proof -
          have "arrSolution t p = Some True"
            using u(6) False that grows_extends [OF t(3)] by (simp add: extends_def)
          moreover have "p \<noteq> 0" using pn(1) that by auto
          ultimately show ?thesis using extended_byD [OF a] by blast
        qed
        moreover have "\<not> a q" if "q \<in> set neg" for q
        proof -
          have "arrSolution t q = Some False" using t(6) \<open>\<not> d\<close> that by blast
          moreover have "q \<noteq> 0" using pn(2) that by auto
          ultimately show ?thesis using extended_byD [OF a] by blast
        qed
        ultimately have "F ?g a = F h a" using F [OF st [OF a]] by simp
        then show ?thesis using g st [OF a] by (simp add: current_ok_def)
      qed
      then show ?thesis using tr(1,2) g unfolding current_ok_def by auto
    qed
    moreover have "grows s t" by (rule grows_trans [OF u(3) t(3)])
    moreover have "\<not> d \<and> extended_by (arrSolution t) a" if "F ?g a" "extended_by (arrSolution s) a" for a
    proof -
      have "\<forall>j \<in> set pos. a j = True" "\<forall>j \<in> set neg. a j = False" using F [OF that(2)] that(1) by simp_all
      then show ?thesis using u(5) t(5) that(2) by blast
    qed
    ultimately show ?thesis
      using u(1,4) t(1,2,4) False by (intro disjI2 exI [of _ u] exI [of _ d] exI [of _ t]) simp
  qed
qed

lemma UpdateRegularSmurf_ok:
  "sound s \<Longrightarrow> i < nNumFuncs P \<Longrightarrow> i \<in> set (arrFnInfPriority s) \<Longrightarrow> pCurrentState s i \<noteq> pTrueSmurfState P \<Longrightarrow>
    \<exists>c t. UpdateRegularSmurf P i s = Some (c, t) \<and> sound t \<and> grows s t \<and>
      (\<forall>a. F (pCurrentState s i) a \<longrightarrow> extended_by (arrSolution s) a \<longrightarrow> \<not> c \<and> extended_by (arrSolution t) a) \<and>
      (\<not> c \<longrightarrow> (\<forall>v \<in> set (vbles P (pCurrentState t i)). arrSolution t v = None))"
proof (induction "card (set (vbles P (pCurrentState s i)))" arbitrary: s rule: less_induct)
  case less
  let ?g = "pCurrentState s i"
  let ?find = "find (\<lambda>v. arrSolution s v \<noteq> None) (vbles P ?g)"
  show ?case
  proof (cases ?find)
    case None
    then have "\<forall>v \<in> set (vbles P ?g). arrSolution s v = None" by (simp add: find_None_iff)
    moreover have "UpdateRegularSmurf P i s = Some (False, s)" using None by (subst UpdateRegularSmurf.simps) simp
    ultimately show ?thesis using less.prems(1) grows_refl by (intro exI [of _ False] exI [of _ s]) blast
  next
    case (Some v)
    then have v: "v \<in> set (vbles P ?g)" "arrSolution s v \<noteq> None" by (auto simp: find_Some_iff)
    then obtain b where b: "arrSolution s v = Some b" by blast
    obtain pos neg h where tr: "FindTransition P ?g v b = (pos, neg, h)" by (cases "FindTransition P ?g v b")
    have unf: "UpdateRegularSmurf P i s = do {
         (conflict, s) \<leftarrow> CheckSmurfInferences P pos True s;
         if conflict then Some (True, s)
         else do {
           (conflict, s) \<leftarrow> CheckSmurfInferences P neg False s;
           if conflict then Some (True, s)
           else let s = s\<lparr>pCurrentState := (pCurrentState s)(i := h)\<rparr> in
             if h = pTrueSmurfState P
             then Some (False, s\<lparr>nNumUnresolvedFunctions := nNumUnresolvedFunctions s - 1\<rparr>)
             else UpdateRegularSmurf P i s } }"
      using Some b tr by (subst UpdateRegularSmurf.simps) simp
    from transition_ok [OF less.prems(1,2,3) v(1) b tr] show ?thesis
    proof (elim disjE exE conjE)
      fix u assume "CheckSmurfInferences P pos True s = Some (True, u)" "good_base u" "queued (nNumFuncs P) u" "quiet P u" "grows s u"
        "\<forall>a. F ?g a \<longrightarrow> \<not> extended_by (arrSolution s) a"
      then show ?thesis unfolding unf by (intro exI [of _ True] exI [of _ u]) simp
    next
      fix u c t assume C: "CheckSmurfInferences P pos True s = Some (False, u)" "CheckSmurfInferences P neg False u = Some (c, t)"
        and t: "good_base t" "queued (nNumFuncs P) t" "quiet P t" "grows s t" "pCurrentState t = pCurrentState s"
          "\<forall>a. F ?g a \<longrightarrow> extended_by (arrSolution s) a \<longrightarrow> \<not> c \<and> extended_by (arrSolution t) a"
          "\<not> c \<longrightarrow> current_ok P F good init (t\<lparr>pCurrentState := (pCurrentState t)(i := h)\<rparr>) i"
      show ?thesis
      proof (cases c)
        case True
        then show ?thesis using C t unfolding unf by (intro exI [of _ True] exI [of _ t]) simp
      next
        case False
        let ?t = "t\<lparr>pCurrentState := (pCurrentState t)(i := h),
          nNumUnresolvedFunctions := nNumUnresolvedFunctions t - (if h = pTrueSmurfState P then 1 else 0)\<rparr>"
        have it: "i \<in> set (arrFnInfPriority t)" using t(4) less.prems(3) by (auto simp: grows_def)
        have nx: "sound ?t \<and> grows t ?t"
          by (rule next_state_ok [OF _ less.prems(2) it _ _ refl]) (use t False less.prems(4) in simp_all)
        have st: "grows s ?t" using grows_trans [OF t(4)] nx by blast
        have F: "F h a" if "F ?g a" "extended_by (arrSolution s) a" for a
        proof -
          have "extended_by (arrSolution t) a" using t(6) that by blast
          then have "F h a = F (init i) a" using t(7) False by (simp add: current_ok_def)
          moreover have "F ?g a = F (init i) a" using less.prems(1,2) that(2) by (simp add: base_def current_ok_def)
          ultimately show ?thesis using that(1) by simp
        qed
        show ?thesis
        proof (cases "h = pTrueSmurfState P")
          case True
          then have "UpdateRegularSmurf P i s = Some (False, ?t)" using C False unfolding unf by simp
          moreover have "vbles P (pCurrentState ?t i) = []" using True true_state(2) by simp
          ultimately show ?thesis using nx st t(6) False by (intro exI [of _ False] exI [of _ ?t]) simp
        next
          case h: False
          have eq: "?t = t\<lparr>pCurrentState := (pCurrentState t)(i := h)\<rparr>" using h by simp
          have run: "UpdateRegularSmurf P i s = UpdateRegularSmurf P i ?t" using C False h unfolding unf eq by simp
          have "good ?g" using less.prems(1,2) by (simp add: base_def current_ok_def)
          from transition [OF this v(1) tr] have "set (vbles P h) \<subseteq> set (vbles P ?g) - {v}" by (elim conjE)
          then have "set (vbles P h) \<subset> set (vbles P ?g)" using v(1) by blast
          then have "card (set (vbles P (pCurrentState ?t i))) < card (set (vbles P ?g))" by (simp add: psubset_card_mono)
          moreover have "sound ?t" "i \<in> set (arrFnInfPriority ?t)" "pCurrentState ?t i \<noteq> pTrueSmurfState P"
            using nx it h by simp_all
          ultimately have "\<exists>d w. UpdateRegularSmurf P i ?t = Some (d, w) \<and> sound w \<and> grows ?t w \<and>
              (\<forall>a. F (pCurrentState ?t i) a \<longrightarrow> extended_by (arrSolution ?t) a \<longrightarrow> \<not> d \<and> extended_by (arrSolution w) a) \<and>
              (\<not> d \<longrightarrow> (\<forall>v \<in> set (vbles P (pCurrentState w i)). arrSolution w v = None))"
            using less.hyps [OF _ _ less.prems(2)] by blast
          then obtain d w where W: "UpdateRegularSmurf P i ?t = Some (d, w) \<and> sound w \<and> grows ?t w \<and>
              (\<forall>a. F (pCurrentState ?t i) a \<longrightarrow> extended_by (arrSolution ?t) a \<longrightarrow> \<not> d \<and> extended_by (arrSolution w) a) \<and>
              (\<not> d \<longrightarrow> (\<forall>v \<in> set (vbles P (pCurrentState w i)). arrSolution w v = None))"
            by (elim exE)
          have w: "UpdateRegularSmurf P i ?t = Some (d, w)" "sound w" "grows ?t w"
              "\<And>a. F h a \<Longrightarrow> extended_by (arrSolution t) a \<Longrightarrow> \<not> d \<and> extended_by (arrSolution w) a"
              "\<not> d \<longrightarrow> (\<forall>v \<in> set (vbles P (pCurrentState w i)). arrSolution w v = None)"
            using W by simp_all
          have "\<not> d \<and> extended_by (arrSolution w) a" if "F ?g a" "extended_by (arrSolution s) a" for a
          proof -
            have "extended_by (arrSolution t) a" using t(6) that by blast
            with w(4) F [OF that] show ?thesis by blast
          qed
          then have "\<forall>a. F ?g a \<longrightarrow> extended_by (arrSolution s) a \<longrightarrow> \<not> d \<and> extended_by (arrSolution w) a" by simp
          then show ?thesis
            using w(2,5) grows_trans [OF st w(3)]
            by (intro exI [of _ d] exI [of _ w] conjI run [THEN trans, OF w(1)]) (assumption | elim conjE)+
        qed
      qed
    qed
  qed
qed

lemma update_function_ok:
  assumes "sound s" "i < nNumFuncs P" "i \<in> set (arrFnInfPriority s)"
  shows "\<exists>c t. SmurfUpdateAffectedFunction P i s = Some (c, t) \<and> sound t \<and> grows s t \<and> no_loss P F init s c t \<and>
      (\<not> c \<longrightarrow> (\<forall>v \<in> set (vbles P (pCurrentState t i)). arrSolution t v = None))"
proof (cases "pCurrentState s i = pTrueSmurfState P")
  case True
  then show ?thesis
    using assms(1) true_state(2)
    by (intro exI [of _ False] exI [of _ s]) (simp add: SmurfUpdateAffectedFunction_def grows_refl no_loss_refl)
next
  case False
  from UpdateRegularSmurf_ok [OF assms False] obtain c t where t: "UpdateRegularSmurf P i s = Some (c, t)" "sound t" "grows s t"
      "\<forall>a. F (pCurrentState s i) a \<longrightarrow> extended_by (arrSolution s) a \<longrightarrow> \<not> c \<and> extended_by (arrSolution t) a"
      "\<not> c \<longrightarrow> (\<forall>v \<in> set (vbles P (pCurrentState t i)). arrSolution t v = None)" by blast
  have "F (pCurrentState s i) a" if "Sat a" "extended_by (arrSolution s) a" for a
    using that assms(1,2) by (simp add: base_def current_ok_def satisfies_all_def)
  then have "no_loss P F init s c t" using t(4) unfolding no_loss_def by blast
  then show ?thesis using t False by (simp add: SmurfUpdateAffectedFunction_def)
qed

lemma queue_head:
  assumes "queued n s" "arrFnInfPriority s = i # q"
  shows "arrChangedFn s i = 3 \<and> i < n"
proof -
  have "i \<in> {j. arrChangedFn s j = 3}" using assms unfolding queued_def by (metis list.set_intros(1))
  then show ?thesis using assms(1) by (simp add: queued_def)
qed

text \<open>The function is taken out of the queue.\<close>

lemma dequeue_ok:
  assumes "sound s" "arrFnInfPriority s = i # q" "\<forall>v \<in> set (vbles P (pCurrentState s i)). arrSolution s v = None"
    and t: "t = s\<lparr>arrChangedFn := (arrChangedFn s)(i := 2), arrFnInfPriority := q\<rparr>"
  shows "sound t \<and> extends s t"
proof -
  have ch: "arrChangedFn s i = 3" "i \<notin> set q" "distinct q" "\<And>j. j \<in> set q \<longleftrightarrow> arrChangedFn s j = 3 \<and> j \<noteq> i"
    using assms(1,2) by (auto simp: queued_def)
  have i: "i < nNumFuncs P" using assms(1) ch(1) unfolding queued_def by simp
  have "set q = {j. arrChangedFn t j = 3}" using ch(4) t by auto
  moreover have "{j. arrChangedFn t j \<noteq> 0} = {j. arrChangedFn s j \<noteq> 0}" using ch(1) t by auto
  moreover have "\<forall>j. arrChangedFn t j \<noteq> 0 \<longrightarrow> j < nNumFuncs P"
    using assms(1) i t by (simp add: queued_def)
  moreover have "arrChoicePointStack s = [] \<or>
      (\<forall>j. arrChangedFn t j \<noteq> 0 \<or> arrFnFlags s j = nCurFnVersion s \<longrightarrow> j \<in> saved (arrFnStack s))"
    using assms(1) ch(1) t by (auto simp: queued_def)
  ultimately have "queued (nNumFuncs P) t"
    using assms(1) ch(3) t by (simp add: queued_def)
  moreover have "quiet P t" using assms(1,2,3) t by (auto simp: quiet_def)
  moreover have "good_base t" using assms(1) t by (simp add: base_def current_ok_def trail_ok_def)
  moreover have "same_undo s t" using t by (intro same_undoI state_undo_frame) simp_all
  ultimately show ?thesis using t by (simp add: extends_def framed_def)
qed

lemma UpdateEachAffectedFunction_ok:
  "sound s \<Longrightarrow> \<exists>c t. UpdateEachAffectedFunction P s = Some (c, t) \<and> sound t \<and> extends s t \<and> no_loss P F init s c t \<and>
    (\<not> c \<longrightarrow> arrFnInfPriority t = [])"
proof (induction s rule: wf_induct_rule
    [OF wf_measures [of "[\<lambda>s. N - length (arrBacktrackStack s), \<lambda>s. length (arrFnInfPriority s)]"]])
  case (1 s)
  show ?case
  proof (cases "arrFnInfPriority s")
    case Nil
    then have "UpdateEachAffectedFunction P s = Some (False, s)" by (subst UpdateEachAffectedFunction.simps) simp
    then show ?thesis using "1.prems" Nil extends_refl no_loss_refl by blast
  next
    case (Cons i q)
    have i: "arrChangedFn s i = 3" "i < nNumFuncs P" "i \<in> set (arrFnInfPriority s)"
      using "1.prems" Cons queue_head [of "nNumFuncs P" s i q] by simp_all
    from update_function_ok [OF "1.prems" i(2,3)] obtain c t where t: "SmurfUpdateAffectedFunction P i s = Some (c, t)"
        "sound t" "grows s t" "no_loss P F init s c t"
        "\<not> c \<longrightarrow> (\<forall>v \<in> set (vbles P (pCurrentState t i)). arrSolution t v = None)" by blast
    obtain m where m: "arrFnInfPriority t = i # q @ m"
        "length (arrBacktrackStack t) = length (arrBacktrackStack s) \<longrightarrow> m = []"
      using t(3) Cons by (auto simp: grows_def)
    let ?u = "t\<lparr>arrChangedFn := (arrChangedFn t)(i := 2), arrFnInfPriority := q @ m\<rparr>"
    have unf: "UpdateEachAffectedFunction P s = (if c then Some (True, t) else UpdateEachAffectedFunction P ?u)"
      using Cons i(1) t(1) m(1) by (subst UpdateEachAffectedFunction.simps) simp
    show ?thesis
    proof (cases c)
      case True
      then show ?thesis using unf t grows_extends [OF t(3)] by (intro exI [of _ True] exI [of _ t]) simp
    next
      case False
      then have u: "sound ?u" "extends t ?u" using dequeue_ok [OF t(2) m(1) _ refl] t(5) by blast+
      have su: "extends s ?u" using extends_trans [OF grows_extends [OF t(3)] u(2)] .
      have "length (arrBacktrackStack s) \<le> length (arrBacktrackStack ?u)" "length (arrBacktrackStack ?u) \<le> N"
        using extends_length [OF su] base_length [of ?u] u(1) by simp_all
      then have "(?u, s) \<in> measures [\<lambda>s. N - length (arrBacktrackStack s), \<lambda>s. length (arrFnInfPriority s)]"
        using m(2) Cons by (cases "length (arrBacktrackStack t) = length (arrBacktrackStack s)") auto
      from "1.IH" [OF this u(1)] obtain d w where w: "UpdateEachAffectedFunction P ?u = Some (d, w)" "sound w" "extends ?u w"
          "no_loss P F init ?u d w" "\<not> d \<longrightarrow> arrFnInfPriority w = []" by blast
      have "no_loss P F init s d w"
        using t(4) w(4) False by (simp add: no_loss_def)
      then show ?thesis using unf False w extends_trans [OF su w(3)] by simp
    qed
  qed
qed

section \<open>Deduction\<close>

lemma deduce_queue_ok:
  "sound s \<Longrightarrow> \<exists>c t. deduce_queue P s = Some (c, t) \<and> sound t \<and> within s t \<and> no_loss P F init s c t \<and>
    (\<not> c \<longrightarrow> arrInferenceQueue t = [])"
proof (induction "N - length (arrBacktrackStack s) + length (arrInferenceQueue s)" arbitrary: s rule: less_induct)
  case less
  show ?case
  proof (cases "arrInferenceQueue s")
    case Nil
    then have "deduce_queue P s = Some (False, s)" by (subst deduce_queue.simps) simp
    then show ?thesis
      using less.prems Nil by (intro exI [of _ False] exI [of _ s]) (simp add: no_loss_refl within_refl)
  next
    case (Cons x q)
    let ?s = "s\<lparr>arrInferenceQueue := q\<rparr>"
    have s': "sound ?s" using less.prems by (simp add: base_def current_ok_def trail_ok_def queued_def quiet_def)
    from UpdateEachAffectedFunction_ok [OF s'] obtain c t where t: "UpdateEachAffectedFunction P ?s = Some (c, t)" "sound t"
        "extends ?s t" "no_loss P F init ?s c t" "\<not> c \<longrightarrow> arrFnInfPriority t = []" by blast
    have unf: "deduce_queue P s = (if c then Some (True, t) else deduce_queue P t)"
      using Cons t(1) by (subst deduce_queue.simps) simp
    have st: "within s t" "no_loss P F init s c t"
      using within_trans [OF within_queue extends_within [OF t(3)]] t(4) by (simp_all add: no_loss_def)
    show ?thesis
    proof (cases c)
      case True
      then show ?thesis using unf t(2) st by (intro exI [of _ True] exI [of _ t]) simp
    next
      case False
      have "length (arrBacktrackStack t) \<le> N" using t(2) base_length by blast
      then have "N - length (arrBacktrackStack t) + length (arrInferenceQueue t)
          < N - length (arrBacktrackStack s) + length (arrInferenceQueue s)"
        using t(3) Cons within_length [OF st(1)] by (simp add: extends_def) linarith
      from less.hyps [OF this t(2)] obtain d w where w: "deduce_queue P t = Some (d, w)" "sound w" "within t w"
          "no_loss P F init t d w" "\<not> d \<longrightarrow> arrInferenceQueue w = []"
        by blast
      have "no_loss P F init s d w" using st(2) w(4) False by (simp add: no_loss_def)
      then show ?thesis using unf False w within_trans [OF st(1) w(3)] by simp
    qed
  qed
qed

lemma ITE_Deduce_ok:
  "sound s \<Longrightarrow> \<exists>c t. ITE_Deduce P s = Some (c, t) \<and> sound t \<and> within s t \<and> no_loss P F init s c t \<and>
    (\<not> c \<longrightarrow> arrInferenceQueue t = [] \<and> arrFnInfPriority t = [])"
proof (induction "N - length (arrBacktrackStack s)" arbitrary: s rule: less_induct)
  case less
  from deduce_queue_ok [OF less.prems] obtain c t where t: "deduce_queue P s = Some (c, t)" "sound t" "within s t"
      "no_loss P F init s c t" "\<not> c \<longrightarrow> arrInferenceQueue t = []" by blast
  show ?case
  proof (cases c)
    case True
    then have "ITE_Deduce P s = Some (True, t)" using t(1) by (subst ITE_Deduce.simps) simp
    then show ?thesis using t True by (intro exI [of _ True] exI [of _ t]) simp
  next
    case False
    from UpdateEachAffectedFunction_ok [OF t(2)] obtain d u where u: "UpdateEachAffectedFunction P t = Some (d, u)" "sound u"
        "extends t u" "no_loss P F init t d u" "\<not> d \<longrightarrow> arrFnInfPriority u = []" by blast
    have unf: "ITE_Deduce P s = (if d then Some (True, u) else if arrInferenceQueue u \<noteq> [] then ITE_Deduce P u else Some (False, u))"
      using t(1) u(1) False by (subst ITE_Deduce.simps) simp
    have su: "within s u" "no_loss P F init s d u"
      using within_trans [OF t(3) extends_within [OF u(3)]] t(4) u(4) False by (simp_all add: no_loss_def)
    show ?thesis
    proof (cases "d \<or> arrInferenceQueue u = []")
      case True
      then have "ITE_Deduce P s = Some (d, u)" "\<not> d \<longrightarrow> arrInferenceQueue u = []" using unf by auto
      then show ?thesis using u(2,5) su by blast
    next
      case goon: False
      have "length (arrBacktrackStack u) = length (arrBacktrackStack t) + length (arrInferenceQueue u)"
        using u(3) t(5) False by (simp add: extends_def)
      moreover have "0 < length (arrInferenceQueue u)" using goon by simp
      moreover have "length (arrBacktrackStack u) \<le> N" using u(2) base_length by blast
      ultimately have "N - length (arrBacktrackStack u) < N - length (arrBacktrackStack s)"
        using within_length [OF t(3)] by linarith
      from less.hyps [OF this u(2)] obtain e w where w: "ITE_Deduce P u = Some (e, w)" "sound w" "within u w"
          "no_loss P F init u e w" "\<not> e \<longrightarrow> arrInferenceQueue w = [] \<and> arrFnInfPriority w = []" by blast
      have "no_loss P F init s e w" using su(2) w(4) goon by (simp add: no_loss_def)
      then show ?thesis using unf goon w within_trans [OF su(1) w(3)] by simp
    qed
  qed
qed

end

section \<open>Levels\<close>

text \<open>
  Assignments that satisfy all functions, are in none of the recorded solutions \<open>R\<close>, and agree with
  the choices, agree with the whole state: what is not a choice is implied.
\<close>

definition covers :: "(nat \<Rightarrow> bool option) set \<Rightarrow> 's solver_input \<Rightarrow> ('s \<Rightarrow> (nat \<Rightarrow> bool) \<Rightarrow> bool) \<Rightarrow> (nat \<Rightarrow> 's) \<Rightarrow>
    's search \<Rightarrow> bool" where
  "covers R P F init s \<longleftrightarrow> (\<forall>a. satisfies_all P F init a \<longrightarrow> (\<forall>r \<in> R. \<not> extended_by r a) \<longrightarrow>
     (\<forall>p \<in> set (arrChoicePointStack s). arrSolution s (fst p) = Some (a (fst p))) \<longrightarrow> extended_by (arrSolution s) a)"

text \<open>State \<open>s'\<close>, given back by \<open>pop_choice_point\<close>, is the one before the choice of \<open>v\<close>.\<close>

definition level_of :: "'s solver_input \<Rightarrow> 's search \<Rightarrow> 's search \<Rightarrow> nat \<Rightarrow> bool \<Rightarrow> bool" where
  "level_of P s s' v b \<longleftrightarrow> arrSolution s v = Some b \<and> arrSolution s' v = None \<and>
     (\<exists>pre c. arrBacktrackStack s = pre @ (v, c) # arrBacktrackStack s') \<and>
     (\<exists>k. arrChoicePointStack s = (v, k) # arrChoicePointStack s') \<and>
     (\<forall>w d. arrSolution s' w = Some d \<longrightarrow> arrSolution s w = Some d) \<and>
     (\<forall>i. arrFnFlags s' i < nCurFnVersion s') \<and>
     (\<forall>i < nNumFuncs P. \<forall>w \<in> set (vbles P (pCurrentState s' i)). arrSolution s' w = None)"

inductive levels for P F good init N R where
  top: "base P F good init N s \<Longrightarrow> covers R P F init s \<Longrightarrow> arrChoicePointStack s = [] \<Longrightarrow> levels P F good init N R s"
| up: "base P F good init N s \<Longrightarrow> covers R P F init s \<Longrightarrow> pop_choice_point s = Some (s', v, b) \<Longrightarrow>
    level_of P s s' v b \<Longrightarrow> levels P F good init N R s' \<Longrightarrow> levels P F good init N R s"

lemma levels_base: "levels P F good init N R s \<Longrightarrow> base P F good init N s \<and> covers R P F init s"
  by (induction rule: levels.induct) blast+

lemma base_same: "same_stacks s t \<Longrightarrow> base P F good init N s \<Longrightarrow> base P F good init N t"
  by (simp add: same_stacks_def base_def current_ok_def trail_ok_def)

lemma covers_same: "same_stacks s t \<Longrightarrow> covers R P F init s \<Longrightarrow> covers R P F init t"
  by (simp add: same_stacks_def covers_def)

lemma level_of_same: "level_of P s s' v b \<Longrightarrow> same_stacks s t \<Longrightarrow> same_stacks s' t' \<Longrightarrow> level_of P t t' v b"
  unfolding level_of_def same_stacks_def by (auto intro: less_le_trans)

lemma levels_same: "levels P F good init N R s \<Longrightarrow> same_stacks s t \<Longrightarrow> levels P F good init N R t"
proof (induction arbitrary: t rule: levels.induct)
  case (top s)
  then show ?case
    by (intro levels.top base_same [OF top(4)] covers_same [OF top(4)]) (simp_all add: same_stacks_def)
next
  case (up s s' v b)
  obtain t' where t': "pop_choice_point t = Some (t', v, b)" "same_stacks s' t'"
    using same_stacks_undo [OF up.prems] up.hyps(3) unfolding same_undo_def by blast
  show ?case
    by (rule levels.up [OF base_same [OF up.prems up.hyps(1)] covers_same [OF up.prems up.hyps(2)] t'(1)
          level_of_same [OF up.hyps(4) up.prems t'(2)] up.IH [OF t'(2)]])
qed

lemma covers_mono: "R \<subseteq> R' \<Longrightarrow> covers R P F init s \<Longrightarrow> covers R' P F init s"
  unfolding covers_def by (meson subsetD)

lemma levels_mono: "levels P F good init N R s \<Longrightarrow> R \<subseteq> R' \<Longrightarrow> levels P F good init N R' s"
  by (induction rule: levels.induct) (auto intro: levels.intros covers_mono)

text \<open>A step inside a level keeps the levels below.\<close>

lemma levels_step:
  assumes "levels P F good init N R s" "within s t" "base P F good init N t" "covers R P F init t"
  shows "levels P F good init N R t"
  using assms(1)
proof cases
  case top
  then show ?thesis using assms(2-4) by (intro levels.top) (simp_all add: within_def framed_def)
next
  case (up s' v b)
  obtain t' where t': "pop_choice_point t = Some (t', v, b)" "same_stacks s' t'"
    using assms(2) up(3) unfolding within_def same_undo_def by blast
  have "level_of P t s' v b"
    using up(4) assms(2) unfolding level_of_def within_def framed_def by (elim conjE exE, intro conjI) auto
  then have "level_of P t t' v b" by (rule level_of_same [OF _ _ t'(2)]) (simp add: same_stacks_def)
  then show ?thesis using levels.up [OF assms(3,4) t'(1)] levels_same [OF up(5) t'(2)] by blast
qed

lemma choices_before:
  assumes "base P F good init N s" "within s t" "p \<in> set (arrChoicePointStack s)"
  shows "arrSolution s (fst p) = arrSolution t (fst p)"
proof -
  have "arrSolution s (fst p) \<noteq> None" using assms(1,3) trail_choice [of N s] by (simp add: base_def)
  then show ?thesis using assms(2) by (auto simp: within_def)
qed

lemma covers_step:
  assumes "base P F good init N s" "covers R P F init s" "within s t" "no_loss P F init s c t"
  shows "covers R P F init t"
  unfolding covers_def
proof (intro allI impI)
  fix a assume a: "satisfies_all P F init a" "\<forall>r \<in> R. \<not> extended_by r a"
    and ch: "\<forall>p \<in> set (arrChoicePointStack t). arrSolution t (fst p) = Some (a (fst p))"
  have "\<forall>p \<in> set (arrChoicePointStack s). arrSolution s (fst p) = Some (a (fst p))"
  proof
    fix p assume p: "p \<in> set (arrChoicePointStack s)"
    have "arrChoicePointStack t = arrChoicePointStack s" using assms(3) by (simp add: within_def framed_def)
    then have "arrSolution t (fst p) = Some (a (fst p))" using ch p by simp
    then show "arrSolution s (fst p) = Some (a (fst p))" using choices_before [OF assms(1,3) p] by simp
  qed
  with assms(2) a have "extended_by (arrSolution s) a" unfolding covers_def by simp
  then show "extended_by (arrSolution t) a" using assms(4) a(1) unfolding no_loss_def by blast
qed

section \<open>Backtracking\<close>

text \<open>The heuristic returns an unassigned variable if there is one.\<close>

definition picks :: "nat \<Rightarrow> (nat \<Rightarrow> 's search \<Rightarrow> (nat \<times> bool) option) \<Rightarrow> bool" where
  "picks N procHeurSelect \<longleftrightarrow> (\<forall>k s v. v \<in> {1..<N} \<longrightarrow> arrSolution s v = None \<longrightarrow>
     (\<exists>w b. procHeurSelect k s = Some (w, b) \<and> w \<in> {1..<N} \<and> arrSolution s w = None))"

text \<open>The state in which the chosen literal is inferred.\<close>

definition branching :: "nat \<Rightarrow> 's search \<Rightarrow> 's search" where
  "branching v s = (let s = FnStackPushFunctionLevel ((Functions_Update_Inf_End s)
       \<lparr>NUM_CHOICE_POINTS := NUM_CHOICE_POINTS s + 1\<rparr>) in
     s\<lparr>arrChoicePointStack := (v, nNumUnresolvedFunctions s) # arrChoicePointStack s, arrFnInferenceQueue := []\<rparr>)"

text \<open>
  What the search has found: recorded solutions satisfy all functions, however they are extended;
  at the end no solution is missing, unless a limit was passed or enough solutions were found.
\<close>

definition found_ok :: "'s solver_input \<Rightarrow> ('s \<Rightarrow> (nat \<Rightarrow> bool) \<Rightarrow> bool) \<Rightarrow> (nat \<Rightarrow> 's) \<Rightarrow> (nat \<Rightarrow> bool) \<Rightarrow> 's search \<Rightarrow> bool" where
  "found_ok P F init limit s \<longleftrightarrow>
     (\<forall>r \<in> set (solution_info s). \<forall>a. extended_by r a \<longrightarrow> satisfies_all P F init a) \<and>
     (ERR_LIMITS s \<longrightarrow> (\<exists>k. limit k))"

definition search_over :: "'s solver_input \<Rightarrow> ('s \<Rightarrow> (nat \<Rightarrow> bool) \<Rightarrow> bool) \<Rightarrow> (nat \<Rightarrow> 's) \<Rightarrow> nat \<Rightarrow> 's search \<Rightarrow> bool" where
  "search_over P F init max_solutions s \<longleftrightarrow> ERR_LIMITS s \<or>
     solution_info s \<noteq> [] \<and> length (solution_info s) = max_solutions \<or>
     (\<forall>a. satisfies_all P F init a \<longrightarrow> (\<exists>r \<in> set (solution_info s). extended_by r a))"

context smurf_search
begin

abbreviation "levelled R s \<equiv> levels P F good init N R s"
abbreviation "prog s \<equiv> progress N (fst ` set (arrChoicePointStack s)) (arrBacktrackStack s)"

text \<open>The queues and marks after a level is taken back.\<close>

lemma popped_queued:
  assumes "queued n s" "pop_choice_point s = Some (s', r)" "\<forall>i. arrFnFlags s' i < nCurFnVersion s'"
  shows "queued n (s'\<lparr>arrInferenceQueue := [], arrFnInferenceQueue := [], arrFnInfPriority := []\<rparr>)"
proof -
  from pop_choice_pointD [OF assms(2)] obtain v k cps bt sol cur flags ch st ver where
    cps: "arrChoicePointStack s = (v, k) # cps" and pop: "popped s = Some (cur, flags, ch, st, ver)"
    and s': "s' = s\<lparr>arrSolution := sol, pCurrentState := cur, nNumUnresolvedFunctions := k,
            arrBacktrackStack := bt, arrChoicePointStack := cps, arrFnStack := st, arrFnFlags := flags,
            nCurFnVersion := ver, arrChangedFn := ch\<rparr>" by metis
  have "ch i = 0" for i
    using pop_state_marks [OF pop, of i] assms(1) cps by (auto simp: queued_def)
  then show ?thesis using assms(3) s' by (simp add: queued_def less_imp_le less_imp_neq)
qed

lemma BackTrack_ok:
  assumes s: "sound s" "levelled R s"
    and dead: "\<forall>a. Sat a \<longrightarrow> (\<forall>r \<in> R. \<not> extended_by r a) \<longrightarrow> \<not> extended_by (arrSolution s) a"
  shows "BackTrack_NL P s = Some (True, s) \<and> (\<forall>a. Sat a \<longrightarrow> (\<exists>r \<in> R. extended_by r a)) \<or>
    (\<exists>t. BackTrack_NL P s = Some (False, t) \<and> sound t \<and> levelled R t \<and> prog s < prog t \<and>
      solution_info t = solution_info s \<and> ERR_LIMITS t = ERR_LIMITS s)"
  using s(2)
proof cases
  case top
  have "\<exists>r \<in> R. extended_by r a" if "Sat a" for a
    using top(2,3) dead that unfolding covers_def by auto
  then show ?thesis using top(3) by (intro disjI1) (simp add: BackTrack_NL_def)
next
  case (up s' v b)
  obtain pre c k where lv: "arrSolution s v = Some b" "arrSolution s' v = None"
      "arrBacktrackStack s = pre @ (v, c) # arrBacktrackStack s'" "arrChoicePointStack s = (v, k) # arrChoicePointStack s'"
      "\<And>w d. arrSolution s' w = Some d \<Longrightarrow> arrSolution s w = Some d" "\<forall>i. arrFnFlags s' i < nCurFnVersion s'"
      "\<And>i w. i < nNumFuncs P \<Longrightarrow> w \<in> set (vbles P (pCurrentState s' i)) \<Longrightarrow> arrSolution s' w = None"
    using up(4) unfolding level_of_def by blast
  let ?u = "s'\<lparr>arrInferenceQueue := [], arrFnInferenceQueue := [], arrFnInfPriority := []\<rparr>"
  have same: "same_stacks s' ?u" by (simp add: same_stacks_def)
  note lu = levels_same [OF up(5) same]
  have bu: "good_base ?u" "covers R P F init ?u" using levels_base [OF lu] by blast+
  have qu: "queued (nNumFuncs P) ?u" by (rule popped_queued [OF _ up(3) lv(6)]) (use s(1) in blast)
  have u: "sound ?u" using bu(1) qu lv(7) by (simp add: quiet_def)
  have tr: "trail_ok N s" using up(1) by (simp add: base_def)
  have v: "v \<in> {1..<N}" "v \<noteq> 0" using tr lv(3) by (auto simp: trail_ok_def)
  from InferLiteral_ok [OF u v(1)] lv(2) obtain t where t: "InferLiteral P v (\<not> b) True ?u = Some t" "sound t" "grows ?u t"
      "arrSolution t = (arrSolution s')(v := Some (\<not> b))" by auto
  have run: "BackTrack_NL P s = Some (False, t)"
    using up(3) lv(4) t(1) by (simp add: BackTrack_NL_def)
  have wt: "within ?u t" using extends_within [OF grows_extends [OF t(3)]] .
  have cps: "arrChoicePointStack t = arrChoicePointStack s'" using wt by (simp add: within_def framed_def)
  have tr': "trail_ok N s'" using levels_base [OF up(5)] by (simp add: base_def)
  then have "v \<notin> fst ` set (arrBacktrackStack s')" using lv(2) unfolding trail_ok_def by blast
  then have vc: "v \<notin> fst ` set (arrChoicePointStack s')" using tr' unfolding trail_ok_def by blast
  have "covers R P F init t"
    unfolding covers_def
  proof (intro allI impI)
    fix a assume a: "Sat a" "\<forall>r \<in> R. \<not> extended_by r a"
      and ch: "\<forall>p \<in> set (arrChoicePointStack t). arrSolution t (fst p) = Some (a (fst p))"
    have ch': "\<forall>p \<in> set (arrChoicePointStack s'). arrSolution s' (fst p) = Some (a (fst p))"
    proof
      fix p assume p: "p \<in> set (arrChoicePointStack s')"
      then have "fst p \<noteq> v" using vc by force
      moreover have "arrSolution t (fst p) = Some (a (fst p))" using ch p unfolding cps by blast
      ultimately show "arrSolution s' (fst p) = Some (a (fst p))" using t(4) by simp
    qed
    then have as': "extended_by (arrSolution s') a" using bu(2) a by (simp add: covers_def)
    have "a v \<noteq> b"
    proof
      assume "a v = b"
      then have "\<forall>p \<in> set (arrChoicePointStack s). arrSolution s (fst p) = Some (a (fst p))"
        using lv(1,4,5) ch' by auto
      then have "extended_by (arrSolution s) a" using up(2) a unfolding covers_def by simp
      then show False using dead a by blast
    qed
    then show "extended_by (arrSolution t) a" using as' t(4) extended_by_upd [of v "arrSolution s'" "\<not> b" a] v(2) lv(2) by simp
  qed
  then have "levelled R t" using levels_step [OF lu wt] t(2) by blast
  moreover have "prog s < prog t"
  proof -
    have tb: "arrBacktrackStack t = (v, True) # arrBacktrackStack s'"
      using t(1) InferLiteral_inferred [OF qu, of v "\<not> b" True] lv(2) by (auto simp: inferred_def)
    have "v \<notin> fst ` set (arrBacktrackStack s')" using tr lv(3) by (auto simp: trail_ok_def)
    then have eq: "(w \<in> fst ` set (arrChoicePointStack s)) = (w \<in> fst ` set (arrChoicePointStack s'))"
      if "w \<in> fst ` set (arrBacktrackStack s')" for w using that lv(4) by auto
    have "progress N (fst ` set (arrChoicePointStack s)) (pre @ (v, c) # arrBacktrackStack s') <
        progress N (fst ` set (arrChoicePointStack s')) ((v, True) # arrBacktrackStack s')"
      by (rule progress_flip) (use trail_length [OF tr] lv(3,4) vc eq in simp_all)
    then show ?thesis using tb lv(3) cps by simp
  qed
  moreover have "solution_info t = solution_info s \<and> ERR_LIMITS t = ERR_LIMITS s"
  proof -
    have "solution_info s' = solution_info s \<and> ERR_LIMITS s' = ERR_LIMITS s"
      by (rule pop_choice_pointD [OF up(3)]) simp
    then show ?thesis using wt by (simp add: within_def framed_def)
  qed
  ultimately show ?thesis using run t(2) by blast
qed

section \<open>Branching\<close>

lemma branching_fields:
  "arrSolution (branching v s) = arrSolution s" "pCurrentState (branching v s) = pCurrentState s"
  "nNumUnresolvedFunctions (branching v s) = nNumUnresolvedFunctions s"
  "arrBacktrackStack (branching v s) = arrBacktrackStack s"
  "arrChoicePointStack (branching v s) = (v, nNumUnresolvedFunctions s) # arrChoicePointStack s"
  "arrFnStack (branching v s) = LEVEL_START (nCurFnVersion s + 1) # arrFnStack s"
  "arrFnFlags (branching v s) = arrFnFlags s" "nCurFnVersion (branching v s) = nCurFnVersion s + 1"
  "arrFnInfPriority (branching v s) = arrFnInfPriority s" "arrFnInferenceQueue (branching v s) = []"
  "arrInferenceQueue (branching v s) = arrInferenceQueue s" "solution_info (branching v s) = solution_info s"
  "ERR_LIMITS (branching v s) = ERR_LIMITS s"
  "arrChangedFn (branching v s) = (\<lambda>i. if i \<in> set (arrFnInferenceQueue s) then 0 else arrChangedFn s i)"
  by (simp_all add: branching_def Let_def Functions_Update_Inf_End_def FnStackPushFunctionLevel_def)

lemma branching_queued:
  assumes "queued n s" "arrFnInfPriority s = []"
  shows "queued n (branching v s)"
proof -
  have "arrChangedFn (branching v s) i = 0" for i using assms(1) by (simp add: branching_fields queued_def)
  moreover have "arrFnFlags s i < nCurFnVersion s + 1" for i using assms(1) by (simp add: queued_def less_Suc_eq_le)
  ultimately show ?thesis
    using assms(2) by (simp add: queued_def branching_fields less_imp_le less_imp_neq)
qed

lemma SelectNewBranchPoint_ok:
  assumes s: "sound s" "levelled R s" and q: "arrFnInfPriority s = []" and u: "nNumUnresolvedFunctions s \<noteq> 0"
    and h: "picks N procHeurSelect"
  shows "\<exists>t. SelectNewBranchPoint P procHeurSelect s = Some t \<and> sound t \<and> levelled R t \<and> prog s < prog t \<and>
    solution_info t = solution_info s \<and> ERR_LIMITS t = ERR_LIMITS s"
proof -
  have quiet: "arrSolution s w = None" if "i < nNumFuncs P" "w \<in> set (vbles P (pCurrentState s i))" for i w
    using s(1) q that by (simp add: quiet_def)
  have cur: "\<forall>i < nNumFuncs P. current_ok P F good init s i" and tr: "trail_ok N s" using s(1) by (simp_all add: base_def)
  have "card {i. i < nNumFuncs P \<and> pCurrentState s i \<noteq> pTrueSmurfState P} \<noteq> 0"
    using s(1) u unfolding base_def by simp
  then obtain i where i: "i < nNumFuncs P" "pCurrentState s i \<noteq> pTrueSmurfState P"
    by (metis (mono_tags, lifting) card.empty empty_Collect_eq)
  then have "vbles P (pCurrentState s i) \<noteq> []" using cur open_state by (simp add: current_ok_def)
  then obtain w where w: "w \<in> set (vbles P (pCurrentState s i))" by (meson list.set_sel(1))
  let ?f = "Functions_Update_Inf_End s"
  have "arrSolution ?f w = None" "w \<in> {1..<N}"
    using quiet [OF i(1) w] vbles_range(1) [OF cur i(1) w] by (simp_all add: Functions_Update_Inf_End_def)
  then obtain v b where v: "procHeurSelect (NUM_CHOICE_POINTS ?f) ?f = Some (v, b)" "v \<in> {1..<N}" "arrSolution ?f v = None"
    using h unfolding picks_def by blast
  have vs: "arrSolution s v = None" "v \<noteq> 0" using v(2,3) by (simp_all add: Functions_Update_Inf_End_def)
  let ?u = "branching v s"
  have qu: "queued (nNumFuncs P) ?u" by (rule branching_queued) (use s(1) q in blast)+
  from InferLiteral_inferred [OF qu, of v b False] vs(1)
  obtain t where t: "InferLiteral P v b False ?u = Some t" "inferred P v b False ?u t" by (auto simp: branching_fields)
  have run: "SelectNewBranchPoint P procHeurSelect s = Some t"
    using v(1,3) t(1) by (simp add: SelectNewBranchPoint_def branching_def Functions_Update_Inf_End_def Let_def)
  have f: "arrSolution t = (arrSolution s)(v := Some b)" "arrBacktrackStack t = (v, False) # arrBacktrackStack s"
      "pCurrentState t = pCurrentState s" "nNumUnresolvedFunctions t = nNumUnresolvedFunctions s"
      "arrChoicePointStack t = (v, nNumUnresolvedFunctions s) # arrChoicePointStack s"
      "solution_info t = solution_info s" "ERR_LIMITS t = ERR_LIMITS s" "queued (nNumFuncs P) t"
    using t(2) by (simp_all add: inferred_def framed_def branching_fields)
  have "good_base s" using s(1) by blast
  then have bt: "good_base t" by (rule assigned_base [OF _ v(2) vs(1) f(1-4)]) (use f(5) in auto)
  have "quiet P t"
    by (rule inferred_quiet [OF _ _ t(2)])
      (use cur s(1) in \<open>simp_all add: current_ok_def quiet_def branching_fields\<close>)
  then have st: "sound t" using bt f(8) by blast
  have ct: "covers R P F init t"
    unfolding covers_def
  proof (intro allI impI)
    fix a assume a: "Sat a" "\<forall>r \<in> R. \<not> extended_by r a"
      and ch: "\<forall>p \<in> set (arrChoicePointStack t). arrSolution t (fst p) = Some (a (fst p))"
    have vv: "a v = b" using ch f(1,5) by simp
    have "\<forall>p \<in> set (arrChoicePointStack s). arrSolution s (fst p) = Some (a (fst p))"
    proof
      fix p assume p: "p \<in> set (arrChoicePointStack s)"
      then have set: "arrSolution s (fst p) \<noteq> None" by (rule trail_choice [OF tr])
      have "fst p \<noteq> v"
      proof
        assume "fst p = v"
        from set [unfolded this] vs(1) show False by (rule notE)
      qed
      moreover have "arrSolution t (fst p) = Some (a (fst p))" using ch p f(5) by simp
      ultimately show "arrSolution s (fst p) = Some (a (fst p))" using f(1) by simp
    qed
    then have "extended_by (arrSolution s) a" using levels_base [OF s(2)] a unfolding covers_def by simp
    then show "extended_by (arrSolution t) a" using extended_by_upd [of v "arrSolution s" b a] vs f(1) vv by simp
  qed
  obtain ch where ch: "popped t = Some (pCurrentState s, arrFnFlags s, ch, arrFnStack s, nCurFnVersion s + 1)"
    using t(2) unfolding inferred_def state_undo_def by (auto simp: branching_fields)
  have sol: "(arrSolution s)(v := None) = arrSolution s" using vs(1) by (simp add: fun_upd_idem)
  have pb: "pop_backtrack_stack v (arrBacktrackStack t) (arrSolution t) = Some (arrBacktrackStack s, arrSolution s)"
    unfolding f(1,2) by (simp add: Let_def sol)
  have val: "(arrSolution t v = Some True) = b" using f(1) by simp
  from pop_choice_pointI [OF f(5) pb ch] obtain s' where s': "pop_choice_point t = Some (s', v, b)" "same_stacks s s'"
      "arrFnFlags s' = arrFnFlags s" "nCurFnVersion s' = nCurFnVersion s + 1"
    unfolding val by (auto simp: same_stacks_def)
  have fl: "arrFnFlags s i \<le> nCurFnVersion s" for i using s(1) by (simp add: queued_def)
  have "level_of P t s' v b"
    using s'(2-4) fl quiet f(1,2,5) vs(1) unfolding level_of_def same_stacks_def by (auto simp: less_Suc_eq_le)
  then have "levelled R t" by (rule levels.up [OF bt ct s'(1) _ levels_same [OF s(2) s'(2)]])
  moreover have "prog s < prog t"
  proof -
    have vb: "v \<notin> fst ` set (arrBacktrackStack s)" using tr vs(1) unfolding trail_ok_def by blast
    have "progress N (fst ` set (arrChoicePointStack s)) (arrBacktrackStack s) =
        progress N (insert v (fst ` set (arrChoicePointStack s))) (arrBacktrackStack s)"
      by (rule progress_cong) (use vb in auto)
    then show ?thesis using f(2,5) by simp
  qed
  ultimately show ?thesis using run st f(6,7) by blast
qed

section \<open>The main loop\<close>

lemma all_true:
  assumes "good_base s" "nNumUnresolvedFunctions s = 0" "extended_by (arrSolution s) a"
  shows "Sat a"
  unfolding satisfies_all_def
proof (intro allI impI)
  fix i assume i: "i < nNumFuncs P"
  have "card {i. i < nNumFuncs P \<and> pCurrentState s i \<noteq> pTrueSmurfState P} = 0"
    using assms(1,2) by (simp add: base_def)
  then have "pCurrentState s i = pTrueSmurfState P" using i by simp
  moreover have "F (pCurrentState s i) a = F (init i) a" using assms(1,3) i by (simp add: base_def current_ok_def)
  ultimately show "F (init i) a" using true_state(1) by simp
qed

text \<open>Backtracking after a conflict or after a solution, with the limits checked before.\<close>

lemma CheckBtHooks_ok:
  assumes s: "sound s" "levelled (set (solution_info s)) s" "found_ok P F init limit s"
    and dead: "\<forall>a. Sat a \<longrightarrow> (\<forall>r \<in> set (solution_info s). \<not> extended_by r a) \<longrightarrow> \<not> extended_by (arrSolution s) a"
  shows "\<exists>stop t. CheckBtHooks P limit s = Some (stop, t) \<and> found_ok P F init limit t \<and>
    (if stop then search_over P F init m t
     else sound t \<and> levelled (set (solution_info t)) t \<and> prog s < prog t)"
proof -
  let ?s = "s\<lparr>NUM_BACKTRACKS := NUM_BACKTRACKS s + 1\<rparr>"
  have s': "sound ?s" using s(1) by (simp add: base_def current_ok_def trail_ok_def queued_def quiet_def)
  have l': "levelled (set (solution_info ?s)) ?s" using levels_same [OF s(2), of ?s] by (simp add: same_stacks_def)
  show ?thesis
  proof (cases "limit (NUM_BACKTRACKS ?s)")
    case True
    let ?t = "?s\<lparr>ERR_LIMITS := True\<rparr>"
    have "CheckBtHooks P limit s = Some (True, ?t)" using True by (simp add: CheckBtHooks_def)
    moreover have "found_ok P F init limit ?t" using s(3) True by (auto simp: found_ok_def)
    ultimately show ?thesis by (intro exI [of _ True] exI [of _ ?t]) (simp add: search_over_def)
  next
    case False
    then have run: "CheckBtHooks P limit s = BackTrack_NL P ?s" by (simp add: CheckBtHooks_def)
    have "\<forall>a. Sat a \<longrightarrow> (\<forall>r \<in> set (solution_info ?s). \<not> extended_by r a) \<longrightarrow> \<not> extended_by (arrSolution ?s) a"
      using dead by simp
    from BackTrack_ok [OF s' l' this] show ?thesis
    proof (elim disjE conjE exE)
      assume b: "BackTrack_NL P ?s = Some (True, ?s)" "\<forall>a. Sat a \<longrightarrow> (\<exists>r \<in> set (solution_info ?s). extended_by r a)"
      have "found_ok P F init limit ?s" using s(3) by (simp add: found_ok_def)
      moreover have "search_over P F init m ?s" using b(2) by (simp add: search_over_def)
      ultimately show ?thesis using run b(1) by (intro exI [of _ True] exI [of _ ?s]) simp
    next
      fix t assume t: "BackTrack_NL P ?s = Some (False, t)" "good_base t" "queued (nNumFuncs P) t" "quiet P t"
        "levelled (set (solution_info ?s)) t" "prog ?s < prog t" "solution_info t = solution_info ?s"
        "ERR_LIMITS t = ERR_LIMITS ?s"
      have "found_ok P F init limit t" using s(3) t(7,8) by (simp add: found_ok_def)
      then show ?thesis using run t by (intro exI [of _ False] exI [of _ t]) simp
    qed
  qed
qed

lemma progress_within:
  assumes "within s t" "good_base t"
  shows "prog s \<le> prog t"
proof -
  obtain pre where "arrBacktrackStack t = pre @ arrBacktrackStack s" using assms(1) by (auto simp: within_def)
  moreover have "arrChoicePointStack t = arrChoicePointStack s" using assms(1) by (simp add: within_def framed_def)
  ultimately show ?thesis using progress_mono [of pre "arrBacktrackStack s"] base_length [OF assms(2)] by simp
qed

lemma brancher_loop_ok:
  assumes h: "picks N procHeurSelect"
  shows "sound s \<Longrightarrow> levelled (set (solution_info s)) s \<Longrightarrow> found_ok P F init limit s \<Longrightarrow>
    \<exists>t. brancher_loop P procHeurSelect limit m s = Some t \<and> found_ok P F init limit t \<and> search_over P F init m t"
proof (induction "3 ^ N - prog s" arbitrary: s rule: less_induct)
  case less
  from ITE_Deduce_ok [OF less.prems(1)] obtain c t where t: "ITE_Deduce P s = Some (c, t)" "sound t" "within s t"
      "no_loss P F init s c t" "\<not> c \<longrightarrow> arrInferenceQueue t = [] \<and> arrFnInfPriority t = []" by blast
  have info: "solution_info t = solution_info s" "ERR_LIMITS t = ERR_LIMITS s" using t(3) by (simp_all add: within_def framed_def)
  have bs: "good_base s" and bt: "good_base t" using less.prems(1) t(2) by blast+
  have "covers (set (solution_info t)) P F init t"
    using covers_step [OF bs _ t(3,4)] levels_base [OF less.prems(2)] unfolding info(1) by blast
  then have lt: "levelled (set (solution_info t)) t" using levels_step [OF _ t(3) bt] less.prems(2) unfolding info(1) by blast
  have ft: "found_ok P F init limit t" using less.prems(3) info by (simp add: found_ok_def)
  have next_ok: "\<exists>u. brancher_loop P procHeurSelect limit m w = Some u \<and> found_ok P F init limit u \<and> search_over P F init m u"
    if w: "prog t < prog w" "sound w" "levelled (set (solution_info w)) w" "found_ok P F init limit w" for w
  proof -
    have "length (arrBacktrackStack w) \<le> N" using w(2) base_length by blast
    then have "prog w < 3 ^ N" by (rule progress_bound)
    then have "3 ^ N - prog w < 3 ^ N - prog s" using w(1) progress_within [OF t(3) bt] by linarith
    from less.hyps [OF this w(2-4)] show ?thesis .
  qed
  have nonneg: "\<not> nNumUnresolvedFunctions t < 0" using bt by (simp add: base_def)
  show ?case
  proof (cases "\<not> c \<and> nNumUnresolvedFunctions t \<noteq> 0")
    case True
    then have "arrFnInfPriority t = []" using t(5) by blast
    from SelectNewBranchPoint_ok [OF t(2) lt this _ h] True obtain w where w: "SelectNewBranchPoint P procHeurSelect t = Some w"
        "sound w" "levelled (set (solution_info t)) w" "prog t < prog w" "solution_info w = solution_info t"
        "ERR_LIMITS w = ERR_LIMITS t" by blast
    have "found_ok P F init limit w" using ft w(5,6) by (simp add: found_ok_def)
    from next_ok [OF w(4,2) _ this] w(3,5) obtain u where u: "brancher_loop P procHeurSelect limit m w = Some u"
        "found_ok P F init limit u" "search_over P F init m u" by auto
    have "brancher_loop P procHeurSelect limit m s = Some u"
      using t(1) w(1) u(1) True nonneg by (subst brancher_loop.simps) simp
    then show ?thesis using u(2,3) by blast
  next
    case False
    define r where "r = (if c then (False, t) else RecordSolution m t)"
    have run: "brancher_loop P procHeurSelect limit m s = (if fst r then Some (snd r) else do {
        (stop, s) \<leftarrow> CheckBtHooks P limit (snd r);
        if stop then Some s else brancher_loop P procHeurSelect limit m s })"
      using t(1) False nonneg unfolding r_def by (subst brancher_loop.simps) (auto split: prod.splits)
    let ?w = "snd r"
    have w: "sound ?w" "levelled (set (solution_info ?w)) ?w" "found_ok P F init limit ?w" "prog ?w = prog t"
      and dead: "\<forall>a. Sat a \<longrightarrow> (\<forall>q \<in> set (solution_info ?w). \<not> extended_by q a) \<longrightarrow> \<not> extended_by (arrSolution ?w) a"
      and stop: "fst r \<Longrightarrow> search_over P F init m ?w"
    proof -
      let ?t = "t\<lparr>solution_info := solution_info t @ [arrSolution t]\<rparr>"
      have st: "sound ?t" using t(2) by (simp add: base_def current_ok_def trail_ok_def queued_def quiet_def)
      have "levelled (set (solution_info ?t)) t" by (rule levels_mono [OF lt]) auto
      then have lt': "levelled (set (solution_info ?t)) ?t" by (rule levels_same) (simp add: same_stacks_def)
      have "extended_by (arrSolution t) a \<Longrightarrow> Sat a" if "\<not> c" for a using all_true [OF bt] False that by simp
      then have ft': "found_ok P F init limit ?t" if "\<not> c" using ft that by (auto simp: found_ok_def)
      have r: "r = (False, t) \<and> c \<or> r = (length (solution_info ?t) = m, ?t) \<and> \<not> c"
        by (simp add: r_def RecordSolution_def Let_def)
      then show "sound ?w" "levelled (set (solution_info ?w)) ?w" "found_ok P F init limit ?w" "prog ?w = prog t"
        using t(2) lt ft st lt' ft' by auto
      show "\<forall>a. Sat a \<longrightarrow> (\<forall>q \<in> set (solution_info ?w). \<not> extended_by q a) \<longrightarrow> \<not> extended_by (arrSolution ?w) a"
      proof (intro allI impI notI)
        fix a assume a: "Sat a" "\<forall>q \<in> set (solution_info ?w). \<not> extended_by q a"
        assume ag: "extended_by (arrSolution ?w) a"
        from r show False
        proof (elim disjE conjE)
          assume r: "r = (False, t)" "c"
          then have "extended_by (arrSolution s) a" using ag t(3) unfolding extended_by_def within_def by simp
          then show False using t(4) a(1) r(2) unfolding no_loss_def by blast
        next
          assume "r = (length (solution_info ?t) = m, ?t)" then show False using a(2) ag by simp
        qed
      qed
      show "search_over P F init m ?w" if "fst r" using r that by (auto simp: search_over_def)
    qed
    show ?thesis
    proof (cases "fst r")
      case True
      then show ?thesis using run stop w(3) by simp
    next
      case goon: False
      from CheckBtHooks_ok [OF w(1,2,3) dead] obtain stop u where u: "CheckBtHooks P limit ?w = Some (stop, u)"
          "found_ok P F init limit u" "if stop then search_over P F init m u
            else sound u \<and> levelled (set (solution_info u)) u \<and> prog ?w < prog u" by blast
      show ?thesis
      proof (cases stop)
        case True
        then show ?thesis using run goon u by simp
      next
        case False
        then have "prog t < prog u" "sound u" "levelled (set (solution_info u)) u" using u(3) w(4) by simp_all
        from next_ok [OF this u(2)] show ?thesis using run goon u(1) False by simp
      qed
    qed
  qed
qed

text \<open>The search from the start.\<close>

lemma start_sound:
  "sound (InitBrancherX (nNumFuncs P) init) \<and>
   levelled (set (solution_info (InitBrancherX (nNumFuncs P) init))) (InitBrancherX (nNumFuncs P) init)"
proof -
  let ?s = "InitBrancherX (nNumFuncs P) init"
  have "{i. i < nNumFuncs P \<and> init i \<noteq> pTrueSmurfState P} = {..<nNumFuncs P}" using initial by auto
  moreover have "trail_ok N ?s" by (auto simp: trail_ok_def InitBrancherX_def)
  ultimately have b: "good_base ?s"
    using initial by (simp add: base_def current_ok_def InitBrancherX_def)
  have "\<forall>i < nNumFuncs P. \<forall>v \<in> set (vbles P (init i)). v \<noteq> 0" using initial by fastforce
  then have "quiet P ?s" by (simp add: quiet_def InitBrancherX_def)
  moreover have "queued (nNumFuncs P) ?s" by (simp add: queued_def InitBrancherX_def)
  moreover have "covers R P F init ?s" for R
    by (simp add: covers_def extended_by_def InitBrancherX_def)
  ultimately show ?thesis using b by (auto intro!: levels.top simp: InitBrancherX_def)
qed

theorem Brancher_ok:
  assumes "picks N procHeurSelect"
  shows "\<exists>r t. Brancher P procHeurSelect limit m (InitBrancherX (nNumFuncs P) init) = Some (r, t) \<and>
    found_ok P F init limit t \<and> search_over P F init m t \<and>
    (r = SOLV_SAT \<longleftrightarrow> solution_info t \<noteq> []) \<and>
    (r = SOLV_UNSAT \<longrightarrow> (\<forall>a. \<not> Sat a)) \<and> (r = SOLV_UNKNOWN \<longrightarrow> (\<exists>k. limit k))"
proof -
  let ?s = "InitBrancherX (nNumFuncs P) init"
  have "found_ok P F init limit ?s" by (simp add: found_ok_def InitBrancherX_def)
  from brancher_loop_ok [OF assms conjunct1 [OF start_sound] conjunct2 [OF start_sound] this, of m]
  obtain t where t: "brancher_loop P procHeurSelect limit m ?s = Some t" "found_ok P F init limit t"
      "search_over P F init m t" by blast
  let ?r = "if solution_info t \<noteq> [] then SOLV_SAT else if ERR_LIMITS t then SOLV_UNKNOWN else SOLV_UNSAT"
  have "Brancher P procHeurSelect limit m ?s = Some (?r, t)" using t(1) by (simp add: Brancher_def)
  moreover have "?r = SOLV_UNSAT \<longrightarrow> (\<forall>a. \<not> Sat a)" using t(3) by (auto simp: search_over_def)
  moreover have "?r = SOLV_UNKNOWN \<longrightarrow> (\<exists>k. limit k)" using t(2) by (simp add: found_ok_def)
  ultimately show ?thesis using t(2,3) by (intro exI [of _ ?r] exI [of _ t]) simp
qed

end

section \<open>The tables\<close>

lemma fold_create_AFS:
  "set (fold (SmurfCreateAFS i) vs afs v) = set (afs v) \<union> (if v \<in> set vs then {i} else {})"
  by (induction vs arbitrary: afs) (auto simp: SmurfCreateAFS_def)

lemma AFSInit_set: "i \<in> set (AFSInit vb st n v) \<longleftrightarrow> i < n \<and> v \<in> set (vb (st i))"
proof -
  have "set (fold (\<lambda>i. fold (SmurfCreateAFS i) (rev (vb (st i)))) xs afs v) = set (afs v) \<union> {i \<in> set xs. v \<in> set (vb (st i))}"
    for xs afs
    by (induction xs arbitrary: afs) (auto simp: fold_create_AFS)
  then show ?thesis by (auto simp: AFSInit_def)
qed

lemma null_loop_first:
  "sol v = None \<Longrightarrow> v < m \<Longrightarrow> x \<le> v \<Longrightarrow> \<exists>w. null_loop m sol x = Some w \<and> x \<le> w \<and> w \<le> v \<and> sol w = None"
proof (induction "v - x" arbitrary: x)
  case 0
  then show ?case by (subst null_loop.simps) auto
next
  case (Suc k)
  then show ?case
    using Suc.hyps(1) [of "x + 1"] by (subst null_loop.simps) fastforce
qed

lemma NullHeuristic_picks: "picks N (NullHeuristic N)"
  unfolding picks_def
proof (intro allI impI)
  fix k :: nat and s :: "'s search" and v
  assume v: "v \<in> {1..<N}" "arrSolution s v = None"
  then obtain w where "null_loop N (arrSolution s) 1 = Some w" "1 \<le> w" "w \<le> v" "arrSolution s w = None"
    using null_loop_first [of "arrSolution s" v N 1] by auto
  then show "\<exists>w b. NullHeuristic N k s = Some (w, b) \<and> w \<in> {1..<N} \<and> arrSolution s w = None"
    using v(1) by (intro exI [of _ w] exI [of _ True]) (simp add: NullHeuristic_def)
qed

end
