(* ===== verification/Smurf.thy ===== *)
theory Smurf
  imports Searchsound Bddvars
begin

text \<open>
  The tables of the Smurf solver: the numbering of the variables (vars_map.cc), the states and
  transitions computed from the diagrams (fn_smurf/bdd2smurf.cc, fn_smurf/transitions.cc), and
  CreateFunctions (fn_create.cc) where all functions are Smurfs. A state is the node it is computed
  for (\<open>pState\<close> of a node). The table is proved to meet the contract of theory Searchsound.
\<close>

section \<open>Numbering the variables\<close>

record var_map =
  nNumVariables :: nat
  arrSolver2IteVarMap :: "nat \<Rightarrow> nat"
  arrIte2SolverVarMap :: "nat \<Rightarrow> nat"

text \<open>The options that reverse or clear the distinction of independent variables.\<close>

definition set_dependance :: "bool \<Rightarrow> bool \<Rightarrow> (nat \<Rightarrow> int) \<Rightarrow> nat \<Rightarrow> int" where
  "set_dependance reverse_independant_dependant clear_dependance ind =
     (let ind = (if reverse_independant_dependant then (\<lambda>x. if ind x = 1 then 0 else if ind x = 0 then 1 else ind x) else ind)
      in if clear_dependance then (\<lambda>x. if ind x = 0 then 1 else ind x) else ind)"

fun number_vars :: "(nat \<Rightarrow> int) \<Rightarrow> (nat \<Rightarrow> int) \<Rightarrow> nat list \<Rightarrow> nat \<times> nat \<times> nat \<Rightarrow> (nat \<Rightarrow> nat) \<Rightarrow> (nat \<Rightarrow> nat) \<Rightarrow>
    (nat \<times> nat \<times> nat) \<times> (nat \<Rightarrow> nat) \<times> (nat \<Rightarrow> nat)" where
  "number_vars tf ind [] c s2i i2s = (c, s2i, i2s)"
| "number_vars tf ind (x # xs) (nIndep, nDep, nOther) s2i i2s =
     (if tf x = -1
      then if ind x = 1 then number_vars tf ind xs (nIndep + 1, nDep, nOther) (s2i(nIndep := x)) (i2s(x := nIndep))
           else if ind x = 0 then number_vars tf ind xs (nIndep, nDep + 1, nOther) (s2i(nDep := x)) (i2s(x := nDep))
           else number_vars tf ind xs (nIndep, nDep, nOther + 1) (s2i(nOther := x)) (i2s(x := nOther))
      else number_vars tf ind xs (nIndep, nDep, nOther) s2i i2s)"

text \<open>
  \<open>tf\<close> is \<open>true_false\<close> of the variable list. None stands for the assertions. The counts of the
  independent and dependent variables start from 0, as on the first call; the code never resets
  them. What only heuristics read (\<open>var_score\<close>, \<open>arrVarChoiceLevels\<close>) is left out.
\<close>

definition InitVarMap :: "nat \<Rightarrow> (nat \<Rightarrow> int) \<Rightarrow> (nat \<Rightarrow> int) \<Rightarrow> nat \<Rightarrow> var_map option" where
  "InitVarMap numinp tf ind nmbrFunctions =
     (let free = filter (\<lambda>x. tf x = -1) [0..<numinp + 1];
          nIndepVars = length (filter (\<lambda>x. ind x = 1) free);
          nDepVars = length (filter (\<lambda>x. ind x = 0) free);
          ((nSolutionIndep, nSolutionDep, _), s2i, i2s) =
            number_vars tf ind [0..<numinp + 1] (1, nIndepVars + 1, nIndepVars + nDepVars + 1) (\<lambda>_. 0) (\<lambda>_. 0)
      in if nmbrFunctions = 0 \<or> nSolutionIndep \<noteq> nIndepVars + 1 \<or> nSolutionDep - nIndepVars - 1 \<noteq> nDepVars then None
         else Some \<lparr>nNumVariables = 1 + length free, arrSolver2IteVarMap = s2i, arrIte2SolverVarMap = i2s\<rparr>)"

section \<open>The states\<close>

text \<open>
  Entry \<open>2 * i + value\<close> of \<open>arrTransitions\<close> is the transition of variable \<open>i\<close> of the state: positive
  and negative inferences, and the next state.
\<close>

record smurf_state =
  arrElts :: "nat list"
  arrTransitions :: "(nat list \<times> nat list \<times> bdd option) list"

record smurfs =
  node_st :: bddst
  pState :: "bdd \<Rightarrow> smurf_state option"

definition slot :: "nat \<Rightarrow> bool \<Rightarrow> nat" where
  "slot i val = 2 * i + of_bool val"

definition AddStateTransition :: "bool \<Rightarrow> var_map \<Rightarrow> bdd \<Rightarrow> nat \<Rightarrow> bool \<Rightarrow> bdd \<Rightarrow> bdd \<Rightarrow> smurfs \<Rightarrow> smurfs option" where
  "AddStateTransition d m pFunc i val pFuncEvaled pNext s =
     (if pFunc = pNext then None
      else case pState s pFunc of None \<Rightarrow> None
      | Some st \<Rightarrow>
         (let k = slot i val; infs = filter (\<lambda>p. snd p = 0) (inferences d pFuncEvaled);
              pos = map (\<lambda>p. arrIte2SolverVarMap m (nat (fst p))) (filter (\<lambda>p. 0 < fst p) infs);
              neg = map (\<lambda>p. arrIte2SolverVarMap m (nat (- fst p))) (filter (\<lambda>p. fst p < 0) infs)
          in if snd (snd (arrTransitions st ! k)) \<noteq> None then None
             else Some (s\<lparr>pState := (pState s)(pFunc :=
               Some (st\<lparr>arrTransitions := (arrTransitions st)[k := (pos, neg, Some pNext)]\<rparr>))\<rparr>)))"

text \<open>\<open>rec\<close> is the call of ComputeSmurfOfNormalized for the next state.\<close>

definition CreateTransition :: "(bdd \<Rightarrow> smurfs \<Rightarrow> smurfs option) \<Rightarrow> bool \<Rightarrow> var_map \<Rightarrow> bdd \<Rightarrow> nat \<Rightarrow> nat \<Rightarrow> bool \<Rightarrow>
    smurfs \<Rightarrow> smurfs option" where
  "CreateTransition rec d m pFunc i nSolverVble val s =
     (let (pFuncEvaled, b) = run_state (set_variable pFunc (arrSolver2IteVarMap m nSolverVble) val) (node_st s);
          (pReduct, b) = run_state (set_variable_all_infs d pFuncEvaled) b
      in do {
        s \<leftarrow> rec pReduct (s\<lparr>node_st := b\<rparr>);
        AddStateTransition d m pFunc i val pFuncEvaled pReduct s })"

fun create_transitions :: "(bdd \<Rightarrow> smurfs \<Rightarrow> smurfs option) \<Rightarrow> bool \<Rightarrow> var_map \<Rightarrow> bdd \<Rightarrow> nat \<Rightarrow> nat list \<Rightarrow>
    smurfs \<Rightarrow> smurfs option" where
  "create_transitions rec d m pFunc i [] s = Some s"
| "create_transitions rec d m pFunc i (v # vs) s = do {
     s \<leftarrow> CreateTransition rec d m pFunc i v True s;
     s \<leftarrow> CreateTransition rec d m pFunc i v False s;
     create_transitions rec d m pFunc (i + 1) vs s }"

text \<open>
  The first number bounds the depth of the recursion: each call has fewer variables. None is also
  the assertion that the diagram is not false.
\<close>

primrec ComputeSmurfOfNormalized :: "nat \<Rightarrow> bool \<Rightarrow> var_map \<Rightarrow> bdd \<Rightarrow> smurfs \<Rightarrow> smurfs option" where
  "ComputeSmurfOfNormalized 0 d m pFunc s = None"
| "ComputeSmurfOfNormalized (Suc n) d m pFunc s =
     (if pFunc = FalseP then None
      else if pFunc = TrueP \<or> pState s pFunc \<noteq> None then Some s
      else
        (let (ys, b) = run_state (unravelBDD pFunc) (node_st s);
             vs = rev (sort (map (arrIte2SolverVarMap m) ys))
         in create_transitions (ComputeSmurfOfNormalized n d m) d m pFunc 0 vs
              (s\<lparr>node_st := b, pState := (pState s)(pFunc :=
                 Some \<lparr>arrElts = vs, arrTransitions = replicate (2 * length vs) ([], [], None)\<rparr>)\<rparr>)))"

definition BDD2Smurf :: "nat \<Rightarrow> bool \<Rightarrow> var_map \<Rightarrow> bdd \<Rightarrow> smurfs \<Rightarrow> (bdd \<times> smurfs) option" where
  "BDD2Smurf n d m pFunc s =
     (let (pReduct, b) = run_state (set_variable_all_infs d pFunc) (node_st s)
      in do { s \<leftarrow> ComputeSmurfOfNormalized n d m pReduct (s\<lparr>node_st := b\<rparr>); Some (pReduct, s) })"

text \<open>The initial states of the functions; None for SOLV_UNSAT.\<close>

fun CreateFunctions :: "nat \<Rightarrow> bool \<Rightarrow> var_map \<Rightarrow> bdd list \<Rightarrow> smurfs \<Rightarrow> (bdd list option \<times> smurfs) option" where
  "CreateFunctions n d m [] s = Some (Some [], s)"
| "CreateFunctions n d m (f # fs) s =
     (if f = FalseP then Some (None, s)
      else do {
        (g, s) \<leftarrow> BDD2Smurf n d m f s;
        (gs, s) \<leftarrow> CreateFunctions n d m fs s;
        Some (map_option ((#) g) gs, s) })"

text \<open>What the search reads.\<close>

definition vbles_of :: "smurfs \<Rightarrow> bdd \<Rightarrow> nat list" where
  "vbles_of s g = (case pState s g of None \<Rightarrow> [] | Some st \<Rightarrow> arrElts st)"

definition transition_of :: "smurfs \<Rightarrow> bdd \<Rightarrow> nat \<Rightarrow> bool \<Rightarrow> nat list \<times> nat list \<times> bdd" where
  "transition_of s g v val =
     (case pState s g of None \<Rightarrow> ([], [], TrueP)
      | Some st \<Rightarrow>
         (let k = length (takeWhile (\<lambda>w. w \<noteq> v) (arrElts st)) in
          case arrTransitions st ! (slot k val) of
            (pos, neg, Some h) \<Rightarrow> (pos, neg, h) | (pos, neg, None) \<Rightarrow> (pos, neg, TrueP)))"

definition search_input :: "smurfs \<Rightarrow> bdd list \<Rightarrow> bdd solver_input" where
  "search_input s gs =
     \<lparr>vbles = vbles_of s, FindTransition = transition_of s, pTrueSmurfState = TrueP, nNumFuncs = length gs,
      arrAFS = AFSInit (vbles_of s) ((!) gs) (length gs)\<rparr>"

section \<open>The numbering\<close>

text \<open>The variables of \<open>L\<close> are numbered from \<open>b\<close> on.\<close>

definition numbered :: "nat \<Rightarrow> nat list \<Rightarrow> (nat \<Rightarrow> nat) \<Rightarrow> (nat \<Rightarrow> nat) \<Rightarrow> bool" where
  "numbered b L s2i i2s \<longleftrightarrow> distinct L \<and> (\<forall>k < length L. s2i (b + k) = L ! k \<and> i2s (L ! k) = b + k)"

lemma numbered_snoc:
  "numbered b L s2i i2s \<Longrightarrow> x \<notin> set L \<Longrightarrow> numbered b (L @ [x]) (s2i(b + length L := x)) (i2s(x := b + length L))"
  unfolding numbered_def by (auto simp: nth_append less_Suc_eq)

lemma numbered_other:
  "numbered b L s2i i2s \<Longrightarrow> x \<notin> set L \<Longrightarrow> k < b \<or> b + length L \<le> k \<Longrightarrow> numbered b L (s2i(k := x)) (i2s(x := k))"
  unfolding numbered_def by auto

definition numbering :: "nat \<Rightarrow> nat \<Rightarrow> nat list \<times> nat list \<times> nat list \<Rightarrow> nat \<times> nat \<times> nat \<Rightarrow> (nat \<Rightarrow> nat) \<Rightarrow> (nat \<Rightarrow> nat) \<Rightarrow> bool" where
  "numbering nI nD Ls c s2i i2s \<longleftrightarrow> (case (Ls, c) of ((LI, LD, LO), (ci, cd, co)) \<Rightarrow>
     numbered 1 LI s2i i2s \<and> numbered (nI + 1) LD s2i i2s \<and> numbered (nI + nD + 1) LO s2i i2s \<and>
     ci = 1 + length LI \<and> cd = nI + 1 + length LD \<and> co = nI + nD + 1 + length LO)"

lemma number_vars_numbering:
  assumes "numbering nI nD (LI, LD, LO) c s2i i2s" "distinct xs" "set xs \<inter> set (LI @ LD @ LO) = {}"
    and "length LI + length (filter (\<lambda>x. tf x = -1 \<and> ind x = 1) xs) = nI"
    and "length LD + length (filter (\<lambda>x. tf x = -1 \<and> ind x = 0) xs) = nD"
    and "number_vars tf ind xs c s2i i2s = (c', s2i', i2s')"
  shows "numbering nI nD (LI @ filter (\<lambda>x. tf x = -1 \<and> ind x = 1) xs, LD @ filter (\<lambda>x. tf x = -1 \<and> ind x = 0) xs,
    LO @ filter (\<lambda>x. tf x = -1 \<and> ind x \<noteq> 1 \<and> ind x \<noteq> 0) xs) c' s2i' i2s'"
  using assms
proof (induction xs arbitrary: LI LD LO c s2i i2s)
  case (Cons x xs)
  obtain ci cd co where c: "c = (ci, cd, co)" by (metis prod_cases3)
  have x: "x \<notin> set LI" "x \<notin> set LD" "x \<notin> set LO" using Cons.prems(3) by auto
  have nb: "numbered 1 LI s2i i2s" "numbered (nI + 1) LD s2i i2s" "numbered (nI + nD + 1) LO s2i i2s"
      and cs: "ci = 1 + length LI" "cd = nI + 1 + length LD" "co = nI + nD + 1 + length LO"
    using Cons.prems(1) unfolding c by (simp_all add: numbering_def)
  have d: "distinct xs" using Cons.prems(2) by simp
  consider "tf x \<noteq> -1" | "tf x = -1" "ind x = 1" | "tf x = -1" "ind x = 0" | "tf x = -1" "ind x \<noteq> 1" "ind x \<noteq> 0" by blast
  then show ?case
  proof cases
    case 1
    have "set xs \<inter> set (LI @ LD @ LO) = {}" using Cons.prems(3) by auto
    from Cons.IH [OF Cons.prems(1) d this] show ?thesis
      using Cons.prems(4-6) 1 unfolding c by simp
  next
    case 2
    have "length LI < nI" "length LD \<le> nD" using Cons.prems(4,5) 2 by simp_all
    then have "numbering nI nD (LI @ [x], LD, LO) (ci + 1, cd, co) (s2i(ci := x)) (i2s(x := ci))"
      using numbered_snoc [OF nb(1) x(1)] numbered_other [OF nb(2) x(2), of ci] numbered_other [OF nb(3) x(3), of ci]
      by (simp add: numbering_def cs)
    moreover have "set xs \<inter> set ((LI @ [x]) @ LD @ LO) = {}" using Cons.prems(2,3) by auto
    ultimately show ?thesis using Cons.IH [OF _ d, of "LI @ [x]" LD LO] Cons.prems(4-6) 2 unfolding c by simp
  next
    case 3
    have "length LI \<le> nI" "length LD < nD" using Cons.prems(4,5) 3 by simp_all
    then have "numbering nI nD (LI, LD @ [x], LO) (ci, cd + 1, co) (s2i(cd := x)) (i2s(x := cd))"
      using numbered_other [OF nb(1) x(1), of cd] numbered_snoc [OF nb(2) x(2)] numbered_other [OF nb(3) x(3), of cd]
      by (simp add: numbering_def cs)
    moreover have "set xs \<inter> set (LI @ (LD @ [x]) @ LO) = {}" using Cons.prems(2,3) by auto
    ultimately show ?thesis using Cons.IH [OF _ d, of LI "LD @ [x]" LO] Cons.prems(4-6) 3 unfolding c by simp
  next
    case 4
    have "length LI \<le> nI" "length LD \<le> nD" using Cons.prems(4,5) by simp_all
    then have "numbering nI nD (LI, LD, LO @ [x]) (ci, cd, co + 1) (s2i(co := x)) (i2s(x := co))"
      using numbered_other [OF nb(1) x(1), of co] numbered_other [OF nb(2) x(2), of co] numbered_snoc [OF nb(3) x(3)]
      by (simp add: numbering_def cs)
    moreover have "set xs \<inter> set (LI @ LD @ (LO @ [x])) = {}" using Cons.prems(2,3) by auto
    ultimately show ?thesis using Cons.IH [OF _ d, of LI LD "LO @ [x]"] Cons.prems(4-6) 4 unfolding c by simp
  qed
qed simp

text \<open>The numbers of the free variables are \<open>1, \<dots>, nNumVariables - 1\<close>, and the maps are inverse.\<close>

definition map_ok :: "var_map \<Rightarrow> nat set \<Rightarrow> bool" where
  "map_ok m V \<longleftrightarrow> (\<forall>x \<in> V. arrSolver2IteVarMap m (arrIte2SolverVarMap m x) = x \<and>
     arrIte2SolverVarMap m x \<in> {1..<nNumVariables m})"

lemma numbered_ok:
  assumes "numbered b L s2i i2s" "x \<in> set L"
  shows "s2i (i2s x) = x" "b \<le> i2s x" "i2s x < b + length L"
proof -
  obtain k where "k < length L" "L ! k = x" using assms(2) by (auto simp: in_set_conv_nth)
  then show "s2i (i2s x) = x" "b \<le> i2s x" "i2s x < b + length L" using assms(1) by (auto simp: numbered_def)
qed

lemma InitVarMap_ok:
  assumes "0 < k"
  shows "\<exists>m. InitVarMap n tf ind k = Some m \<and> map_ok m {x. x \<le> n \<and> tf x = -1} \<and>
    nNumVariables m = 1 + card {x. x \<le> n \<and> tf x = -1}"
proof -
  let ?xs = "[0..<n + 1]"
  let ?free = "filter (\<lambda>x. tf x = -1) ?xs"
  let ?LI = "filter (\<lambda>x. tf x = -1 \<and> ind x = 1) ?xs" and ?LD = "filter (\<lambda>x. tf x = -1 \<and> ind x = 0) ?xs"
    and ?LO = "filter (\<lambda>x. tf x = -1 \<and> ind x \<noteq> 1 \<and> ind x \<noteq> 0) ?xs"
  let ?nI = "length ?LI" and ?nD = "length ?LD"
  have len: "length ?free = ?nI + ?nD + length ?LO" for xs
  proof -
    have "length (filter (\<lambda>x. tf x = -1) xs) = length (filter (\<lambda>x. tf x = -1 \<and> ind x = 1) xs) +
        length (filter (\<lambda>x. tf x = -1 \<and> ind x = 0) xs) + length (filter (\<lambda>x. tf x = -1 \<and> ind x \<noteq> 1 \<and> ind x \<noteq> 0) xs)" for xs
      by (induction xs) auto
    then show ?thesis .
  qed
  have ff: "filter (\<lambda>x. ind x = 1) ?free = ?LI" "filter (\<lambda>x. ind x = 0) ?free = ?LD"
    by (simp_all add: conj_commute)
  obtain ci cd co s2i i2s where run: "number_vars tf ind ?xs (1, ?nI + 1, ?nI + ?nD + 1) (\<lambda>_. 0) (\<lambda>_. 0) = ((ci, cd, co), s2i, i2s)"
    by (cases "number_vars tf ind ?xs (1, ?nI + 1, ?nI + ?nD + 1) (\<lambda>_. 0) (\<lambda>_. 0)") (metis prod_cases3)
  have "numbering ?nI ?nD ([], [], []) (1, ?nI + 1, ?nI + ?nD + 1) (\<lambda>_. 0) (\<lambda>_. 0)"
    by (simp add: numbering_def numbered_def)
  from number_vars_numbering [OF this _ _ _ _ run]
  have nb: "numbering ?nI ?nD (?LI, ?LD, ?LO) (ci, cd, co) s2i i2s" by simp
  let ?m = "\<lparr>nNumVariables = 1 + length ?free, arrSolver2IteVarMap = s2i, arrIte2SolverVarMap = i2s\<rparr>"
  have "ci = ?nI + 1" "cd = ?nI + 1 + ?nD" using nb by (simp_all add: numbering_def)
  then have "InitVarMap n tf ind k = Some ?m"
    using assms run unfolding InitVarMap_def Let_def ff by simp
  moreover have "map_ok ?m {x. x \<le> n \<and> tf x = -1}"
    unfolding map_ok_def
  proof
    fix x assume "x \<in> {x. x \<le> n \<and> tf x = -1}"
    then have x: "x \<in> set ?LI \<or> x \<in> set ?LD \<or> x \<in> set ?LO" by auto
    have r: "s2i (i2s x) = x \<and> i2s x \<in> {1..<1 + length ?free}"
      if "x \<in> set L" "numbered b L s2i i2s" "1 \<le> b" "b + length L \<le> 1 + length ?free" for L b
      using numbered_ok [OF that(2,1)] that(3,4) by simp
    have n: "numbered 1 ?LI s2i i2s" "numbered (?nI + 1) ?LD s2i i2s" "numbered (?nI + ?nD + 1) ?LO s2i i2s"
      using nb by (simp_all add: numbering_def)
    have "s2i (i2s x) = x \<and> i2s x \<in> {1..<1 + length ?free}"
      using x by (elim disjE) ((rule r [OF _ n(1)] r [OF _ n(2)] r [OF _ n(3)], assumption); use len in linarith)+
    then show "arrSolver2IteVarMap ?m (arrIte2SolverVarMap ?m x) = x \<and>
        arrIte2SolverVarMap ?m x \<in> {1..<nNumVariables ?m}" by simp
  qed
  moreover have "length ?free = card {x. x \<le> n \<and> tf x = -1}"
  proof -
    have "length ?free = card (set ?free)" by (rule distinct_card [symmetric]) simp
    also have "set ?free = {x. x \<le> n \<and> tf x = -1}" by (auto simp del: upt_Suc)
    finally show ?thesis .
  qed
  ultimately show ?thesis by (intro exI [of _ ?m]) simp
qed

section \<open>A transition\<close>

text \<open>No literal is implied.\<close>

definition normal :: "bool \<Rightarrow> bdd \<Rightarrow> bool" where
  "normal d g \<longleftrightarrow> robdd g \<and> g \<noteq> FalseP \<and> (\<forall>p \<in> set (inferences d g). snd p \<noteq> 0)"

text \<open>Each variable is either set to a constant or left alone.\<close>

lemma assume_literals_pointwise:
  "(\<forall>a. assume_literals ps a y = a y) \<and> (\<forall>p \<in> set ps. snd p = 0 \<longrightarrow> nat \<bar>fst p\<bar> \<noteq> y) \<or>
   (\<exists>b. \<forall>a. assume_literals ps a y = b)"
proof (induction ps)
  case (Cons p ps)
  obtain l m where p: "p = (l, m)" by (cases p)
  show ?case
  proof (cases "m = 0 \<and> nat \<bar>l\<bar> = y")
    case True
    then have "assume_literals (p # ps) a y = (0 < l)" for a by (simp add: p)
    then show ?thesis by blast
  next
    case False
    then have "assume_literals (p # ps) a y = assume_literals ps a y" for a by (auto simp: p)
    then show ?thesis using Cons False by (auto simp: p)
  qed
qed simp

lemma assume_literals_known:
  assumes "p \<in> set ps" "snd p = 0"
  shows "assume_literals ps (a(nat \<bar>fst p\<bar> := c)) = assume_literals ps a"
proof
  fix y
  show "assume_literals ps (a(nat \<bar>fst p\<bar> := c)) y = assume_literals ps a y"
    using assume_literals_pointwise [of ps y] assms by (cases "y = nat \<bar>fst p\<bar>") auto
qed

lemma assume_literals_upd:
  "assume_literals ps (a(x := c)) = assume_literals ps a \<or> assume_literals ps (a(x := c)) = (assume_literals ps a)(x := c)"
proof -
  have other: "assume_literals ps (a(x := c)) y = assume_literals ps a y" if "y \<noteq> x" for y
    using assume_literals_pointwise [of ps y] that by auto
  have "assume_literals ps (a(x := c)) x = assume_literals ps a x \<or> assume_literals ps (a(x := c)) x = c"
    using assume_literals_pointwise [of ps x] by auto
  then show ?thesis
  proof
    assume "assume_literals ps (a(x := c)) x = assume_literals ps a x"
    then have "assume_literals ps (a(x := c)) y = assume_literals ps a y" for y using other by (cases "y = x") auto
    then show ?thesis by blast
  next
    assume "assume_literals ps (a(x := c)) x = c"
    then have "assume_literals ps (a(x := c)) y = ((assume_literals ps a)(x := c)) y" for y using other by (cases "y = x") auto
    then show ?thesis by blast
  qed
qed

lemma reduct_normal:
  assumes g: "robdd g" "g \<noteq> FalseP" and h: "is_node B (\<lambda>a. ev g (assume_literals (inferences d g) a)) h"
  shows "normal d h" "bvars h \<subseteq> bvars g"
    "ev g a \<longleftrightarrow> (\<forall>p \<in> set (inferences d g). snd p = 0 \<longrightarrow> lit (fst p) a) \<and> ev h a"
proof -
  let ?ps = "inferences d g"
  have rh: "robdd h" and evh: "ev h a = ev g (assume_literals ?ps a)" for a using h by (simp_all add: is_node_def)
  have nz: "\<forall>p \<in> set ?ps. fst p \<noteq> 0" using inferences_wf [OF g(1)] by (auto simp: infer_wf_def)
  have snd: "infer_holds p a" if "p \<in> set ?ps" "ev g a" for p a using inferences_sound [OF g(1) that(2,1)] .
  show ev: "ev g a \<longleftrightarrow> (\<forall>p \<in> set ?ps. snd p = 0 \<longrightarrow> lit (fst p) a) \<and> ev h a" for a
  proof (cases "\<forall>p \<in> set ?ps. snd p = 0 \<longrightarrow> lit (fst p) a")
    case True
    then have "assume_literals ?ps a = a" using nz by (intro assume_literals_holds) simp
    then show ?thesis using True evh by simp
  next
    case False
    then obtain p where p: "p \<in> set ?ps" "snd p = 0" "\<not> lit (fst p) a" by blast
    then have "\<not> ev g a" using snd [OF p(1)] by (auto simp: infer_holds_def)
    then show ?thesis using p by blast
  qed
  obtain a0 where a0: "ev g a0" using robdd_satisfiable [OF g] by blast
  then have h0: "ev h a0" using ev by blast
  show "bvars h \<subseteq> bvars g"
  proof
    fix v assume "v \<in> bvars h"
    then obtain a b where "ev h (a(v := b)) \<noteq> ev h a" using bvars_iff [OF rh] by blast
    then have "ev g ((assume_literals ?ps a)(v := b)) \<noteq> ev g (assume_literals ?ps a)"
      using assume_literals_upd [of ?ps a v b] unfolding evh by auto
    then show "v \<in> bvars g" using bvars_iff [OF g(1)] by blast
  qed
  have "snd p \<noteq> 0" if p: "p \<in> set (inferences d h)" for p
  proof
    assume l: "snd p = 0"
    have l0: "fst p \<noteq> 0" using inferences_wf [OF rh p] by (simp add: infer_wf_def)
    have imp: "lit (fst p) a" if "ev h a" for a using inferences_sound [OF rh that p] l by (simp add: infer_holds_def)
    have "(fst p, 0) \<in> set ?ps"
      by (rule inferences_complete [OF g l0]) (use ev imp in blast)
    then have "assume_literals ?ps (a0(nat \<bar>fst p\<bar> := \<not> 0 < fst p)) = assume_literals ?ps a0"
      using assume_literals_known [of "(fst p, 0)" ?ps a0] by simp
    then have "ev h (a0(nat \<bar>fst p\<bar> := \<not> 0 < fst p))" using h0 unfolding evh by simp
    from imp [OF this] show False using l0 by (auto simp: lit_def split: if_splits)
  qed
  then show "normal d h" using rh h0 by (auto simp: normal_def)
qed

text \<open>The two diagrams of a transition on variable \<open>x\<close>.\<close>

lemma transition_diagrams:
  assumes f: "normal d f" and x: "x \<in> bvars f" and g: "is_node B (\<lambda>a. ev f (a(x := b))) g"
    and h: "is_node B' (\<lambda>a. ev g (assume_literals (inferences d g) a)) h"
  shows "normal d h" "bvars g \<subseteq> bvars f - {x}" "bvars h \<subseteq> bvars f - {x}" "f \<noteq> h"
    "a x = b \<Longrightarrow> ev f a \<longleftrightarrow> (\<forall>p \<in> set (inferences d g). snd p = 0 \<longrightarrow> lit (fst p) a) \<and> ev h a"
proof -
  have rf: "robdd f" "f \<noteq> FalseP" and rg: "robdd g" and evg: "ev g a = ev f (a(x := b))" for a
    using f g by (simp_all add: normal_def is_node_def)
  have "g \<noteq> FalseP"
  proof
    assume "g = FalseP"
    then have no: "\<not> ev f (a(x := b))" for a using evg by simp
    have x0: "0 < x" using bvars_le_variable [OF rf(1) x] by simp
    let ?l = "if b then - int x else int x"
    have "lit ?l a" if "ev f a" for a
    proof -
      have "a x \<noteq> b"
      proof
        assume e: "a x = b"
        from no [of a] that show False unfolding fun_upd_idem [of a x b, OF e] by (rule notE)
      qed
      then show ?thesis using x0 by (auto simp: lit_def)
    qed
    then have "(?l, 0) \<in> set (inferences d f)" using x0 by (intro inferences_complete [OF rf]) auto
    then show False using f by (auto simp: normal_def)
  qed
  note r = reduct_normal [OF rg this h]
  show "bvars g \<subseteq> bvars f - {x}"
  proof
    fix v assume "v \<in> bvars g"
    then obtain a c where ne: "ev f (a(v := c, x := b)) \<noteq> ev f (a(x := b))"
      using bvars_iff [OF rg] unfolding evg by blast
    have vx: "v \<noteq> x"
    proof
      assume "v = x"
      with ne show False by simp
    qed
    have "ev f ((a(x := b))(v := c)) \<noteq> ev f (a(x := b))" using ne unfolding fun_upd_twist [OF vx] .
    then show "v \<in> bvars f - {x}" using bvars_iff [OF rf(1)] vx by blast
  qed
  then show sub: "bvars h \<subseteq> bvars f - {x}" using r(2) by blast
  show "normal d h" by (rule r(1))
  show "f \<noteq> h" using sub x by blast
  show "ev f a \<longleftrightarrow> (\<forall>p \<in> set (inferences d g). snd p = 0 \<longrightarrow> lit (fst p) a) \<and> ev h a" if "a x = b"
  proof -
    have "ev g a = ev f a" using evg [of a] unfolding fun_upd_idem [of a x b, OF that] .
    then show ?thesis using r(3) [of a] by simp
  qed
qed

section \<open>Building the states\<close>

text \<open>What a transition of state \<open>f\<close> on solver variable \<open>v\<close> promises.\<close>

definition step_ok :: "bool \<Rightarrow> var_map \<Rightarrow> bdd \<Rightarrow> nat \<Rightarrow> bool \<Rightarrow> nat list \<Rightarrow> nat list \<Rightarrow> bdd \<Rightarrow> bool" where
  "step_ok d m f v b pos neg h \<longleftrightarrow>
     (let i2s = arrIte2SolverVarMap m; rest = bvars f - {arrSolver2IteVarMap m v} in
      normal d h \<and> bvars h \<subseteq> rest \<and> set pos \<union> set neg \<subseteq> i2s ` rest \<and>
      (\<forall>a. a v = b \<longrightarrow> ev f (a \<circ> i2s) = ((\<forall>p \<in> set pos. a p) \<and> (\<forall>q \<in> set neg. \<not> a q) \<and> ev h (a \<circ> i2s))))"

text \<open>A state whose transitions in \<open>S\<close> are there; the next states have been entered.\<close>

definition entry_fits :: "bool \<Rightarrow> var_map \<Rightarrow> (bdd \<Rightarrow> smurf_state option) \<Rightarrow> bdd \<Rightarrow> nat \<Rightarrow> bool \<Rightarrow> bool \<Rightarrow>
    nat list \<times> nat list \<times> bdd option \<Rightarrow> bool" where
  "entry_fits d m mem f v b present e \<longleftrightarrow>
     (if present then \<exists>pos neg h. e = (pos, neg, Some h) \<and> step_ok d m f v b pos neg h \<and> (h = TrueP \<or> mem h \<noteq> None)
      else e = ([], [], None))"

definition partly :: "bool \<Rightarrow> var_map \<Rightarrow> (bdd \<Rightarrow> smurf_state option) \<Rightarrow> bdd \<Rightarrow> (nat \<times> bool) set \<Rightarrow> smurf_state \<Rightarrow> bool" where
  "partly d m mem f S st \<longleftrightarrow> distinct (arrElts st) \<and> set (arrElts st) = arrIte2SolverVarMap m ` bvars f \<and>
     length (arrTransitions st) = 2 * length (arrElts st) \<and>
     (\<forall>i < length (arrElts st). \<forall>b.
        entry_fits d m mem f (arrElts st ! i) b ((i, b) \<in> S) (arrTransitions st ! slot i b))"

text \<open>The states in \<open>D\<close> are still being built.\<close>

definition table_inv :: "bool \<Rightarrow> var_map \<Rightarrow> nat set \<Rightarrow> bdd set \<Rightarrow> smurfs \<Rightarrow> bool" where
  "table_inv d m V D s \<longleftrightarrow> st_ok (node_st s) \<and>
     (\<forall>f st. pState s f = Some st \<longrightarrow> normal d f \<and> f \<noteq> TrueP \<and> bvars f \<subseteq> V \<and>
        (f \<notin> D \<longrightarrow> partly d m (pState s) f UNIV st))"

definition keeps_states :: "bdd set \<Rightarrow> smurfs \<Rightarrow> smurfs \<Rightarrow> bool" where
  "keeps_states X s s' \<longleftrightarrow> (\<forall>g st. g \<notin> X \<longrightarrow> pState s g = Some st \<longrightarrow> pState s' g = Some st) \<and>
     (\<forall>g. pState s g \<noteq> None \<longrightarrow> pState s' g \<noteq> None)"

lemma keeps_states_refl: "keeps_states X s s"
  by (simp add: keeps_states_def)

lemma keeps_states_trans: "keeps_states X s t \<Longrightarrow> keeps_states X t u \<Longrightarrow> keeps_states X s u"
  by (simp add: keeps_states_def)

lemma keeps_states_weaken: "keeps_states {} s t \<Longrightarrow> keeps_states X s t"
  by (simp add: keeps_states_def)

lemma partly_mono:
  assumes "partly d m mem f S st" "\<And>h. mem h \<noteq> None \<Longrightarrow> mem' h \<noteq> None"
  shows "partly d m mem' f S st"
proof -
  have "entry_fits d m mem' f v b q e" if "entry_fits d m mem f v b q e" for v b q e
    using that assms(2) unfolding entry_fits_def by (cases q) auto
  then show ?thesis using assms(1) unfolding partly_def by blast
qed

lemma partly_all:
  "partly d m mem f S st \<Longrightarrow> (\<And>i b. i < length (arrElts st) \<Longrightarrow> (i, b) \<in> S) \<Longrightarrow> partly d m mem f UNIV st"
  unfolding partly_def by simp

lemma pos_neg_lits:
  assumes "\<forall>p \<in> set infs. fst p \<noteq> 0"
  shows "(\<forall>p \<in> set infs. snd p = 0 \<longrightarrow> lit (fst p) (a \<circ> g)) \<longleftrightarrow>
    (\<forall>x \<in> set (map (\<lambda>p. g (nat (fst p))) (filter (\<lambda>p. 0 < fst p) (filter (\<lambda>p. snd p = 0) infs))). a x) \<and>
    (\<forall>x \<in> set (map (\<lambda>p. g (nat (- fst p))) (filter (\<lambda>p. fst p < 0) (filter (\<lambda>p. snd p = 0) infs))). \<not> a x)"
  using assms
proof (induction infs)
  case (Cons p infs)
  obtain l k where p: "p = (l, k)" by (cases p)
  have "l \<noteq> 0" "\<forall>p \<in> set infs. fst p \<noteq> 0" using Cons.prems by (simp_all add: p)
  with Cons.IH show ?case by (cases "k = 0"; cases "l < 0") (simp_all add: p lit_def conj_ac)
qed simp

lemma step_diagrams_ok:
  assumes m: "map_ok m V" "bvars f \<subseteq> V" and f: "normal d f" and v: "v \<in> arrIte2SolverVarMap m ` bvars f"
    and g: "is_node B (\<lambda>a. ev f (a(arrSolver2IteVarMap m v := b))) g"
    and h: "is_node B' (\<lambda>a. ev g (assume_literals (inferences d g) a)) h"
    and pn: "infs = filter (\<lambda>p. snd p = 0) (inferences d g)"
      "pos = map (\<lambda>p. arrIte2SolverVarMap m (nat (fst p))) (filter (\<lambda>p. 0 < fst p) infs)"
      "neg = map (\<lambda>p. arrIte2SolverVarMap m (nat (- fst p))) (filter (\<lambda>p. fst p < 0) infs)"
  shows "step_ok d m f v b pos neg h" "bvars h \<subseteq> bvars f - {arrSolver2IteVarMap m v}"
    "arrSolver2IteVarMap m v \<in> bvars f" "f \<noteq> h" "normal d h"
proof -
  let ?i2s = "arrIte2SolverVarMap m" and ?x = "arrSolver2IteVarMap m v"
  obtain y where y: "y \<in> bvars f" "v = ?i2s y" using v by blast
  then have x: "?x \<in> bvars f" "?i2s ?x = v" using m unfolding map_ok_def by auto
  note t = transition_diagrams [OF f x(1) g h]
  show "bvars h \<subseteq> bvars f - {?x}" "?x \<in> bvars f" "f \<noteq> h" "normal d h" using t(1,3,4) x(1) by blast+
  have rg: "robdd g" using g by (simp add: is_node_def)
  have nz: "\<forall>p \<in> set (inferences d g). fst p \<noteq> 0" using inferences_wf [OF rg] by (auto simp: infer_wf_def)
  have "set pos \<union> set neg \<subseteq> ?i2s ` (bvars f - {?x})"
  proof
    fix w assume "w \<in> set pos \<union> set neg"
    then obtain p where p: "p \<in> set (inferences d g)" "w = ?i2s (nat \<bar>fst p\<bar>)" unfolding pn by auto
    have "nat \<bar>fst p\<bar> \<in> bvars f - {?x}" using inferences_vars [OF p(1)] t(2) by blast
    then show "w \<in> ?i2s ` (bvars f - {?x})" using p(2) by blast
  qed
  moreover have "ev f (a \<circ> ?i2s) = ((\<forall>p \<in> set pos. a p) \<and> (\<forall>q \<in> set neg. \<not> a q) \<and> ev h (a \<circ> ?i2s))" if "a v = b" for a
  proof -
    have e: "(a \<circ> ?i2s) ?x = b" using that x(2) by simp
    have "ev f (a \<circ> ?i2s) \<longleftrightarrow> (\<forall>p \<in> set (inferences d g). snd p = 0 \<longrightarrow> lit (fst p) (a \<circ> ?i2s)) \<and> ev h (a \<circ> ?i2s)"
      by (rule t(5)) (rule e)
    then show ?thesis using pos_neg_lits [OF nz, of a ?i2s] unfolding pn by blast
  qed
  ultimately show "step_ok d m f v b pos neg h" using t(1,3) by (simp add: step_ok_def Let_def)
qed

text \<open>What the recursive calls promise.\<close>

definition rec_ok :: "bool \<Rightarrow> var_map \<Rightarrow> nat set \<Rightarrow> bdd set \<Rightarrow> bdd \<Rightarrow> (bdd \<Rightarrow> smurfs \<Rightarrow> smurfs option) \<Rightarrow> bool" where
  "rec_ok d m V D f rec \<longleftrightarrow> (\<forall>h s. table_inv d m V D s \<longrightarrow> normal d h \<longrightarrow> bvars h \<subset> bvars f \<longrightarrow>
     (\<exists>s'. rec h s = Some s' \<and> table_inv d m V D s' \<and> keeps_states {} s s' \<and> (h = TrueP \<or> pState s' h \<noteq> None)))"

lemma slot_eq_iff: "slot i b = slot j c \<longleftrightarrow> i = j \<and> b = c"
  unfolding slot_def by (cases b; cases c) (simp; presburger)+

lemma slot_less: "i < n \<Longrightarrow> slot i b < 2 * n"
  by (cases b) (simp_all add: slot_def)

lemma partly_insert:
  assumes "partly d m mem f S st" "i < length (arrElts st)" "step_ok d m f (arrElts st ! i) b pos neg h"
    and "h = TrueP \<or> mem h \<noteq> None"
  shows "partly d m mem f (insert (i, b) S)
    (st\<lparr>arrTransitions := (arrTransitions st)[slot i b := (pos, neg, Some h)]\<rparr>)"
proof -
  have len: "slot i b < length (arrTransitions st)" using assms(1,2) slot_less by (simp add: partly_def)
  have at: "(arrTransitions st)[slot i b := (pos, neg, Some h)] ! slot j c =
      (if j = i \<and> c = b then (pos, neg, Some h) else arrTransitions st ! slot j c)" for j c
    using len by (simp add: nth_list_update slot_eq_iff eq_commute)
  have "entry_fits d m mem f (arrElts st ! i) b True (pos, neg, Some h)"
    using assms(3,4) by (simp add: entry_fits_def)
  then show ?thesis using assms(1) at unfolding partly_def by auto
qed

lemma CreateTransition_ok:
  assumes m: "map_ok m V" and t: "table_inv d m V D s" "f \<in> D" and st: "pState s f = Some st" "partly d m (pState s) f S st"
    and i: "i < length (arrElts st)" "(i, b) \<notin> S" and r: "rec_ok d m V D f rec"
  shows "\<exists>s'. CreateTransition rec d m f i (arrElts st ! i) b s = Some s' \<and> table_inv d m V D s' \<and> keeps_states {f} s s' \<and>
    (\<exists>st'. pState s' f = Some st' \<and> arrElts st' = arrElts st \<and> partly d m (pState s') f (insert (i, b) S) st')"
proof -
  let ?v = "arrElts st ! i" and ?infs = "\<lambda>g. filter (\<lambda>p. snd p = 0) (inferences d g)"
  have f: "normal d f" "bvars f \<subseteq> V" "robdd f" using t(1) st(1) by (auto simp: table_inv_def normal_def)
  have v: "?v \<in> arrIte2SolverVarMap m ` bvars f" using st(2) i(1) nth_mem unfolding partly_def by metis
  obtain g b1 where g: "run_state (set_variable f (arrSolver2IteVarMap m ?v) b) (node_st s) = (g, b1)" by (metis surj_pair)
  have stok: "st_ok (node_st s)" using t(1) by (simp add: table_inv_def)
  have gn: "is_node (variable f) (\<lambda>a. ev f (a(arrSolver2IteVarMap m ?v := b))) g" "st_ok b1"
    using gives_run [OF set_variable_gives [OF f(3)] stok g] by blast+
  then have rg: "robdd g" by (simp add: is_node_def)
  obtain h b2 where h: "run_state (set_variable_all_infs d g) b1 = (h, b2)" by (metis surj_pair)
  have "\<forall>p \<in> set (inferences d g). fst p \<noteq> 0" using inferences_wf [OF rg] by (auto simp: infer_wf_def)
  from gives_run [OF set_variable_infs_gives [OF rg this] gn(2) h [unfolded set_variable_all_infs_def]]
  have hn: "is_node (variable g) (\<lambda>a. ev g (assume_literals (inferences d g) a)) h" "st_ok b2" by blast+
  let ?pos = "map (\<lambda>p. arrIte2SolverVarMap m (nat (fst p))) (filter (\<lambda>p. 0 < fst p) (?infs g))"
  let ?neg = "map (\<lambda>p. arrIte2SolverVarMap m (nat (- fst p))) (filter (\<lambda>p. fst p < 0) (?infs g))"
  note so = step_diagrams_ok [OF m f(2,1) v gn(1) hn(1) refl refl refl]
  have t2: "table_inv d m V D (s\<lparr>node_st := b2\<rparr>)" using t(1) hn(2) by (simp add: table_inv_def)
  have "bvars h \<subset> bvars f" using so(2,3) by blast
  with r t2 so(5) obtain s2 where s2: "rec h (s\<lparr>node_st := b2\<rparr>) = Some s2" "table_inv d m V D s2"
      "keeps_states {} (s\<lparr>node_st := b2\<rparr>) s2" "h = TrueP \<or> pState s2 h \<noteq> None"
    unfolding rec_ok_def by blast
  have f2: "pState s2 f = Some st" using s2(3) st(1) by (simp add: keeps_states_def)
  have none: "snd (snd (arrTransitions st ! slot i b)) = None" using st(2) i by (simp add: partly_def entry_fits_def)
  let ?st = "st\<lparr>arrTransitions := (arrTransitions st)[slot i b := (?pos, ?neg, Some h)]\<rparr>"
  let ?s = "s2\<lparr>pState := (pState s2)(f := Some ?st)\<rparr>"
  have run: "CreateTransition rec d m f i ?v b s = Some ?s"
    using g h s2(1) f2 none so(4) by (simp add: CreateTransition_def AddStateTransition_def Let_def)
  have mono: "pState ?s k \<noteq> None" if "pState s2 k \<noteq> None" for k using that by simp
  have "partly d m (pState s2) f S st" using partly_mono [OF st(2)] s2(3) by (simp add: keeps_states_def)
  from partly_insert [OF this i(1) so(1) s2(4)]
  have "partly d m (pState ?s) f (insert (i, b) S) ?st" by (rule partly_mono) (rule mono)
  moreover have "table_inv d m V D ?s"
    unfolding table_inv_def
  proof (intro conjI allI impI)
    show "st_ok (node_st ?s)" using s2(2) by (simp add: table_inv_def)
    fix k stk assume k: "pState ?s k = Some stk"
    then have "\<exists>x. pState s2 k = Some x" using f2 by (cases "k = f") auto
    then show "normal d k" "k \<noteq> TrueP" "bvars k \<subseteq> V" using s2(2) by (auto simp: table_inv_def)
    assume "k \<notin> D"
    then have "pState s2 k = Some stk" using k t(2) by (cases "k = f") auto
    then have "partly d m (pState s2) k UNIV stk" using s2(2) \<open>k \<notin> D\<close> by (simp add: table_inv_def)
    then show "partly d m (pState ?s) k UNIV stk" by (rule partly_mono) (rule mono)
  qed
  moreover have "keeps_states {f} s ?s"
    using s2(3) f2 by (simp add: keeps_states_def)
  ultimately show ?thesis using run by (intro exI [of _ ?s]) simp
qed

lemma create_transitions_ok:
  assumes m: "map_ok m V" and f: "f \<in> D" and r: "rec_ok d m V D f rec"
  shows "table_inv d m V D s \<Longrightarrow> pState s f = Some st \<Longrightarrow> arrElts st = pre @ vs \<Longrightarrow>
    partly d m (pState s) f {(i, b). i < length pre} st \<Longrightarrow>
    \<exists>s'. create_transitions rec d m f (length pre) vs s = Some s' \<and> table_inv d m V D s' \<and> keeps_states {f} s s' \<and>
      (\<exists>st'. pState s' f = Some st' \<and> partly d m (pState s') f UNIV st')"
proof (induction vs arbitrary: s st pre)
  case Nil
  then have "partly d m (pState s) f UNIV st" by (intro partly_all [OF Nil(4)]) simp
  then show ?case using Nil keeps_states_refl by auto
next
  case (Cons v vs)
  let ?i = "length pre" and ?S = "{(i, b :: bool). i < length pre}"
  have v: "?i < length (arrElts st)" "arrElts st ! ?i = v" using Cons.prems(3) by simp_all
  obtain s1 st1 where s1: "CreateTransition rec d m f ?i v True s = Some s1" "table_inv d m V D s1" "keeps_states {f} s s1"
      "pState s1 f = Some st1" "arrElts st1 = arrElts st" "partly d m (pState s1) f (insert (?i, True) ?S) st1"
    using CreateTransition_ok [OF m Cons.prems(1) f Cons.prems(2,4) v(1) _ r, of True] v(2) by auto
  have "?i < length (arrElts st1)" "(?i, False) \<notin> insert (?i, True) ?S" using v(1) s1(5) by simp_all
  from CreateTransition_ok [OF m s1(2) f s1(4,6) this r] obtain s2 st2 where s2:
      "CreateTransition rec d m f ?i v False s1 = Some s2" "table_inv d m V D s2" "keeps_states {f} s1 s2"
      "pState s2 f = Some st2" "arrElts st2 = arrElts st"
      "partly d m (pState s2) f (insert (?i, False) (insert (?i, True) ?S)) st2"
    using v(2) s1(5) by auto
  have "insert (?i, False) (insert (?i, True) ?S) = {(i, b). i < length (pre @ [v])}"
    by (auto simp: less_Suc_eq)
  then have p: "partly d m (pState s2) f {(i, b). i < length (pre @ [v])} st2" using s2(6) by simp
  have "arrElts st2 = (pre @ [v]) @ vs" using Cons.prems(3) s2(5) by simp
  from Cons.IH [OF s2(2,4) this p] obtain s3 where s3: "create_transitions rec d m f (length (pre @ [v])) vs s2 = Some s3"
      "table_inv d m V D s3" "keeps_states {f} s2 s3" "\<exists>st'. pState s3 f = Some st' \<and> partly d m (pState s3) f UNIV st'" by blast
  have "create_transitions rec d m f ?i (v # vs) s = Some s3" using s1(1) s2(1) s3(1) by simp
  then show ?case
    using s3(2,4) keeps_states_trans [OF keeps_states_trans [OF s1(3) s2(3)] s3(3)] by blast
qed

lemma ComputeSmurfOfNormalized_ok:
  assumes m: "map_ok m V" and V: "finite V"
  shows "table_inv d m V D s \<Longrightarrow> normal d f \<Longrightarrow> bvars f \<subseteq> V \<Longrightarrow> card (bvars f) < n \<Longrightarrow>
    \<exists>s'. ComputeSmurfOfNormalized n d m f s = Some s' \<and> table_inv d m V D s' \<and> keeps_states {} s s' \<and>
      (f = TrueP \<or> pState s' f \<noteq> None)"
proof (induction n arbitrary: D s f)
  case (Suc n)
  have f0: "f \<noteq> FalseP" using Suc.prems(2) by (simp add: normal_def)
  show ?case
  proof (cases "f = TrueP \<or> pState s f \<noteq> None")
    case True
    then have "ComputeSmurfOfNormalized (Suc n) d m f s = Some s" using f0 by simp
    then show ?thesis using Suc.prems(1) True keeps_states_refl by blast
  next
    case False
    obtain ys b where run: "run_state (unravelBDD f) (node_st s) = (ys, b)" by (metis surj_pair)
    have "st_ok (node_st s)" using Suc.prems(1) by (simp add: table_inv_def)
    from gives_run [OF unravelBDD_gives this run] have ys: "distinct ys" "set ys = bvars f" "st_ok b" by blast+
    let ?vs = "rev (sort (map (arrIte2SolverVarMap m) ys))"
    let ?st = "\<lparr>arrElts = ?vs, arrTransitions = replicate (2 * length ?vs) ([], [], None)\<rparr>"
    let ?s = "s\<lparr>node_st := b, pState := (pState s)(f := Some ?st)\<rparr>"
    have "inj_on (arrIte2SolverVarMap m) (set ys)"
      using m Suc.prems(3) ys(2) unfolding map_ok_def by (intro inj_on_inverseI [of _ "arrSolver2IteVarMap m"]) blast
    then have "distinct ?vs" using ys(1) by (simp add: distinct_map)
    moreover have "set ?vs = arrIte2SolverVarMap m ` bvars f" using ys(2) by simp
    ultimately have p0: "partly d m (pState ?s) f {(i, b). i < length []} ?st"
      unfolding partly_def entry_fits_def using slot_less [of _ "length ?vs"] by simp
    have t0: "table_inv d m V (insert f D) ?s"
      unfolding table_inv_def
    proof (intro conjI allI impI)
      show "st_ok (node_st ?s)" using ys(3) by simp
      fix k stk assume k: "pState ?s k = Some stk"
      show "normal d k" "k \<noteq> TrueP" "bvars k \<subseteq> V"
        using k Suc.prems(1,2,3) False by (cases "k = f"; simp add: table_inv_def)+
      assume kD: "k \<notin> insert f D"
      then have "partly d m (pState s) k UNIV stk" using k Suc.prems(1) by (simp add: table_inv_def)
      then show "partly d m (pState ?s) k UNIV stk" by (rule partly_mono) simp
    qed
    have rec: "rec_ok d m V (insert f D) f (ComputeSmurfOfNormalized n d m)"
      unfolding rec_ok_def
    proof (intro allI impI)
      fix h s assume h: "table_inv d m V (insert f D) s" "normal d h" "bvars h \<subset> bvars f"
      have "card (bvars h) < card (bvars f)" using h(3) by (intro psubset_card_mono) simp_all
      then have "card (bvars h) < n" "bvars h \<subseteq> V" using Suc.prems(3,4) h(3) by auto
      from Suc.IH [OF h(1,2) this(2,1)]
      show "\<exists>s'. ComputeSmurfOfNormalized n d m h s = Some s' \<and> table_inv d m V (insert f D) s' \<and> keeps_states {} s s' \<and>
          (h = TrueP \<or> pState s' h \<noteq> None)" .
    qed
    have "pState ?s f = Some ?st" "arrElts ?st = [] @ ?vs" by simp_all
    from create_transitions_ok [OF m insertI1 rec t0 this p0] obtain s' st' where s':
        "create_transitions (ComputeSmurfOfNormalized n d m) d m f 0 ?vs ?s = Some s'" "table_inv d m V (insert f D) s'"
        "keeps_states {f} ?s s'" "pState s' f = Some st'" "partly d m (pState s') f UNIV st'" by auto
    have "ComputeSmurfOfNormalized (Suc n) d m f s = Some s'"
      using f0 False run s'(1) by (simp add: Let_def)
    moreover have "table_inv d m V D s'" using s'(2,4,5) unfolding table_inv_def by (metis insert_iff option.inject)
    moreover have "pState s' g = Some st" if g: "pState s g = Some st" for g st
    proof -
      have "g \<noteq> f" using g False by auto
      then show ?thesis using g s'(3) by (simp add: keeps_states_def)
    qed
    then have "keeps_states {} s s'" by (auto simp: keeps_states_def)
    ultimately show ?thesis using s'(4) by blast
  qed
qed simp

section \<open>Creating the functions\<close>

text \<open>A normal diagram is its own reduct.\<close>

lemma assume_no_literals: "\<forall>p \<in> set ps. snd p \<noteq> 0 \<Longrightarrow> assume_literals ps a = a"
  by (induction ps a rule: assume_literals.induct) auto

lemma BDD2Smurf_ok:
  assumes m: "map_ok m V" "finite V" and t: "table_inv d m V {} s" and f: "normal d f" "bvars f \<subseteq> V" "card (bvars f) < n"
  shows "\<exists>s'. BDD2Smurf n d m f s = Some (f, s') \<and> table_inv d m V {} s' \<and> keeps_states {} s s' \<and>
    (f = TrueP \<or> pState s' f \<noteq> None)"
proof -
  have rf: "robdd f" and nl: "\<forall>p \<in> set (inferences d f). snd p \<noteq> 0" using f(1) by (simp_all add: normal_def)
  obtain g b where run: "run_state (set_variable_all_infs d f) (node_st s) = (g, b)" by (metis surj_pair)
  have st: "st_ok (node_st s)" using t by (simp add: table_inv_def)
  have "\<forall>p \<in> set (inferences d f). fst p \<noteq> 0" using inferences_wf [OF rf] by (auto simp: infer_wf_def)
  from gives_run [OF set_variable_infs_gives [OF rf this] st run [unfolded set_variable_all_infs_def]]
  have g: "is_node (variable f) (\<lambda>a. ev f (assume_literals (inferences d f) a)) g" "st_ok b" by blast+
  have "g = f"
    by (rule robdd_canonical) (use g(1) rf in \<open>simp_all add: is_node_def assume_no_literals [OF nl]\<close>)
  moreover have "table_inv d m V {} (s\<lparr>node_st := b\<rparr>)" using t g(2) by (simp add: table_inv_def)
  from ComputeSmurfOfNormalized_ok [OF m this f] obtain s' where
    "ComputeSmurfOfNormalized n d m f (s\<lparr>node_st := b\<rparr>) = Some s'" "table_inv d m V {} s'"
    "keeps_states {} (s\<lparr>node_st := b\<rparr>) s'" "f = TrueP \<or> pState s' f \<noteq> None" by blast
  ultimately show ?thesis using run by (simp add: BDD2Smurf_def keeps_states_def)
qed

lemma CreateFunctions_ok:
  assumes m: "map_ok m V" "finite V"
  shows "table_inv d m V {} s \<Longrightarrow>
    \<forall>f \<in> set fs. robdd f \<and> (\<forall>p \<in> set (inferences d f). snd p \<noteq> 0) \<and> bvars f \<subseteq> V \<and> card (bvars f) < n \<Longrightarrow>
    \<exists>s'. CreateFunctions n d m fs s = Some (if FalseP \<in> set fs then None else Some fs, s') \<and> table_inv d m V {} s' \<and>
      keeps_states {} s s' \<and> (FalseP \<notin> set fs \<longrightarrow> (\<forall>f \<in> set fs. f = TrueP \<or> pState s' f \<noteq> None))"
proof (induction fs arbitrary: s)
  case Nil
  then show ?case using keeps_states_refl by simp
next
  case (Cons f fs)
  show ?case
  proof (cases "f = FalseP")
    case True
    then show ?thesis using Cons.prems(1) keeps_states_refl by simp
  next
    case False
    then have f: "normal d f" "bvars f \<subseteq> V" "card (bvars f) < n" using Cons.prems(2) by (simp_all add: normal_def)
    from BDD2Smurf_ok [OF m Cons.prems(1) f] obtain s1 where s1: "BDD2Smurf n d m f s = Some (f, s1)" "table_inv d m V {} s1"
        "keeps_states {} s s1" "f = TrueP \<or> pState s1 f \<noteq> None" by blast
    from Cons.IH [OF s1(2)] Cons.prems(2) obtain s2 where s2:
        "CreateFunctions n d m fs s1 = Some (if FalseP \<in> set fs then None else Some fs, s2)" "table_inv d m V {} s2"
        "keeps_states {} s1 s2" "FalseP \<notin> set fs \<longrightarrow> (\<forall>f \<in> set fs. f = TrueP \<or> pState s2 f \<noteq> None)" by auto
    have "f = TrueP \<or> pState s2 f \<noteq> None" using s1(4) s2(3) by (auto simp: keeps_states_def)
    then show ?thesis
      using s1(1) s2 False keeps_states_trans [OF s1(3) s2(3)] by simp
  qed
qed

section \<open>The table meets the contract\<close>

text \<open>A complete table with the initial states of the functions.\<close>

definition complete :: "bool \<Rightarrow> var_map \<Rightarrow> nat set \<Rightarrow> smurfs \<Rightarrow> bdd list \<Rightarrow> bool" where
  "complete d m V s gs \<longleftrightarrow> map_ok m V \<and> table_inv d m V {} s \<and> (\<forall>g \<in> set gs. pState s g \<noteq> None)"

definition good_state :: "smurfs \<Rightarrow> bdd \<Rightarrow> bool" where
  "good_state s g \<longleftrightarrow> g = TrueP \<or> pState s g \<noteq> None"

lemma complete_state:
  assumes "complete d m V s gs" "pState s g = Some st"
  shows "normal d g" "g \<noteq> TrueP" "bvars g \<subseteq> V" "partly d m (pState s) g UNIV st"
    "vbles_of s g = arrElts st" "set (vbles_of s g) = arrIte2SolverVarMap m ` bvars g"
  using assms by (auto simp: complete_def table_inv_def vbles_of_def partly_def)

lemma takeWhile_index: "x \<in> set xs \<Longrightarrow> length (takeWhile (\<lambda>w. w \<noteq> x) xs) < length xs \<and> xs ! length (takeWhile (\<lambda>w. w \<noteq> x) xs) = x"
  by (induction xs) auto

lemma transition_of_ok:
  assumes c: "complete d m V s gs" and g: "good_state s g" and v: "v \<in> set (vbles_of s g)"
    and tr: "transition_of s g v b = (pos, neg, h)"
  shows "step_ok d m g v b pos neg h" "good_state s h" "bvars g \<subseteq> V" "v \<in> arrIte2SolverVarMap m ` bvars g"
proof -
  obtain st where st: "pState s g = Some st" using v by (cases "pState s g") (simp_all add: vbles_of_def)
  note cs = complete_state [OF c st]
  let ?k = "length (takeWhile (\<lambda>w. w \<noteq> v) (arrElts st))"
  have k: "?k < length (arrElts st)" "arrElts st ! ?k = v" using takeWhile_index [of v "arrElts st"] v cs(5) by simp_all
  then have "entry_fits d m (pState s) g v b True (arrTransitions st ! slot ?k b)"
    using cs(4) unfolding partly_def by force
  then obtain pos' neg' h' where e: "arrTransitions st ! slot ?k b = (pos', neg', Some h')" "step_ok d m g v b pos' neg' h'"
      "h' = TrueP \<or> pState s h' \<noteq> None" by (auto simp: entry_fits_def)
  have "(pos, neg, h) = (pos', neg', h')" using tr st e(1) by (simp add: transition_of_def Let_def)
  then show "step_ok d m g v b pos neg h" "good_state s h" using e(2,3) by (simp_all add: good_state_def)
  show "bvars g \<subseteq> V" "v \<in> arrIte2SolverVarMap m ` bvars g" using cs(3,6) v by blast+
qed

lemma complete_search:
  assumes c: "complete d m V s gs"
  shows "smurf_search (search_input s gs) (\<lambda>g a. ev g (a \<circ> arrIte2SolverVarMap m)) (good_state s) ((!) gs) (nNumVariables m)"
proof
  let ?P = "search_input s gs" and ?i2s = "arrIte2SolverVarMap m"
  have P: "vbles ?P = vbles_of s" "FindTransition ?P = transition_of s" "pTrueSmurfState ?P = TrueP" "nNumFuncs ?P = length gs"
      "arrAFS ?P = AFSInit (vbles_of s) ((!) gs) (length gs)" by (simp_all add: search_input_def)
  have none: "pState s TrueP = None" using c by (cases "pState s TrueP") (auto simp: complete_def table_inv_def)
  then have vt: "vbles_of s TrueP = []" by (simp add: vbles_of_def)
  have m: "map_ok m V" using c by (simp add: complete_def)
  show "ev (pTrueSmurfState ?P) (a \<circ> ?i2s)" for a by (simp add: P)
  show "vbles ?P (pTrueSmurfState ?P) = []" by (simp add: P vt)
  show "vbles ?P g \<noteq> []" if g: "good_state s g" "g \<noteq> pTrueSmurfState ?P" for g
  proof -
    obtain st where st: "pState s g = Some st" using g by (auto simp: good_state_def P)
    note cs = complete_state [OF c st]
    have "g \<noteq> FalseP" using cs(1) by (simp add: normal_def)
    then have "bvars g \<noteq> {}" using cs(2) by (cases g) auto
    then show ?thesis using cs(6) unfolding P by (metis empty_set image_is_empty)
  qed
  show "good_state s h \<and> set (vbles ?P h) \<subseteq> set (vbles ?P g) - {v} \<and> set pos \<union> set neg \<subseteq> set (vbles ?P g) - {v} \<and>
      (\<forall>a. a v = b \<longrightarrow> ev g (a \<circ> ?i2s) = ((\<forall>p \<in> set pos. a p) \<and> (\<forall>q \<in> set neg. \<not> a q) \<and> ev h (a \<circ> ?i2s)))"
    if g: "good_state s g" "v \<in> set (vbles ?P g)" "FindTransition ?P g v b = (pos, neg, h)" for g v b pos neg h
  proof -
    note t = transition_of_ok [OF c g(1) g(2) [unfolded P] g(3) [unfolded P]]
    let ?rest = "bvars g - {arrSolver2IteVarMap m v}"
    have so: "bvars h \<subseteq> ?rest" "set pos \<union> set neg \<subseteq> ?i2s ` ?rest"
        "\<forall>a. a v = b \<longrightarrow> ev g (a \<circ> ?i2s) = ((\<forall>p \<in> set pos. a p) \<and> (\<forall>q \<in> set neg. \<not> a q) \<and> ev h (a \<circ> ?i2s))"
      using t(1) by (simp_all add: step_ok_def Let_def)
    obtain st where st: "pState s g = Some st" using g(2) by (cases "pState s g") (simp_all add: vbles_of_def P)
    have vg: "set (vbles_of s g) = ?i2s ` bvars g" by (rule complete_state(6) [OF c st])
    have r1: "?i2s ` ?rest \<subseteq> set (vbles_of s g) - {v}"
    proof
      fix w assume "w \<in> ?i2s ` ?rest"
      then obtain x where x: "x \<in> bvars g" "x \<noteq> arrSolver2IteVarMap m v" "w = ?i2s x" by blast
      have "x \<in> V" using x(1) t(3) by (rule subsetD [rotated])
      then have "arrSolver2IteVarMap m w = x" using m x(3) by (simp add: map_ok_def)
      then have "w \<noteq> v" using x(2) by auto
      moreover have "w \<in> set (vbles_of s g)" using x(1,3) vg by simp
      ultimately show "w \<in> set (vbles_of s g) - {v}" by simp
    qed
    have "set (vbles_of s h) \<subseteq> ?i2s ` bvars h"
      using t(2) vt complete_state(6) [OF c, of h] by (auto simp: good_state_def)
    then have "set (vbles_of s h) \<subseteq> set (vbles_of s g) - {v}"
      using order_trans [OF image_mono [OF so(1)] r1] by (rule order_trans)
    then show ?thesis unfolding P using t(2) order_trans [OF so(2) r1] so(3) by (intro conjI)
  qed
  show "good_state s (gs ! i) \<and> gs ! i \<noteq> pTrueSmurfState ?P \<and> set (vbles ?P (gs ! i)) \<subseteq> {1..<nNumVariables m}"
    if "i < nNumFuncs ?P" for i
  proof -
    have "gs ! i \<in> set gs" using that by (simp add: P)
    then obtain st where st: "pState s (gs ! i) = Some st" using c by (auto simp: complete_def)
    note cs = complete_state [OF c st]
    have "set (vbles_of s (gs ! i)) \<subseteq> {1..<nNumVariables m}" using cs(3,6) m unfolding map_ok_def by auto
    then show ?thesis using st cs(2) by (simp add: P good_state_def)
  qed
  show "i \<in> set (arrAFS ?P v) \<longleftrightarrow> i < nNumFuncs ?P \<and> v \<in> set (vbles ?P (gs ! i))" for i v
    by (simp add: P AFSInit_set)
qed

text \<open>The type of complete tables, with their numbering and the initial states of the functions.\<close>

typedef smurf_tables = "{T :: var_map \<times> smurfs \<times> bdd list. \<exists>d V. complete d (fst T) V (fst (snd T)) (snd (snd T))}"
proof -
  let ?s = "\<lparr>node_st = bddst_init (\<lambda>_. 0) 4 16 True, pState = (\<lambda>_. None)\<rparr>"
  have "complete False m {} ?s []" for m
    by (simp add: complete_def map_ok_def table_inv_def st_ok_init)
  then have "(m, ?s, []) \<in> {T. \<exists>d V. complete d (fst T) V (fst (snd T)) (snd (snd T))}" for m by auto
  then show ?thesis by blast
qed

abbreviation "numbers_of T \<equiv> fst (Rep_smurf_tables T)"
abbreviation "states_of T \<equiv> fst (snd (Rep_smurf_tables T))"
abbreviation "initials_of T \<equiv> snd (snd (Rep_smurf_tables T))"

lemma tables_complete: "\<exists>d V. complete d (numbers_of T) V (states_of T) (initials_of T)"
  using Rep_smurf_tables [of T] by simp

interpretation tables: smurf_search "search_input (states_of T) (initials_of T)"
    "\<lambda>g a. ev g (a \<circ> arrIte2SolverVarMap (numbers_of T))" "good_state (states_of T)" "(!) (initials_of T)"
    "nNumVariables (numbers_of T)" for T
  using tables_complete [of T] complete_search by blast

lemma Abs_tables:
  assumes "complete d m V s gs"
  shows "numbers_of (Abs_smurf_tables (m, s, gs)) = m" "states_of (Abs_smurf_tables (m, s, gs)) = s"
    "initials_of (Abs_smurf_tables (m, s, gs)) = gs"
proof -
  have "Rep_smurf_tables (Abs_smurf_tables (m, s, gs)) = (m, s, gs)"
    by (rule Abs_smurf_tables_inverse) (use assms in auto)
  then show "numbers_of (Abs_smurf_tables (m, s, gs)) = m" "states_of (Abs_smurf_tables (m, s, gs)) = s"
    "initials_of (Abs_smurf_tables (m, s, gs)) = gs" by simp_all
qed

text \<open>The search on a complete table, for assignments of the input variables.\<close>

lemma Brancher_tables:
  assumes c: "complete d m V s gs" and h: "picks (nNumVariables m) procHeurSelect"
  shows "\<exists>r t. Brancher (search_input s gs) procHeurSelect limit k (InitBrancherX (length gs) ((!) gs)) = Some (r, t) \<and>
    (\<forall>q \<in> set (solution_info t). \<forall>a. extended_by q a \<longrightarrow> (\<forall>g \<in> set gs. ev g (a \<circ> arrIte2SolverVarMap m))) \<and>
    (r = SOLV_SAT \<longleftrightarrow> solution_info t \<noteq> []) \<and>
    (r = SOLV_UNSAT \<longrightarrow> \<not> (\<exists>a. \<forall>g \<in> set gs. ev g a)) \<and> (r = SOLV_UNKNOWN \<longrightarrow> (\<exists>j. limit j)) \<and>
    ((\<forall>j. \<not> limit j) \<and> length (solution_info t) \<noteq> k \<longrightarrow>
      (\<forall>a. (\<forall>g \<in> set gs. ev g a) \<longrightarrow> (\<exists>q \<in> set (solution_info t). extended_by q (a \<circ> arrSolver2IteVarMap m))))"
proof -
  let ?T = "Abs_smurf_tables (m, s, gs)" and ?i2s = "arrIte2SolverVarMap m"
  let ?sat = "satisfies_all (search_input s gs) (\<lambda>g a. ev g (a \<circ> ?i2s)) ((!) gs)"
  have sat: "?sat a \<longleftrightarrow> (\<forall>g \<in> set gs. ev g (a \<circ> ?i2s))" for a
    by (simp add: satisfies_all_def search_input_def all_set_conv_all_nth)
  have pull: "?sat (a \<circ> arrSolver2IteVarMap m) \<longleftrightarrow> (\<forall>g \<in> set gs. ev g a)" for a
  proof -
    have "ev g ((a \<circ> arrSolver2IteVarMap m) \<circ> ?i2s) = ev g a" if "g \<in> set gs" for g
    proof (rule ev_agree)
      fix x assume "x \<in> bvars g"
      moreover have "bvars g \<subseteq> V" using c that unfolding complete_def table_inv_def by blast
      ultimately have "x \<in> V" by blast
      then show "((a \<circ> arrSolver2IteVarMap m) \<circ> ?i2s) x = a x" using c by (simp add: complete_def map_ok_def)
    qed
    then show ?thesis unfolding sat by simp
  qed
  have n: "nNumFuncs (search_input s gs) = length gs" by (simp add: search_input_def)
  from tables.Brancher_ok [of ?T procHeurSelect limit k, unfolded Abs_tables [OF c] n] h
  obtain r t where t: "Brancher (search_input s gs) procHeurSelect limit k (InitBrancherX (length gs) ((!) gs)) = Some (r, t)"
    "found_ok (search_input s gs) (\<lambda>g a. ev g (a \<circ> ?i2s)) ((!) gs) limit t"
    "search_over (search_input s gs) (\<lambda>g a. ev g (a \<circ> ?i2s)) ((!) gs) k t"
    "r = SOLV_SAT \<longleftrightarrow> solution_info t \<noteq> []" "r = SOLV_UNSAT \<longrightarrow> (\<forall>a. \<not> ?sat a)" "r = SOLV_UNKNOWN \<longrightarrow> (\<exists>j. limit j)"
    by blast
  have "\<forall>q \<in> set (solution_info t). \<forall>a. extended_by q a \<longrightarrow> (\<forall>g \<in> set gs. ev g (a \<circ> ?i2s))"
    using t(2) unfolding found_ok_def sat by blast
  moreover have "r = SOLV_UNSAT \<longrightarrow> \<not> (\<exists>a. \<forall>g \<in> set gs. ev g a)" using t(5) pull by blast
  moreover have "\<exists>q \<in> set (solution_info t). extended_by q (a \<circ> arrSolver2IteVarMap m)"
    if "\<forall>j. \<not> limit j" "length (solution_info t) \<noteq> k" "\<forall>g \<in> set gs. ev g a" for a
  proof -
    have "\<not> ERR_LIMITS t" using t(2) that(1) unfolding found_ok_def by blast
    then have "\<forall>a. ?sat a \<longrightarrow> (\<exists>q \<in> set (solution_info t). extended_by q a)" using t(3) that(2) unfolding search_over_def by blast
    then show ?thesis using pull that(3) by blast
  qed
  ultimately show ?thesis using t(1,4,6) by (intro exI [of _ r] exI [of _ t]) blast
qed

end
