(* ===== verification/Solver.thy ===== *)
theory Solver
  imports Smurf Preproc
begin

text \<open>
  The Smurf solver as a whole (solv_smurf/solver.cc): \<open>solve\<close> with the options NO_LEMMAS, without
  BREAK_XORS, with every function a Smurf and smurfs_share_paths; the array in which RecordSolution
  keeps a solution (vars_recordsol.cc), and the checks of a solution (vars_verify.cc). Parts that
  only free memory are left out, and \<open>bdd_gc\<close> after the state machines have been built: it keeps the
  functions (theory Bddgc), and the search reads the machines only.
\<close>

section \<open>The solver\<close>

text \<open>SOLV_UNKNOWN of the code, which goes on with the search, is \<open>Some\<close> initial states.\<close>

definition solve_init :: "bool \<Rightarrow> bool \<Rightarrow> bool \<Rightarrow> (nat \<Rightarrow> int) \<Rightarrow> (nat \<Rightarrow> int) \<Rightarrow> bdd list \<Rightarrow> bddst \<Rightarrow>
    (var_map \<times> bdd list option \<times> smurfs) option" where
  "solve_init reverse_independant_dependant clear_dependance d tf ind fs b =
     (let numinp = nat (getNuminp fs);
          ind = set_dependance reverse_independant_dependant clear_dependance ind
      in do {
        m \<leftarrow> InitVarMap numinp tf ind (length fs);
        (gs, s) \<leftarrow> CreateFunctions (numinp + 1) d m fs \<lparr>node_st = b, pState = (\<lambda>_. None)\<rparr>;
        Some (m, gs, s) })"

text \<open>
  The heuristic gets the bound on the variables that its initialisation reads. The result has the
  numbering and the recorded solutions, over the variables of the solver.
\<close>

definition solve :: "bool \<Rightarrow> bool \<Rightarrow> bool \<Rightarrow> (nat \<Rightarrow> nat \<Rightarrow> bdd search \<Rightarrow> (nat \<times> bool) option) \<Rightarrow> (nat \<Rightarrow> bool) \<Rightarrow> nat \<Rightarrow>
    (nat \<Rightarrow> int) \<Rightarrow> (nat \<Rightarrow> int) \<Rightarrow> bdd list \<Rightarrow> bddst \<Rightarrow> (solv_result \<times> var_map \<times> (nat \<Rightarrow> bool option) list) option" where
  "solve reverse_independant_dependant clear_dependance d procHeurSelect limit max_solutions tf ind fs b = do {
     (m, gs, s) \<leftarrow> solve_init reverse_independant_dependant clear_dependance d tf ind fs b;
     case gs of None \<Rightarrow> Some (SOLV_UNSAT, m, [])
     | Some gs \<Rightarrow> do {
         (r, t) \<leftarrow> Brancher (search_input s gs) (procHeurSelect (nNumVariables m)) limit max_solutions
                    (InitBrancherX (length gs) ((!) gs));
         Some (r, m, solution_info t) } }"

text \<open>
  The array of a recorded solution, over the variables of the input. \<open>elts\<close> is what it held before:
  the literals of the choice points and zeros.
\<close>

definition solution_elts :: "nat \<Rightarrow> var_map \<Rightarrow> (nat \<Rightarrow> bool option) \<Rightarrow> (nat \<Rightarrow> bool option) \<Rightarrow> nat \<Rightarrow> bool option" where
  "solution_elts numinp m elts sol =
     fold (\<lambda>i elts. if arrSolver2IteVarMap m i \<le> numinp then elts(arrSolver2IteVarMap m i := sol i) else elts)
       [0..<nNumVariables m] elts"

section \<open>Checking a solution\<close>

fun ConsistentBDDSolution :: "(nat \<Rightarrow> nat) \<Rightarrow> (nat \<Rightarrow> bool option) \<Rightarrow> bdd \<Rightarrow> bool" where
  "ConsistentBDDSolution i2s sol (Node v t e) =
     (case sol (i2s v) of
        Some True \<Rightarrow> ConsistentBDDSolution i2s sol t
      | Some False \<Rightarrow> ConsistentBDDSolution i2s sol e
      | None \<Rightarrow> ConsistentBDDSolution i2s sol t \<or> ConsistentBDDSolution i2s sol e)"
| "ConsistentBDDSolution i2s sol f = (f = TrueP)"

definition ConsistentPartialSolution :: "(nat \<Rightarrow> nat) \<Rightarrow> bdd list \<Rightarrow> (nat \<Rightarrow> bool option) \<Rightarrow> bool" where
  "ConsistentPartialSolution i2s fs sol =
     fold (\<lambda>f nConsistent. if ConsistentBDDSolution i2s sol f then nConsistent else False) fs True"

fun VerifyBDDSolution :: "(nat \<Rightarrow> nat) \<Rightarrow> (nat \<Rightarrow> bool option) \<Rightarrow> bdd \<Rightarrow> bool" where
  "VerifyBDDSolution i2s sol (Node v t e) =
     (case sol (i2s v) of
        Some True \<Rightarrow> VerifyBDDSolution i2s sol t
      | Some False \<Rightarrow> VerifyBDDSolution i2s sol e
      | None \<Rightarrow> VerifyBDDSolution i2s sol t \<and> VerifyBDDSolution i2s sol e)"
| "VerifyBDDSolution i2s sol f = (f = TrueP)"

definition VerifySolution :: "(nat \<Rightarrow> nat) \<Rightarrow> bdd list \<Rightarrow> (nat \<Rightarrow> bool option) \<Rightarrow> bool" where
  "VerifySolution i2s fs sol =
     fold (\<lambda>f nSatisfied. if VerifyBDDSolution i2s sol f then nSatisfied else False) fs True"

text \<open>The assignments of the input variables that have the values of the solution.\<close>

definition fits :: "(nat \<Rightarrow> nat) \<Rightarrow> (nat \<Rightarrow> bool option) \<Rightarrow> nat set \<Rightarrow> assignment \<Rightarrow> bool" where
  "fits i2s sol V a \<longleftrightarrow> (\<forall>x \<in> V. \<forall>b. sol (i2s x) = Some b \<longrightarrow> a x = b)"

lemma fits_node:
  assumes "v \<notin> bvars t \<union> bvars e"
  shows "(\<exists>a. fits i2s sol (bvars (Node v t e)) a \<and> ev (Node v t e) a) \<longleftrightarrow>
    (case sol (i2s v) of
       Some True \<Rightarrow> (\<exists>a. fits i2s sol (bvars t) a \<and> ev t a)
     | Some False \<Rightarrow> (\<exists>a. fits i2s sol (bvars e) a \<and> ev e a)
     | None \<Rightarrow> (\<exists>a. fits i2s sol (bvars t) a \<and> ev t a) \<or> (\<exists>a. fits i2s sol (bvars e) a \<and> ev e a))"
proof -
  let ?f = "Node v t e"
  have up: "\<exists>a. fits i2s sol (bvars ?f) a \<and> ev ?f a"
    if a: "fits i2s sol (bvars g) a" "ev g a" and g: "g = (if b then t else e)" and b: "sol (i2s v) \<noteq> Some (\<not> b)" for g a b
  proof -
    define w where "w x = (if x = v then b else if x \<in> bvars g then a x else sol (i2s x) = Some True)" for x
    have "v \<notin> bvars g" using assms g by auto
    then have "ev g w = ev g a" by (intro ev_agree) (auto simp: w_def)
    moreover have "w v = b" by (simp add: w_def)
    ultimately have "ev ?f w" using a(2) g by (cases b) auto
    moreover have "fits i2s sol (bvars ?f) w" unfolding fits_def
    proof (intro ballI allI impI)
      fix x c assume "x \<in> bvars ?f" "sol (i2s x) = Some c"
      then show "w x = c" using a(1) b \<open>v \<notin> bvars g\<close> by (cases c; cases b) (auto simp: fits_def w_def)
    qed
    ultimately show ?thesis by blast
  qed
  have down: "fits i2s sol (bvars t) a" "fits i2s sol (bvars e) a" if "fits i2s sol (bvars ?f) a" for a
    using that by (auto simp: fits_def)
  have val: "a v = b" if "fits i2s sol (bvars ?f) a" "sol (i2s v) = Some b" for a b
    using that by (simp add: fits_def)
  have ex: "(\<exists>a. fits i2s sol (bvars ?f) a \<and> ev ?f a) \<longleftrightarrow>
      sol (i2s v) \<noteq> Some False \<and> (\<exists>a. fits i2s sol (bvars t) a \<and> ev t a) \<or>
      sol (i2s v) \<noteq> Some True \<and> (\<exists>a. fits i2s sol (bvars e) a \<and> ev e a)" (is "?L \<longleftrightarrow> ?T \<or> ?E")
  proof
    assume ?L
    then obtain a where a: "fits i2s sol (bvars ?f) a" "ev ?f a" by blast
    show "?T \<or> ?E"
    proof (cases "a v")
      case True
      then show ?thesis using a down(1) [OF a(1)] val [OF a(1), of False] by auto
    next
      case False
      then show ?thesis using a down(2) [OF a(1)] val [OF a(1), of True] by auto
    qed
  next
    assume "?T \<or> ?E"
    then show ?L
    proof
      assume ?T
      then obtain a where a: "fits i2s sol (bvars t) a" "ev t a" "sol (i2s v) \<noteq> Some (\<not> True)" by auto
      show ?L by (rule up [OF a(1,2) _ a(3)]) simp
    next
      assume ?E
      then obtain a where a: "fits i2s sol (bvars e) a" "ev e a" "sol (i2s v) \<noteq> Some (\<not> False)" by auto
      show ?L by (rule up [OF a(1,2) _ a(3)]) simp
    qed
  qed
  show ?thesis unfolding ex by (simp split: option.split bool.split)
qed

lemma ConsistentBDDSolution_iff:
  "robdd f \<Longrightarrow> ConsistentBDDSolution i2s sol f \<longleftrightarrow> (\<exists>a. fits i2s sol (bvars f) a \<and> ev f a)"
proof (induction f)
  case (Node v t e)
  have "v \<notin> bvars t \<union> bvars e" using Node.prems bvars_le_variable [of t v] bvars_le_variable [of e v] by auto
  from fits_node [OF this, of i2s sol] show ?case
    using Node.IH Node.prems unfolding ConsistentBDDSolution.simps(1) by (simp split: option.split bool.split)
qed (auto simp: fits_def)

lemma VerifyBDDSolution_complement: "VerifyBDDSolution i2s sol f \<longleftrightarrow> \<not> ConsistentBDDSolution i2s sol (notCase f)"
  by (induction f) (auto split: option.split bool.split)

lemma VerifyBDDSolution_iff:
  assumes "robdd f"
  shows "VerifyBDDSolution i2s sol f \<longleftrightarrow> (\<forall>a. fits i2s sol (bvars f) a \<longrightarrow> ev f a)"
proof -
  have "robdd (notCase f)" using assms by simp
  from ConsistentBDDSolution_iff [OF this, of i2s sol] show ?thesis unfolding VerifyBDDSolution_complement by auto
qed

lemma VerifySolution_iff: "VerifySolution i2s fs sol \<longleftrightarrow> (\<forall>f \<in> set fs. VerifyBDDSolution i2s sol f)"
proof -
  have "fold (\<lambda>f ok. if VerifyBDDSolution i2s sol f then ok else False) fs b \<longleftrightarrow> b \<and> (\<forall>f \<in> set fs. VerifyBDDSolution i2s sol f)" for b
    by (induction fs arbitrary: b) auto
  then show ?thesis by (simp add: VerifySolution_def)
qed

lemma ConsistentPartialSolution_iff: "ConsistentPartialSolution i2s fs sol \<longleftrightarrow> (\<forall>f \<in> set fs. ConsistentBDDSolution i2s sol f)"
proof -
  have "fold (\<lambda>f ok. if ConsistentBDDSolution i2s sol f then ok else False) fs b \<longleftrightarrow> b \<and> (\<forall>f \<in> set fs. ConsistentBDDSolution i2s sol f)" for b
    by (induction fs arbitrary: b) auto
  then show ?thesis by (simp add: ConsistentPartialSolution_def)
qed

section \<open>The array of a solution\<close>

lemma map_ok_onto:
  assumes "map_ok m V" "nNumVariables m = 1 + card V" "finite V" "i \<in> {1..<nNumVariables m}"
  shows "\<exists>x \<in> V. arrIte2SolverVarMap m x = i"
proof -
  have inj: "inj_on (arrIte2SolverVarMap m) V" by (rule inj_on_inverseI [of _ "arrSolver2IteVarMap m"]) (use assms(1) in \<open>simp add: map_ok_def\<close>)
  have "arrIte2SolverVarMap m ` V \<subseteq> {1..<nNumVariables m}" using assms(1) by (auto simp: map_ok_def)
  then have "arrIte2SolverVarMap m ` V = {1..<nNumVariables m}"
    by (intro card_subset_eq) (use assms(2) card_image [OF inj] in simp_all)
  then show ?thesis using assms(4) by (metis imageE)
qed

lemma solution_elts_at:
  assumes m: "map_ok m V" "nNumVariables m = 1 + card V" "finite V" and x: "x \<in> V" "x \<le> n"
  shows "solution_elts n m elts sol x = sol (arrIte2SolverVarMap m x)"
proof -
  let ?s2i = "arrSolver2IteVarMap m" and ?i = "arrIte2SolverVarMap m x"
  let ?step = "\<lambda>i elts. if ?s2i i \<le> n then elts(?s2i i := sol i) else elts"
  have other: "fold ?step is e x = e x" if "\<forall>i \<in> set is. ?s2i i \<noteq> x" for "is" e
    using that by (induction "is" arbitrary: e) auto
  have i: "?s2i ?i = x" "1 \<le> ?i" "?i < nNumVariables m" using m(1) x(1) by (auto simp: map_ok_def)
  have "?s2i j \<noteq> x" if "j \<in> {?i + 1..<nNumVariables m}" for j
  proof
    assume j: "?s2i j = x"
    have "j \<in> {1..<nNumVariables m}" using that by simp
    from map_ok_onto [OF m this] obtain y where y: "y \<in> V" "arrIte2SolverVarMap m y = j" by blast
    then have "?s2i j = y" using m(1) by (auto simp: map_ok_def)
    then show False using y(2) j that by simp
  qed
  then have "fold ?step [?i + 1..<nNumVariables m] e x = e x" for e by (intro other) auto
  moreover have "[0..<nNumVariables m] = [0..<?i] @ [?i] @ [?i + 1..<nNumVariables m]"
    using i(3) by (metis append_Cons append_Nil less_imp_le_nat le0 upt_add_eq_append upt_conv_Cons
      le_add_diff_inverse plus_nat.add_0 Suc_eq_plus1)
  ultimately show ?thesis using i(1) x(2) unfolding solution_elts_def by simp
qed

section \<open>The solver is correct\<close>

lemma fits_verified:
  assumes m: "map_ok m V" and f: "bvars f \<subseteq> V" and q: "\<forall>a. extended_by q a \<longrightarrow> ev f (a \<circ> arrIte2SolverVarMap m)"
    and a: "fits (arrIte2SolverVarMap m) q (bvars f) a"
  shows "ev f a"
proof -
  let ?i2s = "arrIte2SolverVarMap m" and ?s2i = "arrSolver2IteVarMap m"
  define w where "w i = (if i \<in> ?i2s ` bvars f then a (?s2i i) else q i = Some True)" for i
  have inv: "?s2i (?i2s x) = x" if "x \<in> bvars f" for x using m f that by (auto simp: map_ok_def)
  have "extended_by q w" unfolding extended_by_def
  proof (intro allI impI)
    fix i b assume b: "q i = Some b"
    show "w i = b"
    proof (cases "i \<in> ?i2s ` bvars f")
      case True
      then obtain x where x: "x \<in> bvars f" "i = ?i2s x" by blast
      then have "a x = b" using a b unfolding fits_def by simp
      then show ?thesis using x inv [OF x(1)] by (simp add: w_def)
    next
      case False
      then show ?thesis using b by (simp add: w_def)
    qed
  qed
  then have "ev f (w \<circ> ?i2s)" using q by blast
  moreover have "ev f (w \<circ> ?i2s) = ev f a"
    by (rule ev_agree) (use inv in \<open>simp add: w_def\<close>)
  ultimately show ?thesis by simp
qed

lemma elts_fit:
  assumes m: "map_ok m V" "nNumVariables m = 1 + card V" "finite V" and V: "\<forall>x \<in> V. x \<le> n"
    and f: "robdd f" "bvars f \<subseteq> V" and a: "extended_by (solution_elts n m elts q) a"
  shows "fits (arrIte2SolverVarMap m) q (bvars f) a"
  unfolding fits_def
proof (intro ballI allI impI)
  fix x b assume x: "x \<in> bvars f" and b: "q (arrIte2SolverVarMap m x) = Some b"
  have "x \<in> V" using f(2) x by blast
  then have "solution_elts n m elts q x = Some b" using solution_elts_at [OF m, of x n] V b by simp
  moreover have "x \<noteq> 0" using bvars_le_variable [OF f(1) x] by simp
  ultimately show "a x = b" using extended_byD [OF a] by blast
qed

lemma bvars_numinp:
  assumes "f \<in> set fs" "robdd f"
  shows "\<forall>v \<in> bvars f. v \<le> nat (getNuminp fs)" "card (bvars f) < nat (getNuminp fs) + 1"
proof -
  have b: "0 < v \<and> v \<le> nat (getNuminp fs)" if "v \<in> bvars f" for v
    using bvars_le_variable [OF assms(2) that] getNuminp_ge(1) [OF assms(1)] by linarith
  then show "\<forall>v \<in> bvars f. v \<le> nat (getNuminp fs)" by blast
  have "bvars f \<subseteq> {1..nat (getNuminp fs)}" using b by force
  from card_mono [OF _ this] show "card (bvars f) < nat (getNuminp fs) + 1" by simp
qed

lemma solve_ok:
  assumes fs: "fs \<noteq> []" "\<forall>f \<in> set fs. robdd f \<and> f \<noteq> TrueP \<and> (\<forall>p \<in> set (inferences d f). snd p \<noteq> 0) \<and> (\<forall>v \<in> bvars f. tf v = -1)"
    and b: "st_ok b" and h: "\<forall>n. picks n (procHeurSelect n)"
  shows "\<exists>r m sols. solve rv cl d procHeurSelect limit k tf ind fs b = Some (r, m, sols) \<and>
    (\<forall>q \<in> set sols. VerifySolution (arrIte2SolverVarMap m) fs q \<and>
       (\<forall>elts a. extended_by (solution_elts (nat (getNuminp fs)) m elts q) a \<longrightarrow> (\<forall>f \<in> set fs. ev f a))) \<and>
    (r = SOLV_SAT \<longleftrightarrow> sols \<noteq> []) \<and> (r = SOLV_UNSAT \<longrightarrow> \<not> (\<exists>a. \<forall>f \<in> set fs. ev f a)) \<and>
    (r = SOLV_UNKNOWN \<longrightarrow> (\<exists>j. limit j)) \<and>
    ((\<forall>j. \<not> limit j) \<and> (k = 0 \<or> length sols \<noteq> k) \<longrightarrow> (\<forall>a. (\<forall>f \<in> set fs. ev f a) \<longrightarrow>
       (\<exists>q \<in> set sols. fits (arrIte2SolverVarMap m) q {x. x \<le> nat (getNuminp fs) \<and> tf x = -1} a)))"
proof -
  let ?n = "nat (getNuminp fs)" and ?b = "\<lparr>node_st = b, pState = (\<lambda>_. None)\<rparr>"
  let ?V = "{x. x \<le> ?n \<and> tf x = -1}"
  have fin: "finite ?V" by (rule finite_subset [of _ "{..?n}"]) auto
  have bv: "bvars f \<subseteq> ?V" "card (bvars f) < ?n + 1" if "f \<in> set fs" for f
    using bvars_numinp [OF that] fs(2) that by auto
  obtain m where m: "InitVarMap ?n tf (set_dependance rv cl ind) (length fs) = Some m" "map_ok m ?V"
      "nNumVariables m = 1 + card ?V"
    using InitVarMap_ok [of "length fs" ?n tf] fs(1) by auto
  have ti: "table_inv d m ?V {} ?b" using b by (simp add: table_inv_def)
  have "\<forall>f \<in> set fs. robdd f \<and> (\<forall>p \<in> set (inferences d f). snd p \<noteq> 0) \<and> bvars f \<subseteq> ?V \<and> card (bvars f) < ?n + 1"
    using fs(2) bv by blast
  from CreateFunctions_ok [OF m(2) fin ti this] obtain s where
    s: "CreateFunctions (?n + 1) d m fs ?b = Some (if FalseP \<in> set fs then None else Some fs, s)" "table_inv d m ?V {} s"
      "FalseP \<notin> set fs \<longrightarrow> (\<forall>f \<in> set fs. f = TrueP \<or> pState s f \<noteq> None)" by blast
  have init: "solve_init rv cl d tf ind fs b = Some (m, if FalseP \<in> set fs then None else Some fs, s)"
    using m(1) s(1) by (simp add: solve_init_def)
  show ?thesis
  proof (cases "FalseP \<in> set fs")
    case True
    then have "\<not> (\<exists>a. \<forall>f \<in> set fs. ev f a)" by force
    moreover have "solve rv cl d procHeurSelect limit k tf ind fs b = Some (SOLV_UNSAT, m, [])"
      using init True by (simp add: solve_def)
    ultimately show ?thesis by (intro exI [of _ SOLV_UNSAT] exI [of _ m] exI [of _ "[]"]) auto
  next
    case False
    have c: "complete d m ?V s fs" using m(2) s(2,3) False fs(2) by (auto simp: complete_def)
    have "picks (nNumVariables m) (procHeurSelect (nNumVariables m))" using h by blast
    from Brancher_tables [OF c this, of limit k] obtain r t where
      t: "Brancher (search_input s fs) (procHeurSelect (nNumVariables m)) limit k (InitBrancherX (length fs) ((!) fs)) = Some (r, t)"
        "\<forall>q \<in> set (solution_info t). \<forall>a. extended_by q a \<longrightarrow> (\<forall>g \<in> set fs. ev g (a \<circ> arrIte2SolverVarMap m))"
        "r = SOLV_SAT \<longleftrightarrow> solution_info t \<noteq> []" "r = SOLV_UNSAT \<longrightarrow> \<not> (\<exists>a. \<forall>g \<in> set fs. ev g a)"
        "r = SOLV_UNKNOWN \<longrightarrow> (\<exists>j. limit j)"
        "(\<forall>j. \<not> limit j) \<and> length (solution_info t) \<noteq> k \<longrightarrow>
           (\<forall>a. (\<forall>g \<in> set fs. ev g a) \<longrightarrow> (\<exists>q \<in> set (solution_info t). extended_by q (a \<circ> arrSolver2IteVarMap m)))"
      by blast
    have "\<not> (\<exists>a. \<forall>g \<in> set fs. ev g a)" if "\<forall>j. \<not> limit j" "solution_info t = []"
      using that t(3,4,5) by (cases r) simp_all
    then have all: "(\<forall>j. \<not> limit j) \<and> (k = 0 \<or> length (solution_info t) \<noteq> k) \<longrightarrow>
        (\<forall>a. (\<forall>g \<in> set fs. ev g a) \<longrightarrow> (\<exists>q \<in> set (solution_info t). extended_by q (a \<circ> arrSolver2IteVarMap m)))"
      using t(6) by fastforce
    have run: "solve rv cl d procHeurSelect limit k tf ind fs b = Some (r, m, solution_info t)"
      using init False t(1) by (simp add: solve_def)
    have fit: "ev f a" if "q \<in> set (solution_info t)" "f \<in> set fs" "fits (arrIte2SolverVarMap m) q (bvars f) a" for q f a
      by (rule fits_verified [OF m(2) bv(1) _ that(3)]) (use t(2) that(1,2) in blast)+
    have "VerifySolution (arrIte2SolverVarMap m) fs q" if "q \<in> set (solution_info t)" for q
      unfolding VerifySolution_iff using VerifyBDDSolution_iff fit [OF that] fs(2) by blast
    moreover have "ev f a" if "q \<in> set (solution_info t)" "extended_by (solution_elts ?n m elts q) a" "f \<in> set fs" for q elts a f
      by (rule fit [OF that(1,3)], rule elts_fit [OF m(2,3) fin _ _ bv(1) that(2)]) (use fs(2) that(3) in auto)
    moreover have "fits (arrIte2SolverVarMap m) q ?V a" if q: "extended_by q (a \<circ> arrSolver2IteVarMap m)" for q a
      unfolding fits_def
    proof (intro ballI allI impI)
      fix x b assume "x \<in> ?V" and b: "q (arrIte2SolverVarMap m x) = Some b"
      then have x: "arrSolver2IteVarMap m (arrIte2SolverVarMap m x) = x" "arrIte2SolverVarMap m x \<noteq> 0"
        using m(2) unfolding map_ok_def by fastforce+
      show "a x = b" using extended_byD [OF q b x(2)] x(1) by simp
    qed
    ultimately show ?thesis using run t(3-5) all by (intro exI [of _ r] exI [of _ m] exI [of _ "solution_info t"]) blast
  qed
qed

end
