(* ===== verification/Itemain.thy ===== *)
theory Itemain
  imports Prepseq Solver
begin

text \<open>
  The program from the functions that have been read to the answer (sbsat.cc): preprocessing with
  its end, \<open>Finish_Preprocessing\<close> of preproc/init_preproc.cc, and the call of the Smurf solver. Of
  \<open>Finish_Preprocessing\<close> the numbers for the heuristics (\<open>arrVarTrueInfluences\<close>,
  \<open>arrVarChoiceLevels\<close>), the output and the freeing of memory that nothing reads any more are left
  out.
\<close>

section \<open>The end of preprocessing\<close>

definition countBDDs :: "bdd list \<Rightarrow> nat" where
  "countBDDs fs = foldl (\<lambda>cnt f. if f \<noteq> TrueP then cnt + 1 else cnt) 0 fs"

text \<open>The variables of no function are not sent to the solver.\<close>

definition mark_unused :: "nat \<Rightarrow> prep \<Rightarrow> prep" where
  "mark_unused numinp st =
     (let tmp = concat (map (\<lambda>vs. case vs of None \<Rightarrow> [] | Some num \<Rightarrow> num) (take (length (fn_bdds st)) (var_lists st)))
      in st\<lparr>true_false := (\<lambda>x. if x \<le> numinp \<and> x \<notin> set tmp \<and> true_false st x = -1 then 3 else true_false st x)\<rparr>)"

text \<open>Each replaced variable points to the one that its replacement points to.\<close>

fun redirect :: "nat list \<Rightarrow> (nat \<Rightarrow> int) \<Rightarrow> nat \<Rightarrow> int" where
  "redirect [] eq = eq"
| "redirect (i # is) eq =
     redirect is
       (if eq i \<noteq> 0 \<and> eq (nat \<bar>eq i\<bar>) \<noteq> 0
        then eq(i := if eq i > 0 then eq (nat (eq i)) else - eq (nat (- eq i)))
        else eq)"

text \<open>
  The loop that moves the functions together which are not true; \<open>cnt\<close> (\<open>count\<close>) is the number of those
  kept, one more than in the code.
\<close>

fun compact :: "nat list \<Rightarrow> nat \<Rightarrow> prep_result \<Rightarrow> prep \<Rightarrow> nat \<times> prep_result \<times> prep" where
  "compact [] cnt ret st = (cnt, ret, st)"
| "compact (x # xs) cnt ret st =
     (let st = st\<lparr>fn_bdds := (fn_bdds st)[cnt := fn_bdds st ! x],
                  functionType := (functionType st)(cnt := functionType st x),
                  equalityVble := (equalityVble st)(cnt := equalityVble st x)\<rparr>
      in if fn_bdds st ! x = TrueP then compact xs cnt ret st
         else compact xs (cnt + 1) (if fn_bdds st ! x = FalseP then TRIV_UNSAT else ret) st)"

definition Finish_Preprocessing :: "bool \<Rightarrow> nat \<Rightarrow> prep \<Rightarrow> (prep_result \<times> prep) option" where
  "Finish_Preprocessing preproc_did_nothing numinp st =
     (if preproc_did_nothing then Some (TRIV_SAT, st)
      else do {
        (ret, st) \<leftarrow> (if DO_INFERENCES st then Do_Apply_Inferences st else Some (PREP_NO_CHANGE, st));
        let st = mark_unused numinp st;
            st = st\<lparr>equalvars := redirect [1..<numinp + 1] (equalvars st), inferlist := []\<rparr>;
            nmbrFunctions = (if countBDDs (fn_bdds st) = 0 then 0 else length (fn_bdds st));
            (cnt, ret, st) = compact [0..<nmbrFunctions] 0 ret st;
            st = st\<lparr>fn_bdds := take cnt (fn_bdds st)\<rparr>
        in Some (if countBDDs (fn_bdds st) = 0 then TRIV_SAT else ret, st) })"

section \<open>The program\<close>

definition ite_preprocessing :: "(string \<Rightarrow> int) \<Rightarrow> string \<Rightarrow> preproc_type list \<Rightarrow> (nat \<Rightarrow> bool) \<Rightarrow> string \<Rightarrow> run \<Rightarrow>
    (prep_result \<times> prep) option" where
  "ite_preprocessing i_getsym preset_variables_string rows late preproc_sequence s = do {
     (prep_ret, st) \<leftarrow> Init_Preprocessing i_getsym preset_variables_string (prep_st s);
     (prep_ret, s') \<leftarrow>
       (if prep_ret \<in> {PREP_NO_CHANGE, PREP_CHANGED} then Preprocessor rows late preproc_sequence (s\<lparr>prep_st := st\<rparr>)
        else Some (prep_ret, s\<lparr>prep_st := st\<rparr>));
     (ret, st) \<leftarrow> Finish_Preprocessing (fn_bdds (prep_st s) = []) (nat (getNuminp (fn_bdds (prep_st s)))) (prep_st s');
     Some (if prep_ret \<in> {TRIV_SAT, TRIV_UNSAT} then prep_ret else ret, st) }"

text \<open>
  \<open>main\<close> behind the loading of the input, with the output format that calls \<open>solve\<close>: the answer of
  preprocessing, or that of the solver.
\<close>

datatype answer = Prep_answer prep_result | Solver_answer solv_result var_map "(nat \<Rightarrow> bool option) list" prep

definition ite_main :: "(string \<Rightarrow> int) \<Rightarrow> string \<Rightarrow> preproc_type list \<Rightarrow> (nat \<Rightarrow> bool) \<Rightarrow> string \<Rightarrow> bool \<Rightarrow> bool \<Rightarrow>
    (nat \<Rightarrow> nat \<Rightarrow> bdd search \<Rightarrow> (nat \<times> bool) option) \<Rightarrow> (nat \<Rightarrow> bool) \<Rightarrow> nat \<Rightarrow> run \<Rightarrow> answer option" where
  "ite_main i_getsym preset_variables_string rows late preproc_sequence reverse_independant_dependant clear_dependance
     procHeurSelect limit max_solutions s = do {
     (ret, st) \<leftarrow> ite_preprocessing i_getsym preset_variables_string rows late preproc_sequence s;
     if ret \<in> {TRIV_SAT, TRIV_UNSAT} then Some (Prep_answer ret)
     else do {
       (r, m, sols) \<leftarrow> solve reverse_independant_dependant clear_dependance (equivalences_on st) procHeurSelect limit
                        max_solutions (true_false st) (independantVars st) (fn_bdds st) (bst st);
       Some (Solver_answer r m sols st) } }"

section \<open>The redirection\<close>

definition equalities :: "(nat \<Rightarrow> int) \<Rightarrow> assignment \<Rightarrow> bool" where
  "equalities eq a \<longleftrightarrow> (\<forall>v. eq v \<noteq> 0 \<longrightarrow> a v = lit (eq v) a)"

lemma redirect_once:
  assumes "eq i \<noteq> 0" "eq (nat \<bar>eq i\<bar>) \<noteq> 0" and sat: "equalities eq a0"
  shows "equalities (eq(i := if eq i > 0 then eq (nat (eq i)) else - eq (nat (- eq i)))) a = equalities eq a"
proof -
  let ?j = "nat \<bar>eq i\<bar>" and ?l = "if eq i > 0 then eq (nat (eq i)) else - eq (nat (- eq i))"
  have l: "?l = (if eq i > 0 then eq ?j else - eq ?j)" by simp
  have neg: "lit (- x) a = (\<not> lit x a)" if "x \<noteq> 0" for x :: int and a using that by (auto simp: lit_def)
  have li: "lit (eq i) a = (if eq i > 0 then a ?j else \<not> a ?j)" for a using assms(1) by (simp add: lit_def)
  show ?thesis
  proof (cases "?j = i")
    case True
    have "a0 i = lit (eq i) a0" using sat assms(1) by (simp add: equalities_def)
    then have pos: "eq i > 0" unfolding li [of a0] True by (cases "eq i > 0") simp_all
    then have "nat (eq i) = i" using True by simp
    then have "eq(i := ?l) = eq" using pos by simp
    then show ?thesis by (rule arg_cong [of _ _ "\<lambda>e. equalities e a"])
  next
    case False
    have l0: "?l \<noteq> 0" using assms(2) by (cases "eq i > 0") (simp_all add: abs_if not_less split: if_splits)
    have sub: "lit ?l a = lit (eq i) a" if "a ?j = lit (eq ?j) a"
      unfolding li using that neg [OF assms(2), of a] by (cases "eq i > 0") (simp_all add: abs_if not_less split: if_splits)
    show ?thesis
    proof
      assume e: "equalities (eq(i := ?l)) a"
      then have "a ?j = lit (eq ?j) a" using assms(2) False by (simp add: equalities_def)
      moreover have "a i = lit ?l a" using e l0 unfolding equalities_def by (metis fun_upd_same)
      ultimately have "a i = lit (eq i) a" using sub by simp
      then show "equalities eq a" using e unfolding equalities_def by (metis fun_upd_other)
    next
      assume e: "equalities eq a"
      then have "a i = lit ?l a" using sub assms(1,2) unfolding equalities_def by metis
      then show "equalities (eq(i := ?l)) a" using e unfolding equalities_def by (metis fun_upd_other fun_upd_same)
    qed
  qed
qed

lemma redirect_ok:
  assumes "equalities eq a0"
  shows "equalities (redirect is eq) a = equalities eq a" "redirect is eq v = 0 \<longleftrightarrow> eq v = 0"
proof -
  have "equalities (redirect is eq) = equalities eq \<and> (\<forall>v. redirect is eq v = 0 \<longleftrightarrow> eq v = 0)"
    using assms
  proof (induction "is" arbitrary: eq)
    case (Cons i "is")
    let ?eq = "if eq i \<noteq> 0 \<and> eq (nat \<bar>eq i\<bar>) \<noteq> 0 then eq(i := if eq i > 0 then eq (nat (eq i)) else - eq (nat (- eq i))) else eq"
    have e: "equalities ?eq = equalities eq" using redirect_once [OF _ _ Cons.prems, of i] by (auto simp: fun_eq_iff)
    moreover have "?eq v = 0 \<longleftrightarrow> eq v = 0" for v by auto
    ultimately show ?case using Cons.IH [of ?eq] Cons.prems by simp
  qed simp
  then show "equalities (redirect is eq) a = equalities eq a" "redirect is eq v = 0 \<longleftrightarrow> eq v = 0" by auto
qed

section \<open>The functions that are left\<close>

lemma countBDDs_filter: "countBDDs fs = length (filter (\<lambda>f. f \<noteq> TrueP) fs)"
proof -
  have "foldl (\<lambda>cnt f. if f \<noteq> TrueP then cnt + 1 else cnt) n fs = n + length (filter (\<lambda>f. f \<noteq> TrueP) fs)" for n
    by (induction fs arbitrary: n) auto
  then show ?thesis by (simp add: countBDDs_def)
qed

lemma compact_ok:
  assumes "n = length (fn_bdds st)" "k \<le> n" "c \<le> k"
  shows "\<exists>c' r st'. compact [k..<n] c ret st = (c', r, st') \<and>
    take c' (fn_bdds st') = take c (fn_bdds st) @ filter (\<lambda>f. f \<noteq> TrueP) (drop k (fn_bdds st)) \<and>
    r = (if FalseP \<in> set (drop k (fn_bdds st)) then TRIV_UNSAT else ret) \<and>
    true_false st' = true_false st \<and> equalvars st' = equalvars st \<and> equivalences_on st' = equivalences_on st \<and> bst st' = bst st"
  using assms
proof (induction "n - k" arbitrary: k c ret st)
  case 0
  then show ?case by simp
next
  case (Suc d)
  then have k: "k < n" by simp
  let ?fs = "fn_bdds st" and ?f = "fn_bdds st ! k"
  let ?st = "st\<lparr>fn_bdds := ?fs[c := ?f], functionType := (functionType st)(c := functionType st k),
                equalityVble := (equalityVble st)(c := equalityVble st k)\<rparr>"
  have at: "fn_bdds ?st ! k = ?f" using k Suc.prems(1,3) by (simp add: nth_list_update)
  have dr: "drop k ?fs = ?f # drop (Suc k) ?fs" using k Suc.prems(1) by (simp add: Cons_nth_drop_Suc)
  have dr': "drop (Suc k) (fn_bdds ?st) = drop (Suc k) ?fs" using Suc.prems(3) by simp
  have tk: "take c (fn_bdds ?st) = take c ?fs" "take (Suc c) (fn_bdds ?st) = take c ?fs @ [?f]"
    using k Suc.prems(1,3) by (simp_all add: take_Suc_conv_app_nth)
  have len: "n = length (fn_bdds ?st)" using Suc.prems(1) by simp
  have step: "compact [k..<n] c ret st =
      (if ?f = TrueP then compact [Suc k..<n] c ret ?st
       else compact [Suc k..<n] (c + 1) (if ?f = FalseP then TRIV_UNSAT else ret) ?st)"
    using k at by (simp add: upt_conv_Cons)
  let ?c = "if ?f = TrueP then c else Suc c" and ?r = "if ?f = FalseP then TRIV_UNSAT else ret"
  have "d = n - Suc k" "Suc k \<le> n" "?c \<le> Suc k" using Suc.hyps(2) Suc.prems(3) k by auto
  from Suc.hyps(1) [OF this(1) len this(2,3), of ?r, unfolded dr'] obtain c' r st' where
    c: "compact [Suc k..<n] ?c ?r ?st = (c', r, st')"
      "take c' (fn_bdds st') = take ?c (fn_bdds ?st) @ filter (\<lambda>f. f \<noteq> TrueP) (drop (Suc k) ?fs)"
      "r = (if FalseP \<in> set (drop (Suc k) ?fs) then TRIV_UNSAT else ?r)"
      "true_false st' = true_false ?st" "equalvars st' = equalvars ?st" "equivalences_on st' = equivalences_on ?st" "bst st' = bst ?st"
    by blast
  have "compact [k..<n] c ret st = (c', r, st')" using step c(1) by (cases "?f = TrueP") simp_all
  moreover have "take c' (fn_bdds st') = take c ?fs @ filter (\<lambda>f. f \<noteq> TrueP) (drop k ?fs)"
    unfolding c(2) dr using tk by simp
  moreover have "r = (if FalseP \<in> set (drop k ?fs) then TRIV_UNSAT else ret)"
    unfolding c(3) dr by auto
  ultimately show ?case using c(4-7) by simp
qed

section \<open>The end of preprocessing is correct\<close>

text \<open>What the solver is given: reduced functions without constants and without inferences, over free variables.\<close>

definition solver_ready :: "prep \<Rightarrow> bool" where
  "solver_ready st \<longleftrightarrow> fn_bdds st \<noteq> [] \<and> st_ok (bst st) \<and>
     (\<forall>f \<in> set (fn_bdds st). robdd f \<and> f \<notin> {TrueP, FalseP} \<and> inferences (equivalences_on st) f = [] \<and>
        (\<forall>v \<in> bvars f. true_false st v = -1))"

text \<open>
  The solutions of \<open>S\<close> are the assignments that satisfy the functions and what is known of the
  variables that are gone, and the functions have a say only in the others.
\<close>

definition splits :: "assignment set \<Rightarrow> prep \<Rightarrow> bool" where
  "splits S st \<longleftrightarrow> S = {a. known st a \<and> (\<forall>f \<in> set (fn_bdds st). ev f a)} \<and>
     (\<forall>b. (\<forall>f \<in> set (fn_bdds st). ev f b) \<longrightarrow> (\<exists>a \<in> S. \<forall>v. v \<notin> eliminated st \<longrightarrow> a v = b v))"

lemma known_equalities:
  "known st a \<longleftrightarrow> (\<forall>v. (true_false st v = 1 \<longrightarrow> a v) \<and> (true_false st v = 0 \<longrightarrow> \<not> a v)) \<and> equalities (equalvars st) a"
  by (auto simp: known_def equalities_def)

lemma Do_Apply_settled:
  assumes "settled st"
  shows "\<exists>st'. Do_Apply_Inferences st = Some (PREP_NO_CHANGE, st') \<and> propagated st st'"
proof -
  obtain r st1 where r: "Do_Apply_Inferences st = Some (r, st1)" "r = PREP_NO_CHANGE \<longrightarrow> propagated st st1"
    using Do_Apply_Inferences_ok [of st] assms by (auto simp: settled_def)
  have "inferlist (run_gc (st\<lparr>DO_INFERENCES := False\<rparr>)) = []" using assms by (simp add: settled_def run_gc_def)
  then have "r = PREP_NO_CHANGE" using r(1) by (simp add: Do_Apply_Inferences_def apply_loop.simps)
  then show ?thesis using r by simp
qed

lemma mark_unused_used:
  assumes x: "x < length (fn_bdds st)" "length (var_lists st) = length (fn_bdds st)" and v: "v \<in> set (vars_in x st)"
  shows "true_false (mark_unused n st) v = true_false st v"
proof -
  let ?num = "\<lambda>vs. case vs of None \<Rightarrow> [] | Some num \<Rightarrow> num"
  have "var_lists st ! x \<in> set (take (length (fn_bdds st)) (var_lists st))" using x by simp
  moreover have "v \<in> set (?num (var_lists st ! x))" using v unfolding vars_in_def .
  ultimately have used: "v \<in> set (concat (map ?num (take (length (fn_bdds st)) (var_lists st))))" (is "v \<in> set ?tmp")
    unfolding set_concat set_map by blast
  have "true_false (mark_unused n st) v = (if v \<le> n \<and> v \<notin> set ?tmp \<and> true_false st v = -1 then 3 else true_false st v)"
    unfolding mark_unused_def Let_def by simp
  also have "\<dots> = true_false st v" by (rule if_not_P) (use used in blast)
  finally show ?thesis .
qed

text \<open>Marking unused variables and redirecting keeps what is known.\<close>

lemma mark_redirect_known:
  assumes i: "infs_ok 0 st" and st': "st' = (mark_unused n st)\<lparr>equalvars := redirect is (equalvars st), inferlist := []\<rparr>"
  shows "known st' a = known st a" "eliminated st' = eliminated st"
proof -
  have "\<forall>b. \<exists>a. known st a \<and> (\<forall>v. v \<notin> eliminated st \<longrightarrow> a v = b v)"
    using i unfolding infs_ok_def Let_def by - (elim conjE, assumption)
  then obtain a0 where "equalities (equalvars st) a0" unfolding known_equalities by blast
  note rd = redirect_ok [OF this, of "is"]
  have tf: "true_false st' v = 1 \<longleftrightarrow> true_false st v = 1" "true_false st' v = 0 \<longleftrightarrow> true_false st v = 0" for v
    by (auto simp: st' mark_unused_def Let_def)
  have eq: "equalvars st' = redirect is (equalvars st)" by (simp add: st')
  show "known st' a = known st a" unfolding known_equalities tf eq rd(1) by blast
  show "eliminated st' = eliminated st" unfolding eliminated_def eq using tf rd(2) by auto
qed

lemma Finish_Preprocessing_ok:
  assumes st: "settled st" and n: "no_inp_vars (classes st) = int n + 1"
  shows "\<exists>r st'. Finish_Preprocessing False n st = Some (r, st') \<and>
    (r = TRIV_SAT \<and> Sol 0 st \<noteq> {} \<or> r = TRIV_UNSAT \<and> Sol 0 st = {} \<or>
     r = PREP_NO_CHANGE \<and> solver_ready st' \<and> splits (Sol 0 st) st')"
proof -
  obtain st1 where st1: "Do_Apply_Inferences st = Some (PREP_NO_CHANGE, st1)" "propagated st st1"
    using Do_Apply_settled [OF st] by blast
  have inv: "prep_inv {} 0 st1" "inferlist st1 = []" and S: "Sol 0 st1 = Sol 0 st"
    using st1(2) by (simp_all add: propagated_def)
  have i: "infs_ok 0 st1" and f: "fns_ok {} st1" and l: "lists_ok {} st1" using inv(1) by (simp_all add: prep_inv_def)
  let ?fs = "fn_bdds st1" and ?gs = "filter (\<lambda>f. f \<noteq> TrueP) (fn_bdds st1)"
  define st2 where "st2 = (mark_unused n st1)\<lparr>equalvars := redirect [1..<n + 1] (equalvars st1), inferlist := []\<rparr>"
  have fs2: "fn_bdds st2 = ?fs" "equivalences_on st2 = equivalences_on st1" "bst st2 = bst st1"
    "equalvars (mark_unused n st1) = equalvars st1"
    by (simp_all add: st2_def mark_unused_def Let_def)
  note known2 = mark_redirect_known [OF i st2_def]
  define k where "k = (if countBDDs ?fs = 0 then 0 else length ?fs)"
  have "\<exists>c r st3. compact [0..<k] 0 PREP_NO_CHANGE st2 = (c, r, st3) \<and> take c (fn_bdds st3) = ?gs \<and>
      r = (if FalseP \<in> set ?fs then TRIV_UNSAT else PREP_NO_CHANGE) \<and>
      true_false st3 = true_false st2 \<and> equalvars st3 = equalvars st2 \<and> equivalences_on st3 = equivalences_on st2 \<and> bst st3 = bst st2"
  proof (cases "?gs = []")
    case True
    then have "k = 0" "FalseP \<notin> set ?fs" by (auto simp: k_def countBDDs_filter filter_empty_conv)
    then show ?thesis using True by simp
  next
    case False
    then have "k = length ?fs" by (simp add: k_def countBDDs_filter)
    then show ?thesis using compact_ok [of k st2 0 0 PREP_NO_CHANGE] fs2(1) by simp
  qed
  then obtain c r st3 where c: "compact [0..<k] 0 PREP_NO_CHANGE st2 = (c, r, st3)" "take c (fn_bdds st3) = ?gs"
      "r = (if FalseP \<in> set ?fs then TRIV_UNSAT else PREP_NO_CHANGE)"
      "true_false st3 = true_false st2" "equalvars st3 = equalvars st2" "equivalences_on st3 = equivalences_on st2"
      "bst st3 = bst st2" by blast
  let ?st' = "st3\<lparr>fn_bdds := ?gs\<rparr>"
  have mf: "fn_bdds (mark_unused n st1) = ?fs" by (simp add: mark_unused_def Let_def)
  have "Finish_Preprocessing False n st =
      (case compact [0..<k] 0 PREP_NO_CHANGE st2 of (cnt, ret, s) \<Rightarrow>
         Some (if countBDDs (take cnt (fn_bdds s)) = 0 then TRIV_SAT else ret, s\<lparr>fn_bdds := take cnt (fn_bdds s)\<rparr>))"
    using st1(1) st unfolding Finish_Preprocessing_def k_def st2_def
    by (simp add: settled_def Let_def mf fs2(4) del: upt_Suc)
  then have run: "Finish_Preprocessing False n st = Some (if ?gs = [] then TRIV_SAT else r, ?st')"
    unfolding c(1) prod.case c(2) countBDDs_filter by simp
  have all: "(\<forall>f \<in> set ?gs. ev f a) \<longleftrightarrow> (\<forall>f \<in> set ?fs. ev f a)" for a by auto
  have fns: "fn_bdds ?st' = ?gs" by simp
  have known: "known ?st' a = known st1 a" and elim: "eliminated ?st' = eliminated st1" for a
    using known2 c(4,5) by (simp_all add: known_def eliminated_def)
  have sp: "splits (Sol 0 st) ?st'" unfolding splits_def
  proof (intro conjI allI impI)
    show S': "Sol 0 st = {a. known ?st' a \<and> (\<forall>f \<in> set (fn_bdds ?st'). ev f a)}"
      unfolding S [symmetric] Sol_settled [OF inv(2)] known holds_all_def prep.select_convs prep.update_convs fns all ..
    fix b assume b: "\<forall>f \<in> set (fn_bdds ?st'). ev f b"
    have "\<forall>b. \<exists>a. known st1 a \<and> (\<forall>v. v \<notin> eliminated st1 \<longrightarrow> a v = b v)"
      using i unfolding infs_ok_def Let_def by - (elim conjE, assumption)
    then obtain a where a: "known st1 a" "\<And>v. v \<notin> eliminated st1 \<Longrightarrow> a v = b v" by blast
    have "ev f a" if "f \<in> set ?gs" for f
    proof -
      have "ev f a = ev f b"
        by (rule ev_agree) (use a(2) that f in \<open>auto simp: fns_ok_def\<close>)
      then show ?thesis using b that by simp
    qed
    then show "\<exists>a \<in> Sol 0 st. \<forall>v. v \<notin> eliminated ?st' \<longrightarrow> a v = b v"
      unfolding S' elim using a known by auto
  qed
  show ?thesis
  proof (cases "?gs = []")
    case True
    have "\<forall>b. (\<forall>f \<in> set ?gs. ev f b) \<longrightarrow> (\<exists>a \<in> Sol 0 st. \<forall>v. v \<notin> eliminated ?st' \<longrightarrow> a v = b v)"
      using sp unfolding splits_def fns by blast
    from spec [OF this, of "\<lambda>_. True"] have "Sol 0 st \<noteq> {}" using True by auto
    then show ?thesis using run True by simp
  next
    case ne: False
    show ?thesis
    proof (cases "FalseP \<in> set ?fs")
      case True
      then have "Sol 0 st = {}" unfolding S [symmetric] Sol_settled [OF inv(2)] holds_all_def by force
      then show ?thesis using run ne c(3) True by simp
    next
      case False
      have "solver_ready ?st'" unfolding solver_ready_def
      proof (intro conjI ballI)
        show "fn_bdds ?st' \<noteq> []" using ne by simp
        show "st_ok (bst ?st')" using f c(7) fs2(3) by (simp add: fns_ok_def)
        fix g assume g: "g \<in> set (fn_bdds ?st')"
        then have g': "g \<in> set ?fs" "g \<noteq> TrueP" by auto
        show "robdd g" using f g'(1) by (simp add: fns_ok_def)
        show "g \<notin> {TrueP, FalseP}" using g' False by auto
        show "inferences (equivalences_on ?st') g = []"
          using quiet_state [OF inv] g'(1) c(6) fs2(2) by simp
        fix v assume v: "v \<in> bvars g"
        obtain x where x: "x < length ?fs" "?fs ! x = g" using g'(1) by (metis in_set_conv_nth)
        have "set (vars_in x st1) = bvars (?fs ! x)" and len: "length (var_lists st1) = length ?fs"
          using l x(1) by (simp_all add: lists_ok_def)
        then have vin: "v \<in> set (vars_in x st1)" using v x(2) by simp
        have "v \<notin> eliminated st1" using f g'(1) v by (simp add: fns_ok_def)
        moreover have "\<forall>v. true_false st1 v \<in> {-1, 0, 1}" using i unfolding infs_ok_def Let_def by - (elim conjE, assumption)
        ultimately have "true_false st1 v = -1" by (auto simp: eliminated_def)
        then have "true_false st2 v = -1" using mark_unused_used [OF x(1) len vin, of n] by (simp add: st2_def)
        then show "true_false ?st' v = -1" using c(4) by simp
      qed
      then show ?thesis using run ne c(3) False sp by simp
    qed
  qed
qed

text \<open>After a contradiction the end of preprocessing is reached all the same; its result is not used.\<close>

lemma Finish_Preprocessing_returns: "calm st \<Longrightarrow> \<exists>r st'. Finish_Preprocessing b n st = Some (r, st')"
proof -
  assume c: "calm st"
  have "\<exists>r st1. (if DO_INFERENCES st then Do_Apply_Inferences st else Some (PREP_NO_CHANGE, st)) = Some (r, st1)"
    using calm_returns [OF c] by simp
  then show ?thesis
    unfolding Finish_Preprocessing_def Let_def by (cases b) (auto simp: case_prod_unfold simp del: upt_Suc)
qed

section \<open>The program decides satisfiability\<close>

definition problem :: "bdd list \<Rightarrow> int list \<Rightarrow> assignment set" where
  "problem fs ls = {a. (\<forall>f \<in> set fs. ev f a) \<and> (\<forall>l \<in> set ls. lit l a)}"

lemma ite_preprocessing_ok:
  assumes fs: "\<forall>f \<in> set (fn_bdds (prep_st s)). robdd f" "fn_bdds (prep_st s) \<noteq> []"
    and st: "st_ok (bst (prep_st s))" "limits_ok (prep_st s)" "DO_INFERENCES (prep_st s)"
    and g: "\<forall>x. 0 < g x" and ls: "preset_literals g (getNuminp (fn_bdds (prep_st s))) str = Some ls"
    and ss: "\<forall>x \<in> set ss. wf_strategy (preproc (Suc n) other) x \<and> steps_of x \<subseteq> sound_names"
  shows "\<exists>r st'. ite_preprocessing g str (preproc (Suc n) other) late (render_all ss) s = Some (r, st') \<and>
    (r = TRIV_SAT \<and> problem (fn_bdds (prep_st s)) ls \<noteq> {} \<or>
     r = TRIV_UNSAT \<and> problem (fn_bdds (prep_st s)) ls = {} \<or>
     r = PREP_NO_CHANGE \<and> solver_ready st' \<and> splits (problem (fn_bdds (prep_st s)) ls) st')"
proof -
  let ?n = "nat (getNuminp (fn_bdds (prep_st s)))" and ?S = "problem (fn_bdds (prep_st s)) ls"
  have n: "int ?n = getNuminp (fn_bdds (prep_st s))" using getNuminp_ge(2) by simp
  obtain r1 st1 where r1: "Init_Preprocessing g str (prep_st s) = Some (r1, st1)"
      "r1 = PREP_NO_CHANGE \<and> settled st1 \<and> no_inp_vars (classes st1) = int ?n + 1 \<and> Sol 0 st1 = ?S \<or>
       r1 = TRIV_UNSAT \<and> calm st1 \<and> ?S = {}"
    using Init_Preprocessing_ok [OF fs st(1,2) g ls] st(3) unfolding n problem_def settled_def by auto
  have unsat: "\<exists>r st'. ite_preprocessing g str (preproc (Suc n) other) late (render_all ss) s = Some (r, st') \<and>
      r = TRIV_UNSAT" if run: "(if r1 \<in> {PREP_NO_CHANGE, PREP_CHANGED}
        then Preprocessor (preproc (Suc n) other) late (render_all ss) (s\<lparr>prep_st := st1\<rparr>)
        else Some (r1, s\<lparr>prep_st := st1\<rparr>)) = Some (TRIV_UNSAT, s')" and c: "calm (prep_st s')" for s'
  proof -
    obtain r st' where "Finish_Preprocessing (fn_bdds (prep_st s) = []) ?n (prep_st s') = Some (r, st')"
      using Finish_Preprocessing_returns [OF c] by blast
    then show ?thesis using r1(1) run unfolding ite_preprocessing_def by simp
  qed
  show ?thesis
  proof (cases "r1 = TRIV_UNSAT")
    case True
    then show ?thesis using unsat [of "s\<lparr>prep_st := st1\<rparr>"] r1(2) by auto
  next
    case False
    then have nc: "r1 = PREP_NO_CHANGE" and s1: "settled st1" "no_inp_vars (classes st1) = int ?n + 1" "Sol 0 st1 = ?S"
      using r1(2) by auto
    have "settled (prep_st (s\<lparr>prep_st := st1\<rparr>))" using s1(1) by simp
    from Preprocessor_sound_steps [OF this ss, of late] obtain r2 s2 where
      r2: "Preprocessor (preproc (Suc n) other) late (render_all ss) (s\<lparr>prep_st := st1\<rparr>) = Some (r2, s2)"
        "goes_on r2 \<and> settled (prep_st s2) \<and> onward st1 (prep_st s2) \<and> Sol 0 (prep_st s2) = ?S \<or>
         r2 = TRIV_UNSAT \<and> calm (prep_st s2) \<and> ?S = {}"
      unfolding seq.post_def using s1(3) by auto
    show ?thesis
    proof (cases "r2 = TRIV_UNSAT")
      case True
      then show ?thesis using unsat [of s2] r2 nc by auto
    next
      case False
      then have s2: "goes_on r2" "settled (prep_st s2)" "onward st1 (prep_st s2)" "Sol 0 (prep_st s2) = ?S" using r2(2) by auto
      have "no_inp_vars (classes (prep_st s2)) = int ?n + 1" using s1(2) s2(3) by (simp add: onward_def same_frame_def)
      from Finish_Preprocessing_ok [OF s2(2) this] obtain r3 st3 where
        r3: "Finish_Preprocessing False ?n (prep_st s2) = Some (r3, st3)"
          "r3 = TRIV_SAT \<and> ?S \<noteq> {} \<or> r3 = TRIV_UNSAT \<and> ?S = {} \<or> r3 = PREP_NO_CHANGE \<and> solver_ready st3 \<and> splits ?S st3"
        unfolding s2(4) by blast
      have "ite_preprocessing g str (preproc (Suc n) other) late (render_all ss) s = Some (r3, st3)"
        using r1(1) nc r2(1) r3(1) fs(2) s2(1) unfolding ite_preprocessing_def by auto
      then show ?thesis using r3(2) by blast
    qed
  qed
qed

text \<open>
  What the answer of the solver says of the problem \<open>S\<close>: a recorded solution passes the check, and
  every assignment that has its values becomes a solution of the input by changing variables that
  preprocessing has eliminated; unless the search was stopped, every solution of the input has the
  values of a recorded one.
\<close>

definition solver_answer_ok :: "(nat \<Rightarrow> bool) \<Rightarrow> nat \<Rightarrow> assignment set \<Rightarrow> solv_result \<Rightarrow> var_map \<Rightarrow>
    (nat \<Rightarrow> bool option) list \<Rightarrow> prep \<Rightarrow> bool" where
  "solver_answer_ok limit k S r m sols st \<longleftrightarrow>
     (\<forall>q \<in> set sols. VerifySolution (arrIte2SolverVarMap m) (fn_bdds st) q \<and>
        (\<forall>elts b. extended_by (solution_elts (nat (getNuminp (fn_bdds st))) m elts q) b \<longrightarrow>
           (\<exists>a \<in> S. \<forall>v. v \<notin> eliminated st \<longrightarrow> a v = b v))) \<and>
     (r = SOLV_SAT \<longleftrightarrow> sols \<noteq> []) \<and> (r = SOLV_SAT \<longrightarrow> S \<noteq> {}) \<and> (r = SOLV_UNSAT \<longrightarrow> S = {}) \<and>
     (r = SOLV_UNKNOWN \<longrightarrow> (\<exists>j. limit j)) \<and>
     ((\<forall>j. \<not> limit j) \<and> (k = 0 \<or> length sols \<noteq> k) \<longrightarrow> (\<forall>a \<in> S. \<exists>q \<in> set sols.
        fits (arrIte2SolverVarMap m) q {x. x \<le> nat (getNuminp (fn_bdds st)) \<and> true_false st x = -1} a))"

lemma solve_ready:
  assumes st: "solver_ready st" and S: "splits S st" and h: "\<forall>n. picks n (procHeurSelect n)"
  shows "\<exists>r m sols. solve rv cl (equivalences_on st) procHeurSelect limit k (true_false st) ind (fn_bdds st) (bst st) =
    Some (r, m, sols) \<and> solver_answer_ok limit k S r m sols st"
proof -
  let ?fs = "fn_bdds st"
  have fs: "?fs \<noteq> []" "\<forall>f \<in> set ?fs. robdd f \<and> f \<noteq> TrueP \<and>
      (\<forall>p \<in> set (inferences (equivalences_on st) f). snd p \<noteq> 0) \<and> (\<forall>v \<in> bvars f. true_false st v = -1)"
    using st by (auto simp: solver_ready_def)
  have b: "st_ok (bst st)" using st by (simp add: solver_ready_def)
  from solve_ok [OF fs b h, of rv cl limit k ind] obtain r m sols where
    r: "solve rv cl (equivalences_on st) procHeurSelect limit k (true_false st) ind ?fs (bst st) = Some (r, m, sols)"
    and q: "\<forall>q \<in> set sols. VerifySolution (arrIte2SolverVarMap m) ?fs q \<and>
       (\<forall>elts a. extended_by (solution_elts (nat (getNuminp ?fs)) m elts q) a \<longrightarrow> (\<forall>f \<in> set ?fs. ev f a))"
    and v: "r = SOLV_SAT \<longleftrightarrow> sols \<noteq> []" "r = SOLV_UNSAT \<longrightarrow> \<not> (\<exists>a. \<forall>f \<in> set ?fs. ev f a)"
      "r = SOLV_UNKNOWN \<longrightarrow> (\<exists>j. limit j)"
    and c: "(\<forall>j. \<not> limit j) \<and> (k = 0 \<or> length sols \<noteq> k) \<longrightarrow> (\<forall>a. (\<forall>f \<in> set ?fs. ev f a) \<longrightarrow>
       (\<exists>q \<in> set sols. fits (arrIte2SolverVarMap m) q {x. x \<le> nat (getNuminp ?fs) \<and> true_false st x = -1} a))"
    by blast
  have all: "\<forall>f \<in> set ?fs. ev f a" if "a \<in> S" for a using S that unfolding splits_def by blast
  have ext: "\<exists>a \<in> S. \<forall>v. v \<notin> eliminated st \<longrightarrow> a v = b v" if "\<forall>f \<in> set ?fs. ev f b" for b
    using S that unfolding splits_def by blast
  have sols: "\<exists>a \<in> S. \<forall>v. v \<notin> eliminated st \<longrightarrow> a v = b v"
    if "q \<in> set sols" "extended_by (solution_elts (nat (getNuminp ?fs)) m elts q) b" for q elts b
    by (rule ext) (use q that in blast)
  have sat: "S \<noteq> {}" if s: "r = SOLV_SAT"
  proof -
    obtain q0 where q0: "q0 \<in> set sols" using v(1) s by (metis last_in_set)
    let ?e = "solution_elts (nat (getNuminp ?fs)) m (\<lambda>_. None) q0"
    have "extended_by ?e (\<lambda>x. ?e x = Some True)" by (simp add: extended_by_def)
    then show ?thesis using sols [OF q0] by blast
  qed
  have unsat: "S = {}" if "r = SOLV_UNSAT" using v(2) that all by blast
  have each: "\<forall>q \<in> set sols. VerifySolution (arrIte2SolverVarMap m) ?fs q \<and>
      (\<forall>elts b. extended_by (solution_elts (nat (getNuminp ?fs)) m elts q) b \<longrightarrow> (\<exists>a \<in> S. \<forall>v. v \<notin> eliminated st \<longrightarrow> a v = b v))"
    by (intro ballI conjI allI impI) (use q in blast, rule sols)
  have every: "(\<forall>j. \<not> limit j) \<and> (k = 0 \<or> length sols \<noteq> k) \<longrightarrow> (\<forall>a \<in> S. \<exists>q \<in> set sols.
      fits (arrIte2SolverVarMap m) q {x. x \<le> nat (getNuminp ?fs) \<and> true_false st x = -1} a)"
  proof (intro impI ballI)
    fix a assume l: "(\<forall>j. \<not> limit j) \<and> (k = 0 \<or> length sols \<noteq> k)" and a: "a \<in> S"
    show "\<exists>q \<in> set sols. fits (arrIte2SolverVarMap m) q {x. x \<le> nat (getNuminp ?fs) \<and> true_false st x = -1} a"
      using mp [OF spec [OF mp [OF c l], of a] all [OF a]] .
  qed
  have "solver_answer_ok limit k S r m sols st"
    unfolding solver_answer_ok_def using sat unsat by (intro conjI each v(1,3) every) simp_all
  then show ?thesis using r by blast
qed

lemma ite_main_ok:
  assumes fs: "\<forall>f \<in> set (fn_bdds (prep_st s)). robdd f" "fn_bdds (prep_st s) \<noteq> []"
    and st: "st_ok (bst (prep_st s))" "limits_ok (prep_st s)" "DO_INFERENCES (prep_st s)"
    and g: "\<forall>x. 0 < g x" and ls: "preset_literals g (getNuminp (fn_bdds (prep_st s))) str = Some ls"
    and ss: "\<forall>x \<in> set ss. wf_strategy (preproc (Suc n) other) x \<and> steps_of x \<subseteq> sound_names"
    and h: "\<forall>n. picks n (procHeurSelect n)"
  shows "\<exists>ans. ite_main g str (preproc (Suc n) other) late (render_all ss) rv cl procHeurSelect limit k s = Some ans \<and>
    (case ans of
       Prep_answer r \<Rightarrow> r = TRIV_SAT \<and> problem (fn_bdds (prep_st s)) ls \<noteq> {} \<or>
                        r = TRIV_UNSAT \<and> problem (fn_bdds (prep_st s)) ls = {}
     | Solver_answer r m sols st' \<Rightarrow> solver_answer_ok limit k (problem (fn_bdds (prep_st s)) ls) r m sols st')"
proof -
  let ?S = "problem (fn_bdds (prep_st s)) ls"
  from ite_preprocessing_ok [OF fs st g ls ss, of late] obtain r st' where
    r: "ite_preprocessing g str (preproc (Suc n) other) late (render_all ss) s = Some (r, st')"
      "r = TRIV_SAT \<and> ?S \<noteq> {} \<or> r = TRIV_UNSAT \<and> ?S = {} \<or> r = PREP_NO_CHANGE \<and> solver_ready st' \<and> splits ?S st'"
    by blast
  show ?thesis
  proof (cases "r \<in> {TRIV_SAT, TRIV_UNSAT}")
    case True
    then show ?thesis using r by (auto simp: ite_main_def)
  next
    case False
    then have s: "solver_ready st'" "splits ?S st'" using r(2) by auto
    from solve_ready [OF s h, of rv cl limit k "independantVars st'"] obtain r' m sols where
      "solve rv cl (equivalences_on st') procHeurSelect limit k (true_false st') (independantVars st') (fn_bdds st') (bst st') =
        Some (r', m, sols)" "solver_answer_ok limit k ?S r' m sols st'" by blast
    then show ?thesis using r(1) False by (auto simp: ite_main_def)
  qed
qed

end
