(* ===== verification/Spec2Isabelle.thy ===== *)
theory Spec2Isabelle
  imports Bddgc Itemain
begin

text \<open>
  SBSAT (src/src, src/include) is a satisfiability solver on reduced ordered binary decision
  diagrams (BDDs). A reader turns the input into a list of functions, each a BDD; the preprocessor
  rewrites the list until nothing more is learnt, collecting what it learns in equivalence classes
  of literals; a solver searches the rest. This development models the BDD package, the preprocessor,
  the Smurf solver without lemmas and their composition in the main program, and proves that the
  answer of the program is right.

  \<^bold>\<open>From the code to the theories\<close>, from the bottom up.

  \<^item> \<open>Prelude\<close>: a small Hoare logic for the state monad in which the routines are written that
    thread the computed table or the visit marks (\<open>computes\<close>, \<open>gives\<close>), and lemmas on lists.
  \<^item> \<open>Bddnode\<close> (include/bddtable.h): a node is a tree over \<open>TrueP\<close>, \<open>FalseP\<close> and \<open>Node v r e\<close>,
    \<open>ev\<close> its meaning, \<open>robdd\<close> its invariant, with canonicity. \<open>Infer\<close> (utils/infer.cc): the list of
    literals and equivalences that a node implies.
  \<^item> \<open>Bddtable\<close> (utils/bddtable.cc): the unique table over explicit addresses, hash chains, a free
    list and pools. It refines the trees: in every reachable table an address stands for one tree
    and different addresses for different trees. All later theories compare trees where the code
    compares pointers. \<open>Bddgc\<close> (utils/bddtable.cc, \<open>bdd_gc\<close>): the garbage collector over the same
    table, and the tables that calls of \<open>find_or_add_node\<close>, marks and collections lead to.
  \<^item> \<open>Itetable\<close> (utils/itetable.cc): the computed table, as an implementation of the locale
    \<open>memo_table\<close>; \<open>BddIte\<close> (utils/bdd_ite.cc): \<open>ite\<close>, its special cases and the connectives over
    it; \<open>Xdd\<close> (utils/bdd.cc): exclusive-or diagrams.
  \<^item> \<open>Bddmark\<close> (utils/bdd.cc, \<open>start_bdd_flag_number\<close>): the flag numbers of traversals with their
    wrap-around; \<open>Bddquant\<close>, \<open>Bddreplace\<close>, \<open>Bddprune\<close>, \<open>Bddvars\<close>, \<open>Bddtype\<close> (utils/bdd.cc): the
    traversals that assign, quantify, replace, simplify, collect variables, and recognise special
    functions.
  \<^item> \<open>Equivclass\<close> (preproc/equivclass.cc): the classes of equivalent and opposite variables;
    \<open>Reduceinfs\<close> and \<open>Applyinfs\<close> (preproc/do_applyinfs.cc): new inferences are entered into the
    classes, rewritten, and applied to every function that has the variable, which gives further
    inferences, until none is left.
  \<^item> \<open>Preproc\<close> (preproc/init_preproc.cc): the start; \<open>Prepsteps\<close> (preproc/do_strength.cc,
    do_pruning.cc, do_findft.cc, do_clearft.cc): steps over the pairs of functions; \<open>Prepseq\<close>
    (preproc/preprocess.cc): the table of steps, the interpreter of the sequence string, and
    \<open>Preprocessor\<close>, which runs the whole.
  \<^item> \<open>Brancher\<close> (solv_smurf/br_*.cc, fn_*.cc, vars_*.cc, fn_smurf/bt_smurf.cc): the search over state
    machines with its stacks, chronological backtracking and the record of solutions, for an
    arbitrary table of state machines; \<open>Searchsound\<close>: its correctness from the contract
    \<open>smurf_search\<close> of such a table; \<open>Smurf\<close> (vars_map.cc, fn_create.cc, fn_smurf/bdd2smurf.cc,
    fn_smurf/transitions.cc): the numbering of the variables and the tables computed from the
    diagrams; \<open>Solver\<close> (solver.cc, vars_verify.cc): \<open>solve\<close> and the checks of a solution.
  \<^item> \<open>Itemain\<close> (preproc/init_preproc.cc, \<open>Finish_Preprocessing\<close>; sbsat.cc): the end of
    preprocessing, which hands the remaining functions and free variables to the solver, and the
    program from the functions that have been read to the answer.

  State is passed explicitly, as records with the names of the code's globals. A failed assertion,
  a \<open>dE\<close>, an overflow that the code does not survive or a read outside an array is the value
  \<open>None\<close> (or an error value where the code has one).

  \<^bold>\<open>What is proved\<close>. For the whole program: from reduced diagrams, it returns, and its answer is
  right (C1); each recorded solution extends, by the eliminated variables, to a solution of the
  input, and unless the search was stopped every solution of the input is covered by a recorded
  one (C2). For the BDD package: each routine returns the reduced ordered BDD of the function it is
  named for, whatever sound contents the computed table and the marks have on entry, and leaves
  both sound (C4-C7, C11-C25, C30-C32); the connectives and traversals agree with a reference on
  truth functions. In every table that the program builds, pointers are equal exactly when functions
  are (C7), and the collector keeps that table and the diagrams of all functions (C16).
  For the classes: entering a literal or an equivalence joins exactly the classes that it relates,
  or reports the contradiction (C26-C29, C33). For the preprocessor: an assignment
  satisfies all functions and classes afterwards if and only if it did before, a returned error
  means there is none, the equations of lists, counts and marks that the code relies on hold again
  after each step, no inference is left over (C34-C37), the whole sequence keeps the solutions (C8),
  and so does its end (C9). The interpreter of the sequence is shown to refine a small language of
  strategies (C38). For the solver: the numbering is a bijection (C39), the state machines
  correspond to the cofactors of the functions (C10), the search over them decides the functions
  and misses no solution (C3), and the checks of a solution accept exactly what they should (C40).

  The theorems state that the routine returns: the loops that have no bound in the code are
  \<open>partial_function\<close>s, and that they end is part of the theorems about them. There are two uses of
  fuel. The calls of \<open>parse_seq\<close> nest along the string: its fuel is the length of the string plus
  one, and \<open>parse_seq_fuel\<close> and C38 show that it is enough. The calls of \<open>ComputeSmurfOfNormalized\<close>
  nest along assignments to the variables of a function: its fuel is the number of variables plus
  one, and C10 shows that it is enough.

  \<^bold>\<open>Interfaces\<close>. \<open>memo_table\<close> (the computed table for its clients), the contracts of simplification
  by a care function, of the steps on one and on two functions, \<open>sound_steps\<close> (the table of
  steps for the interpreter) and \<open>smurf_search\<close> (the state machines for the search) are locales,
  interpreted in the theories of their providers.

  \<^bold>\<open>Bounds\<close>. Sizes, hash masks and pools are those of the code. In the traversals, which are over
  trees, the collector appears by its effect (no mark and no computed result is left), which C16
  shows of the collector itself; the theorems about traversals are under the conditions that its
  guards let it run when the flag numbers wrap around (\<open>st_ok\<close>), and that their operands are then
  reachable from \<open>functions[]\<close>, since it frees every other node. Integers are
  mathematical where the code's counts are bounded by memory; the flag numbers, the operation
  numbers and the limits are those of the code.

  \<^bold>\<open>Not modelled\<close>: interrupts by the user (\<open>nCtrlC\<close>); Gaussian elimination in the classes
  (\<open>ge_preproc\<close> = '1'); the steps that keep only satisfiability or call other provers (existential
  quantification of variables, safe assignments, clustering, ...), which are parameters of the
  table of steps; in the solver, learnt lemmas, autarkies, the types of functions with own state
  machines (clauses, exclusive-ors) and the heuristics, which are a parameter that picks an
  unassigned variable; printing and progress; the local search, whose result depends on random numbers;
  the readers and writers of formats, whose parsers are generated; the generator of benchmarks; and
  the vendored CUDD, picosat and AIGER code.
\<close>

section \<open>From the library's judgements to runs\<close>

lemma gives_case: "gives I m P \<Longrightarrow> I s \<Longrightarrow> case run_state m s of (a, s') \<Rightarrow> P a \<and> I s'"
  using gives_run [of I m P s] by (auto split: prod.splits)

lemma computes_case:
  "computes m B \<phi> \<Longrightarrow> cache_ok T \<Longrightarrow>
    case run_state m T of (p, T') \<Rightarrow> robdd p \<and> (\<forall>a. ev p a = \<phi> a) \<and> cache_ok T'"
  using computes_run [of m B \<phi> T] by (auto simp: is_node_def split: prod.splits)

lemma gives_node_case:
  "gives I m (is_node B \<phi>) \<Longrightarrow> I s \<Longrightarrow>
    case run_state m s of (p, s') \<Rightarrow> robdd p \<and> (\<forall>a. ev p a = \<phi> a) \<and> I s'"
  using gives_run [of I m "is_node B \<phi>" s] by (auto simp: is_node_def split: prod.splits)

text \<open>Concrete states for the instances below.\<close>

abbreviation "T0 \<equiv> itetable_init (\<lambda>_. 0) 4 16"
abbreviation "S0 \<equiv> bddst_init (\<lambda>_. 0) 4 16 True"
abbreviation "X1 \<equiv> Node 1 TrueP FalseP"
abbreviation "X2 \<equiv> Node 2 TrueP FalseP"
abbreviation "X12 \<equiv> Node 2 (Node 1 TrueP FalseP) FalseP"

section \<open>The if-then-else package\<close>

text \<open>
  C4: \<open>ite x y z\<close> returns the reduced ordered BDD of "if x then y else z" whatever sound contents
  the computed table has, and leaves the table sound.
\<close>

theorem ite_correct:
  assumes "robdd x" "robdd y" "robdd z" "cache_ok T"
  shows "case run_state (ite x y z) T of (p, T') \<Rightarrow>
    robdd p \<and> (\<forall>a. ev p a = (if ev x a then ev y a else ev z a)) \<and> cache_ok T'"
proof -
  let ?B = "max (variable x) (max (variable y) (variable z))"
  have "computes (ite x y z) ?B (\<lambda>a. if ev x a then ev y a else ev z a)"
    using assms(1-3) by (intro ite_computes) auto
  from computes_case [OF this assms(4)] show ?thesis .
qed

theorem ite_correct_witness:
  "case run_state (ite X2 X1 (ite_var (- 1))) T0 of (p, T') \<Rightarrow>
    robdd p \<and> (\<forall>a. ev p a = (if a 2 then a 1 else \<not> a 1)) \<and> cache_ok T'"
  using ite_correct [of X2 X1 "ite_var (- 1)" T0]
  by (auto simp: cache_ok_init ite_var_def find_or_add_node_def split: prod.splits)

text \<open>
  C5: each connective returns the reduced ordered BDD of its truth function.
\<close>

theorem connectives_correct:
  assumes "robdd x" "robdd y" "cache_ok T"
    and "(m, \<phi>) \<in> {(ite_and x y, \<lambda>a. ev x a \<and> ev y a), (ite_or x y, \<lambda>a. ev x a \<or> ev y a),
      (ite_imp x y, \<lambda>a. ev x a \<longrightarrow> ev y a), (ite_xor x y, \<lambda>a. ev x a \<noteq> ev y a),
      (ite_nand x y, \<lambda>a. \<not> (ev x a \<and> ev y a)), (ite_nor x y, \<lambda>a. \<not> (ev x a \<or> ev y a)),
      (ite_nimp x y, \<lambda>a. ev x a \<and> \<not> ev y a), (ite_equ x y, \<lambda>a. ev x a = ev y a)}"
  shows "case run_state m T of (p, T') \<Rightarrow> robdd p \<and> (\<forall>a. ev p a = \<phi> a) \<and> cache_ok T'"
proof -
  let ?B = "max (variable x) (variable y)"
  have B: "variable x \<le> ?B" "variable y \<le> ?B" by auto
  note c = connective_computes [OF assms(1,2) B] derived_computes [OF assms(1,2) B]
  have "computes m ?B \<phi>" using assms(4) c by auto
  from computes_case [OF this assms(3)] show ?thesis .
qed

theorem connectives_correct_witness:
  "case run_state (ite_xor X2 X1) T0 of (p, T') \<Rightarrow>
    robdd p \<and> (\<forall>a. ev p a = (ev X2 a \<noteq> ev X1 a)) \<and> cache_ok T'"
  by (rule connectives_correct [of X2 X1]) (simp_all add: cache_ok_init)

section \<open>The unique table\<close>

text \<open>
  C6: with its assertions satisfied, \<open>bddtable_find_or_add_node\<close> returns, keeps the invariant of
  the table, and its result represents the node of the given variable and sons; every address
  that represented a node still represents it.
\<close>

theorem find_or_add_correct:
  assumes "bddtable_inv s" "0 < n" "repr s r t" "repr s e u"
    and "variable t \<le> int n" "variable u \<le> int n"
  shows "\<exists>a s'. bddtable_find_or_add_node (int n) r e s = Some (a, s') \<and> bddtable_inv s' \<and>
    repr s' a (Node n t u) \<and> (\<forall>c w. repr s c w \<longrightarrow> repr s' c w)"
  using assms by (rule find_or_add_refines)

abbreviation "B0 \<equiv> bdd_init (bddtab0 (\<lambda>_. 0) 4 16 True)"

theorem find_or_add_correct_witness:
  "\<exists>a s'. bddtable_find_or_add_node 1 (true_ptr B0) (false_ptr B0) B0 = Some (a, s') \<and>
    bddtable_inv s' \<and> repr s' a X1 \<and> repr s' (true_ptr B0) TrueP"
  using find_or_add_correct [of B0 1 "true_ptr B0" TrueP "false_ptr B0" FalseP] repr_true [of B0]
  by (fastforce simp: bdd_init_inv repr_true repr_false)


abbreviation "G0 \<equiv> table_start (\<lambda>_. 0) 4 16 True T0 True"

lemma G0_step:
  "\<exists>a g. table_step G0 g \<and> bddtable_inv (tab g) \<and> repr (tab g) a X1 \<and> enable_gc g"
proof -
  let ?t = "true_ptr (tab G0)" and ?f = "false_ptr (tab G0)"
  have inv: "bddtable_inv (tab G0)" by (simp add: table_start_def bdd_init_inv)
  note tf = repr_true [of "tab G0"] repr_false [of "tab G0"]
  obtain a s where a: "bddtable_find_or_add_node (int 1) ?t ?f (tab G0) = Some (a, s)" "bddtable_inv s" "repr s a X1"
    using find_or_add_refines [OF inv _ tf, of 1] by auto
  then obtain g where g: "counted_find_or_add 1 ?t ?f G0 = Some (a, g)" "tab g = s" "enable_gc g"
    by (auto simp: counted_find_or_add_def table_start_def Let_def)
  have "table_step G0 g"
    using g(1) inv by (intro table_step.find [of ?t G0 ?f 1 a g]) (auto simp: live_def bddtable_inv_def consts_ok_def)
  then show ?thesis using a g by blast
qed


text \<open>
  C11: the cell that \<open>bddtable_find_or_add_node\<close> returns and its complement: they point to each
  other and carry the variable, the sons (complemented for the complement) and the inference lists
  of their diagrams; asking again for either returns it.
\<close>

theorem node_fields_correct:
  assumes "bddtable_inv s" "0 < n" "repr s r t" "repr s e u" "variable t \<le> int n" "variable u \<le> int n"
  shows "\<exists>a b s'. bddtable_find_or_add_node (int n) r e s = Some (a, s') \<and>
    bn_variable (store s' a) = int n \<and> bn_thenCase (store s' a) = r \<and> bn_elseCase (store s' a) = e \<and>
    bn_notCase (store s' a) = b \<and> bn_inferences (store s' a) = inferences (DO_EQUIVALENCES s) (Node n t u) \<and>
    bn_variable (store s' b) = int n \<and> bn_thenCase (store s' b) = bn_notCase (store s r) \<and>
    bn_elseCase (store s' b) = bn_notCase (store s e) \<and> bn_notCase (store s' b) = a \<and>
    bn_inferences (store s' b) = inferences (DO_EQUIVALENCES s) (Node n (notCase t) (notCase u)) \<and>
    (\<exists>s''. bddtable_find_or_add_node (int n) r e s' = Some (a, s'')) \<and>
    (\<exists>s''. bddtable_find_or_add_node (int n) (bn_notCase (store s r)) (bn_notCase (store s e)) s' = Some (b, s''))"
proof -
  obtain a s' where a: "bddtable_find_or_add_node (int n) r e s = Some (a, s')" "bddtable_inv s'" "repr s' a (Node n t u)"
    using find_or_add_refines [OF assms] by blast
  note fields = find_or_add_fields [OF assms a(1)]
  have same: "store s' r = store s r" "store s' e = store s e" using fields(4) repr_live assms(3,4) by blast+
  have "not_linked s' a" using inv_not_linked a(2) fields(1) by blast
  then show ?thesis
    using a(1) fields(2,5) repr_inferences [OF a(2,3)] repr_inferences [OF a(2) repr_notCase [OF a(2,3)]]
      ut.mk_again [OF assms a(1)]
    by (simp add: not_linked_def bn_match_def Let_def same)
qed

theorem node_fields_correct_witness:
  "\<exists>a b s'. bddtable_find_or_add_node 1 (true_ptr B0) (false_ptr B0) B0 = Some (a, s') \<and>
    bn_notCase (store s' a) = b \<and> bn_thenCase (store s' b) = false_ptr B0 \<and>
    bn_inferences (store s' b) = inferences True (Node 1 FalseP TrueP)"
proof -
  have "bn_notCase (store B0 (true_ptr B0)) = false_ptr B0" "DO_EQUIVALENCES B0 = True"
    using bdd_init_inv [of "\<lambda>_. 0" 4 16 True]
    by (auto simp: bddtable_inv_def consts_ok_def bdd_init_def bddtab0_def bddtable_alloc_pool_def Let_def)
  then show ?thesis
    using node_fields_correct [of B0 1 "true_ptr B0" TrueP "false_ptr B0" FalseP]
    by (auto simp: bdd_init_inv repr_true repr_false)
qed

text \<open>
  C12: \<open>bdd_init\<close> establishes the table's invariant, with the two constants as its only nodes.
\<close>

theorem bdd_init_correct:
  "bddtable_inv (bdd_init (bddtab0 addr bits poolsize d)) \<and>
    repr (bdd_init (bddtab0 addr bits poolsize d)) (Addr 1 0) FalseP \<and>
    repr (bdd_init (bddtab0 addr bits poolsize d)) (Addr 1 1) TrueP \<and>
    live (bdd_init (bddtab0 addr bits poolsize d)) = {Addr 1 0, Addr 1 1}"
  using bdd_init_inv repr_false [of "bdd_init (bddtab0 addr bits poolsize d)"]
    repr_true [of "bdd_init (bddtab0 addr bits poolsize d)"]
  by (simp add: live_def nodes_def bdd_init_def bddtab0_def bddtable_alloc_pool_def Let_def NULL_def)

section \<open>Inferences\<close>

text \<open>
  C13: every inference kept in a node holds in every model of the node, is well formed, speaks of
  the node's variables, and the literals come in the order of descending variables.
\<close>

theorem inferences_correct:
  assumes "robdd f"
  shows "(\<forall>p \<in> set (inferences d f). infer_wf p \<and> (\<forall>a. ev f a \<longrightarrow> infer_holds p a) \<and>
      nat \<bar>fst p\<bar> \<in> bvars f \<and> (snd p = 0 \<or> nat \<bar>snd p\<bar> \<in> bvars f)) \<and>
    infer_desc (inferences d f)"
  using inferences_wf [OF assms] inferences_sound [OF assms] inferences_vars [of _ d f]
    inferences_desc [OF assms] by blast

theorem inferences_correct_witness:
  "inferences True X12 = [(2, 0), (1, 0)] \<and> infer_wf (1, 0) \<and> infer_holds (1, 0) (\<lambda>_. True) \<and>
    infer_desc (inferences True X12)"
  using inferences_correct [of X12 True] by (simp add: GetInferFoAN_def)

text \<open>
  C14: every literal that a satisfiable node forces is among its inferences.
\<close>

theorem forced_literals_found:
  assumes "robdd f" "f \<noteq> FalseP" "l \<noteq> 0" "\<And>a. ev f a \<Longrightarrow> lit l a"
  shows "(l, 0) \<in> set (inferences d f)"
  using assms by (rule inferences_complete)

theorem forced_literals_found_witness: "(1, 0) \<in> set (inferences False X12)"
  by (rule forced_literals_found) (auto simp: lit_def split: if_splits)

section \<open>The computed table\<close>

text \<open>
  C15: what \<open>itetable_add_node\<close> stores, the next search for the same key finds, whatever the
  table holds.
\<close>

theorem itetable_add_then_find:
  "fst (run_state (do { _ \<leftarrow> itetable_add_node v r e p; itetable_find v r e }) T) = Some p"
  using itetable_add_find by (metis prod.collapse)

section \<open>The garbage collector\<close>

text \<open>
  C16: \<open>bdd_gc\<close> on a table whose functions are in it: it returns with the invariant. When its
  guards let it run, what is left is exactly what \<open>functions[]\<close> and \<open>original_functions[]\<close> reach,
  each diagram at its address, no cell keeps a mark, every other cell is zeroed, the cells of
  the remaining pools that are not in use form the free list, and no computed result is left.
\<close>

theorem bdd_gc_correct:
  assumes "bddtable_inv (tab g)" "\<forall>a. bn_flag (store (tab g) a) \<le> 1000000000"
    and "set fs \<subseteq> live (tab g)" "set ofs \<subseteq> live (tab g)"
  shows "\<exists>g'. bddtable_gc force fs ofs g = Some g' \<and> bddtable_inv (tab g') \<and>
    (if gc_declines force g then g' = g
     else live (tab g') = reach (tab g) (gc_roots (tab g) fs ofs) \<and>
       (\<forall>a \<in> live (tab g'). \<forall>t. repr (tab g') a t \<longleftrightarrow> repr (tab g) a t) \<and>
       (\<forall>a \<in> cells (tab g'). bn_flag (store (tab g') a) = 0) \<and>
       (\<forall>a \<in> cells (tab g) - live (tab g'). store (tab g') a = zero_node) \<and>
       distinct (bddtable_free (tab g')) \<and> set (bddtable_free (tab g')) = cells (tab g') - live (tab g') \<and>
       (\<forall>v r e. itetable_lookup (computed g') v r e = None))"
proof (cases "gc_declines force g")
  case True
  then show ?thesis using assms(1) by (simp add: bddtable_gc_def)
next
  case False
  let ?R = "gc_roots (tab g) fs ofs"
  have "bn_flag (store (tab g) a) \<noteq> 1001001001" for a using assms(2) [rule_format, of a] by simp
  then obtain g' where g': "bddtable_gc force fs ofs g = Some g'" "collected (reach (tab g) ?R) (tab g) (tab g')"
      "\<forall>v r e. itetable_lookup (computed g') v r e = None"
    using bddtable_gc_ok [OF assms(1) _ assms(3,4) False] by auto
  have R: "{false_ptr (tab g), true_ptr (tab g)} \<subseteq> ?R" "?R \<subseteq> live (tab g)"
    using assms(3,4) by (auto simp: gc_roots_def live_def)
  note D = collectedD [OF g'(2) assms(1) R] and inv = collected_inv [OF g'(2) assms(1) R]
  have "repr (tab g') a t \<longleftrightarrow> repr (tab g) a t" if "a \<in> live (tab g')" for a t
    using that D(1,4) repr_fun [OF inv] repr_ex [OF assms(1)] reach_live [OF assms(1) R(2)] by blast
  then show ?thesis
    using g' False D(1) inv by (auto simp: collected_def zero_node_def)
qed

theorem bdd_gc_correct_witness:
  "\<exists>a g g'. repr (tab g) a X1 \<and> bddtable_gc True [] [] g = Some g' \<and> live (tab g') = {false_ptr (tab g), true_ptr (tab g)}"
proof -
  obtain a g where g: "table_step G0 g" "bddtable_inv (tab g)" "repr (tab g) a X1" "enable_gc g" using G0_step by blast
  then have "\<forall>a. bn_flag (store (tab g) a) \<le> 1000000000"
    using run_reachable [OF r_into_rtranclp [of table_step, OF g(1)]] by (simp add: run_inv_def)
  then show ?thesis
    using bdd_gc_correct [of g "[]" "[]" True] g by (fastforce simp: gc_declines_def gc_roots_def reach_consts)
qed

section \<open>Exclusive-or decision diagrams\<close>

text \<open>
  C17: \<open>xddxor\<close> returns the XDD of the exclusive or, and \<open>xddand\<close>, whose recursion follows the
  complements, returns on every input, with the XDD of the conjunction.
\<close>

theorem xdd_operations_correct:
  assumes "xdd x" "xdd y" "cache_ok T"
  shows "(case run_state (xddxor x y) T of (p, T') \<Rightarrow>
      xdd p \<and> (\<forall>a. xev p a = (xev x a \<noteq> xev y a)) \<and> cache_ok T') \<and>
    (\<exists>p T'. xddand x y T = Some (p, T') \<and>
      xdd p \<and> (\<forall>a. xev p a = (xev x a \<and> xev y a)) \<and> cache_ok T')"
proof
  show "case run_state (xddxor x y) T of (p, T') \<Rightarrow>
      xdd p \<and> (\<forall>a. xev p a = (xev x a \<noteq> xev y a)) \<and> cache_ok T'"
    using gives_case [OF xddxor_gives [OF assms(1,2)] assms(3)]
    by (auto simp: is_xnode_def split: prod.splits)
  show "\<exists>p T'. xddand x y T = Some (p, T') \<and>
      xdd p \<and> (\<forall>a. xev p a = (xev x a \<and> xev y a)) \<and> cache_ok T'"
    using ogives_run [OF xddand_gives [OF assms(1,2)] assms(3)] by (auto simp: is_xnode_def)
qed

theorem xdd_operations_correct_witness:
  "\<exists>p T'. xddand X2 X1 T0 = Some (p, T') \<and> xdd p \<and> (\<forall>a. xev p a = (xev X2 a \<and> xev X1 a)) \<and> cache_ok T'"
  using xdd_operations_correct [of X2 X1 T0] by (simp add: cache_ok_init)

text \<open>
  C18: the conversion to an XDD returns the XDD of the same function, also when it reuses the marks
  of the conversion before it.
\<close>

theorem bdd2xdd_correct:
  assumes "robdd x" "st_ok s"
  shows "case run_state (bdd2xdd x) s of (p, s') \<Rightarrow>
    xdd p \<and> variable p \<le> variable x \<and> (\<forall>a. xev p a = ev x a) \<and> st_ok s'"
  using gives_case [OF bdd2xdd_gives [OF assms(1)] assms(2)]
  by (auto simp: xdd_of_def is_xnode_def split: prod.splits)

theorem bdd2xdd_correct_witness:
  "case run_state (bdd2xdd X12) S0 of (p, s') \<Rightarrow>
    xdd p \<and> variable p \<le> variable X12 \<and> (\<forall>a. xev p a = ev X12 a) \<and> st_ok s'"
  by (rule bdd2xdd_correct) (simp_all add: st_ok_init)

section \<open>Assignment, quantification, replacement\<close>

text \<open>
  C19: \<open>set_variable\<close> returns the BDD of the function with the variable fixed.
\<close>

theorem set_variable_correct:
  assumes "robdd f" "st_ok s"
  shows "case run_state (set_variable f n b) s of (p, s') \<Rightarrow>
    robdd p \<and> (\<forall>a. ev p a = ev f (a(n := b))) \<and> st_ok s'"
  by (rule gives_node_case [OF set_variable_gives [OF assms(1)] assms(2)])

theorem set_variable_correct_witness:
  "case run_state (set_variable X12 1 True) S0 of (p, s') \<Rightarrow>
    robdd p \<and> (\<forall>a. ev p a = a 2) \<and> st_ok s'"
  using set_variable_correct [of X12 S0 1 True] by (simp add: st_ok_init split: prod.splits if_splits)

text \<open>
  C20: \<open>xquantify\<close>, its older version, and \<open>uquantify\<close> return the BDDs of the existential and the
  universal quantification; all three share one computed table.
\<close>

theorem quantification_correct:
  assumes "robdd f" "0 < n" "st_ok s"
  shows "(case run_state (xquantify f n) s of (p, s') \<Rightarrow>
      robdd p \<and> (\<forall>a. ev p a = (\<exists>b. ev f (a(n := b)))) \<and> st_ok s') \<and>
    (case run_state (OLD_xquantify f n) s of (p, s') \<Rightarrow>
      robdd p \<and> (\<forall>a. ev p a = (\<exists>b. ev f (a(n := b)))) \<and> st_ok s') \<and>
    (case run_state (uquantify f n) (itet s) of (p, T) \<Rightarrow>
      robdd p \<and> (\<forall>a. ev p a = (\<forall>b. ev f (a(n := b)))) \<and> cache_ok T)"
proof -
  have T: "cache_ok (itet s)" using assms(3) by (simp add: st_ok_def)
  show ?thesis
    using gives_case [OF xquantify_gives [OF assms(1,2)] assms(3)]
      gives_case [OF OLD_xquantify_gives [OF assms(1,2)] assms(3)]
      gives_case [OF uquantify_gives [OF assms(1)] T, of n]
    by (simp add: exists_var_def forall_var_def is_node_def del: OLD_xquantify.simps uquantify.simps
        split: prod.splits)
qed

theorem quantification_correct_witness:
  "case run_state (xquantify X12 1) S0 of (p, s') \<Rightarrow>
    robdd p \<and> (\<forall>a. ev p a = (\<exists>b. ev X12 (a(1 := b)))) \<and> st_ok s'"
  by (rule quantification_correct [THEN conjunct1]) (simp_all add: st_ok_init)

text \<open>
  C21: \<open>num_replace\<close> returns the BDD of the function with a literal substituted for the variable.
\<close>

theorem num_replace_correct:
  assumes "robdd f" "st_ok s"
  shows "case run_state (num_replace f n l) s of (p, s') \<Rightarrow>
    robdd p \<and> (\<forall>a. ev p a = ev f (subst_lit n l a)) \<and> st_ok s'"
  using gives_case [OF num_replace_gives [OF assms(1)] assms(2), of n l]
  by (simp add: replaced_def is_node_def split: prod.splits)

theorem num_replace_correct_witness:
  "case run_state (num_replace X12 1 (- 2)) S0 of (p, s') \<Rightarrow>
    robdd p \<and> (\<forall>a. ev p a = ev X12 (subst_lit 1 (- 2) a)) \<and> st_ok s'"
  by (rule num_replace_correct) (simp_all add: st_ok_init)

text \<open>
  C22: \<open>set_variable_all_infs\<close> removes a function's forced literals: the function is the conjunction
  of its literal inferences and the result.
\<close>

theorem set_variable_all_infs_correct:
  assumes "robdd f" "st_ok s"
  shows "case run_state (set_variable_all_infs d f) s of (r, s') \<Rightarrow> robdd r \<and> st_ok s' \<and>
    (\<forall>a. ev f a \<longleftrightarrow> (\<forall>p \<in> set (inferences d f). snd p = 0 \<longrightarrow> lit (fst p) a) \<and> ev r a)"
  using gives_case [OF set_variable_all_infs_gives [OF assms(1)] assms(2), of d]
  by (auto split: prod.splits)

theorem set_variable_all_infs_correct_witness:
  "case run_state (set_variable_all_infs False X12) S0 of (r, s') \<Rightarrow> robdd r \<and> st_ok s' \<and>
    (\<forall>a. ev X12 a \<longleftrightarrow> lit 2 a \<and> lit 1 a \<and> ev r a)"
  using set_variable_all_infs_correct [of X12 S0 False]
  by (simp add: st_ok_init GetInferFoAN_def split: prod.splits)

section \<open>Simplification against another function\<close>

text \<open>
  C23: each routine that simplifies \<open>f\<close> by a care function \<open>c\<close> returns, and its result agrees with
  \<open>f\<close> wherever \<open>c\<close> holds; the pruning routines and \<open>remove_fps\<close> bring in no variable of \<open>c\<close>.
\<close>

theorem simplification_correct:
  assumes "robdd f" "robdd c" "cache_ok T"
  shows "agree (bvars f \<union> bvars c) c f (gcf f c) \<and> agree (bvars f) c f (pruning_p1 f c) \<and>
    (\<forall>(m, S) \<in> {(pruning f c, bvars f), (pruning_p2 f c, bvars f), (remove_fps f c, bvars f),
        (bddrestrict f c, bvars f \<union> bvars c), (steal d f c, bvars f \<union> bvars c)}.
      \<exists>r T'. m T = Some (r, T') \<and> agree S c f r \<and> cache_ok T')"
proof -
  note o = pruning_agree pruning_p2_agree remove_fps_agree bddrestrict_agree steal_agree
  show ?thesis
    using gcf_agree [OF assms(1,2)] pruning_p1_agree [OF assms(1,2)]
      o [OF assms(1,2), THEN ogives_run, OF assms(3)] by simp
qed

theorem simplification_correct_witness:
  "\<exists>r T'. bddrestrict X12 X2 T0 = Some (r, T') \<and> agree (bvars X12 \<union> bvars X2) X2 X12 r \<and> cache_ok T'"
  using simplification_correct [of X12 X2 T0 False] by (simp add: cache_ok_init)

section \<open>Functions of the circuit\<close>

text \<open>
  C24: \<open>restrictx\<close> and \<open>remove_fpsx\<close> return, and replacing the first function by their result leaves
  the models of the whole list of functions as they were, also when they drop the second function.
\<close>

theorem circuit_simplification_correct:
  assumes "circuit_ok C" "i < length (fns C)" "j < length (fns C)" "i \<noteq> j" "st_ok s"
  shows "(\<exists>rC s'. restrictx i j C s = Some (rC, s') \<and> replaces i C rC \<and> st_ok s') \<and>
    (\<exists>rC s'. remove_fpsx i j C s = Some (rC, s') \<and> replaces i C rC \<and> st_ok s')"
  using ogives_run [OF restrictx_replaces [OF assms(1-4)] assms(5)]
    ogives_run [OF remove_fpsx_replaces [OF assms(1-4)] assms(5)] by simp

theorem circuit_simplification_correct_witness:
  "\<exists>rC s'. restrictx 0 1 \<lparr>fns = [X12, X2], variables = [[1, 2], [2]]\<rparr> S0 = Some (rC, s') \<and>
    replaces 0 \<lparr>fns = [X12, X2], variables = [[1, 2], [2]]\<rparr> rC \<and> st_ok s'"
  using circuit_simplification_correct [of "\<lparr>fns = [X12, X2], variables = [[1, 2], [2]]\<rparr>" 0 1 S0]
  by (simp add: st_ok_init circuit_ok_def)

text \<open>
  C25: \<open>nmbrVarsInCommon\<close> reads inside its two arrays and says whether the functions share at least
  \<open>n\<close> variables.
\<close>

theorem nmbrVarsInCommon_decides:
  assumes "sorted_wrt (<) xs" "sorted_wrt (<) ys" "0 < n"
  shows "nmbrVarsInCommon xs ys n = Some (n \<le> card (set xs \<inter> set ys))"
  using assms by (rule nmbrVarsInCommon_correct)

theorem nmbrVarsInCommon_decides_witness:
  "nmbrVarsInCommon [1, 3, 4] [2, 3, 4] 2 = Some (2 \<le> card (set [1, 3, 4] \<inter> set [2, 3, 4 :: nat]))"
  by (rule nmbrVarsInCommon_decides) simp_all

section \<open>Equivalence classes\<close>

text \<open>Six variables and the two constants; the classes after 2 = 5.\<close>

abbreviation "E0 \<equiv> the (Equiv 7 8 9)"

lemma E0_start: "Equiv 7 8 9 = Some E0"
  by (simp add: Equiv_def)

lemma E0_facts: "equiv_inv E0" "vars_of E0 = {1..<7} \<union> {8, 9}" "models E0 = {v. v 8 \<and> \<not> v 9}"
  using Equiv_inv [OF E0_start] by simp_all

lemma E0_frame: "no_inp_vars E0 = 7" "Tr E0 = 8" "Fa E0 = 9"
  by (simp_all add: Equiv_def equiv_start_def)

text \<open>
  C26: \<open>insertEquiv\<close> returns on every two variables. It answers NULL only for variables that the
  classes equate already, the pair (true, false) only for variables that they make opposite, and
  else the classes that it leaves allow exactly the assignments that give both variables the same
  value; the two results are the smallest variables of the joined classes, with signs such that
  equating them is the same as equating the two variables.
\<close>

theorem insertEquiv_joins_classes:
  assumes "equiv_inv e" "x \<in> vars_of e" "y \<in> vars_of e"
  shows "\<exists>r e'. insertEquiv x y e = Some (r, e') \<and>
    (case r of None \<Rightarrow> e' = e \<and> (\<forall>v \<in> models e. v x = v y)
     | Some (l, g) \<Rightarrow>
        if l = Tr e \<and> g = Fa e then e' = e \<and> (\<forall>v \<in> models e. v x \<noteq> v y)
        else joined e e' x y True \<and> key e x \<noteq> key e y \<and> stands_for e x \<bar>l\<bar> \<and> stands_for e y \<bar>g\<bar> \<and>
          (\<forall>v \<in> models e. (v x = v y) = (lval v l = lval v g)))"
  using assms by (rule insertEquiv_correct)

theorem insertEquiv_joins_classes_witness:
  "\<exists>l g e'. insertEquiv 5 2 E0 = Some (Some (l, g), e') \<and> joined E0 e' 5 2 True"
proof -
  have v: "5 \<in> vars_of E0" "2 \<in> vars_of E0" by (simp_all add: E0_facts(2))
  have m: "(\<lambda>z. z = 8 \<or> z = 5) \<in> models E0" "(\<lambda>z. z = 8) \<in> models E0" by (simp_all add: E0_facts(3))
  obtain r e' where r: "insertEquiv 5 2 E0 = Some (r, e')"
      "case r of None \<Rightarrow> e' = E0 \<and> (\<forall>v \<in> models E0. v 5 = v 2)
       | Some (l, g) \<Rightarrow> if l = Tr E0 \<and> g = Fa E0 then e' = E0 \<and> (\<forall>v \<in> models E0. v 5 \<noteq> v 2)
          else joined E0 e' 5 2 True \<and> key E0 5 \<noteq> key E0 2 \<and> stands_for E0 5 \<bar>l\<bar> \<and> stands_for E0 2 \<bar>g\<bar> \<and>
            (\<forall>v \<in> models E0. (v 5 = v 2) = (lval v l = lval v g))"
    using insertEquiv_joins_classes [OF E0_facts(1) v] by blast
  show ?thesis
  proof (cases r)
    case None
    have "\<forall>v \<in> models E0. v 5 = v 2" using r(2) unfolding None by simp
    from bspec [OF this m(1)] show ?thesis by simp
  next
    case (Some lg)
    obtain l g where lg: "lg = (l, g)" by (cases lg)
    have "\<not> (l = Tr E0 \<and> g = Fa E0)"
    proof
      assume "l = Tr E0 \<and> g = Fa E0"
      then have "\<forall>v \<in> models E0. v 5 \<noteq> v 2" using r(2) unfolding Some lg by simp
      from bspec [OF this m(2)] show False by simp
    qed
    then have "joined E0 e' 5 2 True" using r(2) unfolding Some lg by simp
    then show ?thesis using r(1) unfolding Some lg by blast
  qed
qed

text \<open>
  C27: \<open>insertOppos\<close>, likewise, for making two variables opposite, with its three ways of joining
  super nodes.
\<close>

theorem insertOppos_joins_classes:
  assumes "equiv_inv e" "x \<in> vars_of e" "y \<in> vars_of e"
  shows "\<exists>r e'. insertOppos x y e = Some (r, e') \<and>
    (case r of None \<Rightarrow> e' = e \<and> (\<forall>v \<in> models e. v x \<noteq> v y)
     | Some (l, g) \<Rightarrow>
        if l = Tr e \<and> g = Fa e then e' = e \<and> (\<forall>v \<in> models e. v x = v y)
        else joined e e' x y False \<and> key e x \<noteq> key e y \<and> stands_for e x \<bar>l\<bar> \<and> stands_for e y \<bar>g\<bar> \<and>
          (\<forall>v \<in> models e. (v x = v y) = (lval v l = lval v g)))"
  using assms by (rule insertOppos_correct)

theorem insertOppos_joins_classes_witness: "\<exists>r e'. insertOppos 5 2 E0 = Some (r, e')"
proof -
  have v: "5 \<in> vars_of E0" "2 \<in> vars_of E0" by (simp_all add: E0_facts(2))
  show ?thesis using insertOppos_joins_classes [OF E0_facts(1) v] by blast
qed

text \<open>
  C28: the queries: \<open>isEquiv\<close> answers 1, -1 or 0, 1 only for equal and -1 only for opposite
  variables, and 0 exactly for variables of unrelated classes; \<open>get_equiv\<close> names the smallest
  variable of the class.
\<close>

theorem equiv_queries_correct:
  assumes "equiv_inv e" "x \<in> vars_of e" "y \<in> vars_of e"
  shows "\<exists>r m. isEquiv x y e = Some r \<and> r \<in> {1, -1, 0} \<and>
    (\<forall>v \<in> models e. (r = 1 \<longrightarrow> v x = v y) \<and> (r = -1 \<longrightarrow> v x \<noteq> v y)) \<and> (r = 0 \<longleftrightarrow> key e x \<noteq> key e y) \<and>
    get_equiv x e = Some m \<and> m \<in> vars_of e \<and> (\<forall>v \<in> models e. v m = v x) \<and>
    (m < no_inp_vars e \<longrightarrow> (\<forall>z \<in> vars_of e. ro e z = ro e x \<longrightarrow> m \<le> z))"
proof -
  obtain r where r: "isEquiv x y e = Some r \<and> r \<in> {1, -1, 0} \<and>
      (r = 1 \<longrightarrow> (\<forall>v \<in> models e. v x = v y)) \<and> (r = -1 \<longrightarrow> (\<forall>v \<in> models e. v x \<noteq> v y)) \<and>
      (r = 0 \<longleftrightarrow> key e x \<noteq> key e y)"
    using isEquiv_correct [OF assms] ..
  obtain m where m: "get_equiv x e = Some m \<and> m \<in> vars_of e \<and> (\<forall>v \<in> models e. v m = v x) \<and>
      (m < no_inp_vars e \<longrightarrow> (\<forall>z \<in> vars_of e. ro e z = ro e x \<longrightarrow> m \<le> z))"
    using get_equiv_correct [OF assms(1,2)] ..
  have "\<forall>v \<in> models e. (r = 1 \<longrightarrow> v x = v y) \<and> (r = -1 \<longrightarrow> v x \<noteq> v y)" using r by simp
  note q = this
  show ?thesis by (rule exI [where x = r], rule exI [where x = m]) (use q r m in auto)
qed

theorem equiv_queries_correct_witness:
  "\<exists>r m. isEquiv 8 9 E0 = Some r \<and> r \<noteq> 1 \<and> get_equiv 8 E0 = Some m \<and> m \<in> vars_of E0"
proof -
  have v: "8 \<in> vars_of E0" "9 \<in> vars_of E0" by (simp_all add: E0_facts(2))
  obtain r m where r: "isEquiv 8 9 E0 = Some r"
      "\<forall>v \<in> models E0. (r = 1 \<longrightarrow> v 8 = v 9) \<and> (r = -1 \<longrightarrow> v 8 \<noteq> v 9)"
      "get_equiv 8 E0 = Some m" "m \<in> vars_of E0"
    using equiv_queries_correct [OF E0_facts(1) v] by (elim exE conjE) (rule that)
  have "(\<lambda>z. z = 8) \<in> models E0" by (simp add: E0_facts(3))
  from bspec [OF r(2) this] have "r \<noteq> 1" by auto
  then show ?thesis using r by blast
qed

text \<open>
  C29: the constructor: None for its two error exits, else classes that satisfy the invariant and
  allow every assignment that is right on the constants.
\<close>

theorem Equiv_start_correct:
  "(Equiv inp tru fls = None \<longleftrightarrow> tru \<le> inp \<or> fls \<le> inp \<or> tru = fls) \<and>
    (\<forall>e. Equiv inp tru fls = Some e \<and> 1 \<le> inp \<longrightarrow>
      equiv_inv e \<and> vars_of e = {1..<inp} \<union> {tru, fls} \<and> models e = {v. v tru \<and> \<not> v fls})"
proof (intro conjI allI impI)
  show "Equiv inp tru fls = None \<longleftrightarrow> tru \<le> inp \<or> fls \<le> inp \<or> tru = fls" by (auto simp: Equiv_def)
  fix e assume "Equiv inp tru fls = Some e \<and> 1 \<le> inp"
  then have "Equiv inp tru fls = Some e" "1 \<le> inp" by simp_all
  note i = Equiv_inv [OF this]
  show "equiv_inv e" by (rule i(1))
  show "vars_of e = {1..<inp} \<union> {tru, fls}" by (rule i(2))
  show "models e = {v. v tru \<and> \<not> v fls}" by (rule i(3))
qed

theorem Equiv_start_correct_witness: "equiv_inv E0 \<and> models E0 = {v. v 8 \<and> \<not> v 9}"
  using Equiv_start_correct [of 7 8 9] E0_start by simp

section \<open>Function types\<close>

text \<open>
  C30: \<open>MinMaxBDD\<close> builds the reduced BDD of "at least \<open>mn\<close> and at most \<open>mx\<close> of the variables are
  true", the one that the recursive version builds, and leaves the caller's array sorted downwards.
\<close>

theorem MinMaxBDD_correct:
  assumes "sorted_wrt (<) vars" "0 \<notin> set vars" "mn \<le> mx"
  shows "\<exists>p. MinMaxBDD vars mn mx = Some (p, rev vars) \<and> robdd p \<and> p = u_MinMaxBDD vars mn mx (length vars) 0 \<and>
    (\<forall>a. ev p a = (mn \<le> int (card {v \<in> set vars. a v}) \<and> int (card {v \<in> set vars. a v}) \<le> mx))"
  using MinMaxBDD_u_MinMaxBDD [OF assms] u_MinMaxBDD_card [OF assms(1,2), of "length vars" mn mx 0]
  by (simp add: card_node_def trues_def)

theorem MinMaxBDD_correct_witness:
  "\<exists>p. MinMaxBDD [1, 2, 3] 1 2 = Some (p, [3, 2, 1]) \<and> robdd p \<and>
    (\<forall>a. ev p a = (1 \<le> int (card {v \<in> {1, 2, 3}. a v}) \<and> int (card {v \<in> {1, 2, 3}. a v}) \<le> 2))"
  using MinMaxBDD_correct [of "[1, 2, 3]" 1 2] by auto

text \<open>
  C31: \<open>isOR\<close>, \<open>isAND\<close> and \<open>isXOR\<close> return and decide whether the function is a clause, a
  conjunction of literals, or an exclusive or of more than one variable; \<open>isAND_EQU\<close> returns and
  decides whether some variable of the array is equated with one of the first two.
\<close>

theorem special_functions_decided:
  assumes "robdd f" "0 \<notin> set vars" "\<not> IS_TRUE_FALSE f" "st_ok s"
  shows "isOR f = Some ((\<exists>g. \<forall>a. ev f a = (\<exists>v \<in> bvars f. a v = g v)) \<and> card (bvars f) > 1) \<and>
    isAND f = Some ((\<exists>g. \<forall>a. ev f a = (\<forall>v \<in> bvars f. a v = g v)) \<and> card (bvars f) > 1) \<and>
    isXOR f = ((\<exists>b. \<forall>a. ev f a = (odd (card {v \<in> bvars f. a v}) = b)) \<and> card (bvars f) > 1) \<and>
    (\<exists>r s'. isAND_EQU f vars s = Some (r, s') \<and> st_ok s' \<and>
      (if 0 < r then nat r \<in> set vars \<and> and_equ f (nat r)
       else if r < 0 then nat (- r) \<in> set vars \<and> or_equ f (nat (- r))
       else \<forall>v \<in> set vars. \<not> and_equ f v \<and> \<not> or_equ f v))"
proof (intro conjI)
  show "isOR f = Some ((\<exists>g. \<forall>a. ev f a = (\<exists>v \<in> bvars f. a v = g v)) \<and> card (bvars f) > 1)"
    using isOR_clause [OF assms(1)] by (simp add: is_clause_def)
  show "isAND f = Some ((\<exists>g. \<forall>a. ev f a = (\<forall>v \<in> bvars f. a v = g v)) \<and> card (bvars f) > 1)"
    using isAND_cube [OF assms(1)] by (simp add: is_cube_def)
  show "isXOR f = ((\<exists>b. \<forall>a. ev f a = (odd (card {v \<in> bvars f. a v}) = b)) \<and> card (bvars f) > 1)"
    using isXOR_parity [OF assms(1)] by (simp add: is_parity_def trues_def)
  obtain s' where s': "isAND_EQU f vars s = Some (equ_var f vars, s')" "st_ok s'"
    using ogives_run [OF isAND_EQU_gives [OF assms(1-3)] assms(4)] by auto
  then show "\<exists>r s'. isAND_EQU f vars s = Some (r, s') \<and> st_ok s' \<and>
      (if 0 < r then nat r \<in> set vars \<and> and_equ f (nat r)
       else if r < 0 then nat (- r) \<in> set vars \<and> or_equ f (nat (- r))
       else \<forall>v \<in> set vars. \<not> and_equ f v \<and> \<not> or_equ f v)"
    using equ_var_cases [OF assms(2), of f] by auto
qed

theorem special_functions_decided_witness:
  "isOR (Node 2 TrueP X1) = Some ((\<exists>g. \<forall>a. ev (Node 2 TrueP X1) a = (\<exists>v \<in> bvars (Node 2 TrueP X1). a v = g v)) \<and>
    card (bvars (Node 2 TrueP X1)) > 1)"
  using special_functions_decided [of "Node 2 TrueP X1" "[1, 2]" S0] by (simp add: st_ok_init)

text \<open>
  C32: \<open>findandset_fnType\<close> returns; a type that it sets is right for the function, one that was set
  before stays, and so does UNSURE when nothing is found. The array of variables is the same or,
  which is the side effect of \<open>MinMaxBDD\<close>, sorted downwards.
\<close>

theorem findandset_fnType_correct:
  assumes "robdd f" "distinct vars" "0 \<notin> set vars" "\<not> IS_TRUE_FALSE f" "st_ok s"
  shows "\<exists>r ty' equ' vars' s'. findandset_fnType limits f (ty, equ, vars) s = Some ((r, ty', equ', vars'), s') \<and>
    st_ok s' \<and> (vars' = vars \<or> vars' = rev (sort vars)) \<and>
    (if ty = UNSURE then type_ok ty' equ' f (set vars) \<and> (\<not> r \<longrightarrow> ty' = UNSURE)
     else r \<and> ty' = ty \<and> equ' = equ \<and> vars' = vars)"
  using findandset_fnType_ok [OF assms] by (simp add: sorted_or_same_def)

theorem findandset_fnType_correct_witness:
  "\<exists>r ty' equ' vars' s'. findandset_fnType (\<lambda>_. 2) X12 (UNSURE, 0, [1, 2]) S0 = Some ((r, ty', equ', vars'), s') \<and>
    st_ok s' \<and> type_ok ty' equ' X12 (set [1, 2])"
  using findandset_fnType_correct [of X12 "[1, 2]" S0 "\<lambda>_. 2" UNSURE 0]
  by (fastforce simp: st_ok_init)
section \<open>Inferences and preprocessing\<close>

text \<open>
  C33: \<open>ReduceInferences\<close> returns on inferences over input variables. It answers TRIV_UNSAT only
  when no assignment that the classes allow satisfies them all. Otherwise the classes it leaves
  allow exactly the assignments allowed before that satisfy the inferences, and under the earlier
  classes the list that is left says the same as the given one; each variable that it eliminates
  is eliminated once, and does not occur in the rest of the list.
\<close>

theorem ReduceInferences_correct:
  assumes "equiv_inv e" "Tr e < Fa e" "\<forall>i \<in> set is. infer_in e i"
  shows "\<exists>r js e'. ReduceInferences is e = Some (r, js, e') \<and>
    (r = PREP_NO_CHANGE \<and> equiv_inv e' \<and> elims_ok {} js \<and>
       (\<forall>a. with_consts e a \<in> models e' \<longleftrightarrow> with_consts e a \<in> models e \<and> (\<forall>i \<in> set is. infer_holds i a)) \<and>
       (\<forall>a. with_consts e a \<in> models e \<longrightarrow> (\<forall>j \<in> set js. infer_holds j a) = (\<forall>i \<in> set is. infer_holds i a)) \<or>
     r = TRIV_UNSAT \<and> (\<forall>a. with_consts e a \<in> models e \<longrightarrow> \<not> (\<forall>i \<in> set is. infer_holds i a)))"
  using ReduceInferences_ok [OF assms, of "{}"] by (auto simp: reduced_list_def)

theorem ReduceInferences_correct_witness:
  "\<exists>r js e'. ReduceInferences [(2, 5), (5, 0)] E0 = Some (r, js, e')"
  using ReduceInferences_correct [OF E0_facts(1), of "[(2, 5), (5, 0)]"]
  by (fastforce simp: E0_frame infer_in_def infer_wf_def)

text \<open>
  A state before preprocessing, with the functions x1 or x2, and x2 or x3; the state at its start.
\<close>

definition P0 :: prep where
  "P0 = \<lparr>bst = S0, fn_bdds = [Node 2 TrueP X1, Node 3 TrueP X2], var_lists = [], var_min = (\<lambda>_. 0),
     var_max = (\<lambda>_. 0), functionType = (\<lambda>_. UNSURE), equalityVble = (\<lambda>_. 0), amount = (\<lambda>_. []),
     num_funcs_var_occurs = (\<lambda>_. 0), true_false = (\<lambda>_. - 1), equalvars = (\<lambda>_. 0),
     independantVars = (\<lambda>_. 0), repeats = (\<lambda>_ _. False), classes = E0, inferlist = [],
     DO_INFERENCES = True, equivalences_on = True, preproc_uses_limits = True,
     functionTypeLimits = (\<lambda>_. 2)\<rparr>"

abbreviation "P1 \<equiv> snd (the (Init_Preprocessing (\<lambda>_. 1) [] P0))"

lemma P0_facts: "\<forall>f \<in> set (fn_bdds P0). robdd f" "fn_bdds P0 \<noteq> []" "st_ok (bst P0)" "limits_ok P0"
  "\<forall>s :: string. 0 < (1 :: int)" "preset_literals (\<lambda>_. 1) (getNuminp (fn_bdds P0)) [] = Some []"
  by (simp_all add: P0_def st_ok_init limits_ok_def preset_literals.simps [of _ _ "[]"])

lemma P0_solution: "(\<lambda>_. True) \<in> {a. (\<forall>f \<in> set (fn_bdds P0). ev f a) \<and> (\<forall>l \<in> set []. lit l a)}"
  by (simp add: P0_def)

lemma P1_settled: "settled P1" "length (fn_bdds P1) = 2"
proof -
  have "DO_INFERENCES P0" "length (fn_bdds P0) = 2" by (simp_all add: P0_def)
  then show "settled P1" "length (fn_bdds P1) = 2"
    using Init_Preprocessing_ok [OF P0_facts] P0_solution by (auto simp: settled_def)
qed

lemma P1_solution: "(\<lambda>_. True) \<in> Sol 0 P1"
  using Init_Preprocessing_ok [OF P0_facts] P0_solution by auto

text \<open>
  C34: \<open>Do_Apply_Inferences\<close> ends on every state that satisfies the invariant, however the list of
  inferences grows while it is worked off. It finds that there is no solution only when there is
  none; else it leaves the solutions as they are, the list empty, and no function from which a
  further inference follows or in which an eliminated variable occurs.
\<close>

theorem Do_Apply_Inferences_correct:
  assumes "prep_inv {} 0 st"
  shows "\<exists>r st'. Do_Apply_Inferences st = Some (r, st') \<and>
    (r = PREP_NO_CHANGE \<and> prep_inv {} 0 st' \<and> Sol 0 st' = Sol 0 st \<and> inferlist st' = [] \<and>
       (\<forall>f \<in> set (fn_bdds st'). inferences (equivalences_on st') f = [] \<and> bvars f \<inter> eliminated st' = {}) \<or>
     r = TRIV_UNSAT \<and> Sol 0 st = {})"
  using Do_Apply_Inferences_ok [OF assms] unfolding propagated_def by (metis quiet_state)

definition P2 :: prep where
  "P2 = P0\<lparr>fn_bdds := [X12, Node 3 TrueP X2], DO_INFERENCES := False\<rparr>"

abbreviation "P3 \<equiv> snd (the (Init_Preprocessing (\<lambda>_. 1) [] P2))"

lemma P3_facts: "prep_inv {} 0 P3" "(\<lambda>_. True) \<in> Sol 0 P3"
proof -
  have "preset_literals (\<lambda>_. 1) (getNuminp (fn_bdds P2)) [] = Some []" by (simp add: preset_literals.simps [of _ _ "[]"])
  moreover have "(\<lambda>_. True) \<in> {a. (\<forall>f \<in> set (fn_bdds P2). ev f a) \<and> (\<forall>l \<in> set []. lit l a)}" by (simp add: P2_def)
  moreover have "\<forall>f \<in> set (fn_bdds P2). robdd f" "fn_bdds P2 \<noteq> []" "st_ok (bst P2)" "limits_ok P2"
    by (simp_all add: P2_def P0_def st_ok_init limits_ok_def)
  ultimately show "prep_inv {} 0 P3" "(\<lambda>_. True) \<in> Sol 0 P3"
    using Init_Preprocessing_ok [of P2 "\<lambda>_. 1" "[]" "[]"] by auto
qed

theorem Do_Apply_Inferences_correct_witness:
  "\<exists>st'. Do_Apply_Inferences P3 = Some (PREP_NO_CHANGE, st') \<and> inferlist st' = []"
  using Do_Apply_Inferences_correct [OF P3_facts(1)] P3_facts(2) by auto

text \<open>
  C35: \<open>Init_Preprocessing\<close> on reduced diagrams and a string of presets that can be read, with the
  numbers of its names given by the symbol table. It ends; it answers TRIV_UNSAT only when functions
  and presets have no common solution, and else establishes the invariant of preprocessing, with
  these common solutions as the solutions of the state, and with no inference left unless they are
  switched off.
\<close>

theorem Init_Preprocessing_correct:
  assumes "\<forall>f \<in> set (fn_bdds st). robdd f" "fn_bdds st \<noteq> []" "st_ok (bst st)" "limits_ok st"
    and "\<forall>s. 0 < i_getsym s" "preset_literals i_getsym (getNuminp (fn_bdds st)) str = Some ls"
  shows "\<exists>r st'. Init_Preprocessing i_getsym str st = Some (r, st') \<and>
    (r = PREP_NO_CHANGE \<and> prep_inv {} 0 st' \<and> (DO_INFERENCES st \<longrightarrow> settled st') \<and>
       Sol 0 st' = {a. (\<forall>f \<in> set (fn_bdds st). ev f a) \<and> (\<forall>l \<in> set ls. lit l a)} \<or>
     r = TRIV_UNSAT \<and> \<not> (\<exists>a. (\<forall>f \<in> set (fn_bdds st). ev f a) \<and> (\<forall>l \<in> set ls. lit l a)))"
  using Init_Preprocessing_ok [OF assms] by (auto simp: settled_def)

theorem Init_Preprocessing_correct_witness:
  "\<exists>st'. Init_Preprocessing (\<lambda>_. 1) [] P0 = Some (PREP_NO_CHANGE, st') \<and> (\<lambda>_. True) \<in> Sol 0 st'"
  using Init_Preprocessing_correct [OF P0_facts] P0_solution by auto

text \<open>
  C36: \<open>add_newFunctions\<close> on a settled state and diagrams over its remaining input variables: it
  ends, and either the new state is settled and its solutions are the ones that satisfy the new
  functions too, or there are none.
\<close>

theorem add_newFunctions_correct:
  assumes "settled st" "gs \<noteq> []"
    and "\<forall>g \<in> set gs. robdd g \<and> (\<forall>v \<in> bvars g. int v < no_inp_vars (classes st) \<and> v \<notin> eliminated st)"
  shows "\<exists>r spots st'. add_newFunctions gs st = Some ((r, spots), st') \<and>
    (r = PREP_CHANGED \<and> settled st' \<and> length spots = length gs \<and>
       Sol 0 st' = {a \<in> Sol 0 st. \<forall>g \<in> set gs. ev g a} \<or>
     r = TRIV_UNSAT \<and> {a \<in> Sol 0 st. \<forall>g \<in> set gs. ev g a} = {})"
proof -
  obtain r spots st' where "add_newFunctions gs st = Some ((r, spots), st')"
    and "r = PREP_CHANGED \<and> settled st' \<and> Sol 0 st' = {a \<in> Sol 0 st. \<forall>g \<in> set gs. ev g a} \<and> length spots = length gs \<and>
       length (fn_bdds st) \<le> length (fn_bdds st') \<or>
     r = TRIV_UNSAT \<and> {a \<in> Sol 0 st. \<forall>g \<in> set gs. ev g a} = {}"
    using add_newFunctions_ok [OF assms(1,3,2)] by - (elim exE conjE, rule that)
  then show ?thesis by - (intro exI conjI, assumption, elim disjE conjE, (intro disjI1 conjI; assumption), (intro disjI2 conjI; assumption))
qed

theorem add_newFunctions_correct_witness:
  "\<exists>spots st'. add_newFunctions [TrueP, TrueP] P1 = Some ((PREP_CHANGED, spots), st') \<and> settled st'"
  using add_newFunctions_correct [OF P1_settled(1), of "[TrueP, TrueP]"] P1_solution by auto

text \<open>
  C37: the steps over pairs of functions, \<open>Do_Strength\<close>, the three prunings and \<open>Do_Steal\<close>, with any
  positive number of shared variables to ask for. From a settled state each of them ends in a
  settled state with the same solutions, or finds that there are none.
\<close>

theorem pair_steps_keep_solutions:
  assumes "settled st" "0 < n"
    and "step \<in> {Do_Strength n, Do_Pruning_1 n, Do_Pruning n, Do_Pruning_2 n, Do_Steal n}"
  shows "\<exists>r st'. step st = Some (r, st') \<and>
    (r \<in> {PREP_NO_CHANGE, PREP_CHANGED} \<and> settled st' \<and> Sol 0 st' = Sol 0 st \<or> r = TRIV_UNSAT \<and> Sol 0 st = {})"
proof -
  have "step_post st (step st)"
    using assms(3) Do_Strength_sound [OF assms(1,2)] DO_PRUNING_FN_sound [OF assms(1,2)]
    by (elim insertE emptyE) simp_all
  then show ?thesis unfolding step_post_def by (elim exE conjE disjE) auto
qed

theorem pair_steps_keep_solutions_witness: "\<exists>r st'. Do_Strength 2 P1 = Some (r, st')"
  using pair_steps_keep_solutions [OF P1_settled(1), of 2 "Do_Strength 2"] by auto

section \<open>The preprocessing sequence\<close>

text \<open>A strategy, and a state in which all switches are on and the clock has not been read.\<close>

abbreviation "SS \<equiv> [Cycle [Step ''St'', Group [Step ''Pr'', Step ''Sl''] None] Star, Step ''Ff'']"

abbreviation "R1 \<equiv> \<lparr>prep_st = P1, enabled = (\<lambda>_. 1), readings = 0\<rparr>"

lemma SS_ok: "\<forall>x \<in> set SS. wf_strategy (preproc n other) x \<and> steps_of x \<subseteq> sound_names"
  by (simp add: preproc_def sound_names_def)

text \<open>
  C38: the interpreter of the preprocessing sequence implements strategies: on the string that
  writes down a sequence of steps of the table, of groups and of cycles, \<open>Preprocessor\<close> applies the
  pending inferences and then runs the sequence as \<open>eval\<close> says, whatever the steps do, and whatever
  the switches and the clock say.
\<close>

theorem Preprocessor_runs_strategies:
  assumes "\<forall>x \<in> set ss. wf_strategy (preproc n other) x"
  shows "Preprocessor (preproc n other) late (render_all ss) s = do {
     (ret, st) \<leftarrow> (if DO_INFERENCES (prep_st s) then Do_Apply_Inferences (prep_st s) else Some (PREP_NO_CHANGE, prep_st s));
     let s = s\<lparr>prep_st := st\<rparr> in
     if bail ret then Some (ret, s) else eval_all (preproc n other) late False PREP_NO_CHANGE ss s }"
  by (rule Preprocessor_eval [OF preproc_table_ok assms])

theorem Preprocessor_runs_strategies_witness:
  "Preprocessor (preproc 2 (\<lambda>_ _. None)) (\<lambda>_. False) ''{St[PrSl]}*Ff'' R1 = do {
     (ret, st) \<leftarrow> (if DO_INFERENCES P1 then Do_Apply_Inferences P1 else Some (PREP_NO_CHANGE, P1));
     let s = R1\<lparr>prep_st := st\<rparr> in
     if bail ret then Some (ret, s) else eval_all (preproc 2 (\<lambda>_ _. None)) (\<lambda>_. False) False PREP_NO_CHANGE SS s }"
  using Preprocessor_runs_strategies [of SS 2 "\<lambda>_ _. None" "\<lambda>_. False" R1] SS_ok [of 2 "\<lambda>_ _. None"] by simp

text \<open>
  C8: from a settled state, every strategy over the steps that strengthen, prune, steal, and set or
  clear function types, with groups and cycles of any depth, ends, whatever the limits, the switches
  and the clock. Its result is a settled state with the same solutions, or TRIV_UNSAT when there is
  no solution.
\<close>

theorem Preprocessor_keeps_solutions:
  assumes "settled (prep_st s)" "0 < n"
    and "\<forall>x \<in> set ss. wf_strategy (preproc n other) x \<and> steps_of x \<subseteq> sound_names"
  shows "\<exists>r s'. Preprocessor (preproc n other) late (render_all ss) s = Some (r, s') \<and>
    (r \<in> {PREP_NO_CHANGE, PREP_CHANGED} \<and> settled (prep_st s') \<and> Sol 0 (prep_st s') = Sol 0 (prep_st s) \<or>
     r = TRIV_UNSAT \<and> Sol 0 (prep_st s) = {})"
proof -
  obtain m where n: "n = Suc m" using assms(2) by (cases n) auto
  show ?thesis using Preprocessor_sound_steps [OF assms(1) assms(3) [unfolded n]] unfolding seq.post_def n by blast
qed

theorem Preprocessor_keeps_solutions_witness:
  "\<exists>r s'. Preprocessor (preproc 2 (\<lambda>_ _. None)) (\<lambda>_. False) ''{St[PrSl]}*Ff'' R1 = Some (r, s') \<and>
    settled (prep_st s') \<and> Sol 0 (prep_st s') = Sol 0 P1"
proof -
  have "settled (prep_st R1)" using P1_settled(1) by simp
  from Preprocessor_keeps_solutions [OF this, of 2 SS "\<lambda>_ _. None" "\<lambda>_. False"] SS_ok [of 2 "\<lambda>_ _. None"] P1_solution
  show ?thesis by fastforce
qed

section \<open>The Smurf solver\<close>

text \<open>
  C39: the numbering of the solver's variables: with at least one function, \<open>InitVarMap\<close> passes its
  assertions, whatever the independent and dependent variables are; the free variables get the
  numbers from 1 on, and the two maps are inverse to each other.
\<close>

theorem InitVarMap_correct:
  assumes "0 < nmbrFunctions"
  shows "\<exists>m. InitVarMap n tf ind nmbrFunctions = Some m \<and>
    (\<forall>x. x \<le> n \<and> tf x = -1 \<longrightarrow> arrIte2SolverVarMap m x \<in> {1..<nNumVariables m} \<and>
       arrSolver2IteVarMap m (arrIte2SolverVarMap m x) = x) \<and>
    (\<forall>i \<in> {1..<nNumVariables m}. arrSolver2IteVarMap m i \<le> n \<and> tf (arrSolver2IteVarMap m i) = -1 \<and>
       arrIte2SolverVarMap m (arrSolver2IteVarMap m i) = i)"
proof -
  let ?V = "{x. x \<le> n \<and> tf x = -1}"
  obtain m where m: "InitVarMap n tf ind nmbrFunctions = Some m" "map_ok m ?V" "nNumVariables m = 1 + card ?V"
    using InitVarMap_ok [OF assms] by blast
  have "arrSolver2IteVarMap m i \<in> ?V \<and> arrIte2SolverVarMap m (arrSolver2IteVarMap m i) = i"
    if "i \<in> {1..<nNumVariables m}" for i
    using map_ok_onto [OF m(2,3) _ that] m(2) by (auto simp: map_ok_def)
  then show ?thesis using m(1,2) by (intro exI [of _ m]) (auto simp: map_ok_def)
qed

theorem InitVarMap_correct_witness:
  "\<exists>m. InitVarMap 2 (\<lambda>x. if x = 0 then 3 else -1) (\<lambda>x. if x = 1 then 0 else 1) 1 = Some m \<and>
    arrSolver2IteVarMap m (arrIte2SolverVarMap m 2) = 2"
  using InitVarMap_correct [of 1 2 "\<lambda>x. if x = 0 then 3 else -1" "\<lambda>x. if x = 1 then 0 else 1"] by auto

text \<open>
  C10: the state machines: for functions without constants and without implied literals,
  \<open>CreateFunctions\<close> returns, with the depth of recursion bounded by the number of variables; every
  function has a state, a state reads the variables of its function, and each of its variables and
  values has a transition to a state over fewer variables: under that value the function is the
  conjunction of the transition's inferences and the function of its next state.
\<close>

theorem smurf_tables_correct:
  assumes "InitVarMap n tf ind nmbrFunctions = Some m" "st_ok b"
    and "\<forall>f \<in> set fs. robdd f \<and> f \<noteq> FalseP \<and> (\<forall>p \<in> set (inferences d f). snd p \<noteq> 0) \<and> (\<forall>v \<in> bvars f. v \<le> n \<and> tf v = -1)"
  shows "\<exists>s. CreateFunctions (n + 1) d m fs \<lparr>node_st = b, pState = (\<lambda>_. None)\<rparr> = Some (Some fs, s) \<and>
    (\<forall>f \<in> set fs. f = TrueP \<or> pState s f \<noteq> None) \<and>
    (\<forall>g. pState s g \<noteq> None \<longrightarrow> set (vbles_of s g) = arrIte2SolverVarMap m ` bvars g \<and>
      (\<forall>v \<in> set (vbles_of s g). \<forall>val. case transition_of s g v val of (pos, neg, h) \<Rightarrow>
         (h = TrueP \<or> pState s h \<noteq> None) \<and> set (vbles_of s h) \<subseteq> set (vbles_of s g) - {v} \<and>
         (\<forall>a. a v = val \<longrightarrow> ev g (a \<circ> arrIte2SolverVarMap m) =
            ((\<forall>p \<in> set pos. a p) \<and> (\<forall>q \<in> set neg. \<not> a q) \<and> ev h (a \<circ> arrIte2SolverVarMap m)))))"
proof -
  let ?V = "{x. x \<le> n \<and> tf x = -1}"
  have "0 < nmbrFunctions" using assms(1) by (auto simp: InitVarMap_def Let_def split: if_splits prod.splits)
  then have m: "map_ok m ?V" using InitVarMap_ok [of nmbrFunctions n tf ind] assms(1) by auto
  have fin: "finite ?V" by (rule finite_subset [of _ "{..n}"]) auto
  have fs: "robdd f \<and> (\<forall>p \<in> set (inferences d f). snd p \<noteq> 0) \<and> bvars f \<subseteq> ?V \<and> card (bvars f) < n + 1" if "f \<in> set fs" for f
  proof -
    have "bvars f \<subseteq> {1..n}" using assms(3) that bvars_le_variable [of f] by fastforce
    from card_mono [OF _ this] show ?thesis using assms(3) that by auto
  qed
  have "table_inv d m ?V {} \<lparr>node_st = b, pState = (\<lambda>_. None)\<rparr>" using assms(2) by (simp add: table_inv_def)
  from CreateFunctions_ok [OF m fin this, of fs "n + 1"] fs obtain s where
    s: "CreateFunctions (n + 1) d m fs \<lparr>node_st = b, pState = (\<lambda>_. None)\<rparr> = Some (if FalseP \<in> set fs then None else Some fs, s)"
      "table_inv d m ?V {} s" "FalseP \<notin> set fs \<longrightarrow> (\<forall>f \<in> set fs. f = TrueP \<or> pState s f \<noteq> None)"
    by blast
  have nf: "FalseP \<notin> set fs" using assms(3) by blast
  have c: "complete d m ?V s []" using m s(2) by (simp add: complete_def)
  have "set (vbles_of s g) = arrIte2SolverVarMap m ` bvars g" if "pState s g \<noteq> None" for g
    using complete_state(6) [OF c] that by blast
  moreover have "case transition_of s g v val of (pos, neg, h) \<Rightarrow>
      (h = TrueP \<or> pState s h \<noteq> None) \<and> set (vbles_of s h) \<subseteq> set (vbles_of s g) - {v} \<and>
      (\<forall>a. a v = val \<longrightarrow> ev g (a \<circ> arrIte2SolverVarMap m) =
         ((\<forall>p \<in> set pos. a p) \<and> (\<forall>q \<in> set neg. \<not> a q) \<and> ev h (a \<circ> arrIte2SolverVarMap m)))"
    if g: "pState s g \<noteq> None" "v \<in> set (vbles_of s g)" for g v val
  proof -
    obtain pos neg h where t: "transition_of s g v val = (pos, neg, h)" by (metis prod_cases3)
    have "good_state s g" "v \<in> set (vbles (search_input s []) g)" "FindTransition (search_input s []) g v val = (pos, neg, h)"
      using g t by (simp_all add: good_state_def search_input_def)
    from smurf_search.transition [OF complete_search [OF c] this] show ?thesis
      unfolding t prod.case by (auto simp: good_state_def search_input_def)
  qed
  ultimately show ?thesis using s(1,3) nf by (intro exI [of _ s]) simp
qed

theorem smurf_tables_correct_witness:
  "\<exists>m s. InitVarMap 2 (\<lambda>_. -1) (\<lambda>_. 0) 1 = Some m \<and>
    CreateFunctions 3 True m [Node 2 TrueP X1] \<lparr>node_st = S0, pState = (\<lambda>_. None)\<rparr> = Some (Some [Node 2 TrueP X1], s)"
proof -
  obtain m where m: "InitVarMap 2 (\<lambda>_. -1) (\<lambda>_. 0) 1 = Some m" using InitVarMap_ok [of 1 2 "\<lambda>_. -1" "\<lambda>_. 0"] by auto
  show ?thesis using smurf_tables_correct [OF m, of S0 "[Node 2 TrueP X1]" True] m
    by (auto simp: st_ok_init GetInferFoAN_def numeral_3_eq_3 numeral_2_eq_2)
qed

text \<open>
  C3: the search decides a list of functions without constants true and without implied literals,
  over free variables: with a heuristic that picks unassigned variables, \<open>solve\<close> returns. It answers
  SOLV_SAT exactly when it has recorded a solution; every assignment with the values of a recorded
  solution satisfies all functions; SOLV_UNSAT means that they have no common model, SOLV_UNKNOWN
  that a limit was passed. Unless a limit was passed or the asked number of solutions, if any, was
  reached, every model has the values of a recorded solution.
\<close>

theorem solve_correct:
  assumes "fs \<noteq> []" "\<forall>f \<in> set fs. robdd f \<and> f \<noteq> TrueP \<and> (\<forall>p \<in> set (inferences d f). snd p \<noteq> 0) \<and> (\<forall>v \<in> bvars f. tf v = -1)"
    and "st_ok b" "\<forall>n. picks n (procHeurSelect n)"
  shows "\<exists>r m sols. solve rv cl d procHeurSelect limit max_solutions tf ind fs b = Some (r, m, sols) \<and>
    (\<forall>q \<in> set sols. \<forall>elts a. extended_by (solution_elts (nat (getNuminp fs)) m elts q) a \<longrightarrow> (\<forall>f \<in> set fs. ev f a)) \<and>
    (r = SOLV_SAT \<longleftrightarrow> sols \<noteq> []) \<and> (r = SOLV_UNSAT \<longrightarrow> \<not> (\<exists>a. \<forall>f \<in> set fs. ev f a)) \<and>
    (r = SOLV_UNKNOWN \<longrightarrow> (\<exists>j. limit j)) \<and>
    ((\<forall>j. \<not> limit j) \<and> (max_solutions = 0 \<or> length sols \<noteq> max_solutions) \<longrightarrow> (\<forall>a. (\<forall>f \<in> set fs. ev f a) \<longrightarrow>
       (\<exists>q \<in> set sols. fits (arrIte2SolverVarMap m) q {x. x \<le> nat (getNuminp fs) \<and> tf x = -1} a)))"
proof -
  from solve_ok [OF assms, of rv cl limit max_solutions ind] show ?thesis by (elim exE conjE) (intro exI conjI, assumption, blast+)
qed

theorem solve_correct_witness:
  "\<exists>m sols. solve False False True NullHeuristic (\<lambda>_. False) 0 (\<lambda>_. -1) (\<lambda>_. 0) [Node 2 TrueP X1] S0 = Some (SOLV_SAT, m, sols)"
proof -
  have "\<exists>a. \<forall>f \<in> set [Node 2 TrueP X1]. ev f a" by (rule exI [of _ "\<lambda>_. True"]) simp
  moreover have "\<forall>n. picks n (NullHeuristic n :: nat \<Rightarrow> bdd search \<Rightarrow> (nat \<times> bool) option)" using NullHeuristic_picks by blast
  ultimately show ?thesis
    using solve_correct [of "[Node 2 TrueP X1]" True "\<lambda>_. -1" S0 NullHeuristic False False "\<lambda>_. False" 0 "\<lambda>_. 0"]
    by (auto simp: st_ok_init GetInferFoAN_def)
qed

text \<open>
  C40: the two checks of a solution in the solver: \<open>VerifySolution\<close> succeeds exactly when all
  assignments with the values of the solution satisfy every function, \<open>ConsistentPartialSolution\<close>
  exactly when for every function some such assignment does.
\<close>

theorem VerifySolution_correct:
  assumes "\<forall>f \<in> set fs. robdd f"
  shows "(VerifySolution i2s fs sol \<longleftrightarrow> (\<forall>f \<in> set fs. \<forall>a. fits i2s sol (bvars f) a \<longrightarrow> ev f a)) \<and>
    (ConsistentPartialSolution i2s fs sol \<longleftrightarrow> (\<forall>f \<in> set fs. \<exists>a. fits i2s sol (bvars f) a \<and> ev f a))"
  unfolding VerifySolution_iff ConsistentPartialSolution_iff
  using VerifyBDDSolution_iff ConsistentBDDSolution_iff assms by blast+

theorem VerifySolution_correct_witness:
  "VerifySolution (\<lambda>v. v) [Node 2 TrueP X1] (\<lambda>v. if v = 1 then Some True else None)"
proof -
  have "\<forall>f \<in> set [Node 2 TrueP X1]. robdd f" by simp
  from conjunct1 [OF VerifySolution_correct [OF this, of "\<lambda>v. v" "\<lambda>v. if v = 1 then Some True else None"]]
  show ?thesis unfolding fits_def by auto
qed

section \<open>The whole program\<close>

text \<open>
  C9: the end of preprocessing, from a settled state: it returns. Its answers TRIV_SAT and
  TRIV_UNSAT are right; else what it hands to the solver are reduced functions, none constant, from
  which no inference follows, over free variables only; and every model of these becomes a solution
  of the state by changing eliminated variables.
\<close>

theorem Finish_Preprocessing_correct:
  assumes "settled st" "no_inp_vars (classes st) = int numinp + 1"
  shows "\<exists>r st'. Finish_Preprocessing False numinp st = Some (r, st') \<and>
    (r = TRIV_SAT \<and> Sol 0 st \<noteq> {} \<or> r = TRIV_UNSAT \<and> Sol 0 st = {} \<or>
     r = PREP_NO_CHANGE \<and> fn_bdds st' \<noteq> [] \<and>
       (\<forall>f \<in> set (fn_bdds st'). robdd f \<and> f \<notin> {TrueP, FalseP} \<and> inferences (equivalences_on st') f = [] \<and>
          (\<forall>v \<in> bvars f. true_false st' v = -1)) \<and>
       Sol 0 st = {a. known st' a \<and> (\<forall>f \<in> set (fn_bdds st'). ev f a)} \<and>
       (\<forall>b. (\<forall>f \<in> set (fn_bdds st'). ev f b) \<longrightarrow> (\<exists>a \<in> Sol 0 st. \<forall>v. v \<notin> eliminated st' \<longrightarrow> a v = b v)))"
  using Finish_Preprocessing_ok [OF assms] unfolding solver_ready_def splits_def
  by (elim exE conjE disjE) (intro exI conjI, assumption, blast)+

lemma P1_vars: "no_inp_vars (classes P1) = int 3 + 1"
proof -
  have "getNuminp (fn_bdds P0) = 3" by (simp add: P0_def getNuminp_def)
  then show ?thesis using Init_Preprocessing_ok [OF P0_facts] P0_solution by auto
qed

theorem Finish_Preprocessing_correct_witness:
  "\<exists>r st'. Finish_Preprocessing False 3 P1 = Some (r, st') \<and> r \<noteq> TRIV_UNSAT"
  using Finish_Preprocessing_correct [OF P1_settled(1) P1_vars] P1_solution by auto

text \<open>
  C1: the program from the functions that have been read to the answer: on reduced diagrams, a
  string of presets that can be read and a sequence over the modelled steps, with a heuristic that
  picks unassigned variables, preprocessing, its end and the search return, and the answer is right:
  satisfiable (TRIV_SAT, SOLV_SAT) means that the functions and presets have a common solution,
  unsatisfiable (TRIV_UNSAT, SOLV_UNSAT) that they have none, and unknown that a limit was passed.
\<close>

theorem ite_main_decides:
  assumes "\<forall>f \<in> set (fn_bdds (prep_st s)). robdd f" "fn_bdds (prep_st s) \<noteq> []"
    and "st_ok (bst (prep_st s))" "limits_ok (prep_st s)" "DO_INFERENCES (prep_st s)"
    and "\<forall>x. 0 < i_getsym x" "preset_literals i_getsym (getNuminp (fn_bdds (prep_st s))) presets = Some ls"
    and "\<forall>x \<in> set ss. wf_strategy (preproc (Suc n) other) x \<and> steps_of x \<subseteq> sound_names"
    and "\<forall>n. picks n (procHeurSelect n)"
  shows "\<exists>ans. ite_main i_getsym presets (preproc (Suc n) other) late (render_all ss) rv cl procHeurSelect limit max_solutions s = Some ans \<and>
    (case ans of
       Prep_answer r \<Rightarrow>
         r = TRIV_SAT \<and> (\<exists>a. (\<forall>f \<in> set (fn_bdds (prep_st s)). ev f a) \<and> (\<forall>l \<in> set ls. lit l a)) \<or>
         r = TRIV_UNSAT \<and> \<not> (\<exists>a. (\<forall>f \<in> set (fn_bdds (prep_st s)). ev f a) \<and> (\<forall>l \<in> set ls. lit l a))
     | Solver_answer r m sols st' \<Rightarrow>
         (r = SOLV_SAT \<longrightarrow> (\<exists>a. (\<forall>f \<in> set (fn_bdds (prep_st s)). ev f a) \<and> (\<forall>l \<in> set ls. lit l a))) \<and>
         (r = SOLV_UNSAT \<longrightarrow> \<not> (\<exists>a. (\<forall>f \<in> set (fn_bdds (prep_st s)). ev f a) \<and> (\<forall>l \<in> set ls. lit l a))) \<and>
         (r = SOLV_UNKNOWN \<longrightarrow> (\<exists>j. limit j)))"
proof -
  let ?P = "problem (fn_bdds (prep_st s)) ls"
  obtain ans where ans: "ite_main i_getsym presets (preproc (Suc n) other) late (render_all ss) rv cl procHeurSelect limit max_solutions s = Some ans"
      "case ans of Prep_answer r \<Rightarrow> r = TRIV_SAT \<and> ?P \<noteq> {} \<or> r = TRIV_UNSAT \<and> ?P = {}
       | Solver_answer r m sols st' \<Rightarrow> solver_answer_ok limit max_solutions ?P r m sols st'"
    using ite_main_ok [OF assms, of late rv cl limit max_solutions] by blast
  have P: "?P \<noteq> {} \<longleftrightarrow> (\<exists>a. (\<forall>f \<in> set (fn_bdds (prep_st s)). ev f a) \<and> (\<forall>l \<in> set ls. lit l a))"
    by (simp add: problem_def)
  show ?thesis
  proof (cases ans)
    case (Prep_answer r)
    then show ?thesis using ans unfolding P [symmetric] by simp
  next
    case (Solver_answer r m sols st')
    then have "solver_answer_ok limit max_solutions ?P r m sols st'" using ans(2) by simp
    then show ?thesis using ans(1) unfolding P [symmetric] Solver_answer by (simp add: solver_answer_ok_def)
  qed
qed

abbreviation "R0 \<equiv> \<lparr>prep_st = P0, enabled = (\<lambda>_. 1), readings = 0\<rparr>"

lemma R0_facts: "\<forall>f \<in> set (fn_bdds (prep_st R0)). robdd f" "fn_bdds (prep_st R0) \<noteq> []" "st_ok (bst (prep_st R0))"
  "limits_ok (prep_st R0)" "DO_INFERENCES (prep_st R0)" "\<forall>x :: string. 0 < (1 :: int)"
  "preset_literals (\<lambda>_. 1) (getNuminp (fn_bdds (prep_st R0))) [] = Some []"
  "\<forall>n. picks n (NullHeuristic n :: nat \<Rightarrow> bdd search \<Rightarrow> (nat \<times> bool) option)"
  using P0_facts NullHeuristic_picks by (auto simp: P0_def)

theorem ite_main_decides_witness:
  "\<exists>ans. ite_main (\<lambda>_. 1) [] (preproc 2 (\<lambda>_ _. None)) (\<lambda>_. False) ''{St[PrSl]}*Ff'' False False NullHeuristic (\<lambda>_. False) 0 R0 = Some ans \<and>
    (case ans of Prep_answer r \<Rightarrow> r = TRIV_SAT | Solver_answer r m sols st' \<Rightarrow> r = SOLV_SAT)"
proof -
  have sol: "\<exists>a. (\<forall>f \<in> set (fn_bdds (prep_st R0)). ev f a) \<and> (\<forall>l \<in> set []. lit l a)" using P0_solution by auto
  have "\<forall>x \<in> set SS. wf_strategy (preproc (Suc 1) (\<lambda>_ _. None)) x \<and> steps_of x \<subseteq> sound_names" by (rule SS_ok)
  from ite_main_decides [OF R0_facts(1-7) this R0_facts(8), of "\<lambda>_. False" False False "\<lambda>_. False" 0] sol
  obtain ans where ans: "ite_main (\<lambda>_. 1) [] (preproc (Suc 1) (\<lambda>_ _. None)) (\<lambda>_. False) (render_all SS) False False NullHeuristic
        (\<lambda>_. False) 0 R0 = Some ans"
      "case ans of Prep_answer r \<Rightarrow> r = TRIV_SAT | Solver_answer r m sols st' \<Rightarrow> r \<notin> {SOLV_UNSAT, SOLV_UNKNOWN}"
    by (fastforce split: answer.splits)
  have "case ans of Prep_answer r \<Rightarrow> r = TRIV_SAT | Solver_answer r m sols st' \<Rightarrow> r = SOLV_SAT"
    using ans(2) solv_result.exhaust by (auto split: answer.splits)
  then show ?thesis using ans(1) by (simp add: numeral_2_eq_2)
qed

text \<open>
  C2: the solutions that the whole program records, under the same conditions: each passes the
  solver's check; every assignment that has its values becomes a solution of the functions and
  presets by changing variables that preprocessing has eliminated; and unless a limit was passed or
  the asked number of solutions, if any, was reached, every solution of the functions and presets has the
  values of a recorded one.
\<close>

theorem ite_main_solutions:
  assumes "\<forall>f \<in> set (fn_bdds (prep_st s)). robdd f" "fn_bdds (prep_st s) \<noteq> []"
    and "st_ok (bst (prep_st s))" "limits_ok (prep_st s)" "DO_INFERENCES (prep_st s)"
    and "\<forall>x. 0 < i_getsym x" "preset_literals i_getsym (getNuminp (fn_bdds (prep_st s))) presets = Some ls"
    and "\<forall>x \<in> set ss. wf_strategy (preproc (Suc n) other) x \<and> steps_of x \<subseteq> sound_names"
    and "\<forall>n. picks n (procHeurSelect n)"
  shows "\<exists>ans. ite_main i_getsym presets (preproc (Suc n) other) late (render_all ss) rv cl procHeurSelect limit max_solutions s = Some ans \<and>
    (case ans of
       Prep_answer r \<Rightarrow> r \<in> {TRIV_SAT, TRIV_UNSAT}
     | Solver_answer r m sols st' \<Rightarrow>
         (r = SOLV_SAT \<longleftrightarrow> sols \<noteq> []) \<and>
         (\<forall>q \<in> set sols. VerifySolution (arrIte2SolverVarMap m) (fn_bdds st') q \<and>
           (\<forall>elts b. extended_by (solution_elts (nat (getNuminp (fn_bdds st'))) m elts q) b \<longrightarrow>
             (\<exists>a. (\<forall>f \<in> set (fn_bdds (prep_st s)). ev f a) \<and> (\<forall>l \<in> set ls. lit l a) \<and>
                (\<forall>v. v \<notin> eliminated st' \<longrightarrow> a v = b v)))) \<and>
         ((\<forall>j. \<not> limit j) \<and> (max_solutions = 0 \<or> length sols \<noteq> max_solutions) \<longrightarrow>
           (\<forall>a. (\<forall>f \<in> set (fn_bdds (prep_st s)). ev f a) \<and> (\<forall>l \<in> set ls. lit l a) \<longrightarrow> (\<exists>q \<in> set sols.
             fits (arrIte2SolverVarMap m) q {x. x \<le> nat (getNuminp (fn_bdds st')) \<and> true_false st' x = -1} a))))"
proof -
  let ?run = "ite_main i_getsym presets (preproc (Suc n) other) late (render_all ss) rv cl procHeurSelect limit max_solutions s"
  obtain ans where ans: "?run = Some ans" "case ans of
       Prep_answer r \<Rightarrow> r = TRIV_SAT \<and> problem (fn_bdds (prep_st s)) ls \<noteq> {} \<or> r = TRIV_UNSAT \<and> problem (fn_bdds (prep_st s)) ls = {}
     | Solver_answer r m sols st' \<Rightarrow> solver_answer_ok limit max_solutions (problem (fn_bdds (prep_st s)) ls) r m sols st'"
    using ite_main_ok [OF assms, of late rv cl limit max_solutions] by blast
  show ?thesis
  proof (cases ans)
    case (Prep_answer r)
    then show ?thesis using ans by auto
  next
    case (Solver_answer r m sols st')
    then have "solver_answer_ok limit max_solutions (problem (fn_bdds (prep_st s)) ls) r m sols st'" using ans(2) by simp
    then show ?thesis
      using ans(1) unfolding Solver_answer solver_answer_ok_def problem_def answer.case
      by (intro exI [of _ "Solver_answer r m sols st'"]) (simp add: conj_ac)
  qed
qed

theorem ite_main_solutions_witness:
  "\<exists>ans. ite_main (\<lambda>_. 1) [] (preproc 2 (\<lambda>_ _. None)) (\<lambda>_. False) ''{St[PrSl]}*Ff'' False False NullHeuristic (\<lambda>_. False) 0 R0 = Some ans \<and>
    (case ans of Prep_answer r \<Rightarrow> r \<in> {TRIV_SAT, TRIV_UNSAT} | Solver_answer r m sols st' \<Rightarrow> (r = SOLV_SAT) = (sols \<noteq> []))"
proof -
  have "\<forall>x \<in> set SS. wf_strategy (preproc (Suc 1) (\<lambda>_ _. None)) x \<and> steps_of x \<subseteq> sound_names" by (rule SS_ok)
  from ite_main_solutions [OF R0_facts(1-7) this R0_facts(8), of "\<lambda>_. False" False False "\<lambda>_. False" 0]
  obtain ans where ans: "ite_main (\<lambda>_. 1) [] (preproc (Suc 1) (\<lambda>_ _. None)) (\<lambda>_. False) (render_all SS) False False NullHeuristic
        (\<lambda>_. False) 0 R0 = Some ans"
      "case ans of Prep_answer r \<Rightarrow> r \<in> {TRIV_SAT, TRIV_UNSAT} | Solver_answer r m sols st' \<Rightarrow> (r = SOLV_SAT) = (sols \<noteq> [])"
    by (fastforce split: answer.splits)
  then show ?thesis by (simp add: numeral_2_eq_2)
qed

end
